(* ===== verification/Prelude.thy ===== *)
theory Prelude
  imports Main "HOL-Library.Word"
begin

unbundle bit_operations_syntax

text \<open>
  What every component shares: names for the machine integers, the state-and-error
  operations that the Rust methods on \<open>&mut self\<close> become (a method that returns
  \<open>Result<A, E>\<close> gives the error or the value together with the state it leaves, since
  Rust keeps the mutations made before an early return), and generic facts on lists and
  words.  The collections declared here are filled by the components.
\<close>

section \<open>Collections\<close>

named_theorems op_defs \<open>definitions of operations that proofs unfold\<close>
named_theorems codec_intros \<open>introduction rules for \<open>emits\<close> and \<open>parses\<close>\<close>
named_theorems lane_simps \<open>facts on the 16-bit lanes of a packed index\<close>

section \<open>Machine integers\<close>

type_synonym u8 = "8 word"
type_synonym u16 = "16 word"
type_synonym u32 = "32 word"
type_synonym u64 = "64 word"

section \<open>Operations on a mutable state that may fail\<close>

type_synonym ('s, 'e, 'a) op = "'s \<Rightarrow> ('e + 'a) \<times> 's"

definition ok :: "'a \<Rightarrow> ('s, 'e, 'a) op" where
  "ok x s = (Inr x, s)"

definition err :: "'e \<Rightarrow> ('s, 'e, 'a) op" where
  "err e s = (Inl e, s)"

text \<open>The \<open>?\<close> operator: go on with the value, or leave with the error.\<close>

definition andthen :: "('s, 'e, 'a) op \<Rightarrow> ('a \<Rightarrow> ('s, 'e, 'b) op) \<Rightarrow> ('s, 'e, 'b) op" where
  "andthen m f s = (case m s of (Inl e, s') \<Rightarrow> (Inl e, s') | (Inr x, s') \<Rightarrow> f x s')"

lemma ok_apply [simp]: "ok x s = (Inr x, s)"
  by (simp add: ok_def)

lemma err_apply [simp]: "err e s = (Inl e, s)"
  by (simp add: err_def)

lemma andthen_Inr [simp]: "m s = (Inr x, s') \<Longrightarrow> andthen m f s = f x s'"
  by (simp add: andthen_def)

lemma andthen_Inl [simp]: "m s = (Inl e, s') \<Longrightarrow> andthen m f s = (Inl e, s')"
  by (simp add: andthen_def)

lemma andthen_Inr_iff:
  "andthen m f s = (Inr y, t) \<longleftrightarrow> (\<exists>x s'. m s = (Inr x, s') \<and> f x s' = (Inr y, t))"
  by (auto simp: andthen_def split: prod.splits sum.splits)

lemma andthen_assoc: "andthen (andthen m f) g = andthen m (\<lambda>x. andthen (f x) g)"
  by (rule ext) (auto simp: andthen_def split: prod.splits sum.splits)

lemma andthen_ok [simp]: "andthen m ok = m"
  by (rule ext) (auto simp: andthen_def split: prod.splits sum.splits)

section \<open>Wrapping subtraction of \<open>usize\<close>\<close>

text \<open>
  Sizes and positions are natural numbers.  The one place where the code can subtract
  a larger \<open>usize\<close> from a smaller one and go on (\<open>Bytes::view\<close>, in a build without
  overflow checks) uses the 64-bit wrap-around.
\<close>

definition usize_sub :: "nat \<Rightarrow> nat \<Rightarrow> nat" where
  "usize_sub a b = (if b \<le> a then a - b else 2 ^ 64 + a - b)"

lemma usize_sub_le [simp]: "b \<le> a \<Longrightarrow> usize_sub a b = a - b"
  by (simp add: usize_sub_def)

section \<open>Lists\<close>

lemma take_drop_split: "a \<le> b \<Longrightarrow> take (b - a) (drop a xs) = drop a (take b xs)"
  by (simp add: drop_take)

lemma drop_nth_Cons: "i < length xs \<Longrightarrow> drop i xs = xs ! i # drop (Suc i) xs"
  by (simp add: Cons_nth_drop_Suc)

lemma fold_length_sum: "fold (\<lambda>x n. n + length (f x)) xs m = m + length (concat (map f xs))"
  by (induction xs arbitrary: m) simp_all

lemma prefix_strict_cases:
  assumes "k < length (xs @ ys)"
  shows "k < length xs \<or> (length xs \<le> k \<and> k - length xs < length ys)"
  using assms by (auto simp: not_less)

section \<open>Words\<close>

lemma unat_of_nat_small [simp]: "n < 2 ^ LENGTH('a) \<Longrightarrow> unat (of_nat n :: 'a::len word) = n"
  by (simp add: unat_of_nat take_bit_nat_eq_self)

lemma unat_diff_wrap:
  fixes a b :: "'a::len word"
  shows "unat (a - b) = (if b \<le> a then unat a - unat b else unat a + 2 ^ LENGTH('a) - unat b)"
  by (simp add: unat_sub_if' word_le_nat_alt)

lemma word_add_diff_unat:
  fixes a b c :: "'a::len word"
  assumes "unat (b - a) + unat (c - b) < 2 ^ LENGTH('a)"
  shows "unat (c - a) = unat (b - a) + unat (c - b)"
proof -
  have "c - a = (b - a) + (c - b)" by simp
  then show ?thesis using assms by (metis unat_add_lem)
qed

lemma bit_int_pow [simp]:
  "bit (2 :: int) n \<longleftrightarrow> n = 1" "bit (4 :: int) n \<longleftrightarrow> n = 2" "bit (8 :: int) n \<longleftrightarrow> n = 3"
  "bit (16 :: int) n \<longleftrightarrow> n = 4" "bit (32 :: int) n \<longleftrightarrow> n = 5" "bit (64 :: int) n \<longleftrightarrow> n = 6"
  "bit (128 :: int) n \<longleftrightarrow> n = 7"
proof -
  have *: "bit (push_bit k 1 :: int) n \<longleftrightarrow> n = k" for k
    by (subst bit_push_bit_iff) (auto simp: bit_1_iff)
  show "bit (2 :: int) n \<longleftrightarrow> n = 1" using * [of 1] by simp
  show "bit (4 :: int) n \<longleftrightarrow> n = 2" using * [of 2] by simp
  show "bit (8 :: int) n \<longleftrightarrow> n = 3" using * [of 3] by simp
  show "bit (16 :: int) n \<longleftrightarrow> n = 4" using * [of 4] by simp
  show "bit (32 :: int) n \<longleftrightarrow> n = 5" using * [of 5] by simp
  show "bit (64 :: int) n \<longleftrightarrow> n = 6" using * [of 6] by simp
  show "bit (128 :: int) n \<longleftrightarrow> n = 7" using * [of 7] by simp
qed

lemma and_bit_nonzero_iff:
  fixes v :: "'a::len word"
  assumes "k < LENGTH('a)"
  shows "v AND push_bit k 1 \<noteq> 0 \<longleftrightarrow> bit v k"
proof
  assume "v AND push_bit k 1 \<noteq> 0"
  then have "\<exists>n. bit (v AND push_bit k 1) n"
    by (rule contrapos_np) (auto intro!: bit_word_eqI)
  then show "bit v k" by (auto simp: bit_simps)
next
  assume "bit v k"
  then have "bit (v AND push_bit k 1) k" using assms by (simp add: bit_simps)
  then show "v AND push_bit k 1 \<noteq> 0" by auto
qed

lemma unat_and_mask_less:
  fixes v :: "'a::len word"
  shows "unat (v AND mask n) < 2 ^ n"
  by (simp flip: take_bit_eq_mask add: unsigned_take_bit_eq)

lemma and_bit_eq_iff:
  fixes v :: "'a::len word"
  assumes "k < LENGTH('a)"
  shows "v AND push_bit k 1 = push_bit k 1 \<longleftrightarrow> bit v k"
proof
  assume "v AND push_bit k 1 = push_bit k 1"
  then have "bit (v AND push_bit k 1) k" using assms by (simp add: bit_simps)
  then show "bit v k" by (simp add: bit_simps)
next
  assume "bit v k"
  then show "v AND push_bit k 1 = push_bit k 1"
    by (intro bit_word_eqI) (auto simp: bit_simps)
qed

end
