(* ===== verification/Qos.thy ===== *)
theory Qos
  imports Prelude
begin

text \<open>
  \<open>src/protocol/core/\<close>: \<open>Priority\<close> (\<open>priority.rs\<close>), \<open>CongestionControl\<close>
  (\<open>congestion_control.rs\<close>) and \<open>QoS\<close> (\<open>qos.rs\<close>), the byte that packs both with the
  express flag.  A \<open>transmute\<close> of a byte into an enum is an option: \<open>None\<close> where the
  byte is no discriminant, which is undefined behaviour in Rust.
\<close>

section \<open>Priority\<close>

datatype priority = High | Medium | Low | Background

primrec prio_u8 :: "priority \<Rightarrow> u8" where
  "prio_u8 High = 0"
| "prio_u8 Medium = 1"
| "prio_u8 Low = 2"
| "prio_u8 Background = 3"

definition prio_idx :: "priority \<Rightarrow> nat" where
  "prio_idx p = unat (prio_u8 p)"

definition PRIO_DEFAULT :: priority where "PRIO_DEFAULT = Medium"
definition PRIO_BITS :: nat where "PRIO_BITS = 2"
definition PRIO_MASK :: u8 where "PRIO_MASK = 0b11"
definition PRIO_MIN :: priority where "PRIO_MIN = Background"
definition PRIO_MAX :: priority where "PRIO_MAX = High"
definition PRIO_NUM :: nat where "PRIO_NUM = 1 + prio_idx PRIO_MIN - prio_idx PRIO_MAX"
definition PRIO_ALL :: "priority list" where "PRIO_ALL = [High, Medium, Low, Background]"

text \<open>The compile-time assertions of \<open>_CHECK\<close>, as the boolean they assert.\<close>

definition PRIO_CHECK :: bool where
  "PRIO_CHECK \<longleftrightarrow> prio_u8 PRIO_MIN = 0 \<and> prio_u8 PRIO_MAX = PRIO_MASK"

definition prio_from_u8 :: "u8 \<Rightarrow> priority option" where
  "prio_from_u8 v = (if v = 0 then Some High else if v = 1 then Some Medium
     else if v = 2 then Some Low else if v = 3 then Some Background else None)"

text \<open>\<open>Ord::cmp\<close> compares the discriminants in the inverse order: \<open>High\<close> is the greatest.\<close>

datatype ordering = Less | Equal | Greater

definition u8_cmp :: "u8 \<Rightarrow> u8 \<Rightarrow> ordering" where
  "u8_cmp a b = (if a < b then Less else if a = b then Equal else Greater)"

definition prio_cmp :: "priority \<Rightarrow> priority \<Rightarrow> ordering" where
  "prio_cmp s o' = u8_cmp (prio_u8 o') (prio_u8 s)"

definition prio_partial_cmp :: "priority \<Rightarrow> priority \<Rightarrow> ordering option" where
  "prio_partial_cmp s o' = Some (prio_cmp s o')"

instantiation priority :: linorder
begin

definition less_eq_priority :: "priority \<Rightarrow> priority \<Rightarrow> bool" where
  "less_eq_priority p q \<longleftrightarrow> prio_cmp p q \<noteq> Greater"

definition less_priority :: "priority \<Rightarrow> priority \<Rightarrow> bool" where
  "less_priority p q \<longleftrightarrow> prio_cmp p q = Less"

instance
proof
  fix x y z :: priority
  show "(x < y) = (x \<le> y \<and> \<not> y \<le> x)"
    by (cases x; cases y) (simp_all add: less_eq_priority_def less_priority_def prio_cmp_def u8_cmp_def)
  show "x \<le> x"
    by (simp add: less_eq_priority_def prio_cmp_def u8_cmp_def)
  show "x \<le> y \<Longrightarrow> y \<le> z \<Longrightarrow> x \<le> z"
    by (cases x; cases y; cases z) (simp_all add: less_eq_priority_def prio_cmp_def u8_cmp_def)
  show "x \<le> y \<Longrightarrow> y \<le> x \<Longrightarrow> x = y"
    by (cases x; cases y) (simp_all add: less_eq_priority_def prio_cmp_def u8_cmp_def)
  show "x \<le> y \<or> y \<le> x"
    by (cases x; cases y) (simp_all add: less_eq_priority_def prio_cmp_def u8_cmp_def)
qed

end

text \<open>The operators of the class are the ones that \<open>PartialOrd\<close> derives.\<close>

lemma prio_ord_iff:
  "p < q \<longleftrightarrow> prio_partial_cmp p q = Some Less" "p \<le> q \<longleftrightarrow> prio_partial_cmp p q \<in> {Some Less, Some Equal}"
  by (cases "prio_cmp p q"; simp add: less_priority_def less_eq_priority_def prio_partial_cmp_def)+

instantiation priority :: enum
begin

definition enum_priority :: "priority list" where
  "enum_priority = [High, Medium, Low, Background]"

definition enum_all_priority :: "(priority \<Rightarrow> bool) \<Rightarrow> bool" where
  "enum_all_priority P \<longleftrightarrow> P High \<and> P Medium \<and> P Low \<and> P Background"

definition enum_ex_priority :: "(priority \<Rightarrow> bool) \<Rightarrow> bool" where
  "enum_ex_priority P \<longleftrightarrow> P High \<or> P Medium \<or> P Low \<or> P Background"

instance
proof
  have all: "(\<forall>p. P p) \<longleftrightarrow> P High \<and> P Medium \<and> P Low \<and> P Background" for P
    by (metis priority.exhaust)
  show "UNIV = set (enum_class.enum :: priority list)"
    using priority.exhaust by (auto simp: enum_priority_def)
  show "distinct (enum_class.enum :: priority list)" by (simp add: enum_priority_def)
  show "enum_class.enum_all P \<longleftrightarrow> Ball UNIV P" for P :: "priority \<Rightarrow> bool"
    by (simp add: enum_all_priority_def all)
  show "enum_class.enum_ex P \<longleftrightarrow> Bex UNIV P" for P :: "priority \<Rightarrow> bool"
    using all [of "\<lambda>p. \<not> P p"] by (auto simp: enum_ex_priority_def)
qed

end

lemma prio_less_iff: "p < q \<longleftrightarrow> prio_idx q < prio_idx p"
  by (cases p; cases q) (simp_all add: less_priority_def prio_cmp_def u8_cmp_def prio_idx_def)

lemma prio_idx_simps [simp]:
  "prio_idx High = 0" "prio_idx Medium = 1" "prio_idx Low = 2" "prio_idx Background = 3"
  by (simp_all add: prio_idx_def)

lemma prio_idx_less [simp]: "prio_idx p < 4"
  by (cases p) simp_all

lemma prio_idx_inject [simp]: "prio_idx p = prio_idx q \<longleftrightarrow> p = q"
  by (cases p; cases q) simp_all

lemma set_PRIO_ALL [simp]: "set PRIO_ALL = UNIV"
  using priority.exhaust by (auto simp: PRIO_ALL_def)

lemma PRIO_NUM_4 [simp]: "PRIO_NUM = 4"
  by (simp add: PRIO_NUM_def PRIO_MIN_def PRIO_MAX_def)

lemma prio_from_u8_prio_u8 [simp]: "prio_from_u8 (prio_u8 p) = Some p"
  by (cases p) (simp_all add: prio_from_u8_def)

lemma prio_from_u8_Some_iff: "prio_from_u8 v = Some p \<longleftrightarrow> v = prio_u8 p"
  by (cases p) (auto simp: prio_from_u8_def)

lemma prio_u8_inject [simp]: "prio_u8 p = prio_u8 q \<longleftrightarrow> p = q"
  by (cases p; cases q) simp_all

lemma all_prio_iff: "(\<forall>p. P p) \<longleftrightarrow> P High \<and> P Medium \<and> P Low \<and> P Background"
  using priority.exhaust by metis

section \<open>Congestion control\<close>

datatype congestion_control = Block | Drop

definition CC_DEFAULT :: congestion_control where "CC_DEFAULT = Block"

primrec cc_from_bool :: "bool \<Rightarrow> congestion_control" where
  "cc_from_bool False = Block"
| "cc_from_bool True = Drop"

section \<open>QoS\<close>

datatype qos = QoS (qos_as_u8: u8)

definition QOS_DEFAULT :: qos where "QOS_DEFAULT = QoS (prio_u8 PRIO_DEFAULT)"
definition QOS_DROPPABLE :: u8 where "QOS_DROPPABLE = push_bit PRIO_BITS 1"
definition QOS_EXPRESS :: u8 where "QOS_EXPRESS = push_bit (PRIO_BITS + 1) 1"

definition qos_from_u8 :: "u8 \<Rightarrow> qos" where "qos_from_u8 v = QoS v"

text \<open>
  \<open>priority()\<close> transmutes the masked byte; the mask leaves four values, all of them
  discriminants (lemma \<open>qos_priority_defined\<close>), so the result is never \<open>None\<close>.
\<close>

definition qos_priority_raw :: "qos \<Rightarrow> priority option" where
  "qos_priority_raw q = prio_from_u8 (qos_as_u8 q AND PRIO_MASK)"

definition qos_priority :: "qos \<Rightarrow> priority" where
  "qos_priority q = (case qos_priority_raw q of Some p \<Rightarrow> p | None \<Rightarrow> Background)"

definition qos_with_priority :: "qos \<Rightarrow> priority \<Rightarrow> qos" where
  "qos_with_priority q p = QoS ((qos_as_u8 q AND NOT PRIO_MASK) OR prio_u8 p)"

definition qos_express :: "qos \<Rightarrow> bool" where
  "qos_express q \<longleftrightarrow> qos_as_u8 q AND QOS_EXPRESS \<noteq> 0"

definition qos_with_express :: "qos \<Rightarrow> bool \<Rightarrow> qos" where
  "qos_with_express q e =
     QoS (if e then qos_as_u8 q OR QOS_EXPRESS else qos_as_u8 q AND NOT QOS_EXPRESS)"

definition qos_congestion_control :: "qos \<Rightarrow> congestion_control" where
  "qos_congestion_control q = cc_from_bool (qos_as_u8 q AND QOS_DROPPABLE = QOS_DROPPABLE)"

definition qos_with_congestion_control :: "qos \<Rightarrow> congestion_control \<Rightarrow> qos" where
  "qos_with_congestion_control q cc =
     QoS (case cc of Block \<Rightarrow> qos_as_u8 q AND NOT QOS_DROPPABLE
                   | Drop \<Rightarrow> qos_as_u8 q OR QOS_DROPPABLE)"

section \<open>Bits of the QoS byte\<close>

lemma PRIO_MASK_mask: "PRIO_MASK = mask 2"
  by (simp add: PRIO_MASK_def mask_eq_exp_minus_1)

lemma QOS_DROPPABLE_bit: "QOS_DROPPABLE = push_bit 2 1"
  unfolding QOS_DROPPABLE_def PRIO_BITS_def by (rule refl)

lemma QOS_EXPRESS_bit: "QOS_EXPRESS = push_bit 3 1"
  unfolding QOS_EXPRESS_def PRIO_BITS_def by simp

lemma qos_express_bit: "qos_express q \<longleftrightarrow> bit (qos_as_u8 q) 3"
  unfolding qos_express_def QOS_EXPRESS_bit by (rule and_bit_nonzero_iff) simp

lemma qos_congestion_control_bit:
  "qos_congestion_control q = (if bit (qos_as_u8 q) 2 then Drop else Block)"
  unfolding qos_congestion_control_def QOS_DROPPABLE_bit
  by (subst and_bit_eq_iff) simp_all

lemma prio_u8_mask: "prio_u8 p AND mask 2 = prio_u8 p"
  by (cases p) (simp_all add: mask_eq_exp_minus_1)

lemma prio_u8_bits: "bit (prio_u8 p) n \<Longrightarrow> n < 2"
  by (metis bit_and_iff bit_mask_iff prio_u8_mask)

lemma and_mask_2_cases: "v AND mask 2 \<in> {0, 1, 2, 3 :: u8}"
proof -
  have "unat (v AND mask 2) < 4"
    using unat_and_mask_less [of v 2] by simp
  then have "unat (v AND mask 2) \<in> {0, 1, 2, 3}" by auto
  then have "of_nat (unat (v AND mask 2)) \<in> (of_nat ` {0, 1, 2, 3} :: u8 set)" by (rule imageI)
  then show ?thesis by simp
qed

lemma qos_priority_raw_defined: "\<exists>p. qos_priority_raw q = Some p"
  using and_mask_2_cases [of "qos_as_u8 q"]
  by (auto simp: qos_priority_raw_def PRIO_MASK_mask prio_from_u8_def)

lemma qos_priority_iff: "qos_priority q = p \<longleftrightarrow> qos_as_u8 q AND mask 2 = prio_u8 p"
  using qos_priority_raw_defined [of q]
  by (auto simp: qos_priority_def qos_priority_raw_def PRIO_MASK_mask prio_from_u8_Some_iff)

lemma bit_PRIO_MASK [simp]: "bit PRIO_MASK n \<longleftrightarrow> n < 2"
  by (auto simp: PRIO_MASK_mask bit_simps)

lemma bit_not_mask2: "bit (NOT PRIO_MASK) n \<longleftrightarrow> 2 \<le> n \<and> n < 8"
  by (auto simp: PRIO_MASK_mask bit_simps not_less)

lemma qos_priority_with_priority [simp]: "qos_priority (qos_with_priority q p) = p"
proof -
  have "((qos_as_u8 q AND NOT PRIO_MASK) OR prio_u8 p) AND mask 2 = prio_u8 p"
    by (rule bit_word_eqI) (auto simp: bit_simps bit_not_mask2 dest: prio_u8_bits)
  then show ?thesis by (simp add: qos_priority_iff qos_with_priority_def)
qed

lemma qos_as_u8_with:
  "qos_as_u8 (qos_with_priority q p) = (qos_as_u8 q AND NOT PRIO_MASK) OR prio_u8 p"
  "qos_as_u8 (qos_with_express q e) =
     (if e then qos_as_u8 q OR push_bit 3 1 else qos_as_u8 q AND NOT (push_bit 3 1))"
  "qos_as_u8 (qos_with_congestion_control q cc) =
     (case cc of Block \<Rightarrow> qos_as_u8 q AND NOT (push_bit 2 1)
               | Drop \<Rightarrow> qos_as_u8 q OR push_bit 2 1)"
  by (simp_all only: qos_with_priority_def qos_with_express_def QOS_EXPRESS_bit QOS_DROPPABLE_bit
      qos_with_congestion_control_def qos.sel)

lemma qos_priority_frame [simp]:
  "qos_priority (qos_with_express q e) = qos_priority q"
  "qos_priority (qos_with_congestion_control q cc) = qos_priority q"
proof -
  have "qos_as_u8 (qos_with_express q e) AND mask 2 = qos_as_u8 q AND mask 2"
    by (rule bit_word_eqI) (auto simp: qos_as_u8_with bit_simps)
  then show "qos_priority (qos_with_express q e) = qos_priority q"
    by (metis qos_priority_iff)
  have "qos_as_u8 (qos_with_congestion_control q cc) AND mask 2 = qos_as_u8 q AND mask 2"
    by (rule bit_word_eqI) (auto simp: qos_as_u8_with bit_simps split: congestion_control.splits)
  then show "qos_priority (qos_with_congestion_control q cc) = qos_priority q"
    by (metis qos_priority_iff)
qed

lemma qos_express_with [simp]:
  "qos_express (qos_with_priority q p) = qos_express q"
  "qos_express (qos_with_express q e) = e"
  "qos_express (qos_with_congestion_control q cc) = qos_express q"
  by (auto simp: qos_express_bit qos_as_u8_with bit_simps bit_not_mask2 dest: prio_u8_bits
      split: congestion_control.splits)

lemma qos_congestion_control_with [simp]:
  "qos_congestion_control (qos_with_priority q p) = qos_congestion_control q"
  "qos_congestion_control (qos_with_express q e) = qos_congestion_control q"
  "qos_congestion_control (qos_with_congestion_control q cc) = cc"
  by (auto simp: qos_congestion_control_bit qos_as_u8_with bit_simps bit_not_mask2
      dest: prio_u8_bits split: congestion_control.splits)

lemma qos_default [simp]:
  "qos_priority QOS_DEFAULT = Medium" "\<not> qos_express QOS_DEFAULT"
  "qos_congestion_control QOS_DEFAULT = Block"
  by (simp_all add: qos_priority_iff qos_express_def qos_congestion_control_def QOS_DEFAULT_def
      PRIO_DEFAULT_def QOS_EXPRESS_def QOS_DROPPABLE_def PRIO_BITS_def mask_eq_exp_minus_1)

section \<open>Properties\<close>

text \<open>The three fields of a \<open>QoS\<close> byte are independent: setting one changes what its
  getter gives and nothing else.\<close>

theorem qos_fields_independent:
  "qos_priority (qos_with_priority q p) = p \<and> qos_express (qos_with_priority q p) = qos_express q
   \<and> qos_congestion_control (qos_with_priority q p) = qos_congestion_control q
   \<and> qos_express (qos_with_express q e) = e \<and> qos_priority (qos_with_express q e) = qos_priority q
   \<and> qos_congestion_control (qos_with_express q e) = qos_congestion_control q
   \<and> qos_congestion_control (qos_with_congestion_control q c) = c
   \<and> qos_priority (qos_with_congestion_control q c) = qos_priority q
   \<and> qos_express (qos_with_congestion_control q c) = qos_express q"
  by (simp add: qos_priority_with_priority qos_priority_frame qos_express_with qos_congestion_control_with)

text \<open>The transmute behind \<open>priority\<close> never meets a byte without a variant, whatever the
  byte from the network.\<close>

theorem qos_priority_total:
  "\<exists>p. qos_priority_raw (qos_from_u8 v) = Some p \<and> prio_u8 p = v AND PRIO_MASK"
  using qos_priority_raw_defined [of "qos_from_u8 v"]
  by (auto simp: qos_priority_raw_def qos_from_u8_def prio_from_u8_def split: if_splits)

text \<open>The compile-time check of \<open>priority.rs\<close> does not hold: the lowest priority is not 0
  and the highest is not the mask.\<close>

theorem prio_check_fails: "\<not> PRIO_CHECK \<and> prio_u8 PRIO_MIN = PRIO_MASK \<and> prio_u8 PRIO_MAX = 0"
  by (simp add: PRIO_CHECK_def PRIO_MIN_def PRIO_MAX_def PRIO_MASK_def)

end
