(* ===== verification/Ringbuf.thy ===== *)
theory Ringbuf
  imports Qos
begin

text \<open>
  \<open>src/pipeline/ringbuf/\<close>: the lock-free ring buffer with one array of slots per priority.
  The read and the write positions of the four arrays are packed into one \<open>u64\<close> each, 16
  bits per priority: the low byte of a lane is the position, which wraps, and bit 8 of a
  write lane marks a booked slot.  Writer and reader keep their own position and a copy of
  the other side's that may be stale.  A slot is \<open>None\<close> when it is uninitialized; reading
  such a slot is undefined behaviour, \<open>Inl Uninit\<close> here.

  The atomic loads and stores happen in the order the code performs them, one operation
  at a time; \<open>Ringbuf_Steps\<close> interleaves the accesses of the threads.
\<close>

section \<open>Packed positions\<close>

datatype idx = Idx (idx_bits: u64)

definition IDX_MASK :: u64 where "IDX_MASK = 0xFFFF"
definition IDX_BITS :: nat where "IDX_BITS = 16"

definition idx_new :: idx where "idx_new = Idx 0"

definition idx_shift :: "priority \<Rightarrow> nat" where
  "idx_shift p = IDX_BITS * prio_idx p"

definition idx_mask :: "priority \<Rightarrow> u64" where
  "idx_mask p = push_bit (idx_shift p) IDX_MASK"

definition idx_index :: "idx \<Rightarrow> priority \<Rightarrow> u8" where
  "idx_index i p = ucast (drop_bit (idx_shift p) (idx_bits i))"

definition idx_increment :: "idx \<Rightarrow> priority \<Rightarrow> idx" where
  "idx_increment i p = (let shift = idx_shift p; mask = push_bit shift 0xFF;
       v = push_bit shift (ucast (idx_index i p + 1))
     in Idx ((idx_bits i AND NOT mask) OR v))"

definition idx_any :: "idx \<Rightarrow> u64 \<Rightarrow> bool" where "idx_any i flag \<longleftrightarrow> idx_bits i AND flag \<noteq> 0"
definition idx_set :: "idx \<Rightarrow> u64 \<Rightarrow> idx" where "idx_set i flag = Idx (idx_bits i OR flag)"
definition idx_unset :: "idx \<Rightarrow> u64 \<Rightarrow> idx" where "idx_unset i flag = Idx (idx_bits i AND NOT flag)"

definition FLAG_BOOKED :: u8 where "FLAG_BOOKED = push_bit 0 1"

definition flag_prio :: "priority \<Rightarrow> u8 \<Rightarrow> u64" where
  "flag_prio p flag = push_bit (8 + idx_shift p) (ucast flag)"

text \<open>
  \<open>AtomicIdx::update\<close>: the loop ends with an exchange that saw the value \<open>old\<close> it was
  computed from, so it replaces the lane in the current value.
\<close>

definition aidx_update :: "idx \<Rightarrow> priority \<Rightarrow> idx \<Rightarrow> idx" where
  "aidx_update old p i = (let mask = idx_mask p; tmp = idx_bits i AND mask
     in Idx ((idx_bits old AND NOT mask) OR tmp))"

text \<open>The two ways to publish a position: \<open>update::s\<close> and \<open>update::m\<close>.\<close>

datatype update = UpdateS | UpdateM

primrec run_update :: "update \<Rightarrow> idx \<Rightarrow> priority \<Rightarrow> idx \<Rightarrow> idx" where
  "run_update UpdateS aidx p i = i"
| "run_update UpdateM aidx p i = aidx_update aidx p i"

section \<open>The shared buffer\<close>

datatype ring_ub = Uninit

record 'a ring =
  rb_ptr :: "priority \<Rightarrow> 'a option list"
  rb_mask :: u8
  rb_idx_r :: idx
  rb_idx_w :: idx

definition power_of_two :: "nat \<Rightarrow> bool" where
  "power_of_two n \<longleftrightarrow> (\<exists>k<64. n = 2 ^ k)"

text \<open>\<open>new\<close>: \<open>None\<close> is a failed assertion.\<close>

definition ring_new :: "nat \<Rightarrow> 'a ring option" where
  "ring_new capacity =
     (if power_of_two capacity \<and> capacity \<le> 2 ^ 7
      then Some \<lparr>rb_ptr = (\<lambda>_. replicate capacity None), rb_mask = of_nat (capacity - 1),
             rb_idx_r = idx_new, rb_idx_w = idx_new\<rparr>
      else None)"

definition ring_is_empty :: "idx \<Rightarrow> idx \<Rightarrow> priority \<Rightarrow> bool" where
  "ring_is_empty r w p \<longleftrightarrow> idx_index r p = idx_index w p"

definition ring_is_full :: "idx \<Rightarrow> idx \<Rightarrow> priority \<Rightarrow> u8 \<Rightarrow> bool" where
  "ring_is_full r w p c \<longleftrightarrow> idx_index w p - idx_index r p = c"

definition ring_capacity :: "'a ring \<Rightarrow> u8" where
  "ring_capacity rb = of_nat (length (rb_ptr rb High))"

definition ring_slot :: "'a ring \<Rightarrow> priority \<Rightarrow> idx \<Rightarrow> nat" where
  "ring_slot rb p i = unat (idx_index i p AND rb_mask rb)"

definition ring_get :: "'a ring \<Rightarrow> priority \<Rightarrow> idx \<Rightarrow> 'a option" where
  "ring_get rb p i = rb_ptr rb p ! ring_slot rb p i"

definition ring_put :: "'a ring \<Rightarrow> priority \<Rightarrow> idx \<Rightarrow> 'a option \<Rightarrow> 'a ring" where
  "ring_put rb p i x = rb\<lparr>rb_ptr := (rb_ptr rb)(p := (rb_ptr rb p)[ring_slot rb p i := x])\<rparr>"

section \<open>The writer\<close>

record ring_writer =
  rw_cached_r :: idx
  rw_local_w :: idx
  rw_update :: update

definition rw_new :: "update \<Rightarrow> ring_writer" where
  "rw_new update = \<lparr>rw_cached_r = idx_new, rw_local_w = idx_new, rw_update = update\<rparr>"

definition rw_is_full :: "priority \<Rightarrow> 'a ring \<Rightarrow> ring_writer \<Rightarrow> bool \<times> ring_writer" where
  "rw_is_full p rb w =
     (if ring_is_full (rw_cached_r w) (rw_local_w w) p (ring_capacity rb)
      then let w' = w\<lparr>rw_cached_r := rb_idx_r rb\<rparr>
        in (ring_is_full (rw_cached_r w') (rw_local_w w') p (ring_capacity rb), w')
      else (False, w))"

text \<open>\<open>Some t\<close> gives the element back.\<close>

definition rw_push :: "priority \<Rightarrow> 'a \<Rightarrow> 'a ring \<Rightarrow> ring_writer \<Rightarrow> 'a option \<times> 'a ring \<times> ring_writer" where
  "rw_push p t rb w = (case rw_is_full p rb w of
       (True, w') \<Rightarrow> (Some t, rb, w')
     | (False, w') \<Rightarrow>
         let rb' = ring_put rb p (rw_local_w w') (Some t);
             w'' = w'\<lparr>rw_local_w := idx_increment (rw_local_w w') p\<rparr>
         in (None, rb'\<lparr>rb_idx_w := run_update (rw_update w'') (rb_idx_w rb') p (rw_local_w w'')\<rparr>, w''))"

text \<open>\<open>Inl t\<close> gives the element back, \<open>Inr ()\<close> is a \<open>WriterPeek\<close>.\<close>

definition rw_book :: "priority \<Rightarrow> 'a \<Rightarrow> 'a ring \<Rightarrow> ring_writer \<Rightarrow> ('a + unit) \<times> 'a ring \<times> ring_writer" where
  "rw_book p t rb w = (let flag = flag_prio p FLAG_BOOKED in
     if idx_any (rw_local_w w) flag then (Inl t, rb, w)
     else case rw_is_full p rb w of
         (True, w') \<Rightarrow> (Inl t, rb, w')
       | (False, w') \<Rightarrow>
           let rb' = ring_put rb p (rw_local_w w') (Some t);
               w'' = w'\<lparr>rw_local_w := idx_set (rw_local_w w') flag\<rparr>
           in (Inr (), rb'\<lparr>rb_idx_w := idx_set (rb_idx_w rb') flag\<rparr>, w''))"

definition rw_peek :: "priority \<Rightarrow> ring_writer \<Rightarrow> bool" where
  "rw_peek p w \<longleftrightarrow> idx_any (rw_local_w w) (flag_prio p FLAG_BOOKED)"

text \<open>A \<open>WriterPeek\<close> reads and writes the booked slot, and publishes it with \<open>commit\<close>.\<close>

definition wp_deref :: "priority \<Rightarrow> 'a ring \<Rightarrow> ring_writer \<Rightarrow> ring_ub + 'a" where
  "wp_deref p rb w = (case ring_get rb p (rw_local_w w) of None \<Rightarrow> Inl Uninit | Some t \<Rightarrow> Inr t)"

definition wp_store :: "priority \<Rightarrow> 'a \<Rightarrow> 'a ring \<Rightarrow> ring_writer \<Rightarrow> 'a ring" where
  "wp_store p t rb w = ring_put rb p (rw_local_w w) (Some t)"

definition wp_commit :: "priority \<Rightarrow> 'a ring \<Rightarrow> ring_writer \<Rightarrow> 'a ring \<times> ring_writer" where
  "wp_commit p rb w =
     (let flag = flag_prio p FLAG_BOOKED;
          w' = w\<lparr>rw_local_w := idx_increment (idx_unset (rw_local_w w) flag) p\<rparr>
      in (rb\<lparr>rb_idx_w := run_update (rw_update w') (rb_idx_w rb) p (rw_local_w w')\<rparr>, w'))"

section \<open>The reader\<close>

record ring_reader =
  rr_local_r :: idx
  rr_cached_w :: idx
  rr_update :: update

definition rr_new :: "update \<Rightarrow> ring_reader" where
  "rr_new update = \<lparr>rr_local_r = idx_new, rr_cached_w = idx_new, rr_update = update\<rparr>"

definition rr_is_empty :: "priority \<Rightarrow> 'a ring \<Rightarrow> ring_reader \<Rightarrow> bool \<times> ring_reader" where
  "rr_is_empty p rb rd =
     (if ring_is_empty (rr_local_r rd) (rr_cached_w rd) p
      then let rd' = rd\<lparr>rr_cached_w := rb_idx_w rb\<rparr>
        in (ring_is_empty (rr_local_r rd') (rr_cached_w rd') p, rd')
      else (False, rd))"

definition rr_pull_inner ::
    "priority \<Rightarrow> 'a ring \<Rightarrow> ring_reader \<Rightarrow> (ring_ub + 'a option) \<times> 'a ring \<times> ring_reader" where
  "rr_pull_inner p rb rd = (case rr_is_empty p rb rd of
       (True, rd') \<Rightarrow> (Inr None, rb, rd')
     | (False, rd') \<Rightarrow> (case ring_get rb p (rr_local_r rd') of
           None \<Rightarrow> (Inl Uninit, rb, rd')
         | Some t \<Rightarrow>
             let rb' = ring_put rb p (rr_local_r rd') None;
                 rd'' = rd'\<lparr>rr_local_r := idx_increment (rr_local_r rd') p\<rparr>
             in (Inr (Some t),
                 rb'\<lparr>rb_idx_r := run_update (rr_update rd'') (rb_idx_r rb') p (rr_local_r rd'')\<rparr>, rd'')))"

text \<open>The loop of \<open>pull\<close> over \<open>Priority::ALL\<close>.\<close>

primrec rr_pull_loop ::
    "priority list \<Rightarrow> 'a ring \<Rightarrow> ring_reader \<Rightarrow> (ring_ub + 'a option) \<times> 'a ring \<times> ring_reader" where
  "rr_pull_loop [] rb rd = (Inr None, rb, rd)"
| "rr_pull_loop (p # ps) rb rd = (case rr_pull_inner p rb rd of
       (Inr None, rb', rd') \<Rightarrow> rr_pull_loop ps rb' rd'
     | res \<Rightarrow> res)"

definition rr_pull :: "'a ring \<Rightarrow> ring_reader \<Rightarrow> (ring_ub + 'a option) \<times> 'a ring \<times> ring_reader" where
  "rr_pull = rr_pull_loop PRIO_ALL"

datatype 'a pull = PullSome 'a | PullBooked | PullNone

definition rr_pull_priority ::
    "priority \<Rightarrow> 'a ring \<Rightarrow> ring_reader \<Rightarrow> (ring_ub + 'a pull) \<times> 'a ring \<times> ring_reader" where
  "rr_pull_priority p rb rd = (case rr_pull_inner p rb rd of
       (Inl e, rb', rd') \<Rightarrow> (Inl e, rb', rd')
     | (Inr (Some t), rb', rd') \<Rightarrow> (Inr (PullSome t), rb', rd')
     | (Inr None, rb', rd') \<Rightarrow>
         (Inr (if idx_any (rr_cached_w rd') (flag_prio p FLAG_BOOKED) then PullBooked else PullNone), rb', rd'))"

text \<open>\<open>peek_mut\<close> gives the priority of the element and the element; a store through the
  reference goes to the same slot.\<close>

primrec rr_peek_loop ::
    "priority list \<Rightarrow> 'a ring \<Rightarrow> ring_reader \<Rightarrow> (ring_ub + (priority \<times> 'a) option) \<times> ring_reader" where
  "rr_peek_loop [] rb rd = (Inr None, rd)"
| "rr_peek_loop (p # ps) rb rd = (case rr_is_empty p rb rd of
       (True, rd') \<Rightarrow> rr_peek_loop ps rb rd'
     | (False, rd') \<Rightarrow> (case ring_get rb p (rr_local_r rd') of
           None \<Rightarrow> (Inl Uninit, rd') | Some t \<Rightarrow> (Inr (Some (p, t)), rd')))"

definition rr_peek_mut :: "'a ring \<Rightarrow> ring_reader \<Rightarrow> (ring_ub + (priority \<times> 'a) option) \<times> ring_reader" where
  "rr_peek_mut = rr_peek_loop PRIO_ALL"

definition rr_peek_store :: "priority \<Rightarrow> 'a \<Rightarrow> 'a ring \<Rightarrow> ring_reader \<Rightarrow> 'a ring" where
  "rr_peek_store p t rb rd = ring_put rb p (rr_local_r rd) (Some t)"

section \<open>Dropping the buffer\<close>

text \<open>\<open>Drop\<close> takes the elements from the read to the write position of each lane; the
  positions are bytes, so 256 turns of the loop are enough.\<close>

primrec ring_drain_lane :: "nat \<Rightarrow> 'a ring \<Rightarrow> priority \<Rightarrow> idx \<Rightarrow> (ring_ub + 'a list) option" where
  "ring_drain_lane 0 rb p idx_r = None"
| "ring_drain_lane (Suc fuel) rb p idx_r =
     (if idx_index idx_r p = idx_index (rb_idx_w rb) p then Some (Inr [])
      else case ring_get rb p idx_r of
          None \<Rightarrow> Some (Inl Uninit)
        | Some t \<Rightarrow> (case ring_drain_lane fuel (ring_put rb p idx_r None) p (idx_increment idx_r p) of
              Some (Inr ts) \<Rightarrow> Some (Inr (t # ts))
            | res \<Rightarrow> res))"

definition ring_drop :: "'a ring \<Rightarrow> priority \<Rightarrow> (ring_ub + 'a list) option" where
  "ring_drop rb p = ring_drain_lane 256 rb p (rb_idx_r rb)"

section \<open>The three flavours\<close>

text \<open>One writer, one reader.\<close>

record 'a spsc =
  ss_ring :: "'a ring"
  ss_writer :: ring_writer
  ss_reader :: ring_reader

definition ringbuffer_spsc :: "nat \<Rightarrow> 'a spsc option" where
  "ringbuffer_spsc capacity = map_option
     (\<lambda>rb. \<lparr>ss_ring = rb, ss_writer = rw_new UpdateS, ss_reader = rr_new UpdateS\<rparr>) (ring_new capacity)"

definition spsc_push :: "priority \<Rightarrow> 'a \<Rightarrow> 'a spsc \<Rightarrow> 'a option \<times> 'a spsc" where
  "spsc_push p t s = (case rw_push p t (ss_ring s) (ss_writer s) of
     (res, rb, w) \<Rightarrow> (res, s\<lparr>ss_ring := rb, ss_writer := w\<rparr>))"

definition spsc_pull :: "'a spsc \<Rightarrow> (ring_ub + 'a option) \<times> 'a spsc" where
  "spsc_pull s = (case rr_pull (ss_ring s) (ss_reader s) of
     (res, rb, rd) \<Rightarrow> (res, s\<lparr>ss_ring := rb, ss_reader := rd\<rparr>))"

definition spsc_peek_mut :: "'a spsc \<Rightarrow> (ring_ub + (priority \<times> 'a) option) \<times> 'a spsc" where
  "spsc_peek_mut s = (case rr_peek_mut (ss_ring s) (ss_reader s) of
     (res, rd) \<Rightarrow> (res, s\<lparr>ss_reader := rd\<rparr>))"

definition spsc_peek_store :: "priority \<Rightarrow> 'a \<Rightarrow> 'a spsc \<Rightarrow> 'a spsc" where
  "spsc_peek_store p t s = s\<lparr>ss_ring := rr_peek_store p t (ss_ring s) (ss_reader s)\<rparr>"

text \<open>A writer per priority, one reader.\<close>

record 'a mpsc =
  ms_ring :: "'a ring"
  ms_writers :: "priority \<Rightarrow> ring_writer"
  ms_reader :: ring_reader

definition ringbuffer_mpsc :: "nat \<Rightarrow> 'a mpsc option" where
  "ringbuffer_mpsc capacity = map_option
     (\<lambda>rb. \<lparr>ms_ring = rb, ms_writers = (\<lambda>_. rw_new UpdateM), ms_reader = rr_new UpdateS\<rparr>) (ring_new capacity)"

definition mpsc_book :: "priority \<Rightarrow> 'a \<Rightarrow> 'a mpsc \<Rightarrow> ('a + unit) \<times> 'a mpsc" where
  "mpsc_book p t s = (case rw_book p t (ms_ring s) (ms_writers s p) of
     (res, rb, w) \<Rightarrow> (res, s\<lparr>ms_ring := rb, ms_writers := (ms_writers s)(p := w)\<rparr>))"

definition mpsc_peek :: "priority \<Rightarrow> 'a mpsc \<Rightarrow> bool" where
  "mpsc_peek p s = rw_peek p (ms_writers s p)"

definition mpsc_deref :: "priority \<Rightarrow> 'a mpsc \<Rightarrow> ring_ub + 'a" where
  "mpsc_deref p s = wp_deref p (ms_ring s) (ms_writers s p)"

definition mpsc_store :: "priority \<Rightarrow> 'a \<Rightarrow> 'a mpsc \<Rightarrow> 'a mpsc" where
  "mpsc_store p t s = s\<lparr>ms_ring := wp_store p t (ms_ring s) (ms_writers s p)\<rparr>"

definition mpsc_commit :: "priority \<Rightarrow> 'a mpsc \<Rightarrow> 'a mpsc" where
  "mpsc_commit p s = (case wp_commit p (ms_ring s) (ms_writers s p) of
     (rb, w) \<Rightarrow> s\<lparr>ms_ring := rb, ms_writers := (ms_writers s)(p := w)\<rparr>)"

definition mpsc_pull :: "'a mpsc \<Rightarrow> (ring_ub + 'a option) \<times> 'a mpsc" where
  "mpsc_pull s = (case rr_pull (ms_ring s) (ms_reader s) of
     (res, rb, rd) \<Rightarrow> (res, s\<lparr>ms_ring := rb, ms_reader := rd\<rparr>))"

definition mpsc_pull_priority :: "priority \<Rightarrow> 'a mpsc \<Rightarrow> (ring_ub + 'a pull) \<times> 'a mpsc" where
  "mpsc_pull_priority p s = (case rr_pull_priority p (ms_ring s) (ms_reader s) of
     (res, rb, rd) \<Rightarrow> (res, s\<lparr>ms_ring := rb, ms_reader := rd\<rparr>))"

text \<open>One writer, a reader per priority.\<close>

record 'a spmc =
  sm_ring :: "'a ring"
  sm_writer :: ring_writer
  sm_readers :: "priority \<Rightarrow> ring_reader"

definition ringbuffer_spmc :: "nat \<Rightarrow> 'a spmc option" where
  "ringbuffer_spmc capacity = map_option
     (\<lambda>rb. \<lparr>sm_ring = rb, sm_writer = rw_new UpdateS, sm_readers = (\<lambda>_. rr_new UpdateM)\<rparr>) (ring_new capacity)"

definition spmc_push :: "priority \<Rightarrow> 'a \<Rightarrow> 'a spmc \<Rightarrow> 'a option \<times> 'a spmc" where
  "spmc_push p t s = (case rw_push p t (sm_ring s) (sm_writer s) of
     (res, rb, w) \<Rightarrow> (res, s\<lparr>sm_ring := rb, sm_writer := w\<rparr>))"

definition spmc_pull :: "priority \<Rightarrow> 'a spmc \<Rightarrow> (ring_ub + 'a option) \<times> 'a spmc" where
  "spmc_pull p s = (case rr_pull_priority p (sm_ring s) (sm_readers s p) of
     (res, rb, rd) \<Rightarrow> (case res of Inl e \<Rightarrow> Inl e | Inr (PullSome t) \<Rightarrow> Inr (Some t)
        | Inr PullBooked \<Rightarrow> Inr None | Inr PullNone \<Rightarrow> Inr None,
        s\<lparr>sm_ring := rb, sm_readers := (sm_readers s)(p := rd)\<rparr>))"

end
