(* ===== verification/Ringbuf_Lanes.thy ===== *)
theory Ringbuf_Lanes
  imports Ringbuf
begin

text \<open>
  The lanes of a packed position: what the bit operations of \<open>Idx\<close> do to the position and
  the booked flag of one priority, and that they leave the other priorities alone.
\<close>

definition lane :: "idx \<Rightarrow> priority \<Rightarrow> u16" where
  "lane i p = ucast (drop_bit (idx_shift p) (idx_bits i))"

definition booked :: "idx \<Rightarrow> priority \<Rightarrow> bool" where
  "booked i p \<longleftrightarrow> bit (lane i p) 8"

lemma idx_shift_bound [simp]: "idx_shift p \<le> 48"
  by (cases p) (simp_all add: idx_shift_def IDX_BITS_def prio_idx_def)

lemma idx_shift_apart: "p \<noteq> q \<Longrightarrow> idx_shift p + 16 \<le> idx_shift q \<or> idx_shift q + 16 \<le> idx_shift p"
  by (cases p; cases q; simp add: idx_shift_def IDX_BITS_def prio_idx_def)

lemma bit_lane: "bit (lane i p) n \<longleftrightarrow> n < 16 \<and> bit (idx_bits i) (idx_shift p + n)"
  by (auto simp: lane_def bit_simps)

lemma bit_index: "bit (idx_index i p) n \<longleftrightarrow> n < 8 \<and> bit (lane i p) n"
  by (auto simp: idx_index_def bit_lane bit_simps)

lemma index_lane: "idx_index i p = ucast (lane i p)"
  by (rule bit_word_eqI) (auto simp: bit_index bit_simps)

lemma laneI:
  assumes "\<And>n. n < 16 \<Longrightarrow> bit (lane i p) n \<longleftrightarrow> bit (lane j q) n"
  shows "lane i p = lane j q"
  using assms by (intro bit_word_eqI) simp

lemma lane_new [simp]: "lane idx_new p = 0" "idx_index idx_new p = 0" "\<not> booked idx_new p"
  by (simp_all add: lane_def idx_new_def idx_index_def booked_def)

lemma bit_IDX_MASK: "bit IDX_MASK n \<longleftrightarrow> n < 16"
proof -
  have eq: "IDX_MASK = mask 16" by (simp add: IDX_MASK_def mask_eq_exp_minus_1)
  show ?thesis unfolding eq by (auto simp: bit_mask_iff)
qed

lemma bit_idx_mask: "bit (idx_mask p) n \<longleftrightarrow> idx_shift p \<le> n \<and> n < idx_shift p + 16"
proof -
  have "n < 64" if "n < idx_shift p + 16" using that idx_shift_bound [of p] by linarith
  then show ?thesis by (auto simp: idx_mask_def bit_push_bit_iff bit_IDX_MASK)
qed

lemma bit_flag_booked: "bit (flag_prio p FLAG_BOOKED) n \<longleftrightarrow> n = idx_shift p + 8"
proof -
  have eq: "ucast FLAG_BOOKED = (1 :: u64)" by (simp add: FLAG_BOOKED_def)
  have "bit (push_bit (8 + idx_shift p) (1 :: u64)) n \<longleftrightarrow> n = idx_shift p + 8"
    unfolding bit_push_bit_iff using le_less_trans [OF idx_shift_bound [of p], of 56]
    by (auto simp: bit_1_iff)
  then show ?thesis by (simp add: flag_prio_def eq del: push_bit_of_1)
qed

subsection \<open>Setting and clearing the flag\<close>

lemma idx_any_booked: "idx_any i (flag_prio p FLAG_BOOKED) \<longleftrightarrow> booked i p"
proof
  assume "idx_any i (flag_prio p FLAG_BOOKED)"
  then have "\<exists>n. bit (idx_bits i AND flag_prio p FLAG_BOOKED) n"
    unfolding idx_any_def by (rule contrapos_np) (auto intro!: bit_word_eqI)
  then show "booked i p" by (auto simp: booked_def bit_lane bit_and_iff bit_flag_booked)
next
  assume "booked i p"
  then have "bit (idx_bits i AND flag_prio p FLAG_BOOKED) (idx_shift p + 8)"
    by (simp add: booked_def bit_lane bit_and_iff bit_flag_booked)
  then show "idx_any i (flag_prio p FLAG_BOOKED)" unfolding idx_any_def by (metis bit_0_eq bot_apply bot_bool_def)
qed

lemma booked_set [simp]: "booked (idx_set i (flag_prio p FLAG_BOOKED)) p"
  by (simp add: booked_def bit_lane idx_set_def bit_or_iff bit_flag_booked)

lemma booked_unset [simp]: "\<not> booked (idx_unset i (flag_prio p FLAG_BOOKED)) p"
  by (simp add: booked_def bit_lane idx_unset_def bit_and_iff bit_not_iff bit_flag_booked)

lemma index_set [simp]: "idx_index (idx_set i (flag_prio p FLAG_BOOKED)) p = idx_index i p"
  by (rule bit_word_eqI) (auto simp: bit_index bit_lane idx_set_def bit_or_iff bit_flag_booked)

lemma index_unset [simp]: "idx_index (idx_unset i (flag_prio p FLAG_BOOKED)) p = idx_index i p"
  by (rule bit_word_eqI)
    (auto simp: bit_index bit_lane idx_unset_def bit_and_iff bit_not_iff bit_flag_booked dest: bit_imp_le_length)

lemma lane_set_cong: "lane i p = lane j p \<Longrightarrow> lane (idx_set i (flag_prio p FLAG_BOOKED)) p = lane (idx_set j (flag_prio p FLAG_BOOKED)) p"
  by (intro laneI) (use bit_lane in \<open>auto simp: bit_lane idx_set_def bit_or_iff dest: arg_cong [of _ _ "\<lambda>w. bit w _"]\<close>)

lemma lane_set_other: "q \<noteq> p \<Longrightarrow> lane (idx_set i (flag_prio p FLAG_BOOKED)) q = lane i q"
  using idx_shift_apart [of p q] by (intro laneI) (auto simp: bit_lane idx_set_def bit_or_iff bit_flag_booked)

lemma lane_unset_other: "q \<noteq> p \<Longrightarrow> lane (idx_unset i (flag_prio p FLAG_BOOKED)) q = lane i q"
  using idx_shift_apart [of p q]
  by (intro laneI) (auto simp: bit_lane idx_unset_def bit_and_iff bit_not_iff bit_flag_booked dest: bit_imp_le_length)

subsection \<open>Incrementing\<close>

lemma bit_increment:
  "bit (idx_bits (idx_increment i p)) n \<longleftrightarrow>
     (if idx_shift p \<le> n \<and> n < idx_shift p + 8 then bit (idx_index i p + 1) (n - idx_shift p)
      else bit (idx_bits i) n)"
proof -
  have FF: "(0xFF :: u64) = mask 8" by (simp add: mask_eq_exp_minus_1)
  have b: "idx_shift p \<le> 48" by simp
  show ?thesis
  proof (cases "n < 64")
    case True
    then show ?thesis
      using b unfolding idx_increment_def Let_def FF
      by (auto simp: bit_or_iff bit_and_iff bit_not_iff bit_push_bit_iff bit_mask_iff bit_ucast_iff
          dest: bit_imp_le_length)
  next
    case False
    then have "\<not> bit (idx_bits (idx_increment i p)) n" "\<not> bit (idx_bits i) n"
      using bit_imp_le_length [of "idx_bits (idx_increment i p)" n] bit_imp_le_length [of "idx_bits i" n] by auto
    moreover have "\<not> n < idx_shift p + 8" using b False by linarith
    ultimately show ?thesis by simp
  qed
qed

lemma index_increment [simp]: "idx_index (idx_increment i p) p = idx_index i p + 1"
  by (rule bit_word_eqI) (simp add: bit_index bit_lane bit_increment)

lemma lane_increment_other: "q \<noteq> p \<Longrightarrow> lane (idx_increment i p) q = lane i q"
  using idx_shift_apart [of p q] by (intro laneI) (auto simp: bit_lane bit_increment)

lemma booked_increment [simp]: "booked (idx_increment i p) p = booked i p"
  by (simp add: booked_def bit_lane bit_increment)

subsection \<open>Publishing\<close>

lemma lane_update: "lane (aidx_update old p i) q = (if q = p then lane i p else lane old q)"
proof (cases "q = p")
  case True
  then show ?thesis
    by (simp, intro laneI) (auto simp: bit_lane aidx_update_def Let_def bit_or_iff bit_and_iff bit_not_iff bit_idx_mask)
next
  case False
  then show ?thesis
    using idx_shift_apart [of p q]
    by (simp, intro laneI) (auto simp: bit_lane aidx_update_def Let_def bit_or_iff bit_and_iff bit_not_iff bit_idx_mask
        dest: bit_imp_le_length)
qed

lemma lane_run_update_here [simp]: "lane (run_update u aidx p i) p = lane i p"
  by (cases u) (simp_all add: lane_update)

text \<open>Storing the whole word keeps the other lanes as long as they are those of the local copy.\<close>

lemma lane_run_update_other:
  assumes "q \<noteq> p" "u = UpdateS \<Longrightarrow> lane i q = lane aidx q"
  shows "lane (run_update u aidx p i) q = lane aidx q"
  using assms by (cases u) (simp_all add: lane_update)

lemma index_of_lane: "lane i p = lane j q \<Longrightarrow> idx_index i p = idx_index j q"
  by (simp add: index_lane)

lemma booked_of_lane: "lane i p = lane j q \<Longrightarrow> booked i p = booked j q"
  by (simp add: booked_def)

end
