(* ===== verification/Ringbuf_Laws.thy ===== *)
theory Ringbuf_Laws
  imports Ringbuf_Lanes
begin

text \<open>
  One lane of the ring buffer refines a bounded first-in-first-out queue with at most one
  booked element.  The abstraction relation \<open>lane_inv\<close> allows both copies of the other
  side's position to be stale, in the only direction they can be: the writer may think that
  less has been read, the reader that less has been written.
\<close>

section \<open>Slots\<close>

definition ring_wf :: "nat \<Rightarrow> 'a ring \<Rightarrow> bool" where
  "ring_wf k rb \<longleftrightarrow> k \<le> 7 \<and> rb_mask rb = of_nat (2 ^ k - 1) \<and> (\<forall>p. length (rb_ptr rb p) = 2 ^ k)"

text \<open>The slot of a position.\<close>

definition ring_at :: "'a ring \<Rightarrow> priority \<Rightarrow> u8 \<Rightarrow> 'a option" where
  "ring_at rb p x = rb_ptr rb p ! unat (x AND rb_mask rb)"

lemma two_pow_le_128: "k \<le> 7 \<Longrightarrow> (2 :: nat) ^ k \<le> 128"
  using power_increasing [of k 7 "2 :: nat"] by simp

lemma ring_pos_mod:
  assumes "ring_wf k rb"
  shows "unat (x AND rb_mask rb) = unat x mod 2 ^ k"
proof -
  have eq: "rb_mask rb = mask k"
    using assms by (simp add: ring_wf_def mask_eq_exp_minus_1)
  show ?thesis
    unfolding eq take_bit_eq_mask [symmetric] unsigned_take_bit_eq by (rule take_bit_eq_mod)
qed

lemma ring_pos_add:
  assumes "ring_wf k rb"
  shows "unat ((x + of_nat i) AND rb_mask rb) = (unat x + i) mod 2 ^ k"
proof -
  have "k \<le> 8" using assms by (simp add: ring_wf_def)
  then have "(2 :: nat) ^ k dvd 2 ^ 8" by (rule le_imp_power_dvd)
  then have "(unat x + i) mod 2 ^ 8 mod 2 ^ k = (unat x + i) mod 2 ^ k" by (rule mod_mod_cancel)
  moreover have "unat (x + of_nat i) = (unat x + i) mod 2 ^ 8"
    by (simp add: unat_word_ariths unat_of_nat take_bit_eq_mod mod_add_right_eq)
  ultimately show ?thesis by (simp add: ring_pos_mod [OF assms])
qed

lemma add_mod_inject:
  assumes "i < m" "j < m" "(a + i) mod m = (a + j) mod (m :: nat)"
  shows "i = j"
proof -
  have *: "i = j" if "i \<le> j" "j < m" "(a + i) mod m = (a + j) mod m" for i j
  proof -
    have "m dvd (a + j) - (a + i)" using that by (metis mod_eq_dvd_iff_nat nat_add_left_cancel_le)
    then have "m dvd j - i" by simp
    then show ?thesis using that by (metis diff_is_0_eq dvd_imp_le le_antisym less_le_trans not_le less_imp_diff_less zero_less_diff)
  qed
  show ?thesis using * [of i j] * [of j i] assms by (metis nat_le_linear)
qed

lemma ring_get_at: "ring_get rb p i = ring_at rb p (idx_index i p)"
  by (simp add: ring_get_def ring_at_def ring_slot_def)

lemma ring_put_simps [simp]:
  "rb_mask (ring_put rb p i x) = rb_mask rb" "rb_idx_r (ring_put rb p i x) = rb_idx_r rb"
  "rb_idx_w (ring_put rb p i x) = rb_idx_w rb" "ring_wf k (ring_put rb p i x) = ring_wf k rb"
  by (auto simp: ring_put_def ring_wf_def)

lemma ring_wf_idx [simp]:
  "ring_wf k (rb\<lparr>rb_idx_w := i\<rparr>) = ring_wf k rb" "ring_wf k (rb\<lparr>rb_idx_r := i\<rparr>) = ring_wf k rb"
  by (simp_all add: ring_wf_def)

lemma ring_at_idx [simp]:
  "ring_at (rb\<lparr>rb_idx_w := i\<rparr>) p x = ring_at rb p x" "ring_at (rb\<lparr>rb_idx_r := i\<rparr>) p x = ring_at rb p x"
  by (simp_all add: ring_at_def)

lemma ring_at_put_other: "q \<noteq> p \<Longrightarrow> ring_at (ring_put rb p i x) q y = ring_at rb q y"
  by (simp add: ring_at_def ring_put_def)

lemma ring_at_put_same:
  assumes "ring_wf k rb" "idx_index i p = y + of_nat n" "j < 2 ^ k" "n < 2 ^ k"
  shows "ring_at (ring_put rb p i x) p (y + of_nat j) = (if j = n then x else ring_at rb p (y + of_nat j))"
proof -
  have pos: "ring_slot rb p i = (unat y + n) mod 2 ^ k" "unat ((y + of_nat j) AND rb_mask rb) = (unat y + j) mod 2 ^ k"
    using ring_pos_add [OF assms(1)] assms(2) by (simp_all add: ring_slot_def)
  have "(unat y + n) mod 2 ^ k < length (rb_ptr rb p)" using assms(1) by (simp add: ring_wf_def)
  moreover have "(unat y + j) mod 2 ^ k = (unat y + n) mod 2 ^ k \<longleftrightarrow> j = n"
    using add_mod_inject [OF assms(3,4)] by auto
  ultimately show ?thesis
    by (auto simp: ring_at_def ring_put_def pos nth_list_update)
qed

lemma unat_ring_capacity:
  assumes "ring_wf k rb"
  shows "unat (ring_capacity rb) = 2 ^ k"
proof -
  have "(2 :: nat) ^ k < 2 ^ 8"
    using assms two_pow_le_128 [of k] by (simp add: ring_wf_def)
  then have "unat (of_nat (2 ^ k) :: u8) = 2 ^ k" by (intro unat_of_nat_small) simp
  then show ?thesis using assms by (simp add: ring_capacity_def ring_wf_def)
qed

section \<open>The lane invariant\<close>

text \<open>
  \<open>q\<close> are the published elements in order, \<open>b\<close> the booked one.
\<close>

definition writer_lane :: "nat \<Rightarrow> priority \<Rightarrow> 'a ring \<Rightarrow> ring_writer \<Rightarrow> 'a list \<Rightarrow> 'a option \<Rightarrow> bool" where
  "writer_lane k p rb w q b \<longleftrightarrow>
     lane (rb_idx_w rb) p = lane (rw_local_w w) p
     \<and> length q \<le> unat (idx_index (rw_local_w w) p - idx_index (rw_cached_r w) p)
     \<and> unat (idx_index (rw_local_w w) p - idx_index (rw_cached_r w) p) + (if b = None then 0 else 1) \<le> 2 ^ k
     \<and> booked (rw_local_w w) p = (b \<noteq> None)"

definition reader_lane :: "priority \<Rightarrow> 'a ring \<Rightarrow> ring_reader \<Rightarrow> 'a list \<Rightarrow> bool" where
  "reader_lane p rb rd q \<longleftrightarrow>
     lane (rb_idx_r rb) p = lane (rr_local_r rd) p
     \<and> unat (idx_index (rr_cached_w rd) p - idx_index (rr_local_r rd) p) \<le> length q"

definition ring_lane :: "nat \<Rightarrow> priority \<Rightarrow> 'a ring \<Rightarrow> 'a list \<Rightarrow> 'a option \<Rightarrow> bool" where
  "ring_lane k p rb q b \<longleftrightarrow>
     idx_index (rb_idx_w rb) p = idx_index (rb_idx_r rb) p + of_nat (length q)
     \<and> length q + (if b = None then 0 else 1) \<le> 2 ^ k
     \<and> (\<forall>j < length q. ring_at rb p (idx_index (rb_idx_r rb) p + of_nat j) = Some (q ! j))
     \<and> (b \<noteq> None \<longrightarrow> ring_at rb p (idx_index (rb_idx_w rb) p) = b)"

definition lane_inv :: "nat \<Rightarrow> priority \<Rightarrow> 'a ring \<Rightarrow> ring_writer \<Rightarrow> ring_reader \<Rightarrow> 'a list \<Rightarrow> 'a option \<Rightarrow> bool" where
  "lane_inv k p rb w rd q b \<longleftrightarrow> ring_wf k rb \<and> writer_lane k p rb w q b \<and> reader_lane p rb rd q \<and> ring_lane k p rb q b"

lemma unat_of_nat_u8: "n \<le> 128 \<Longrightarrow> unat (of_nat n :: u8) = n"
  by simp

lemma lane_facts:
  assumes "lane_inv k p rb w rd q b"
  shows "length q \<le> 128" "idx_index (rb_idx_w rb) p = idx_index (rw_local_w w) p"
    "idx_index (rb_idx_r rb) p = idx_index (rr_local_r rd) p"
    "unat (idx_index (rw_local_w w) p - idx_index (rb_idx_r rb) p) = length q"
    "unat (idx_index (rb_idx_w rb) p - idx_index (rr_local_r rd) p) = length q"
proof -
  show len: "length q \<le> 128"
    using assms two_pow_le_128 [of k] by (auto simp: lane_inv_def ring_wf_def ring_lane_def split: if_splits)
  show 1: "idx_index (rb_idx_w rb) p = idx_index (rw_local_w w) p" "idx_index (rb_idx_r rb) p = idx_index (rr_local_r rd) p"
    using assms by (auto simp: lane_inv_def writer_lane_def reader_lane_def intro: index_of_lane)
  then show "unat (idx_index (rw_local_w w) p - idx_index (rb_idx_r rb) p) = length q"
    "unat (idx_index (rb_idx_w rb) p - idx_index (rr_local_r rd) p) = length q"
    using assms len by (auto simp: lane_inv_def ring_lane_def)
qed

subsection \<open>Fresh buffers\<close>

lemma ring_new_Some_iff: "(\<exists>rb. ring_new c = Some rb) \<longleftrightarrow> (\<exists>k \<le> 7. c = 2 ^ k)"
proof -
  have "power_of_two c \<and> c \<le> 2 ^ 7 \<longleftrightarrow> (\<exists>k \<le> 7. c = 2 ^ k)"
  proof
    assume "power_of_two c \<and> c \<le> 2 ^ 7"
    then obtain k where k: "c = 2 ^ k" "(2 :: nat) ^ k \<le> 2 ^ 7" by (auto simp: power_of_two_def)
    then have "k \<le> 7" by (subst (asm) power_increasing_iff) simp_all
    then show "\<exists>k \<le> 7. c = 2 ^ k" using k(1) by blast
  next
    assume "\<exists>k \<le> 7. c = 2 ^ k"
    then obtain k where k: "k \<le> 7" "c = 2 ^ k" by blast
    then have "k < 64" by simp
    then show "power_of_two c \<and> c \<le> 2 ^ 7"
      using k two_pow_le_128 [of k] by (auto simp: power_of_two_def)
  qed
  then show ?thesis by (simp add: ring_new_def)
qed

lemma lane_inv_new:
  assumes "ring_new (2 ^ k) = Some rb" "k \<le> 7"
  shows "lane_inv k p rb (rw_new u) (rr_new v) [] None"
  using assms by (auto simp: ring_new_def lane_inv_def ring_wf_def writer_lane_def reader_lane_def
      ring_lane_def rw_new_def rr_new_def split: if_splits)

section \<open>The writer side\<close>

lemma rw_is_full_spec:
  assumes "lane_inv k p rb w rd q None"
  shows "\<exists>w'. rw_is_full p rb w = (length q = 2 ^ k, w') \<and> lane_inv k p rb w' rd q None
    \<and> rw_local_w w' = rw_local_w w \<and> rw_update w' = rw_update w
    \<and> (rw_cached_r w' = rw_cached_r w \<or> rw_cached_r w' = rb_idx_r rb)
    \<and> (length q < 2 ^ k \<longrightarrow> unat (idx_index (rw_local_w w') p - idx_index (rw_cached_r w') p) < 2 ^ k)"
proof -
  have wf: "ring_wf k rb" and wl: "writer_lane k p rb w q None"
    using assms by (simp_all add: lane_inv_def)
  note f = lane_facts [OF assms]
  have full: "ring_is_full i (rw_local_w w) p (ring_capacity rb)
      \<longleftrightarrow> unat (idx_index (rw_local_w w) p - idx_index i p) = 2 ^ k" for i
    using unat_ring_capacity [OF wf] by (metis ring_is_full_def word_unat_eq_iff)
  show ?thesis
  proof (cases "ring_is_full (rw_cached_r w) (rw_local_w w) p (ring_capacity rb)")
    case True
    have "rw_is_full p rb w = (length q = 2 ^ k, w\<lparr>rw_cached_r := rb_idx_r rb\<rparr>)"
      using True full [of "rb_idx_r rb"] f(4) by (simp add: rw_is_full_def Let_def)
    moreover have "lane_inv k p rb (w\<lparr>rw_cached_r := rb_idx_r rb\<rparr>) rd q None"
      using assms f(4) by (auto simp: lane_inv_def writer_lane_def ring_lane_def)
    ultimately show ?thesis using f(4) by auto
  next
    case False
    then have lt: "unat (idx_index (rw_local_w w) p - idx_index (rw_cached_r w) p) < 2 ^ k"
      using full [of "rw_cached_r w"] wl by (simp add: writer_lane_def)
    then have "length q \<noteq> 2 ^ k" using wl by (simp add: writer_lane_def)
    then show ?thesis using False assms lt by (simp add: rw_is_full_def)
  qed
qed

lemma unat_add_1_le: "unat (x :: u8) < 128 \<Longrightarrow> unat (x + 1) = unat x + 1"
  by (simp add: unat_word_ariths)

text \<open>Putting an element at the write position and moving on, as \<open>push\<close> and \<open>commit\<close> do.\<close>

lemma lane_append:
  assumes inv: "lane_inv k p rb w rd q b"
    and room: "unat (idx_index (rw_local_w w) p - idx_index (rw_cached_r w) p) < 2 ^ k"
    and at: "ring_at rb' p (idx_index (rw_local_w w) p) = Some t"
    and same: "\<And>j. j < length q \<Longrightarrow> ring_at rb' p (idx_index (rb_idx_r rb) p + of_nat j) = Some (q ! j)"
    and rb': "ring_wf k rb'" "rb_idx_r rb' = rb_idx_r rb" "lane (rb_idx_w rb') p = lane i p"
    and i: "idx_index i p = idx_index (rw_local_w w) p + 1" "\<not> booked i p"
  shows "lane_inv k p rb' (w\<lparr>rw_local_w := i\<rparr>) rd (q @ [t]) None"
proof -
  note f = lane_facts [OF inv]
  have k: "(2 :: nat) ^ k \<le> 128" using inv two_pow_le_128 [of k] by (simp add: lane_inv_def ring_wf_def)
  have lenq: "length q < 2 ^ k" using inv room by (auto simp: lane_inv_def writer_lane_def)
  have w: "idx_index (rb_idx_w rb') p = idx_index (rw_local_w w) p + 1"
    using rb'(3) i(1) index_of_lane by metis
  have "idx_index (rw_local_w w) p = idx_index (rb_idx_r rb) p + of_nat (length q)"
    using inv f(2) by (simp add: lane_inv_def ring_lane_def)
  then have rl: "ring_lane k p rb' (q @ [t]) None"
    using w rb'(2) lenq at same by (auto simp: ring_lane_def nth_append less_Suc_eq)
  have "unat (idx_index i p - idx_index (rw_cached_r w) p)
      = unat (idx_index (rw_local_w w) p - idx_index (rw_cached_r w) p) + 1"
    using unat_add_1_le [of "idx_index (rw_local_w w) p - idx_index (rw_cached_r w) p"] room k
    by (simp add: i(1) diff_add_eq)
  then have wl: "writer_lane k p rb' (w\<lparr>rw_local_w := i\<rparr>) (q @ [t]) None"
    using inv room rb'(3) i by (auto simp: lane_inv_def writer_lane_def)
  have "reader_lane p rb' rd (q @ [t])"
    using inv rb'(2) by (auto simp: lane_inv_def reader_lane_def)
  then show ?thesis using rl wl rb'(1) by (simp add: lane_inv_def)
qed

lemma ring_put_at_write:
  assumes "lane_inv k p rb w rd q b" "length q < 2 ^ k" "idx_index i p = idx_index (rw_local_w w) p"
  shows "ring_at (ring_put rb p i x) p (idx_index (rw_local_w w) p) = x"
    and "j < length q \<Longrightarrow> ring_at (ring_put rb p i x) p (idx_index (rb_idx_r rb) p + of_nat j)
           = ring_at rb p (idx_index (rb_idx_r rb) p + of_nat j)"
proof -
  have e: "idx_index (rw_local_w w) p = idx_index (rb_idx_r rb) p + of_nat (length q)" "ring_wf k rb"
    using assms(1) lane_facts(2) [OF assms(1)] by (simp_all add: lane_inv_def ring_lane_def)
  show "ring_at (ring_put rb p i x) p (idx_index (rw_local_w w) p) = x"
    using ring_at_put_same [OF e(2), of i p "idx_index (rb_idx_r rb) p" "length q" "length q" x] assms(2,3) e(1) by simp
  show "j < length q \<Longrightarrow> ring_at (ring_put rb p i x) p (idx_index (rb_idx_r rb) p + of_nat j)
           = ring_at rb p (idx_index (rb_idx_r rb) p + of_nat j)"
    using ring_at_put_same [OF e(2), of i p "idx_index (rb_idx_r rb) p" "length q" j x] assms(2,3) e(1) by simp
qed

text \<open>What an operation of the writer on one lane leaves alone.\<close>

definition writer_frame :: "priority \<Rightarrow> 'a ring \<Rightarrow> ring_writer \<Rightarrow> 'a ring \<Rightarrow> ring_writer \<Rightarrow> bool" where
  "writer_frame p rb w rb' w' \<longleftrightarrow> rb_idx_r rb' = rb_idx_r rb \<and> rw_update w' = rw_update w
     \<and> rb_mask rb' = rb_mask rb
     \<and> (\<forall>r. length (rb_ptr rb' r) = length (rb_ptr rb r))
     \<and> (rw_cached_r w' = rw_cached_r w \<or> rw_cached_r w' = rb_idx_r rb)
     \<and> (\<forall>q x. q \<noteq> p \<longrightarrow> ring_at rb' q x = ring_at rb q x \<and> lane (rb_idx_w rb') q = lane (rb_idx_w rb) q
          \<and> lane (rw_local_w w') q = lane (rw_local_w w) q)"

text \<open>The writer's copy is complete when it publishes the whole word.\<close>

definition writer_synced :: "'a ring \<Rightarrow> ring_writer \<Rightarrow> bool" where
  "writer_synced rb w \<longleftrightarrow> (rw_update w = UpdateS \<longrightarrow> (\<forall>p. lane (rw_local_w w) p = lane (rb_idx_w rb) p))"

lemma writer_frame_ring_lane:
  assumes "writer_frame p rb w rb' w'" "q \<noteq> p" "ring_lane k q rb xs b"
  shows "ring_lane k q rb' xs b"
proof -
  have "idx_index (rb_idx_w rb') q = idx_index (rb_idx_w rb) q"
    using assms(1,2) by (intro index_of_lane) (simp add: writer_frame_def)
  then show ?thesis using assms by (auto simp: writer_frame_def ring_lane_def)
qed

lemma writer_frame_wf: "writer_frame p rb w rb' w' \<Longrightarrow> ring_wf k rb' = ring_wf k rb"
  by (auto simp: writer_frame_def ring_wf_def)

lemma lane_inv_writer_frame:
  assumes fr: "writer_frame p rb w rb' w'" and q: "q \<noteq> p" and inv: "lane_inv k q rb w rd xs b"
  shows "lane_inv k q rb' w' rd xs b"
proof -
  note f = lane_facts [OF inv]
  have l: "lane (rw_local_w w') q = lane (rw_local_w w) q" "lane (rb_idx_w rb') q = lane (rb_idx_w rb) q"
      "rb_idx_r rb' = rb_idx_r rb"
    using fr q by (auto simp: writer_frame_def)
  have i: "idx_index (rw_local_w w') q = idx_index (rw_local_w w) q" "booked (rw_local_w w') q = booked (rw_local_w w) q"
    using index_of_lane [OF l(1)] booked_of_lane [OF l(1)] by simp_all
  have "writer_lane k q rb' w' xs b"
  proof (cases "rw_cached_r w' = rw_cached_r w")
    case True
    then show ?thesis using inv l i by (simp add: lane_inv_def writer_lane_def)
  next
    case False
    then have "rw_cached_r w' = rb_idx_r rb" using fr by (auto simp: writer_frame_def)
    then show ?thesis using inv l i f(4) by (auto simp: lane_inv_def writer_lane_def ring_lane_def)
  qed
  moreover have "reader_lane q rb' rd xs" using inv l(3) by (simp add: lane_inv_def reader_lane_def)
  ultimately show ?thesis
    using inv writer_frame_ring_lane [OF fr q] writer_frame_wf [OF fr] by (simp add: lane_inv_def)
qed

text \<open>Another writer, on its own lane, is not disturbed.\<close>

lemma lane_inv_other_writer:
  assumes fr: "writer_frame p rb w rb' w'" and q: "q \<noteq> p" and inv: "lane_inv k q rb v rd xs b"
  shows "lane_inv k q rb' v rd xs b"
proof -
  have l: "lane (rb_idx_w rb') q = lane (rb_idx_w rb) q" "rb_idx_r rb' = rb_idx_r rb"
    using fr q by (auto simp: writer_frame_def)
  then have "writer_lane k q rb' v xs b" "reader_lane q rb' rd xs"
    using inv by (simp_all add: lane_inv_def writer_lane_def reader_lane_def)
  then show ?thesis
    using inv writer_frame_ring_lane [OF fr q] writer_frame_wf [OF fr] by (simp add: lane_inv_def)
qed

lemma writer_synced_frame:
  assumes "writer_frame p rb w rb' w'" "writer_synced rb w" "lane (rw_local_w w') p = lane (rb_idx_w rb') p"
  shows "writer_synced rb' w'"
  unfolding writer_synced_def
proof (intro impI allI)
  fix q assume u: "rw_update w' = UpdateS"
  show "lane (rw_local_w w') q = lane (rb_idx_w rb') q"
    using assms u by (cases "q = p") (simp_all add: writer_frame_def writer_synced_def)
qed

subsection \<open>\<open>push\<close>\<close>

lemma rw_push_spec:
  assumes inv: "lane_inv k p rb w rd q None" and sy: "writer_synced rb w"
  shows "\<exists>rb' w'. rw_push p t rb w = (if length q = 2 ^ k then Some t else None, rb', w')
    \<and> lane_inv k p rb' w' rd (if length q = 2 ^ k then q else q @ [t]) None
    \<and> writer_frame p rb w rb' w' \<and> writer_synced rb' w'"
proof -
  obtain w1 where w1: "rw_is_full p rb w = (length q = 2 ^ k, w1)" "lane_inv k p rb w1 rd q None"
      "rw_local_w w1 = rw_local_w w" "rw_update w1 = rw_update w"
      "rw_cached_r w1 = rw_cached_r w \<or> rw_cached_r w1 = rb_idx_r rb"
      "length q < 2 ^ k \<longrightarrow> unat (idx_index (rw_local_w w1) p - idx_index (rw_cached_r w1) p) < 2 ^ k"
    using rw_is_full_spec [OF inv] by blast
  show ?thesis
  proof (cases "length q = 2 ^ k")
    case True
    then have "rw_push p t rb w = (Some t, rb, w1)" using w1(1) by (simp add: rw_push_def)
    moreover have "writer_frame p rb w rb w1" using w1 by (simp add: writer_frame_def)
    ultimately show ?thesis using True w1(2) sy w1(3,4) by (simp add: writer_synced_def)
  next
    case False
    then have lt: "length q < 2 ^ k"
      using inv by (auto simp: lane_inv_def ring_lane_def)
    define rb1 where "rb1 = ring_put rb p (rw_local_w w1) (Some t)"
    define i where "i = idx_increment (rw_local_w w1) p"
    define rb' where "rb' = rb1\<lparr>rb_idx_w := run_update (rw_update w1) (rb_idx_w rb1) p i\<rparr>"
    have push: "rw_push p t rb w = (None, rb', w1\<lparr>rw_local_w := i\<rparr>)"
      using w1(1) False by (simp add: rw_push_def Let_def rb1_def i_def rb'_def)
    have wf: "ring_wf k rb" using inv by (simp add: lane_inv_def)
    have here: "lane (rb_idx_w rb') p = lane i p" by (simp add: rb'_def)
    have others: "lane (rb_idx_w rb') r = lane (rb_idx_w rb) r" if "r \<noteq> p" for r
    proof -
      have "lane i r = lane (rb_idx_w rb) r" if "rw_update w1 = UpdateS"
        using sy that w1(3,4) \<open>r \<noteq> p\<close> by (simp add: writer_synced_def i_def lane_increment_other)
      then show ?thesis using that by (simp add: rb'_def rb1_def lane_run_update_other)
    qed
    have nb: "\<not> booked i p" using w1(2) by (simp add: i_def lane_inv_def writer_lane_def)
    have inv': "lane_inv k p rb' (w1\<lparr>rw_local_w := i\<rparr>) rd (q @ [t]) None"
    proof (rule lane_append [OF w1(2)])
      show "unat (idx_index (rw_local_w w1) p - idx_index (rw_cached_r w1) p) < 2 ^ k" using w1(6) lt by simp
      show "ring_at rb' p (idx_index (rw_local_w w1) p) = Some t"
        using ring_put_at_write(1) [OF w1(2) lt refl] by (simp add: rb'_def rb1_def)
      show "ring_at rb' p (idx_index (rb_idx_r rb) p + of_nat j) = Some (q ! j)" if "j < length q" for j
        using ring_put_at_write(2) [OF w1(2) lt refl that] that inv
        by (simp add: rb'_def rb1_def lane_inv_def ring_lane_def)
    qed (use wf nb here in \<open>simp_all add: rb'_def rb1_def i_def\<close>)
    have fr: "writer_frame p rb w rb' (w1\<lparr>rw_local_w := i\<rparr>)"
      using w1(3-5) others
      by (auto simp: writer_frame_def rb'_def rb1_def ring_at_put_other i_def lane_increment_other)
        (auto simp: ring_put_def)
    have "writer_synced rb' (w1\<lparr>rw_local_w := i\<rparr>)"
      using writer_synced_frame [OF fr sy] here by simp
    then show ?thesis using push inv' fr False by auto
  qed
qed

subsection \<open>\<open>book\<close>, the booked slot, and \<open>commit\<close>\<close>

lemma ring_lane_idx_w:
  "idx_index i p = idx_index (rb_idx_w rb) p \<Longrightarrow> ring_lane k p (rb\<lparr>rb_idx_w := i\<rparr>) q b = ring_lane k p rb q b"
  by (simp add: ring_lane_def)

lemma ring_lane_put:
  assumes inv: "lane_inv k p rb w rd q b" and lt: "length q < 2 ^ k"
    and i: "idx_index i p = idx_index (rw_local_w w) p"
  shows "ring_lane k p (ring_put rb p i (Some t)) q (Some t)"
  unfolding ring_lane_def
proof (intro conjI allI impI)
  show "idx_index (rb_idx_w (ring_put rb p i (Some t))) p
      = idx_index (rb_idx_r (ring_put rb p i (Some t))) p + of_nat (length q)"
    using inv by (simp add: lane_inv_def ring_lane_def)
  show "length q + (if Some t = None then 0 else 1) \<le> 2 ^ k" using lt by simp
  show "ring_at (ring_put rb p i (Some t)) p (idx_index (rb_idx_w (ring_put rb p i (Some t))) p) = Some t"
    using ring_put_at_write(1) [OF inv lt i, of "Some t"] lane_facts(2) [OF inv] by simp
next
  fix j assume j: "j < length q"
  then show "ring_at (ring_put rb p i (Some t)) p (idx_index (rb_idx_r (ring_put rb p i (Some t))) p + of_nat j)
      = Some (q ! j)"
    using ring_put_at_write(2) [OF inv lt i j, of "Some t"] inv by (simp add: lane_inv_def ring_lane_def)
qed

lemma rw_book_spec:
  assumes inv: "lane_inv k p rb w rd q b" and sy: "writer_synced rb w"
  shows "\<exists>rb' w'. rw_book p t rb w = (if b = None \<and> length q < 2 ^ k then Inr () else Inl t, rb', w')
    \<and> lane_inv k p rb' w' rd q (if b = None \<and> length q < 2 ^ k then Some t else b)
    \<and> writer_frame p rb w rb' w' \<and> writer_synced rb' w'"
proof (cases b)
  case (Some x)
  then have "booked (rw_local_w w) p" using inv by (simp add: lane_inv_def writer_lane_def)
  then have "rw_book p t rb w = (Inl t, rb, w)" by (simp add: rw_book_def idx_any_booked)
  then show ?thesis using Some inv sy by (simp add: writer_frame_def)
next
  case None
  note inv = inv [unfolded None]
  have nb: "\<not> booked (rw_local_w w) p" using inv by (simp add: lane_inv_def writer_lane_def)
  obtain w1 where w1: "rw_is_full p rb w = (length q = 2 ^ k, w1)" "lane_inv k p rb w1 rd q None"
      "rw_local_w w1 = rw_local_w w" "rw_update w1 = rw_update w"
      "rw_cached_r w1 = rw_cached_r w \<or> rw_cached_r w1 = rb_idx_r rb"
      "length q < 2 ^ k \<longrightarrow> unat (idx_index (rw_local_w w1) p - idx_index (rw_cached_r w1) p) < 2 ^ k"
    using rw_is_full_spec [OF inv] by blast
  have le: "length q \<le> 2 ^ k" using inv by (simp add: lane_inv_def ring_lane_def)
  show ?thesis
  proof (cases "length q = 2 ^ k")
    case True
    then have "rw_book p t rb w = (Inl t, rb, w1)" using w1(1) nb by (simp add: rw_book_def idx_any_booked)
    moreover have "writer_frame p rb w rb w1" using w1 by (simp add: writer_frame_def)
    ultimately show ?thesis using None True w1(2) sy w1(3,4) by (simp add: writer_synced_def)
  next
    case False
    then have lt: "length q < 2 ^ k" using le by simp
    let ?flag = "flag_prio p FLAG_BOOKED"
    define rb1 where "rb1 = ring_put rb p (rw_local_w w1) (Some t)"
    define i where "i = idx_set (rw_local_w w1) ?flag"
    define rb' where "rb' = rb1\<lparr>rb_idx_w := idx_set (rb_idx_w rb1) ?flag\<rparr>"
    have book: "rw_book p t rb w = (Inr (), rb', w1\<lparr>rw_local_w := i\<rparr>)"
      using w1(1) nb False by (simp add: rw_book_def idx_any_booked Let_def rb1_def i_def rb'_def)
    have here: "lane (rb_idx_w rb') p = lane i p"
      using lane_set_cong [of "rb_idx_w rb" p "rw_local_w w1"] w1(2)
      by (simp add: rb'_def rb1_def i_def lane_inv_def writer_lane_def)
    have rl: "ring_lane k p rb' q (Some t)"
      unfolding rb'_def rb1_def
      by (subst ring_lane_idx_w) (simp_all add: ring_lane_put [OF w1(2) lt refl])
    have "writer_lane k p rb' (w1\<lparr>rw_local_w := i\<rparr>) q (Some t)"
      using w1(2,6) lt here by (auto simp: lane_inv_def writer_lane_def i_def)
    then have inv': "lane_inv k p rb' (w1\<lparr>rw_local_w := i\<rparr>) rd q (Some t)"
      using rl w1(2) by (simp add: lane_inv_def rb'_def rb1_def reader_lane_def)
    have fr: "writer_frame p rb w rb' (w1\<lparr>rw_local_w := i\<rparr>)"
      using w1(3-5) by (auto simp: writer_frame_def rb'_def rb1_def ring_at_put_other i_def lane_set_other)
        (simp_all add: ring_put_def)
    have "writer_synced rb' (w1\<lparr>rw_local_w := i\<rparr>)"
      using writer_synced_frame [OF fr sy] here by simp
    then show ?thesis using book inv' fr None lt by auto
  qed
qed

lemma rw_peek_spec: "lane_inv k p rb w rd q b \<Longrightarrow> rw_peek p w = (b \<noteq> None)"
  by (simp add: rw_peek_def idx_any_booked lane_inv_def writer_lane_def)

lemma wp_deref_spec:
  assumes "lane_inv k p rb w rd q (Some t)"
  shows "wp_deref p rb w = Inr t"
proof -
  have "ring_at rb p (idx_index (rb_idx_w rb) p) = Some t"
    using assms unfolding lane_inv_def ring_lane_def by blast
  then show ?thesis unfolding lane_facts(2) [OF assms] by (simp add: wp_deref_def ring_get_at)
qed

lemma wp_store_spec:
  assumes inv: "lane_inv k p rb w rd q (Some t)"
  shows "lane_inv k p (wp_store p t' rb w) w rd q (Some t') \<and> writer_frame p rb w (wp_store p t' rb w) w"
proof -
  have lt: "length q < 2 ^ k" using inv by (simp add: lane_inv_def ring_lane_def)
  have "ring_lane k p (wp_store p t' rb w) q (Some t')"
    unfolding wp_store_def by (rule ring_lane_put [OF inv lt refl])
  moreover have "writer_lane k p (wp_store p t' rb w) w q (Some t')" "reader_lane p (wp_store p t' rb w) rd q"
    using inv by (simp_all add: lane_inv_def writer_lane_def reader_lane_def wp_store_def)
  moreover have "writer_frame p rb w (wp_store p t' rb w) w"
    by (auto simp: wp_store_def writer_frame_def ring_at_put_other) (simp add: ring_put_def)
  ultimately show ?thesis using inv by (simp add: lane_inv_def wp_store_def)
qed

lemma wp_commit_spec:
  assumes inv: "lane_inv k p rb w rd q (Some t)" and sy: "writer_synced rb w"
  shows "\<exists>rb' w'. wp_commit p rb w = (rb', w') \<and> lane_inv k p rb' w' rd (q @ [t]) None
    \<and> writer_frame p rb w rb' w' \<and> writer_synced rb' w'"
proof -
  define i where "i = idx_increment (idx_unset (rw_local_w w) (flag_prio p FLAG_BOOKED)) p"
  define rb' where "rb' = rb\<lparr>rb_idx_w := run_update (rw_update w) (rb_idx_w rb) p i\<rparr>"
  have eq: "wp_commit p rb w = (rb', w\<lparr>rw_local_w := i\<rparr>)"
    by (simp add: wp_commit_def Let_def i_def rb'_def)
  have here: "lane (rb_idx_w rb') p = lane i p" by (simp add: rb'_def)
  have others: "lane (rb_idx_w rb') r = lane (rb_idx_w rb) r" if "r \<noteq> p" for r
  proof -
    have "lane i r = lane (rb_idx_w rb) r" if "rw_update w = UpdateS"
      using sy that \<open>r \<noteq> p\<close> by (simp add: writer_synced_def i_def lane_increment_other lane_unset_other)
    then show ?thesis using that by (simp add: rb'_def lane_run_update_other)
  qed
  have inv': "lane_inv k p rb' (w\<lparr>rw_local_w := i\<rparr>) rd (q @ [t]) None"
  proof (rule lane_append [OF inv])
    show "unat (idx_index (rw_local_w w) p - idx_index (rw_cached_r w) p) < 2 ^ k"
      using inv by (simp add: lane_inv_def writer_lane_def)
    have "ring_at rb p (idx_index (rb_idx_w rb) p) = Some t"
      using inv unfolding lane_inv_def ring_lane_def by blast
    then show "ring_at rb' p (idx_index (rw_local_w w) p) = Some t"
      unfolding lane_facts(2) [OF inv] by (simp add: rb'_def)
    show "ring_at rb' p (idx_index (rb_idx_r rb) p + of_nat j) = Some (q ! j)" if "j < length q" for j
      using inv that by (simp add: rb'_def lane_inv_def ring_lane_def)
  qed (use inv here in \<open>simp_all add: rb'_def i_def lane_inv_def\<close>)
  have fr: "writer_frame p rb w rb' (w\<lparr>rw_local_w := i\<rparr>)"
    using others by (auto simp: writer_frame_def i_def lane_increment_other lane_unset_other rb'_def)
  have "writer_synced rb' (w\<lparr>rw_local_w := i\<rparr>)"
    using writer_synced_frame [OF fr sy] here by simp
  then show ?thesis using eq inv' fr by auto
qed

section \<open>The reader side\<close>

definition reader_frame :: "priority \<Rightarrow> 'a ring \<Rightarrow> ring_reader \<Rightarrow> 'a ring \<Rightarrow> ring_reader \<Rightarrow> bool" where
  "reader_frame p rb rd rb' rd' \<longleftrightarrow> rb_idx_w rb' = rb_idx_w rb \<and> rr_update rd' = rr_update rd
     \<and> rb_mask rb' = rb_mask rb
     \<and> (\<forall>r. length (rb_ptr rb' r) = length (rb_ptr rb r))
     \<and> (rr_cached_w rd' = rr_cached_w rd \<or> rr_cached_w rd' = rb_idx_w rb)
     \<and> (\<forall>q x. q \<noteq> p \<longrightarrow> ring_at rb' q x = ring_at rb q x \<and> lane (rb_idx_r rb') q = lane (rb_idx_r rb) q
          \<and> lane (rr_local_r rd') q = lane (rr_local_r rd) q)"

definition reader_synced :: "'a ring \<Rightarrow> ring_reader \<Rightarrow> bool" where
  "reader_synced rb rd \<longleftrightarrow> (rr_update rd = UpdateS \<longrightarrow> (\<forall>p. lane (rr_local_r rd) p = lane (rb_idx_r rb) p))"

lemma reader_frame_wf: "reader_frame p rb rd rb' rd' \<Longrightarrow> ring_wf k rb' = ring_wf k rb"
  by (auto simp: reader_frame_def ring_wf_def)

lemma reader_frame_ring_lane:
  assumes "reader_frame p rb rd rb' rd'" "q \<noteq> p" "ring_lane k q rb xs b"
  shows "ring_lane k q rb' xs b"
proof -
  have "idx_index (rb_idx_r rb') q = idx_index (rb_idx_r rb) q"
    using assms(1,2) by (intro index_of_lane) (simp add: reader_frame_def)
  then show ?thesis using assms by (auto simp: reader_frame_def ring_lane_def)
qed

lemma lane_inv_reader_frame:
  assumes fr: "reader_frame p rb rd rb' rd'" and q: "q \<noteq> p" and inv: "lane_inv k q rb w rd xs b"
  shows "lane_inv k q rb' w rd' xs b"
proof -
  note f = lane_facts [OF inv]
  have l: "lane (rr_local_r rd') q = lane (rr_local_r rd) q" "lane (rb_idx_r rb') q = lane (rb_idx_r rb) q"
      "rb_idx_w rb' = rb_idx_w rb"
    using fr q by (auto simp: reader_frame_def)
  have i: "idx_index (rr_local_r rd') q = idx_index (rr_local_r rd) q"
    by (rule index_of_lane [OF l(1)])
  have "reader_lane q rb' rd' xs"
  proof (cases "rr_cached_w rd' = rr_cached_w rd")
    case True
    then show ?thesis using inv l i by (simp add: lane_inv_def reader_lane_def)
  next
    case False
    then have "rr_cached_w rd' = rb_idx_w rb" using fr by (auto simp: reader_frame_def)
    then show ?thesis using inv l i f(5) by (simp add: lane_inv_def reader_lane_def)
  qed
  moreover have "writer_lane k q rb' w xs b" using inv l(3) by (simp add: lane_inv_def writer_lane_def)
  ultimately show ?thesis
    using inv reader_frame_ring_lane [OF fr q] reader_frame_wf [OF fr] by (simp add: lane_inv_def)
qed

lemma lane_inv_other_reader:
  assumes fr: "reader_frame p rb rd rb' rd'" and q: "q \<noteq> p" and inv: "lane_inv k q rb w rv xs b"
  shows "lane_inv k q rb' w rv xs b"
proof -
  have l: "lane (rb_idx_r rb') q = lane (rb_idx_r rb) q" "rb_idx_w rb' = rb_idx_w rb"
    using fr q by (auto simp: reader_frame_def)
  then have "writer_lane k q rb' w xs b" "reader_lane q rb' rv xs"
    using inv by (simp_all add: lane_inv_def writer_lane_def reader_lane_def)
  then show ?thesis
    using inv reader_frame_ring_lane [OF fr q] reader_frame_wf [OF fr] by (simp add: lane_inv_def)
qed

lemma reader_synced_frame:
  assumes "reader_frame p rb rd rb' rd'" "reader_synced rb rd" "lane (rr_local_r rd') p = lane (rb_idx_r rb') p"
  shows "reader_synced rb' rd'"
  unfolding reader_synced_def
proof (intro impI allI)
  fix q assume u: "rr_update rd' = UpdateS"
  show "lane (rr_local_r rd') q = lane (rb_idx_r rb') q"
    using assms u by (cases "q = p") (simp_all add: reader_frame_def reader_synced_def)
qed

lemma rr_is_empty_spec:
  assumes inv: "lane_inv k p rb w rd q b"
  shows "\<exists>rd'. rr_is_empty p rb rd = (q = [], rd') \<and> lane_inv k p rb w rd' q b
    \<and> rr_local_r rd' = rr_local_r rd \<and> rr_update rd' = rr_update rd
    \<and> (rr_cached_w rd' = rr_cached_w rd \<or> rr_cached_w rd' = rb_idx_w rb)
    \<and> (q = [] \<longrightarrow> rr_cached_w rd' = rb_idx_w rb)
    \<and> (q \<noteq> [] \<longrightarrow> 0 < unat (idx_index (rr_cached_w rd') p - idx_index (rr_local_r rd') p))"
proof -
  note f = lane_facts [OF inv]
  have empty: "ring_is_empty (rr_local_r rd) i p \<longleftrightarrow> unat (idx_index i p - idx_index (rr_local_r rd) p) = 0" for i
    unfolding ring_is_empty_def unat_eq_zero by auto
  show ?thesis
  proof (cases "ring_is_empty (rr_local_r rd) (rr_cached_w rd) p")
    case True
    have "rr_is_empty p rb rd = (q = [], rd\<lparr>rr_cached_w := rb_idx_w rb\<rparr>)"
      using True empty [of "rb_idx_w rb"] f(5) by (simp add: rr_is_empty_def)
    moreover have "lane_inv k p rb w (rd\<lparr>rr_cached_w := rb_idx_w rb\<rparr>) q b"
      using inv f(5) by (simp add: lane_inv_def reader_lane_def)
    ultimately show ?thesis using f(5) by auto
  next
    case False
    then have lt: "0 < unat (idx_index (rr_cached_w rd) p - idx_index (rr_local_r rd) p)"
      using empty [of "rr_cached_w rd"] by blast
    then have "q \<noteq> []" using inv by (auto simp: lane_inv_def reader_lane_def)
    then show ?thesis using False inv lt by (simp add: rr_is_empty_def)
  qed
qed

lemma unat_minus_1: "x \<noteq> 0 \<Longrightarrow> unat (x - 1 :: u8) = unat x - 1"
  by (rule unat_minus_one)

text \<open>Taking the element at the read position and moving on.\<close>

lemma lane_take:
  assumes inv: "lane_inv k p rb w rd (x # xs) b"
    and seen: "0 < unat (idx_index (rr_cached_w rd) p - idx_index (rr_local_r rd) p)"
    and rb': "rb' = (ring_put rb p (rr_local_r rd) None)\<lparr>rb_idx_r := r\<rparr>" "lane r p = lane i p"
    and i: "idx_index i p = idx_index (rr_local_r rd) p + 1"
  shows "lane_inv k p rb' w (rd\<lparr>rr_local_r := i\<rparr>) xs b"
proof -
  let ?q = "x # xs" and ?r = "idx_index (rr_local_r rd) p"
  note f = lane_facts [OF inv]
  have wf: "ring_wf k rb" using inv by (simp add: lane_inv_def)
  have le: "length ?q \<le> 2 ^ k" using inv by (auto simp: lane_inv_def ring_lane_def split: if_splits)
  have ir: "idx_index (rb_idx_r rb') p = ?r + 1" using index_of_lane [OF rb'(2)] i rb'(1) by simp
  have put: "ring_at rb' p (?r + of_nat j) = (if j = 0 then None else ring_at rb p (?r + of_nat j))"
    if "j < 2 ^ k" for j
    using ring_at_put_same [OF wf, of "rr_local_r rd" p ?r 0 j None] that by (simp add: rb'(1))
  have iw: "idx_index (rb_idx_w rb) p = ?r + of_nat (length ?q)"
    using inv f(3) by (simp add: lane_inv_def ring_lane_def)
  have rl: "ring_lane k p rb' xs b"
    unfolding ring_lane_def
  proof (intro conjI allI impI)
    show "idx_index (rb_idx_w rb') p = idx_index (rb_idx_r rb') p + of_nat (length xs)"
      using iw ir by (simp add: rb'(1))
    show "length xs + (if b = None then 0 else 1) \<le> 2 ^ k"
      using inv by (auto simp: lane_inv_def ring_lane_def split: if_splits)
  next
    fix j assume j: "j < length xs"
    have "ring_at rb' p (?r + of_nat (Suc j)) = ring_at rb p (?r + of_nat (Suc j))"
      using put [of "Suc j"] j le by simp
    also have "\<dots> = Some (?q ! Suc j)"
      using inv f(3) j by (auto simp: lane_inv_def ring_lane_def dest!: spec [of _ "Suc j"])
    finally show "ring_at rb' p (idx_index (rb_idx_r rb') p + of_nat j) = Some (xs ! j)"
      using ir by (simp add: add.assoc)
  next
    assume b: "b \<noteq> None"
    then have "length ?q < 2 ^ k" using inv by (auto simp: lane_inv_def ring_lane_def)
    then have "ring_at rb' p (?r + of_nat (length ?q)) = ring_at rb p (?r + of_nat (length ?q))"
      using put [of "length ?q"] by simp
    moreover have "ring_at rb p (idx_index (rb_idx_w rb) p) = b"
      using b inv unfolding lane_inv_def ring_lane_def by blast
    ultimately show "ring_at rb' p (idx_index (rb_idx_w rb') p) = b"
      unfolding iw [symmetric] by (simp add: rb'(1))
  qed
  have "idx_index (rr_cached_w rd) p - ?r \<noteq> 0" using seen by auto
  from unat_minus_1 [OF this]
  have "unat (idx_index (rr_cached_w rd) p - idx_index i p) = unat (idx_index (rr_cached_w rd) p - ?r) - 1"
    by (simp add: i diff_diff_eq)
  then have "reader_lane p rb' (rd\<lparr>rr_local_r := i\<rparr>) xs"
    using inv rb' by (auto simp: lane_inv_def reader_lane_def)
  moreover have "writer_lane k p rb' w xs b"
    using inv by (auto simp: lane_inv_def writer_lane_def rb'(1) split: if_splits)
  ultimately show ?thesis using rl wf by (simp add: lane_inv_def rb'(1))
qed

lemma rr_pull_inner_spec:
  assumes inv: "lane_inv k p rb w rd q b" and sy: "reader_synced rb rd"
  shows "\<exists>rb' rd'. rr_pull_inner p rb rd = (Inr (case q of [] \<Rightarrow> None | x # _ \<Rightarrow> Some x), rb', rd')
    \<and> lane_inv k p rb' w rd' (tl q) b \<and> reader_frame p rb rd rb' rd' \<and> reader_synced rb' rd'
    \<and> (q = [] \<longrightarrow> rb' = rb \<and> rr_cached_w rd' = rb_idx_w rb)"
proof -
  obtain rd1 where e: "rr_is_empty p rb rd = (q = [], rd1)" "lane_inv k p rb w rd1 q b"
      "rr_local_r rd1 = rr_local_r rd" "rr_update rd1 = rr_update rd"
      "rr_cached_w rd1 = rr_cached_w rd \<or> rr_cached_w rd1 = rb_idx_w rb"
      "q = [] \<longrightarrow> rr_cached_w rd1 = rb_idx_w rb"
      "q \<noteq> [] \<longrightarrow> 0 < unat (idx_index (rr_cached_w rd1) p - idx_index (rr_local_r rd1) p)"
    using rr_is_empty_spec [OF inv] by blast
  show ?thesis
  proof (cases q)
    case Nil
    then have "rr_pull_inner p rb rd = (Inr None, rb, rd1)" using e(1) by (simp add: rr_pull_inner_def)
    moreover have "reader_frame p rb rd rb rd1" using e by (simp add: reader_frame_def)
    moreover have "reader_synced rb rd1" using sy e(3,4) by (simp add: reader_synced_def)
    ultimately show ?thesis using Nil e(2,6) by simp
  next
    case (Cons x xs)
    have get: "ring_get rb p (rr_local_r rd1) = Some x"
      using e(2) lane_facts(3) [OF e(2)] Cons by (auto simp: ring_get_at lane_inv_def ring_lane_def dest: spec [of _ 0])
    define rb1 where "rb1 = ring_put rb p (rr_local_r rd1) None"
    define i where "i = idx_increment (rr_local_r rd1) p"
    define rb' where "rb' = rb1\<lparr>rb_idx_r := run_update (rr_update rd1) (rb_idx_r rb1) p i\<rparr>"
    define rd' where "rd' = rd1\<lparr>rr_local_r := i\<rparr>"
    have pull: "rr_pull_inner p rb rd = (Inr (Some x), rb', rd')"
      using e(1) Cons get by (simp add: rr_pull_inner_def Let_def rb1_def i_def rb'_def rd'_def)
    have here: "lane (rb_idx_r rb') p = lane i p" by (simp add: rb'_def)
    have others: "lane (rb_idx_r rb') r = lane (rb_idx_r rb) r" if "r \<noteq> p" for r
    proof -
      have "lane i r = lane (rb_idx_r rb) r" if "rr_update rd1 = UpdateS"
        using sy that e(3,4) \<open>r \<noteq> p\<close> by (simp add: reader_synced_def i_def lane_increment_other)
      then show ?thesis using that by (simp add: rb'_def rb1_def lane_run_update_other)
    qed
    have inv': "lane_inv k p rb' w rd' xs b"
      unfolding rd'_def
      by (rule lane_take [OF e(2) [unfolded Cons] _ rb'_def [unfolded rb1_def]]) (use e(7) Cons in \<open>simp_all add: i_def\<close>)
    have fr: "reader_frame p rb rd rb' rd'"
      using e(3-5) others
      by (auto simp: reader_frame_def rb'_def rb1_def rd'_def ring_at_put_other i_def lane_increment_other)
        (auto simp: ring_put_def)
    have "reader_synced rb' rd'"
      using reader_synced_frame [OF fr sy] here by (simp add: rd'_def)
    then show ?thesis using pull inv' fr Cons by auto
  qed
qed

lemma rr_pull_priority_spec:
  assumes inv: "lane_inv k p rb w rd q b" and sy: "reader_synced rb rd"
  shows "\<exists>rb' rd'. rr_pull_priority p rb rd =
      (Inr (case q of x # _ \<Rightarrow> PullSome x | [] \<Rightarrow> if b = None then PullNone else PullBooked), rb', rd')
    \<and> lane_inv k p rb' w rd' (tl q) b \<and> reader_frame p rb rd rb' rd' \<and> reader_synced rb' rd'"
proof -
  obtain rb' rd' where r: "rr_pull_inner p rb rd = (Inr (case q of [] \<Rightarrow> None | x # _ \<Rightarrow> Some x), rb', rd')"
      "lane_inv k p rb' w rd' (tl q) b" "reader_frame p rb rd rb' rd'" "reader_synced rb' rd'"
      "q = [] \<longrightarrow> rb' = rb \<and> rr_cached_w rd' = rb_idx_w rb"
    using rr_pull_inner_spec [OF assms] by blast
  have "booked (rb_idx_w rb) p = (b \<noteq> None)"
    using inv booked_of_lane [of "rb_idx_w rb" p "rw_local_w w" p] by (auto simp: lane_inv_def writer_lane_def)
  then show ?thesis
    using r by (cases q) (auto simp: rr_pull_priority_def idx_any_booked)
qed

end
