(* ===== verification/Ringbuf_Channels.thy ===== *)
theory Ringbuf_Channels
  imports Ringbuf_Laws
begin

text \<open>
  The three flavours of the ring buffer as channels.  The promise to their users is stated
  as locales over an abstract state, a queue per priority and what is booked: a
  \<open>prio_channel\<close> pushes and pulls the most urgent element, a \<open>booking_channel\<close> is filled
  through booked slots, a \<open>lane_channel\<close> is pulled lane by lane.  The flavours of the code
  interpret them.
\<close>

section \<open>The abstract channel\<close>

type_synonym 'a queues = "priority \<Rightarrow> 'a list"

definition abs_pull :: "'a queues \<Rightarrow> 'a option \<times> 'a queues" where
  "abs_pull Q = (case find (\<lambda>p. Q p \<noteq> []) PRIO_ALL of
       None \<Rightarrow> (None, Q)
     | Some p \<Rightarrow> (Some (hd (Q p)), Q(p := tl (Q p))))"

definition abs_peek :: "'a queues \<Rightarrow> (priority \<times> 'a) option" where
  "abs_peek Q = map_option (\<lambda>p. (p, hd (Q p))) (find (\<lambda>p. Q p \<noteq> []) PRIO_ALL)"

text \<open>What the reader of one lane sees.\<close>

definition abs_pull_priority :: "priority \<Rightarrow> 'a queues \<Rightarrow> (priority \<Rightarrow> 'a option) \<Rightarrow> 'a pull" where
  "abs_pull_priority p Q B = (case Q p of
       x # _ \<Rightarrow> PullSome x
     | [] \<Rightarrow> if B p = None then PullNone else PullBooked)"

text \<open>The pulled element is the oldest of the most urgent non-empty queue.\<close>

lemma find_PRIO_ALL: "find P PRIO_ALL = Some p \<longleftrightarrow> P p \<and> (\<forall>q. q > p \<longrightarrow> \<not> P q)"
  by (cases p) (auto simp: PRIO_ALL_def less_priority_def prio_cmp_def u8_cmp_def all_prio_iff split: if_splits)

lemma find_PRIO_ALL_None: "find P PRIO_ALL = None \<longleftrightarrow> (\<forall>p. \<not> P p)"
  by (auto simp: find_None_iff set_PRIO_ALL)

lemma abs_queues_cases:
  obtains (empty) "\<And>p. Q p = []" "abs_peek Q = None" "abs_pull Q = (None, Q)"
    | (head) p x xs where "Q p = x # xs" "\<And>q. p < q \<Longrightarrow> Q q = []" "abs_peek Q = Some (p, x)"
        "abs_pull Q = (Some x, Q(p := xs))"
proof (cases "find (\<lambda>p. Q p \<noteq> []) PRIO_ALL")
  case None
  then show thesis by (intro empty) (simp_all add: abs_peek_def abs_pull_def, simp add: find_PRIO_ALL_None)
next
  case (Some p)
  then obtain x xs where "Q p = x # xs" by (auto simp: find_PRIO_ALL neq_Nil_conv)
  then show thesis using head [of p x xs] Some by (auto simp: find_PRIO_ALL abs_peek_def abs_pull_def)
qed

text \<open>How many elements there are.\<close>

definition total :: "'a queues \<Rightarrow> nat" where
  "total Q = sum_list (map (\<lambda>p. length (Q p)) PRIO_ALL)"

lemma total_less: "Q p = b # bs \<Longrightarrow> total (Q(p := bs)) < total Q"
  by (cases p) (simp_all add: total_def PRIO_ALL_def)

section \<open>Pulling and peeking over all lanes\<close>

lemma lanes_inv_reader_frame:
  assumes "reader_frame p rb rd rb' rd'" "\<And>q. lane_inv k q rb (w q) rd (Q q) (B q)"
    "lane_inv k p rb' (w p) rd' xs (B p)"
  shows "lane_inv k q rb' (w q) rd' ((Q(p := xs)) q) (B q)"
  using lane_inv_reader_frame [OF assms(1) _ assms(2)] assms(3) by (cases "q = p") auto

lemma rr_pull_loop_spec:
  assumes "\<And>p. lane_inv k p rb (w p) rd (Q p) (B p)" "reader_synced rb rd"
  shows "\<exists>rb' rd'. rr_pull_loop ps rb rd =
      (Inr (case find (\<lambda>p. Q p \<noteq> []) ps of None \<Rightarrow> None | Some p \<Rightarrow> Some (hd (Q p))), rb', rd')
    \<and> (\<forall>p. lane_inv k p rb' (w p) rd'
         ((case find (\<lambda>p. Q p \<noteq> []) ps of None \<Rightarrow> Q | Some p \<Rightarrow> Q(p := tl (Q p))) p) (B p))
    \<and> reader_synced rb' rd'"
  using assms
proof (induction ps arbitrary: rb rd)
  case Nil
  then show ?case by simp
next
  case (Cons p ps)
  obtain rb' rd' where r: "rr_pull_inner p rb rd = (Inr (case Q p of [] \<Rightarrow> None | x # _ \<Rightarrow> Some x), rb', rd')"
      "lane_inv k p rb' (w p) rd' (tl (Q p)) (B p)" "reader_frame p rb rd rb' rd'" "reader_synced rb' rd'"
    using rr_pull_inner_spec [OF Cons.prems] by blast
  have all: "lane_inv k q rb' (w q) rd' ((Q(p := tl (Q p))) q) (B q)" for q
    by (rule lanes_inv_reader_frame [OF r(3) Cons.prems(1) r(2)])
  show ?case
  proof (cases "Q p")
    case Nil
    then have "Q(p := tl (Q p)) = Q" by auto
    then have "lane_inv k q rb' (w q) rd' (Q q) (B q)" for q using all [of q] by simp
    from Cons.IH [OF this r(4)] show ?thesis using r(1) Nil by simp
  next
    case (Cons x xs)
    then show ?thesis using r(1,4) all by auto
  qed
qed

lemma rr_pull_spec:
  assumes "\<And>p. lane_inv k p rb (w p) rd (Q p) (B p)" "reader_synced rb rd"
  shows "\<exists>rb' rd'. rr_pull rb rd = (Inr (fst (abs_pull Q)), rb', rd')
    \<and> (\<forall>p. lane_inv k p rb' (w p) rd' (snd (abs_pull Q) p) (B p)) \<and> reader_synced rb' rd'"
proof -
  have "(case find (\<lambda>p. Q p \<noteq> []) PRIO_ALL of None \<Rightarrow> None | Some p \<Rightarrow> Some (hd (Q p))) = fst (abs_pull Q)"
    "(case find (\<lambda>p. Q p \<noteq> []) PRIO_ALL of None \<Rightarrow> Q | Some p \<Rightarrow> Q(p := tl (Q p))) = snd (abs_pull Q)"
    by (simp_all add: abs_pull_def split: option.split)
  then show ?thesis using rr_pull_loop_spec [OF assms, of PRIO_ALL] by (simp only: rr_pull_def)
qed

lemma rr_peek_loop_spec:
  assumes "\<And>p. lane_inv k p rb (w p) rd (Q p) (B p)" "reader_synced rb rd"
  shows "\<exists>rd'. rr_peek_loop ps rb rd =
      (Inr (map_option (\<lambda>p. (p, hd (Q p))) (find (\<lambda>p. Q p \<noteq> []) ps)), rd')
    \<and> (\<forall>p. lane_inv k p rb (w p) rd' (Q p) (B p)) \<and> reader_synced rb rd'"
  using assms
proof (induction ps arbitrary: rd)
  case Nil
  then show ?case by simp
next
  case (Cons p ps)
  obtain rd1 where e: "rr_is_empty p rb rd = (Q p = [], rd1)" "lane_inv k p rb (w p) rd1 (Q p) (B p)"
      "rr_local_r rd1 = rr_local_r rd" "rr_update rd1 = rr_update rd"
      "rr_cached_w rd1 = rr_cached_w rd \<or> rr_cached_w rd1 = rb_idx_w rb"
    using rr_is_empty_spec [OF Cons.prems(1)] by blast
  have fr: "reader_frame p rb rd rb rd1" using e by (simp add: reader_frame_def)
  have all: "lane_inv k q rb (w q) rd1 (Q q) (B q)" for q
    using lanes_inv_reader_frame [OF fr Cons.prems(1) e(2), of q] by simp
  have sy: "reader_synced rb rd1" using Cons.prems(2) e(3,4) by (simp add: reader_synced_def)
  show ?case
  proof (cases "Q p")
    case Nil
    then show ?thesis using Cons.IH [OF all sy] e(1) by simp
  next
    case (Cons x xs)
    then have "ring_get rb p (rr_local_r rd1) = Some x"
      using e(2) lane_facts(3) [OF e(2)] by (auto simp: ring_get_at lane_inv_def ring_lane_def dest: spec [of _ 0])
    then show ?thesis using e(1) Cons all sy by simp
  qed
qed

text \<open>Storing through the peeked reference replaces the oldest element of the lane.\<close>

lemma rr_peek_store_spec:
  assumes inv: "lane_inv k p rb w rd (x # xs) b"
  shows "lane_inv k p (rr_peek_store p t rb rd) w rd (t # xs) b
    \<and> reader_frame p rb rd (rr_peek_store p t rb rd) rd"
proof -
  note f = lane_facts [OF inv]
  have wf: "ring_wf k rb" using inv by (simp add: lane_inv_def)
  have le: "length (x # xs) \<le> 2 ^ k" using inv by (auto simp: lane_inv_def ring_lane_def split: if_splits)
  let ?r = "idx_index (rr_local_r rd) p"
  have put: "ring_at (rr_peek_store p t rb rd) p (?r + of_nat j) = (if j = 0 then Some t else ring_at rb p (?r + of_nat j))"
    if "j < 2 ^ k" for j
    using ring_at_put_same [OF wf, of "rr_local_r rd" p ?r 0 j "Some t"] that by (simp add: rr_peek_store_def)
  have ring: "rb_idx_r (rr_peek_store p t rb rd) = rb_idx_r rb" "rb_idx_w (rr_peek_store p t rb rd) = rb_idx_w rb"
    by (simp_all add: rr_peek_store_def)
  have iw: "idx_index (rb_idx_w rb) p = ?r + of_nat (length (x # xs))"
    using inv unfolding lane_inv_def ring_lane_def f(3) by blast
  have rl: "ring_lane k p (rr_peek_store p t rb rd) (t # xs) b"
    unfolding ring_lane_def ring f(3)
  proof (intro conjI allI impI)
    show "idx_index (rb_idx_w rb) p = ?r + of_nat (length (t # xs))" using iw by simp
    show "length (t # xs) + (if b = None then 0 else 1) \<le> 2 ^ k"
      using inv by (auto simp: lane_inv_def ring_lane_def split: if_splits)
  next
    fix j assume j: "j < length (t # xs)"
    have "ring_at rb p (?r + of_nat j) = Some ((x # xs) ! j)"
      using inv j unfolding lane_inv_def ring_lane_def f(3) by simp
    then show "ring_at (rr_peek_store p t rb rd) p (?r + of_nat j) = Some ((t # xs) ! j)"
      using put [of j] j le by (cases j) simp_all
  next
    assume b: "b \<noteq> None"
    then have "length (x # xs) < 2 ^ k" using inv by (auto simp: lane_inv_def ring_lane_def)
    then have "ring_at (rr_peek_store p t rb rd) p (idx_index (rb_idx_w rb) p) = ring_at rb p (idx_index (rb_idx_w rb) p)"
      unfolding iw using put [of "length (x # xs)"] by simp
    moreover have "ring_at rb p (idx_index (rb_idx_w rb) p) = b"
      using b inv unfolding lane_inv_def ring_lane_def by blast
    ultimately show "ring_at (rr_peek_store p t rb rd) p (idx_index (rb_idx_w rb) p) = b" by simp
  qed
  moreover have "writer_lane k p (rr_peek_store p t rb rd) w (t # xs) b" "reader_lane p (rr_peek_store p t rb rd) rd (t # xs)"
    using inv by (simp_all add: lane_inv_def writer_lane_def reader_lane_def ring)
  moreover have "reader_frame p rb rd (rr_peek_store p t rb rd) rd"
    by (auto simp: rr_peek_store_def reader_frame_def ring_at_put_other) (simp add: ring_put_def)
  ultimately show ?thesis using wf by (simp add: lane_inv_def rr_peek_store_def)
qed

section \<open>The interfaces\<close>

locale prio_channel =
  fixes inv :: "'s \<Rightarrow> 'a queues \<Rightarrow> bool"
    and cap :: nat
    and push :: "priority \<Rightarrow> 'a \<Rightarrow> 's \<Rightarrow> 'a option \<times> 's"
    and pull :: "'s \<Rightarrow> (ring_ub + 'a option) \<times> 's"
  assumes push_law: "inv s Q \<Longrightarrow> \<exists>s'. push p t s = (if length (Q p) = cap then Some t else None, s')
      \<and> inv s' (if length (Q p) = cap then Q else Q(p := Q p @ [t]))"
    and pull_law: "inv s Q \<Longrightarrow> \<exists>s'. pull s = (Inr (fst (abs_pull Q)), s') \<and> inv s' (snd (abs_pull Q))"
    and bounded: "inv s Q \<Longrightarrow> length (Q p) \<le> cap"

text \<open>Any sequence of calls, and what it answers.\<close>

datatype 'a chan_call = CallPush priority 'a | CallPull
datatype 'a chan_answer = Accepted | GivenBack 'a | Pulled "'a option" | Undefined

primrec run_calls :: "(priority \<Rightarrow> 'a \<Rightarrow> 's \<Rightarrow> 'a option \<times> 's) \<Rightarrow> ('s \<Rightarrow> (ring_ub + 'a option) \<times> 's) \<Rightarrow>
    'a chan_call list \<Rightarrow> 's \<Rightarrow> 'a chan_answer list" where
  "run_calls push pull [] s = []"
| "run_calls push pull (c # cs) s = (case c of
       CallPush p t \<Rightarrow> (case push p t s of
           (None, s') \<Rightarrow> Accepted # run_calls push pull cs s'
         | (Some x, s') \<Rightarrow> GivenBack x # run_calls push pull cs s')
     | CallPull \<Rightarrow> (case pull s of
           (Inr x, s') \<Rightarrow> Pulled x # run_calls push pull cs s'
         | (Inl _, s') \<Rightarrow> [Undefined]))"

text \<open>The specification: bounded queues, most urgent first.\<close>

definition queue_push :: "nat \<Rightarrow> priority \<Rightarrow> 'a \<Rightarrow> 'a queues \<Rightarrow> 'a option \<times> 'a queues" where
  "queue_push cap p t Q = (if length (Q p) = cap then (Some t, Q) else (None, Q(p := Q p @ [t])))"

definition queue_pull :: "'a queues \<Rightarrow> (ring_ub + 'a option) \<times> 'a queues" where
  "queue_pull Q = (Inr (fst (abs_pull Q)), snd (abs_pull Q))"

lemma queue_push_full: "length (Q p) = cap \<Longrightarrow> queue_push cap p t Q = (Some t, Q)"
  by (simp add: queue_push_def)

lemma queue_push_room: "length (Q p) \<noteq> cap \<Longrightarrow> queue_push cap p t Q = (None, Q(p := Q p @ [t]))"
  by (simp add: queue_push_def)

context prio_channel begin

lemma run_calls_spec: "inv s Q \<Longrightarrow> run_calls push pull cs s = run_calls (queue_push cap) queue_pull cs Q"
proof (induction cs arbitrary: s Q)
  case Nil
  then show ?case by simp
next
  case (Cons c cs)
  show ?case
  proof (cases c)
    case (CallPush p t)
    obtain s' where r: "push p t s = (if length (Q p) = cap then Some t else None, s')"
        "inv s' (if length (Q p) = cap then Q else Q(p := Q p @ [t]))"
      using push_law [OF Cons.prems] by blast
    note IH = Cons.IH [OF r(2)]
    show ?thesis
    proof (cases "length (Q p) = cap")
      case True
      then show ?thesis using r(1) IH queue_push_full [of Q p cap t] True by (simp add: CallPush)
    next
      case False
      have "run_calls push pull cs s' = run_calls (queue_push cap) queue_pull cs (Q(p := Q p @ [t]))"
        by (rule IH [unfolded if_not_P [OF False]])
      with r(1) [unfolded if_not_P [OF False]] queue_push_room [of Q p cap t, OF False] show ?thesis
        by (simp only: CallPush run_calls.simps chan_call.case prod.case option.case)
    qed
  next
    case CallPull
    obtain s' where "pull s = (Inr (fst (abs_pull Q)), s')" "inv s' (snd (abs_pull Q))"
      using pull_law [OF Cons.prems] by blast
    then show ?thesis using Cons.IH CallPull by (simp add: queue_pull_def)
  qed
qed

end

text \<open>A channel that is filled through booked slots.\<close>

locale booking_channel =
  fixes inv :: "'s \<Rightarrow> 'a queues \<Rightarrow> (priority \<Rightarrow> 'a option) \<Rightarrow> bool"
    and cap :: nat
    and book :: "priority \<Rightarrow> 'a \<Rightarrow> 's \<Rightarrow> ('a + unit) \<times> 's"
    and peek :: "priority \<Rightarrow> 's \<Rightarrow> bool"
    and deref :: "priority \<Rightarrow> 's \<Rightarrow> ring_ub + 'a"
    and store :: "priority \<Rightarrow> 'a \<Rightarrow> 's \<Rightarrow> 's"
    and commit :: "priority \<Rightarrow> 's \<Rightarrow> 's"
    and pull :: "'s \<Rightarrow> (ring_ub + 'a option) \<times> 's"
    and pull_priority :: "priority \<Rightarrow> 's \<Rightarrow> (ring_ub + 'a pull) \<times> 's"
  assumes book_law: "inv s Q B \<Longrightarrow> \<exists>s'. book p t s = (if B p = None \<and> length (Q p) < cap then Inr () else Inl t, s')
      \<and> inv s' Q (if B p = None \<and> length (Q p) < cap then B(p := Some t) else B)"
    and peek_law: "inv s Q B \<Longrightarrow> peek p s = (B p \<noteq> None)"
    and deref_law: "inv s Q B \<Longrightarrow> B p = Some t \<Longrightarrow> deref p s = Inr t"
    and store_law: "inv s Q B \<Longrightarrow> B p \<noteq> None \<Longrightarrow> inv (store p t s) Q (B(p := Some t))"
    and commit_law: "inv s Q B \<Longrightarrow> B p = Some t \<Longrightarrow> inv (commit p s) (Q(p := Q p @ [t])) (B(p := None))"
    and pull_law: "inv s Q B \<Longrightarrow> \<exists>s'. pull s = (Inr (fst (abs_pull Q)), s') \<and> inv s' (snd (abs_pull Q)) B"
    and pull_priority_law: "inv s Q B \<Longrightarrow> \<exists>s'. pull_priority p s = (Inr (abs_pull_priority p Q B), s')
      \<and> inv s' (Q(p := tl (Q p))) B"
    and bounded: "inv s Q B \<Longrightarrow> length (Q p) + (if B p = None then 0 else 1) \<le> cap"

text \<open>
  Calls on such a channel.  A store and a commit go through the \<open>WriterPeek\<close> that \<open>peek\<close>
  gives, if it gives one.
\<close>

datatype 'a book_call = CallBook priority 'a | CallStore priority 'a | CallCommit priority
  | CallPullAny | CallPullLane priority
datatype 'a book_answer = Booked | Refused 'a | HadPeek bool | PulledAny "'a option" | PulledLane "'a pull" | Broken

primrec run_book_calls :: "(priority \<Rightarrow> 'a \<Rightarrow> 's \<Rightarrow> ('a + unit) \<times> 's) \<Rightarrow> (priority \<Rightarrow> 's \<Rightarrow> bool) \<Rightarrow>
    (priority \<Rightarrow> 'a \<Rightarrow> 's \<Rightarrow> 's) \<Rightarrow> (priority \<Rightarrow> 's \<Rightarrow> 's) \<Rightarrow> ('s \<Rightarrow> (ring_ub + 'a option) \<times> 's) \<Rightarrow>
    (priority \<Rightarrow> 's \<Rightarrow> (ring_ub + 'a pull) \<times> 's) \<Rightarrow> 'a book_call list \<Rightarrow> 's \<Rightarrow> 'a book_answer list" where
  "run_book_calls book peek store commit pull pullp [] s = []"
| "run_book_calls book peek store commit pull pullp (c # cs) s =
     (let go = run_book_calls book peek store commit pull pullp cs in
      case c of
       CallBook p t \<Rightarrow> (case book p t s of
           (Inr _, s') \<Rightarrow> Booked # go s' | (Inl x, s') \<Rightarrow> Refused x # go s')
     | CallStore p t \<Rightarrow> HadPeek (peek p s) # go (if peek p s then store p t s else s)
     | CallCommit p \<Rightarrow> HadPeek (peek p s) # go (if peek p s then commit p s else s)
     | CallPullAny \<Rightarrow> (case pull s of (Inr x, s') \<Rightarrow> PulledAny x # go s' | (Inl _, s') \<Rightarrow> [Broken])
     | CallPullLane p \<Rightarrow> (case pullp p s of (Inr x, s') \<Rightarrow> PulledLane x # go s' | (Inl _, s') \<Rightarrow> [Broken]))"

text \<open>The specification works on the queues and what is booked.\<close>

type_synonym 'a booking = "'a queues \<times> (priority \<Rightarrow> 'a option)"

definition spec_book :: "nat \<Rightarrow> priority \<Rightarrow> 'a \<Rightarrow> 'a booking \<Rightarrow> ('a + unit) \<times> 'a booking" where
  "spec_book cap p t S = (case S of (Q, B) \<Rightarrow>
     if B p = None \<and> length (Q p) < cap then (Inr (), Q, B(p := Some t)) else (Inl t, Q, B))"

definition spec_peek :: "priority \<Rightarrow> 'a booking \<Rightarrow> bool" where
  "spec_peek p S \<longleftrightarrow> snd S p \<noteq> None"

definition spec_store :: "priority \<Rightarrow> 'a \<Rightarrow> 'a booking \<Rightarrow> 'a booking" where
  "spec_store p t S = (fst S, (snd S)(p := Some t))"

definition spec_commit :: "priority \<Rightarrow> 'a booking \<Rightarrow> 'a booking" where
  "spec_commit p S = (case S of (Q, B) \<Rightarrow> (Q(p := Q p @ [the (B p)]), B(p := None)))"

definition spec_pull :: "'a booking \<Rightarrow> (ring_ub + 'a option) \<times> 'a booking" where
  "spec_pull S = (case S of (Q, B) \<Rightarrow> (Inr (fst (abs_pull Q)), snd (abs_pull Q), B))"

definition spec_pull_lane :: "priority \<Rightarrow> 'a booking \<Rightarrow> (ring_ub + 'a pull) \<times> 'a booking" where
  "spec_pull_lane p S = (case S of (Q, B) \<Rightarrow> (Inr (abs_pull_priority p Q B), Q(p := tl (Q p)), B))"

context booking_channel begin

lemma run_book_calls_spec:
  "inv s Q B \<Longrightarrow> run_book_calls book peek store commit pull pull_priority cs s
     = run_book_calls (spec_book cap) spec_peek spec_store spec_commit spec_pull spec_pull_lane cs (Q, B)"
proof (induction cs arbitrary: s Q B)
  case Nil
  then show ?case by simp
next
  case (Cons c cs)
  note inv = Cons.prems
  show ?case
  proof (cases c)
    case (CallBook p t)
    obtain s' where r: "book p t s = (if B p = None \<and> length (Q p) < cap then Inr () else Inl t, s')"
        "inv s' Q (if B p = None \<and> length (Q p) < cap then B(p := Some t) else B)"
      using book_law [OF inv] by blast
    show ?thesis
    proof (cases "B p = None \<and> length (Q p) < cap")
      case True
      then have "spec_book cap p t (Q, B) = (Inr (), Q, B(p := Some t))" by (simp add: spec_book_def)
      with Cons.IH [OF r(2) [unfolded if_P [OF True]]] r(1) [unfolded if_P [OF True]] show ?thesis
        by (simp only: CallBook run_book_calls.simps Let_def book_call.case prod.case sum.case)
    next
      case False
      then have "spec_book cap p t (Q, B) = (Inl t, Q, B)" by (auto simp: spec_book_def)
      with Cons.IH [OF r(2) [unfolded if_not_P [OF False]]] r(1) [unfolded if_not_P [OF False]] show ?thesis
        by (simp only: CallBook run_book_calls.simps Let_def book_call.case prod.case sum.case)
    qed
  next
    case (CallStore p t)
    have pk: "peek p s = (B p \<noteq> None)" "spec_peek p (Q, B) = (B p \<noteq> None)"
      using peek_law [OF inv] by (simp_all add: spec_peek_def)
    have "inv (if B p \<noteq> None then store p t s else s) Q (if B p \<noteq> None then B(p := Some t) else B)"
      using inv store_law [OF inv] by simp
    moreover have "(if B p \<noteq> None then spec_store p t (Q, B) else (Q, B)) = (Q, if B p \<noteq> None then B(p := Some t) else B)"
      by (simp add: spec_store_def)
    ultimately show ?thesis using Cons.IH by (simp only: CallStore pk run_book_calls.simps Let_def book_call.case)
  next
    case (CallCommit p)
    have pk: "peek p s = (B p \<noteq> None)" "spec_peek p (Q, B) = (B p \<noteq> None)"
      using peek_law [OF inv] by (simp_all add: spec_peek_def)
    have "inv (if B p \<noteq> None then commit p s else s) (if B p \<noteq> None then Q(p := Q p @ [the (B p)]) else Q)
        (if B p \<noteq> None then B(p := None) else B)"
      using inv commit_law [OF inv, of p] by (cases "B p") simp_all
    moreover have "(if B p \<noteq> None then spec_commit p (Q, B) else (Q, B)) =
        (if B p \<noteq> None then Q(p := Q p @ [the (B p)]) else Q, if B p \<noteq> None then B(p := None) else B)"
      by (simp add: spec_commit_def)
    ultimately show ?thesis using Cons.IH by (simp only: CallCommit pk run_book_calls.simps Let_def book_call.case)
  next
    case CallPullAny
    obtain s' where "pull s = (Inr (fst (abs_pull Q)), s')" "inv s' (snd (abs_pull Q)) B"
      using pull_law [OF inv] by blast
    then show ?thesis using Cons.IH by (simp add: CallPullAny spec_pull_def)
  next
    case (CallPullLane p)
    obtain s' where r: "pull_priority p s = (Inr (abs_pull_priority p Q B), s')" "inv s' (Q(p := tl (Q p))) B"
      using pull_priority_law [OF inv] by blast
    have "spec_pull_lane p (Q, B) = (Inr (abs_pull_priority p Q B), Q(p := tl (Q p)), B)"
      by (simp add: spec_pull_lane_def)
    with r(1) Cons.IH [OF r(2)] show ?thesis
      by (simp only: CallPullLane run_book_calls.simps Let_def book_call.case prod.case sum.case)
  qed
qed

end

text \<open>A channel that is pulled lane by lane.\<close>

locale lane_channel =
  fixes inv :: "'s \<Rightarrow> 'a queues \<Rightarrow> bool"
    and cap :: nat
    and push :: "priority \<Rightarrow> 'a \<Rightarrow> 's \<Rightarrow> 'a option \<times> 's"
    and pull :: "priority \<Rightarrow> 's \<Rightarrow> (ring_ub + 'a option) \<times> 's"
  assumes push_law: "inv s Q \<Longrightarrow> \<exists>s'. push p t s = (if length (Q p) = cap then Some t else None, s')
      \<and> inv s' (if length (Q p) = cap then Q else Q(p := Q p @ [t]))"
    and pull_law: "inv s Q \<Longrightarrow> \<exists>s'. pull p s = (Inr (case Q p of [] \<Rightarrow> None | x # _ \<Rightarrow> Some x), s')
      \<and> inv s' (Q(p := tl (Q p)))"
    and bounded: "inv s Q \<Longrightarrow> length (Q p) \<le> cap"

text \<open>Calls on a channel whose lanes are pulled one by one.\<close>

datatype 'a lane_call = LanePush priority 'a | LanePull priority

primrec run_lane_calls :: "(priority \<Rightarrow> 'a \<Rightarrow> 's \<Rightarrow> 'a option \<times> 's) \<Rightarrow>
    (priority \<Rightarrow> 's \<Rightarrow> (ring_ub + 'a option) \<times> 's) \<Rightarrow> 'a lane_call list \<Rightarrow> 's \<Rightarrow> 'a chan_answer list" where
  "run_lane_calls push pull [] s = []"
| "run_lane_calls push pull (c # cs) s = (case c of
       LanePush p t \<Rightarrow> (case push p t s of
           (None, s') \<Rightarrow> Accepted # run_lane_calls push pull cs s'
         | (Some x, s') \<Rightarrow> GivenBack x # run_lane_calls push pull cs s')
     | LanePull p \<Rightarrow> (case pull p s of
           (Inr x, s') \<Rightarrow> Pulled x # run_lane_calls push pull cs s'
         | (Inl _, s') \<Rightarrow> [Undefined]))"

definition queue_pull_lane :: "priority \<Rightarrow> 'a queues \<Rightarrow> (ring_ub + 'a option) \<times> 'a queues" where
  "queue_pull_lane p Q = (Inr (case Q p of [] \<Rightarrow> None | x # _ \<Rightarrow> Some x), Q(p := tl (Q p)))"

context lane_channel begin

lemma run_lane_calls_spec:
  "inv s Q \<Longrightarrow> run_lane_calls push pull cs s = run_lane_calls (queue_push cap) queue_pull_lane cs Q"
proof (induction cs arbitrary: s Q)
  case Nil
  then show ?case by simp
next
  case (Cons c cs)
  show ?case
  proof (cases c)
    case (LanePush p t)
    obtain s' where r: "push p t s = (if length (Q p) = cap then Some t else None, s')"
        "inv s' (if length (Q p) = cap then Q else Q(p := Q p @ [t]))"
      using push_law [OF Cons.prems] by blast
    show ?thesis
    proof (cases "length (Q p) = cap")
      case True
      with r(1) [unfolded if_P [OF True]] Cons.IH [OF r(2) [unfolded if_P [OF True]]]
        queue_push_full [of Q p cap t, OF True] show ?thesis
        by (simp only: LanePush run_lane_calls.simps lane_call.case prod.case option.case)
    next
      case False
      with r(1) [unfolded if_not_P [OF False]] Cons.IH [OF r(2) [unfolded if_not_P [OF False]]]
        queue_push_room [of Q p cap t, OF False] show ?thesis
        by (simp only: LanePush run_lane_calls.simps lane_call.case prod.case option.case)
    qed
  next
    case (LanePull p)
    obtain s' where r: "pull p s = (Inr (case Q p of [] \<Rightarrow> None | x # _ \<Rightarrow> Some x), s')" "inv s' (Q(p := tl (Q p)))"
      using pull_law [OF Cons.prems] by blast
    from Cons.IH [OF r(2)] r(1) show ?thesis
      by (simp only: LanePull run_lane_calls.simps lane_call.case prod.case sum.case queue_pull_lane_def)
  qed
qed

end

section \<open>Dropping the buffer\<close>

lemma ring_drain_lane_spec:
  assumes "ring_wf k rb" "length q \<le> 2 ^ k" "length q < fuel"
    "idx_index (rb_idx_w rb) p = idx_index i p + of_nat (length q)"
    "\<And>j. j < length q \<Longrightarrow> ring_at rb p (idx_index i p + of_nat j) = Some (q ! j)"
  shows "ring_drain_lane fuel rb p i = Some (Inr q)"
  using assms
proof (induction fuel arbitrary: rb i q)
  case 0
  then show ?case by simp
next
  case (Suc fuel)
  have len: "length q \<le> 128" using Suc.prems(1,2) two_pow_le_128 [of k] by (simp add: ring_wf_def)
  show ?case
  proof (cases q)
    case Nil
    then show ?thesis using Suc.prems(4) by simp
  next
    case (Cons x xs)
    have "of_nat (length q) \<noteq> (0 :: u8)"
      using unat_of_nat_u8 [OF len] Cons by (metis length_0_conv list.distinct(1) unat_0)
    then have ne: "idx_index i p \<noteq> idx_index (rb_idx_w rb) p" using Suc.prems(4) by simp
    have get: "ring_get rb p i = Some x" using Suc.prems(5) [of 0] Cons by (simp add: ring_get_at)
    have at: "ring_at (ring_put rb p i None) p (idx_index i p + of_nat (Suc j)) = Some (xs ! j)"
      if "j < length xs" for j
      using ring_at_put_same [OF Suc.prems(1), of i p "idx_index i p" 0 "Suc j" None] Suc.prems(2) Suc.prems(5) [of "Suc j"]
        that Cons by simp
    have "ring_drain_lane fuel (ring_put rb p i None) p (idx_increment i p) = Some (Inr xs)"
      using Suc.prems Cons at by (intro Suc.IH) (simp_all add: algebra_simps)
    then show ?thesis using ne get Cons by simp
  qed
qed

lemma ring_drop_spec:
  assumes inv: "lane_inv k p rb w rd q b"
  shows "ring_drop rb p = Some (Inr q)"
proof -
  have le: "length q \<le> 2 ^ k" using inv by (auto simp: lane_inv_def ring_lane_def split: if_splits)
  moreover have "length q \<le> 128" by (rule lane_facts(1) [OF inv])
  ultimately show ?thesis
    using inv unfolding ring_drop_def lane_inv_def ring_lane_def
    by (intro ring_drain_lane_spec [of k]) auto
qed

section \<open>One writer, one reader\<close>

definition spsc_inv :: "nat \<Rightarrow> 'a spsc \<Rightarrow> 'a queues \<Rightarrow> bool" where
  "spsc_inv k s Q \<longleftrightarrow> (\<forall>p. lane_inv k p (ss_ring s) (ss_writer s) (ss_reader s) (Q p) None)
     \<and> writer_synced (ss_ring s) (ss_writer s) \<and> reader_synced (ss_ring s) (ss_reader s)"

lemma reader_synced_writer_frame:
  "writer_frame p rb w rb' w' \<Longrightarrow> reader_synced rb rd \<Longrightarrow> reader_synced rb' rd"
  by (simp add: writer_frame_def reader_synced_def)

lemma writer_synced_reader_frame:
  "reader_frame p rb rd rb' rd' \<Longrightarrow> writer_synced rb w \<Longrightarrow> writer_synced rb' w"
  by (simp add: reader_frame_def writer_synced_def)

lemma rr_pull_loop_idx_w: "rb_idx_w (fst (snd (rr_pull_loop ps rb rd))) = rb_idx_w rb"
proof (induction ps arbitrary: rb rd)
  case (Cons p ps)
  have "rb_idx_w (fst (snd (rr_pull_inner p rb rd))) = rb_idx_w rb"
    by (simp add: rr_pull_inner_def Let_def split: prod.splits bool.splits option.splits)
  then show ?case using Cons.IH
    by (auto split: prod.splits sum.splits option.splits)
qed simp

lemma writer_synced_pull: "rr_pull rb rd = (res, rb', rd') \<Longrightarrow> writer_synced rb w \<Longrightarrow> writer_synced rb' w"
  using rr_pull_loop_idx_w [of PRIO_ALL rb rd] by (simp add: rr_pull_def writer_synced_def)

lemma ring_new_idx: "ring_new c = Some rb \<Longrightarrow> rb_idx_w rb = idx_new \<and> rb_idx_r rb = idx_new"
  by (auto simp: ring_new_def split: if_splits)

lemma ringbuffer_spsc_exists: "k \<le> 7 \<Longrightarrow> \<exists>s. ringbuffer_spsc (2 ^ k) = Some s"
  using ring_new_Some_iff [of "2 ^ k"] by (auto simp: ringbuffer_spsc_def)

lemma spsc_inv_new:
  fixes s :: "'a spsc"
  assumes "k \<le> 7" "ringbuffer_spsc (2 ^ k) = Some s"
  shows "spsc_inv k s (\<lambda>_. [])"
proof -
  obtain rb :: "'a ring" where rb: "ring_new (2 ^ k) = Some rb" using assms(2) by (auto simp: ringbuffer_spsc_def)
  note * = lane_inv_new [OF rb assms(1), of _ UpdateS UpdateS] ring_new_idx [OF rb]
  show ?thesis using assms(2) * by (simp add: ringbuffer_spsc_def spsc_inv_def rb writer_synced_def reader_synced_def
      rw_new_def rr_new_def)
      (auto simp: rw_new_def rr_new_def)
qed

lemma spsc_push_law:
  assumes "spsc_inv k s Q"
  shows "\<exists>s'. spsc_push p t s = (if length (Q p) = 2 ^ k then Some t else None, s')
      \<and> spsc_inv k s' (if length (Q p) = 2 ^ k then Q else Q(p := Q p @ [t]))"
proof -
  have inv: "lane_inv k q (ss_ring s) (ss_writer s) (ss_reader s) (Q q) None" for q
    using assms by (simp add: spsc_inv_def)
  obtain rb' w' where r: "rw_push p t (ss_ring s) (ss_writer s) = (if length (Q p) = 2 ^ k then Some t else None, rb', w')"
      "lane_inv k p rb' w' (ss_reader s) (if length (Q p) = 2 ^ k then Q p else Q p @ [t]) None"
      "writer_frame p (ss_ring s) (ss_writer s) rb' w'" "writer_synced rb' w'"
    using rw_push_spec [OF inv, of p t] assms unfolding spsc_inv_def by blast
  have "lane_inv k q rb' w' (ss_reader s) ((if length (Q p) = 2 ^ k then Q else Q(p := Q p @ [t])) q) None" for q
    using r(2) lane_inv_writer_frame [OF r(3) _ inv, of q] by (cases "q = p") auto
  then show ?thesis
    using r reader_synced_writer_frame [OF r(3)] assms
    by (auto simp: spsc_push_def spsc_inv_def)
qed

lemma spsc_pull_law:
  assumes "spsc_inv k s Q"
  shows "\<exists>s'. spsc_pull s = (Inr (fst (abs_pull Q)), s') \<and> spsc_inv k s' (snd (abs_pull Q))"
proof -
  obtain rb' rd' where r: "rr_pull (ss_ring s) (ss_reader s) = (Inr (fst (abs_pull Q)), rb', rd')"
      "\<forall>p. lane_inv k p rb' (ss_writer s) rd' (snd (abs_pull Q) p) None" "reader_synced rb' rd'"
    using rr_pull_spec [of k "ss_ring s" "\<lambda>_. ss_writer s" "ss_reader s" Q "\<lambda>_. None"] assms
    by (auto simp: spsc_inv_def)
  then show ?thesis
    using writer_synced_pull [OF r(1)] assms by (simp add: spsc_pull_def spsc_inv_def)
qed

lemma lane_bounded: "lane_inv k p rb w rd q b \<Longrightarrow> length q + (if b = None then 0 else 1) \<le> 2 ^ k"
  by (simp add: lane_inv_def ring_lane_def)

lemma spsc_bounded: "spsc_inv k s Q \<Longrightarrow> length (Q p) \<le> 2 ^ k"
  unfolding spsc_inv_def using lane_bounded [of k p "ss_ring s" _ _ "Q p" None] by fastforce

interpretation spsc: prio_channel "spsc_inv k" "2 ^ k" spsc_push spsc_pull
proof unfold_locales
  show "length (Q p) \<le> 2 ^ k" if "spsc_inv k s Q" for s :: "'a spsc" and Q p
    by (rule spsc_bounded [OF that])
qed (rule spsc_push_law spsc_pull_law, assumption)+

lemma spsc_peek_mut_law:
  assumes "spsc_inv k s Q"
  shows "\<exists>s'. spsc_peek_mut s = (Inr (abs_peek Q), s') \<and> spsc_inv k s' Q"
proof -
  obtain rd' where r: "rr_peek_mut (ss_ring s) (ss_reader s) = (Inr (abs_peek Q), rd')"
      "\<forall>p. lane_inv k p (ss_ring s) (ss_writer s) rd' (Q p) None" "reader_synced (ss_ring s) rd'"
    using rr_peek_loop_spec [of k "ss_ring s" "\<lambda>_. ss_writer s" "ss_reader s" Q "\<lambda>_. None" PRIO_ALL] assms
    by (auto simp: spsc_inv_def rr_peek_mut_def abs_peek_def)
  then show ?thesis using assms by (simp add: spsc_peek_mut_def spsc_inv_def)
qed

lemma spsc_peek_store_law:
  assumes "spsc_inv k s Q" "Q p = x # xs"
  shows "spsc_inv k (spsc_peek_store p t s) (Q(p := t # xs))"
proof -
  have inv: "lane_inv k q (ss_ring s) (ss_writer s) (ss_reader s) (Q q) None" for q
    using assms by (simp add: spsc_inv_def)
  note st = rr_peek_store_spec [OF inv [of p, unfolded assms(2)], of t]
  have "lane_inv k q (rr_peek_store p t (ss_ring s) (ss_reader s)) (ss_writer s) (ss_reader s) ((Q(p := t # xs)) q) None" for q
    using st lane_inv_reader_frame [OF conjunct2 [OF st] _ inv, of q] by (cases "q = p") auto
  then show ?thesis
    using assms(1) by (simp add: spsc_peek_store_def spsc_inv_def writer_synced_def reader_synced_def rr_peek_store_def)
qed

section \<open>A writer per priority, one reader\<close>

definition mpsc_inv :: "nat \<Rightarrow> 'a mpsc \<Rightarrow> 'a queues \<Rightarrow> (priority \<Rightarrow> 'a option) \<Rightarrow> bool" where
  "mpsc_inv k s Q B \<longleftrightarrow> (\<forall>p. lane_inv k p (ms_ring s) (ms_writers s p) (ms_reader s) (Q p) (B p)
       \<and> rw_update (ms_writers s p) = UpdateM)
     \<and> reader_synced (ms_ring s) (ms_reader s)"

lemma ringbuffer_mpsc_exists: "k \<le> 7 \<Longrightarrow> \<exists>s. ringbuffer_mpsc (2 ^ k) = Some s"
  using ring_new_Some_iff [of "2 ^ k"] by (auto simp: ringbuffer_mpsc_def)

lemma mpsc_inv_new:
  fixes s :: "'a mpsc"
  assumes "k \<le> 7" "ringbuffer_mpsc (2 ^ k) = Some s"
  shows "mpsc_inv k s (\<lambda>_. []) (\<lambda>_. None)"
proof -
  obtain rb :: "'a ring" where rb: "ring_new (2 ^ k) = Some rb" using assms(2) by (auto simp: ringbuffer_mpsc_def)
  note * = lane_inv_new [OF rb assms(1), of _ UpdateM UpdateS] ring_new_idx [OF rb]
  show ?thesis using assms(2) * by (simp add: ringbuffer_mpsc_def mpsc_inv_def rb writer_synced_def reader_synced_def
      rw_new_def rr_new_def)
      (auto simp: rw_new_def rr_new_def)
qed

text \<open>An operation of the writer of \<open>p\<close> that keeps to its lane keeps the whole.\<close>

lemma mpsc_inv_writer:
  assumes inv: "mpsc_inv k s Q B" and fr: "writer_frame p (ms_ring s) (ms_writers s p) rb' w'"
    and l: "lane_inv k p rb' w' (ms_reader s) q b"
  shows "mpsc_inv k (s\<lparr>ms_ring := rb', ms_writers := (ms_writers s)(p := w')\<rparr>) (Q(p := q)) (B(p := b))"
proof -
  have "lane_inv k r rb' (((ms_writers s)(p := w')) r) (ms_reader s) ((Q(p := q)) r) ((B(p := b)) r)" for r
    using l lane_inv_other_writer [OF fr, of r k "ms_writers s r" "ms_reader s" "Q r" "B r"] inv
    by (cases "r = p") (auto simp: mpsc_inv_def)
  moreover have "rw_update w' = UpdateM" using fr inv by (simp add: writer_frame_def mpsc_inv_def)
  ultimately show ?thesis
    using inv reader_synced_writer_frame [OF fr] by (auto simp: mpsc_inv_def)
qed

lemma mpsc_synced: "mpsc_inv k s Q B \<Longrightarrow> writer_synced (ms_ring s) (ms_writers s p)"
  by (simp add: mpsc_inv_def writer_synced_def)

lemma mpsc_lane: "mpsc_inv k s Q B \<Longrightarrow> lane_inv k p (ms_ring s) (ms_writers s p) (ms_reader s) (Q p) (B p)"
  by (simp add: mpsc_inv_def)

lemma mpsc_book_law:
  assumes inv: "mpsc_inv k s Q B"
  shows "\<exists>s'. mpsc_book p t s = (if B p = None \<and> length (Q p) < 2 ^ k then Inr () else Inl t, s')
      \<and> mpsc_inv k s' Q (if B p = None \<and> length (Q p) < 2 ^ k then B(p := Some t) else B)"
proof -
  obtain rb' w' where r: "rw_book p t (ms_ring s) (ms_writers s p) =
        (if B p = None \<and> length (Q p) < 2 ^ k then Inr () else Inl t, rb', w')"
      "lane_inv k p rb' w' (ms_reader s) (Q p) (if B p = None \<and> length (Q p) < 2 ^ k then Some t else B p)"
      "writer_frame p (ms_ring s) (ms_writers s p) rb' w'"
    using rw_book_spec [OF mpsc_lane [OF inv] mpsc_synced [OF inv]] by blast
  have "mpsc_inv k (s\<lparr>ms_ring := rb', ms_writers := (ms_writers s)(p := w')\<rparr>) Q
      (if B p = None \<and> length (Q p) < 2 ^ k then B(p := Some t) else B)"
    using mpsc_inv_writer [OF inv r(3,2)] by (cases "B p = None \<and> length (Q p) < 2 ^ k") auto
  then show ?thesis using r(1) by (simp add: mpsc_book_def)
qed

lemma mpsc_store_law:
  assumes "mpsc_inv k s Q B" "B p \<noteq> None"
  shows "mpsc_inv k (mpsc_store p t s) Q (B(p := Some t))"
proof -
  obtain x where x: "B p = Some x" using assms(2) by blast
  have "mpsc_inv k (s\<lparr>ms_ring := wp_store p t (ms_ring s) (ms_writers s p),
      ms_writers := (ms_writers s)(p := ms_writers s p)\<rparr>) (Q(p := Q p)) (B(p := Some t))"
    using wp_store_spec [OF mpsc_lane [OF assms(1), of p, unfolded x], of t]
    by (intro mpsc_inv_writer [OF assms(1)]) auto
  then show ?thesis by (simp add: mpsc_store_def)
qed

lemma mpsc_commit_law:
  assumes "mpsc_inv k s Q B" "B p = Some t"
  shows "mpsc_inv k (mpsc_commit p s) (Q(p := Q p @ [t])) (B(p := None))"
proof -
  obtain rb' w' where "wp_commit p (ms_ring s) (ms_writers s p) = (rb', w')"
      "lane_inv k p rb' w' (ms_reader s) (Q p @ [t]) None" "writer_frame p (ms_ring s) (ms_writers s p) rb' w'"
    using wp_commit_spec [OF mpsc_lane [OF assms(1), of p, unfolded assms(2)] mpsc_synced [OF assms(1)]] by blast
  then show ?thesis using mpsc_inv_writer [OF assms(1)] by (simp add: mpsc_commit_def)
qed

lemma mpsc_pull_law:
  assumes "mpsc_inv k s Q B"
  shows "\<exists>s'. mpsc_pull s = (Inr (fst (abs_pull Q)), s') \<and> mpsc_inv k s' (snd (abs_pull Q)) B"
  using rr_pull_spec [of k "ms_ring s" "ms_writers s" "ms_reader s" Q B] assms
  by (auto simp: mpsc_inv_def mpsc_pull_def)

lemma mpsc_pull_priority_law:
  assumes inv: "mpsc_inv k s Q B"
  shows "\<exists>s'. mpsc_pull_priority p s = (Inr (abs_pull_priority p Q B), s') \<and> mpsc_inv k s' (Q(p := tl (Q p))) B"
proof -
  obtain rb' rd' where r: "rr_pull_priority p (ms_ring s) (ms_reader s) =
      (Inr (case Q p of x # _ \<Rightarrow> PullSome x | [] \<Rightarrow> if B p = None then PullNone else PullBooked), rb', rd')"
     "lane_inv k p rb' (ms_writers s p) rd' (tl (Q p)) (B p)" "reader_frame p (ms_ring s) (ms_reader s) rb' rd'"
     "reader_synced rb' rd'"
    using rr_pull_priority_spec [OF mpsc_lane [OF inv], of p] inv by (auto simp: mpsc_inv_def)
  have "lane_inv k q rb' (ms_writers s q) rd' ((Q(p := tl (Q p))) q) (B q)" for q
    by (rule lanes_inv_reader_frame [OF r(3) mpsc_lane [OF inv] r(2)])
  then show ?thesis using r(1,4) inv by (auto simp: mpsc_pull_priority_def abs_pull_priority_def mpsc_inv_def)
qed

interpretation mpsc: booking_channel "mpsc_inv k" "2 ^ k" mpsc_book mpsc_peek mpsc_deref mpsc_store
    mpsc_commit mpsc_pull mpsc_pull_priority
proof unfold_locales
  fix s :: "'a mpsc" and Q B p assume inv: "mpsc_inv k s Q B"
  show "mpsc_peek p s = (B p \<noteq> None)" using rw_peek_spec [OF mpsc_lane [OF inv]] by (simp add: mpsc_peek_def)
  show "length (Q p) + (if B p = None then 0 else 1) \<le> 2 ^ k" by (rule lane_bounded [OF mpsc_lane [OF inv]])
  show "mpsc_deref p s = Inr t" if "B p = Some t" for t
    using wp_deref_spec [OF mpsc_lane [OF inv, of p, unfolded that]] by (simp add: mpsc_deref_def)
qed (simp_all add: mpsc_book_law mpsc_store_law mpsc_commit_law mpsc_pull_law mpsc_pull_priority_law)

section \<open>One writer, a reader per priority\<close>

definition spmc_inv :: "nat \<Rightarrow> 'a spmc \<Rightarrow> 'a queues \<Rightarrow> bool" where
  "spmc_inv k s Q \<longleftrightarrow> (\<forall>p. lane_inv k p (sm_ring s) (sm_writer s) (sm_readers s p) (Q p) None
       \<and> rr_update (sm_readers s p) = UpdateM)
     \<and> writer_synced (sm_ring s) (sm_writer s)"

lemma ringbuffer_spmc_exists: "k \<le> 7 \<Longrightarrow> \<exists>s. ringbuffer_spmc (2 ^ k) = Some s"
  using ring_new_Some_iff [of "2 ^ k"] by (auto simp: ringbuffer_spmc_def)

lemma spmc_inv_new:
  fixes s :: "'a spmc"
  assumes "k \<le> 7" "ringbuffer_spmc (2 ^ k) = Some s"
  shows "spmc_inv k s (\<lambda>_. [])"
proof -
  obtain rb :: "'a ring" where rb: "ring_new (2 ^ k) = Some rb" using assms(2) by (auto simp: ringbuffer_spmc_def)
  note * = lane_inv_new [OF rb assms(1), of _ UpdateS UpdateM] ring_new_idx [OF rb]
  show ?thesis using assms(2) * by (simp add: ringbuffer_spmc_def spmc_inv_def rb writer_synced_def reader_synced_def
      rw_new_def rr_new_def)
      (auto simp: rw_new_def rr_new_def)
qed

lemma spmc_push_law:
  assumes "spmc_inv k s Q"
  shows "\<exists>s'. spmc_push p t s = (if length (Q p) = 2 ^ k then Some t else None, s')
      \<and> spmc_inv k s' (if length (Q p) = 2 ^ k then Q else Q(p := Q p @ [t]))"
proof -
  have inv: "lane_inv k q (sm_ring s) (sm_writer s) (sm_readers s q) (Q q) None" for q
    using assms by (simp add: spmc_inv_def)
  obtain rb' w' where r: "rw_push p t (sm_ring s) (sm_writer s) = (if length (Q p) = 2 ^ k then Some t else None, rb', w')"
      "lane_inv k p rb' w' (sm_readers s p) (if length (Q p) = 2 ^ k then Q p else Q p @ [t]) None"
      "writer_frame p (sm_ring s) (sm_writer s) rb' w'" "writer_synced rb' w'"
    using rw_push_spec [OF inv, of p t] assms unfolding spmc_inv_def by blast
  have "lane_inv k q rb' w' (sm_readers s q) ((if length (Q p) = 2 ^ k then Q else Q(p := Q p @ [t])) q) None" for q
    using r(2) lane_inv_writer_frame [OF r(3) _ inv, of q] by (cases "q = p") auto
  then show ?thesis using r(1,4) assms by (auto simp: spmc_push_def spmc_inv_def)
qed

lemma spmc_pull_law:
  assumes "spmc_inv k s Q"
  shows "\<exists>s'. spmc_pull p s = (Inr (case Q p of [] \<Rightarrow> None | x # _ \<Rightarrow> Some x), s') \<and> spmc_inv k s' (Q(p := tl (Q p)))"
proof -
  have inv: "lane_inv k q (sm_ring s) (sm_writer s) (sm_readers s q) (Q q) None" for q
    using assms by (simp add: spmc_inv_def)
  have sy: "reader_synced (sm_ring s) (sm_readers s p)" using assms by (simp add: spmc_inv_def reader_synced_def)
  obtain rb' rd' where r: "rr_pull_priority p (sm_ring s) (sm_readers s p) =
      (Inr (case Q p of x # _ \<Rightarrow> PullSome x | [] \<Rightarrow> PullNone), rb', rd')"
     "lane_inv k p rb' (sm_writer s) rd' (tl (Q p)) None" "reader_frame p (sm_ring s) (sm_readers s p) rb' rd'"
    using rr_pull_priority_spec [OF inv sy] by auto
  have "lane_inv k q rb' (sm_writer s) (((sm_readers s)(p := rd')) q) ((Q(p := tl (Q p))) q) None" for q
    using r(2) lane_inv_other_reader [OF r(3) _ inv, of q] by (cases "q = p") auto
  moreover have "rr_update rd' = UpdateM" using r(3) assms by (simp add: reader_frame_def spmc_inv_def)
  ultimately show ?thesis
    using r(1) writer_synced_reader_frame [OF r(3)] assms
    by (cases "Q p") (auto simp: spmc_pull_def spmc_inv_def)
qed

lemma spmc_bounded: "spmc_inv k s Q \<Longrightarrow> length (Q p) \<le> 2 ^ k"
  unfolding spmc_inv_def using lane_bounded [of k p "sm_ring s" _ _ "Q p" None] by fastforce

interpretation spmc: lane_channel "spmc_inv k" "2 ^ k" spmc_push spmc_pull
proof unfold_locales
  show "length (Q p) \<le> 2 ^ k" if "spmc_inv k s Q" for s :: "'a spmc" and Q p
    by (rule spmc_bounded [OF that])
qed (rule spmc_push_law spmc_pull_law, assumption)+

section \<open>Properties\<close>

text \<open>C23: the single-producer single-consumer ring buffer of any allowed capacity answers any
  sequence of pushes and pulls like four bounded queues from which the most urgent element is
  taken, in order within a priority.  In particular no pull reads an uninitialized slot, also
  when the byte positions wrap around.\<close>

theorem spsc_is_priority_queue:
  assumes "k \<le> 7" "ringbuffer_spsc (2 ^ k) = Some s"
  shows "run_calls spsc_push spsc_pull cs s = run_calls (queue_push (2 ^ k)) queue_pull cs (\<lambda>_. [])"
  by (rule spsc.run_calls_spec [OF spsc_inv_new [OF assms]])

theorem spsc_is_priority_queue_witness:
  "\<exists>s. ringbuffer_spsc (2 ^ 1) = Some s \<and>
    run_calls spsc_push spsc_pull
      [CallPush Low (1 :: nat), CallPush High 2, CallPush Low 3, CallPush Low 4, CallPull, CallPull, CallPull, CallPull] s
    = [Accepted, Accepted, Accepted, GivenBack 4, Pulled (Some 2), Pulled (Some 1), Pulled (Some 3), Pulled None]"
proof -
  obtain s :: "nat spsc" where s: "ringbuffer_spsc (2 ^ 1) = Some s"
    using ringbuffer_spsc_exists [OF one_le_numeral, where 'a = nat] by blast
  show ?thesis
    by (rule exI [of _ s], rule conjI, rule s, subst spsc_is_priority_queue [OF _ s], simp, code_simp)
qed

text \<open>C24: the ring buffer with a writer per priority answers any sequence of bookings, stores
  to the booked slot, commits and pulls like four bounded queues that hold at most one booked
  element each: nothing booked is pulled before its commit, a lane that is empty says whether
  something is booked in it, and a lane is full at the capacity.\<close>

theorem mpsc_is_booking_queue:
  assumes "k \<le> 7" "ringbuffer_mpsc (2 ^ k) = Some s"
  shows "run_book_calls mpsc_book mpsc_peek mpsc_store mpsc_commit mpsc_pull mpsc_pull_priority cs s
    = run_book_calls (spec_book (2 ^ k)) spec_peek spec_store spec_commit spec_pull spec_pull_lane cs
        (\<lambda>_. [], \<lambda>_. None)"
  by (rule mpsc.run_book_calls_spec [OF mpsc_inv_new [OF assms]])

theorem mpsc_is_booking_queue_witness:
  "\<exists>s. ringbuffer_mpsc (2 ^ 0) = Some s \<and>
    run_book_calls mpsc_book mpsc_peek mpsc_store mpsc_commit mpsc_pull mpsc_pull_priority
      [CallBook Low (1 :: nat), CallPullLane Low, CallBook Low 2, CallStore Low 5, CallCommit Low,
       CallBook Low 3, CallPullAny, CallPullLane Low] s
    = [Booked, PulledLane PullBooked, Refused 2, HadPeek True, HadPeek True, Refused 3, PulledAny (Some 5),
       PulledLane PullNone]"
proof -
  obtain s :: "nat mpsc" where s: "ringbuffer_mpsc (2 ^ 0) = Some s"
    using ringbuffer_mpsc_exists [OF le0, where 'a = nat] by blast
  show ?thesis
    by (rule exI [of _ s], rule conjI, rule s, subst mpsc_is_booking_queue [OF _ s], simp, code_simp)
qed

text \<open>The ring buffer with a reader per priority answers any sequence of pushes and pulls
  by lane like four independent bounded queues.\<close>

theorem spmc_is_lane_queues:
  assumes "k \<le> 7" "ringbuffer_spmc (2 ^ k) = Some s"
  shows "run_lane_calls spmc_push spmc_pull cs s
    = run_lane_calls (queue_push (2 ^ k)) queue_pull_lane cs (\<lambda>_. [])"
  by (rule spmc.run_lane_calls_spec [OF spmc_inv_new [OF assms]])

theorem spmc_is_lane_queues_witness:
  "\<exists>s. ringbuffer_spmc (2 ^ 0) = Some s \<and>
    run_lane_calls spmc_push spmc_pull
      [LanePush Low (1 :: nat), LanePush High 2, LanePull Low, LanePush High 3, LanePull Low, LanePull High] s
    = [Accepted, Accepted, Pulled (Some 1), GivenBack 3, Pulled None, Pulled (Some 2)]"
proof -
  obtain s :: "nat spmc" where s: "ringbuffer_spmc (2 ^ 0) = Some s"
    using ringbuffer_spmc_exists [OF le0, where 'a = nat] by blast
  show ?thesis
    by (rule exI [of _ s], rule conjI, rule s, subst spmc_is_lane_queues [OF _ s], simp, code_simp)
qed

text \<open>C34: dropping the buffer drops exactly the elements that were pushed and not pulled, once
  each and in order, and terminates; an element that is booked and not committed is not
  among them, so it is leaked.\<close>

theorem ring_drop_exact:
  assumes "mpsc_inv k s Q B"
  shows "ring_drop (ms_ring s) p = Some (Inr (Q p))"
  by (rule ring_drop_spec [OF mpsc_lane [OF assms]])

theorem ring_drop_exact_witness:
  "\<exists>s. fst (mpsc_book Low (7 :: nat) s) = Inr () \<and> ring_drop (ms_ring (snd (mpsc_book Low 7 s))) Low = Some (Inr [])"
proof -
  obtain s :: "nat mpsc" where s: "ringbuffer_mpsc (2 ^ 0) = Some s"
    using ringbuffer_mpsc_exists [of 0] by auto
  obtain s' where b: "mpsc_book Low 7 s = (Inr (), s')" "mpsc_inv 0 s' (\<lambda>_. []) ((\<lambda>_. None)(Low := Some 7))"
    using mpsc_book_law [OF mpsc_inv_new [OF _ s], of Low 7] by auto
  have "ring_drop (ms_ring s') Low = Some (Inr [])" by (rule ring_drop_exact [OF b(2)])
  then show ?thesis using b(1) by (intro exI [of _ s]) simp
qed

end
