(* ===== verification/Ringbuf_Steps.thy ===== *)
theory Ringbuf_Steps
  imports Ringbuf_Laws
begin

text \<open>
  \<open>src/pipeline/ringbuf/common.rs\<close> again, with the handles on different threads: an operation is
  a sequence of steps, one for each access to what the threads share, the two indices and the
  slots, and the steps of all handles interleave.  A load of an index may give an older value
  than the last one that was stored: any value between the one that the thread has seen and the
  current one, lane by lane, which is all that an acquire load promises.

  A handle serves one lane or all: \<open>wh\<close> and \<open>rh\<close> give the handle of a lane, so that the three
  flavours of the ring buffer are instances.  The local copy of an index, which no other thread
  sees, changes in the step that publishes it.
\<close>

section \<open>The steps of a writer\<close>

datatype write_op = PushOp | BookOp | CommitOp

text \<open>Where a writer is: outside, with what the last call gave back; about to load the read index;
  to write the slot; to publish; in the loop of \<open>AtomicIdx::update\<close>, with the value \<open>old\<close>.\<close>

datatype 'a write_at = WIdle "'a option" | WLoad write_op priority 'a | WSlot write_op priority 'a
  | WPublish write_op priority 'a | WCas write_op priority 'a idx

text \<open>The index that is published.\<close>

definition write_target :: "write_op \<Rightarrow> priority \<Rightarrow> idx \<Rightarrow> idx" where
  "write_target op p i = (case op of
       PushOp \<Rightarrow> idx_increment i p
     | BookOp \<Rightarrow> idx_set i (flag_prio p FLAG_BOOKED)
     | CommitOp \<Rightarrow> idx_increment (idx_unset i (flag_prio p FLAG_BOOKED)) p)"

text \<open>The beginning of \<open>push\<close>, \<open>book\<close> and \<open>commit\<close>, up to the first access that is shared.\<close>

definition write_call :: "write_op \<Rightarrow> priority \<Rightarrow> 'a \<Rightarrow> 'a ring \<Rightarrow> ring_writer \<Rightarrow> 'a write_at" where
  "write_call op p t rb w =
     (if op = CommitOp then WPublish CommitOp p t
      else if op = BookOp \<and> idx_any (rw_local_w w) (flag_prio p FLAG_BOOKED) then WIdle (Some t)
      else if ring_is_full (rw_cached_r w) (rw_local_w w) p (ring_capacity rb) then WLoad op p t
      else WSlot op p t)"

text \<open>A step, with the value \<open>v\<close> that it loads if it is a load; \<open>book\<close> publishes with \<open>fetch_or\<close>.\<close>

fun write_step :: "idx \<Rightarrow> 'a ring \<Rightarrow> ring_writer \<Rightarrow> 'a write_at \<Rightarrow> 'a ring \<times> ring_writer \<times> 'a write_at" where
  "write_step v rb w (WIdle r) = (rb, w, WIdle r)"
| "write_step v rb w (WLoad op p t) =
     (rb, w\<lparr>rw_cached_r := v\<rparr>,
      if ring_is_full v (rw_local_w w) p (ring_capacity rb) then WIdle (Some t) else WSlot op p t)"
| "write_step v rb w (WSlot op p t) = (ring_put rb p (rw_local_w w) (Some t), w, WPublish op p t)"
| "write_step v rb w (WPublish op p t) =
     (let i = write_target op p (rw_local_w w)
      in if op = BookOp then
           (rb\<lparr>rb_idx_w := idx_set (rb_idx_w rb) (flag_prio p FLAG_BOOKED)\<rparr>, w\<lparr>rw_local_w := i\<rparr>, WIdle None)
         else (case rw_update w of
             UpdateS \<Rightarrow> (rb\<lparr>rb_idx_w := i\<rparr>, w\<lparr>rw_local_w := i\<rparr>, WIdle None)
           | UpdateM \<Rightarrow> (rb, w, WCas op p t v)))"
| "write_step v rb w (WCas op p t old) =
     (let i = write_target op p (rw_local_w w)
      in if rb_idx_w rb = old then (rb\<lparr>rb_idx_w := aidx_update old p i\<rparr>, w\<lparr>rw_local_w := i\<rparr>, WIdle None)
         else (rb, w, WCas op p t (rb_idx_w rb)))"

section \<open>The steps of a reader\<close>

datatype read_op = PullOp | PeekOp

datatype 'a read_result = ReadNone | ReadGot priority 'a | ReadPeeked priority 'a

text \<open>A reader goes through a list of lanes, all of them or the one of \<open>pull_priority\<close>.\<close>

datatype 'a read_at = RIdle "'a read_result" | RCheck read_op "priority list" | RLoad read_op priority "priority list"
  | RTake read_op priority | RPublish priority 'a | RCas priority 'a idx | RUninit

fun read_step :: "idx \<Rightarrow> 'a ring \<Rightarrow> ring_reader \<Rightarrow> 'a read_at \<Rightarrow> 'a ring \<times> ring_reader \<times> 'a read_at" where
  "read_step v rb rd (RIdle r) = (rb, rd, RIdle r)"
| "read_step v rb rd (RCheck op []) = (rb, rd, RIdle ReadNone)"
| "read_step v rb rd (RCheck op (p # ps)) =
     (rb, rd, if ring_is_empty (rr_local_r rd) (rr_cached_w rd) p then RLoad op p ps else RTake op p)"
| "read_step v rb rd (RLoad op p ps) =
     (rb, rd\<lparr>rr_cached_w := v\<rparr>, if ring_is_empty (rr_local_r rd) v p then RCheck op ps else RTake op p)"
| "read_step v rb rd (RTake op p) = (case ring_get rb p (rr_local_r rd) of
       None \<Rightarrow> (rb, rd, RUninit)
     | Some t \<Rightarrow> if op = PeekOp then (rb, rd, RIdle (ReadPeeked p t))
         else (ring_put rb p (rr_local_r rd) None, rd, RPublish p t))"
| "read_step v rb rd (RPublish p t) =
     (let i = idx_increment (rr_local_r rd) p
      in case rr_update rd of
           UpdateS \<Rightarrow> (rb\<lparr>rb_idx_r := i\<rparr>, rd\<lparr>rr_local_r := i\<rparr>, RIdle (ReadGot p t))
         | UpdateM \<Rightarrow> (rb, rd, RCas p t v))"
| "read_step v rb rd (RCas p t old) =
     (let i = idx_increment (rr_local_r rd) p
      in if rb_idx_r rb = old then (rb\<lparr>rb_idx_r := aidx_update old p i\<rparr>, rd\<lparr>rr_local_r := i\<rparr>, RIdle (ReadGot p t))
         else (rb, rd, RCas p t (rb_idx_r rb)))"
| "read_step v rb rd RUninit = (rb, rd, RUninit)"

section \<open>All the handles\<close>

record 'a ring_sys =
  y_ring :: "'a ring"
  y_w :: "priority \<Rightarrow> ring_writer"
  y_r :: "priority \<Rightarrow> ring_reader"
  y_wat :: "priority \<Rightarrow> 'a write_at"
  y_rat :: "priority \<Rightarrow> 'a read_at"

definition ring_sys_new :: "update \<Rightarrow> update \<Rightarrow> 'a ring \<Rightarrow> 'a ring_sys" where
  "ring_sys_new u v rb = \<lparr>y_ring = rb, y_w = (\<lambda>_. rw_new u), y_r = (\<lambda>_. rr_new v), y_wat = (\<lambda>_. WIdle None), y_rat = (\<lambda>_. RIdle ReadNone)\<rparr>"

definition set_writer :: "priority \<Rightarrow> 'a ring \<times> ring_writer \<times> 'a write_at \<Rightarrow> 'a ring_sys \<Rightarrow> 'a ring_sys" where
  "set_writer i z y = (case z of (rb, w, at) \<Rightarrow> y\<lparr>y_ring := rb, y_w := (y_w y)(i := w), y_wat := (y_wat y)(i := at)\<rparr>)"

definition set_reader :: "priority \<Rightarrow> 'a ring \<times> ring_reader \<times> 'a read_at \<Rightarrow> 'a ring_sys \<Rightarrow> 'a ring_sys" where
  "set_reader j z y = (case z of (rb, rd, at) \<Rightarrow> y\<lparr>y_ring := rb, y_r := (y_r y)(j := rd), y_rat := (y_rat y)(j := at)\<rparr>)"

text \<open>What a load may give: in no lane less than was seen, nor more than there is.\<close>

definition idx_between :: "idx \<Rightarrow> idx \<Rightarrow> idx \<Rightarrow> bool" where
  "idx_between seen v cur \<longleftrightarrow> (\<forall>p. unat (idx_index v p - idx_index seen p) \<le> unat (idx_index cur p - idx_index seen p))"

text \<open>
  A queue and what is booked, for each lane: the specification.  The step of a writer that
  publishes is where its operation happens; the step of a reader that publishes is where the
  element leaves the queue.
\<close>

definition after_write :: "'a write_at \<Rightarrow> 'a write_at \<Rightarrow> (priority \<Rightarrow> 'a list) \<times> (priority \<Rightarrow> 'a option) \<Rightarrow>
    (priority \<Rightarrow> 'a list) \<times> (priority \<Rightarrow> 'a option)" where
  "after_write at at' QB = (case QB of (Q, B) \<Rightarrow>
     let done = (\<lambda>op p t. case op of
           PushOp \<Rightarrow> (Q(p := Q p @ [t]), B) | BookOp \<Rightarrow> (Q, B(p := Some t)) | CommitOp \<Rightarrow> (Q(p := Q p @ [t]), B(p := None)))
     in case (at, at') of
          (WPublish op p t, WIdle _) \<Rightarrow> done op p t
        | (WCas op p t _, WIdle _) \<Rightarrow> done op p t
        | _ \<Rightarrow> (Q, B))"

definition after_read :: "'a read_at \<Rightarrow> 'a read_at \<Rightarrow> (priority \<Rightarrow> 'a list) \<Rightarrow> (priority \<Rightarrow> 'a list)" where
  "after_read at at' Q = (case (at, at') of
       (RPublish p t, RIdle _) \<Rightarrow> Q(p := tl (Q p))
     | (RCas p t _, RIdle _) \<Rightarrow> Q(p := tl (Q p))
     | _ \<Rightarrow> Q)"

inductive ring_run :: "(priority \<Rightarrow> priority) \<Rightarrow> (priority \<Rightarrow> priority) \<Rightarrow> update \<Rightarrow> update \<Rightarrow> nat \<Rightarrow>
    'a ring_sys \<Rightarrow> (priority \<Rightarrow> 'a list) \<Rightarrow> (priority \<Rightarrow> 'a option) \<Rightarrow> bool"
  for wh rh u v cap where
  ring_start: "ring_new cap = Some rb \<Longrightarrow> ring_run wh rh u v cap (ring_sys_new u v rb) (\<lambda>_. []) (\<lambda>_. None)"
| ring_write_call: "ring_run wh rh u v cap y Q B \<Longrightarrow> y_wat y (wh p) = WIdle x \<Longrightarrow>
     (op = CommitOp \<Longrightarrow> rw_peek p (y_w y (wh p)) \<and> wp_deref p (y_ring y) (y_w y (wh p)) = Inr t) \<Longrightarrow>
     (op = PushOp \<Longrightarrow> \<not> rw_peek p (y_w y (wh p))) \<Longrightarrow>
     ring_run wh rh u v cap (y\<lparr>y_wat := (y_wat y)(wh p := write_call op p t (y_ring y) (y_w y (wh p)))\<rparr>) Q B"
| ring_write_step: "ring_run wh rh u v cap y Q B \<Longrightarrow>
     (\<And>op p t. y_wat y i = WLoad op p t \<Longrightarrow> idx_between (rw_cached_r (y_w y i)) l (rb_idx_r (y_ring y))) \<Longrightarrow>
     z = write_step l (y_ring y) (y_w y i) (y_wat y i) \<Longrightarrow> after_write (y_wat y i) (snd (snd z)) (Q, B) = (Q', B') \<Longrightarrow>
     ring_run wh rh u v cap (set_writer i z y) Q' B'"
| ring_write_peek: "ring_run wh rh u v cap y Q B \<Longrightarrow> y_wat y (wh p) = WIdle x \<Longrightarrow> rw_peek p (y_w y (wh p)) \<Longrightarrow>
     ring_run wh rh u v cap (y\<lparr>y_ring := wp_store p t (y_ring y) (y_w y (wh p))\<rparr>) Q (B(p := Some t))"
| ring_read_call: "ring_run wh rh u v cap y Q B \<Longrightarrow> y_rat y j = RIdle x \<Longrightarrow> (\<And>p. p \<in> set ps \<Longrightarrow> rh p = j) \<Longrightarrow>
     ring_run wh rh u v cap (y\<lparr>y_rat := (y_rat y)(j := RCheck op ps)\<rparr>) Q B"
| ring_read_step: "ring_run wh rh u v cap y Q B \<Longrightarrow>
     (\<And>op p ps. y_rat y j = RLoad op p ps \<Longrightarrow> idx_between (rr_cached_w (y_r y j)) l (rb_idx_w (y_ring y))) \<Longrightarrow>
     z = read_step l (y_ring y) (y_r y j) (y_rat y j) \<Longrightarrow>
     ring_run wh rh u v cap (set_reader j z y) (after_read (y_rat y j) (snd (snd z)) Q) B"
| ring_read_peek: "ring_run wh rh u v cap y Q B \<Longrightarrow> y_rat y j = RIdle (ReadPeeked p x) \<Longrightarrow>
     ring_run wh rh u v cap (y\<lparr>y_ring := rr_peek_store p t (y_ring y) (y_r y j)\<rparr>) (Q(p := t # tl (Q p))) B"

section \<open>The invariant of a lane\<close>

text \<open>The ring as if the element that a reader has taken, and not released yet, were still in its slot.\<close>

definition with_taken :: "'a ring \<Rightarrow> ring_reader \<Rightarrow> 'a read_at \<Rightarrow> 'a ring" where
  "with_taken rb rd ra = (case ra of
       RPublish p t \<Rightarrow> ring_put rb p (rr_local_r rd) (Some t)
     | RCas p t _ \<Rightarrow> ring_put rb p (rr_local_r rd) (Some t)
     | _ \<Rightarrow> rb)"

definition room_seen :: "nat \<Rightarrow> priority \<Rightarrow> ring_writer \<Rightarrow> bool" where
  "room_seen k p w \<longleftrightarrow> unat (idx_index (rw_local_w w) p - idx_index (rw_cached_r w) p) < 2 ^ k"

definition element_seen :: "priority \<Rightarrow> ring_reader \<Rightarrow> bool" where
  "element_seen p rd \<longleftrightarrow> 0 < unat (idx_index (rr_cached_w rd) p - idx_index (rr_local_r rd) p)"

definition publishes :: "nat \<Rightarrow> priority \<Rightarrow> 'a ring \<Rightarrow> ring_writer \<Rightarrow> write_op \<Rightarrow> 'a \<Rightarrow> 'a option \<Rightarrow> bool" where
  "publishes k p rb w op t b \<longleftrightarrow>
     (if op = CommitOp then b = Some t
      else b = None \<and> room_seen k p w \<and> ring_at rb p (idx_index (rw_local_w w) p) = Some t)"

text \<open>What a writer in the middle of an operation on the lane has made sure of; \<open>rb\<close> is the ring
  \<open>with_taken\<close>.\<close>

definition write_ok :: "nat \<Rightarrow> priority \<Rightarrow> 'a ring \<Rightarrow> ring_writer \<Rightarrow> 'a write_at \<Rightarrow> 'a option \<Rightarrow> bool" where
  "write_ok k p rb w wa b \<longleftrightarrow> (case wa of
       WIdle _ \<Rightarrow> True
     | WLoad op p' t \<Rightarrow> p' = p \<longrightarrow> op \<noteq> CommitOp \<and> b = None
     | WSlot op p' t \<Rightarrow> p' = p \<longrightarrow> op \<noteq> CommitOp \<and> b = None \<and> room_seen k p w
     | WPublish op p' t \<Rightarrow> p' = p \<longrightarrow> publishes k p rb w op t b
     | WCas op p' t _ \<Rightarrow> p' = p \<longrightarrow> op \<noteq> BookOp \<and> publishes k p rb w op t b)"

text \<open>And a reader: \<open>rb\<close> is the ring itself.\<close>

definition took :: "priority \<Rightarrow> 'a ring \<Rightarrow> ring_reader \<Rightarrow> 'a \<Rightarrow> 'a list \<Rightarrow> bool" where
  "took p rb rd t q \<longleftrightarrow> element_seen p rd \<and> (\<exists>xs. q = t # xs) \<and> ring_get rb p (rr_local_r rd) = None"

definition read_ok :: "priority \<Rightarrow> 'a ring \<Rightarrow> ring_reader \<Rightarrow> 'a read_at \<Rightarrow> 'a list \<Rightarrow> bool" where
  "read_ok p rb rd ra q \<longleftrightarrow> (case ra of
       RTake op p' \<Rightarrow> p' = p \<longrightarrow> element_seen p rd
     | RIdle (ReadPeeked p' x) \<Rightarrow> p' = p \<longrightarrow> element_seen p rd
     | RPublish p' t \<Rightarrow> p' = p \<longrightarrow> took p rb rd t q
     | RCas p' t _ \<Rightarrow> p' = p \<longrightarrow> took p rb rd t q
     | RUninit \<Rightarrow> False
     | _ \<Rightarrow> True)"

definition lane_steps :: "nat \<Rightarrow> priority \<Rightarrow> 'a ring \<Rightarrow> ring_writer \<Rightarrow> 'a write_at \<Rightarrow> ring_reader \<Rightarrow> 'a read_at \<Rightarrow>
    'a list \<Rightarrow> 'a option \<Rightarrow> bool" where
  "lane_steps k p rb w wa rd ra q b \<longleftrightarrow> lane_inv k p (with_taken rb rd ra) w rd q b
     \<and> write_ok k p (with_taken rb rd ra) w wa b \<and> read_ok p rb rd ra q"

subsection \<open>What other lanes see\<close>

text \<open>Nothing of lane \<open>q\<close> differs between two rings.\<close>

definition same_lane :: "priority \<Rightarrow> 'a ring \<Rightarrow> 'a ring \<Rightarrow> bool" where
  "same_lane q rb rb' \<longleftrightarrow> rb_mask rb' = rb_mask rb \<and> (\<forall>r. length (rb_ptr rb' r) = length (rb_ptr rb r))
     \<and> rb_ptr rb' q = rb_ptr rb q
     \<and> lane (rb_idx_w rb') q = lane (rb_idx_w rb) q \<and> lane (rb_idx_r rb') q = lane (rb_idx_r rb) q"

lemma same_lane_refl [simp]: "same_lane q rb rb"
  by (simp add: same_lane_def)

lemma same_lane_put [simp]: "q \<noteq> p \<Longrightarrow> same_lane q rb (ring_put rb p i x)"
  by (simp add: same_lane_def ring_put_def)

lemma same_lane_trans: "same_lane q rb rb' \<Longrightarrow> same_lane q rb' rb'' \<Longrightarrow> same_lane q rb rb''"
  by (simp add: same_lane_def)

lemma same_lane_laws:
  assumes "same_lane q rb rb'"
  shows "ring_at rb' q x = ring_at rb q x" "ring_get rb' q i = ring_get rb q i" "ring_wf k rb' = ring_wf k rb"
    "idx_index (rb_idx_w rb') q = idx_index (rb_idx_w rb) q" "idx_index (rb_idx_r rb') q = idx_index (rb_idx_r rb) q"
    "ring_slot rb' q i = ring_slot rb q i"
  using assms index_of_lane [of "rb_idx_w rb'" q "rb_idx_w rb" q] index_of_lane [of "rb_idx_r rb'" q "rb_idx_r rb" q]
  by (auto simp: same_lane_def ring_at_def ring_get_def ring_slot_def ring_wf_def)

lemma same_lane_put_both:
  assumes "same_lane q rb rb'"
  shows "same_lane q (ring_put rb p i x) (ring_put rb' p i x)"
  using assms by (cases "p = q") (simp_all add: same_lane_def ring_put_def ring_slot_def)

lemma same_lane_taken: "same_lane q rb rb' \<Longrightarrow> same_lane q (with_taken rb rd ra) (with_taken rb' rd ra)"
  by (cases ra) (simp_all add: with_taken_def same_lane_put_both)

lemma lane_inv_same:
  assumes "same_lane q rb rb'" "lane_inv k q rb w rd xs b"
    "lane (rw_local_w w') q = lane (rw_local_w w) q" "idx_index (rw_cached_r w') q = idx_index (rw_cached_r w) q"
    "lane (rr_local_r rd') q = lane (rr_local_r rd) q" "idx_index (rr_cached_w rd') q = idx_index (rr_cached_w rd) q"
  shows "lane_inv k q rb' w' rd' xs b"
proof -
  note i = index_of_lane [OF assms(3)] index_of_lane [OF assms(5)] booked_of_lane [OF assms(3)]
  have l: "lane (rb_idx_w rb') q = lane (rb_idx_w rb) q" "lane (rb_idx_r rb') q = lane (rb_idx_r rb) q"
    using assms(1) by (simp_all add: same_lane_def)
  have "ring_wf k rb'" using assms(2) same_lane_laws(3) [OF assms(1)] by (simp add: lane_inv_def)
  moreover have "writer_lane k q rb' w' xs b"
    using assms(2) unfolding lane_inv_def writer_lane_def i assms(3,4) l by blast
  moreover have "reader_lane q rb' rd' xs"
    using assms(2) unfolding lane_inv_def reader_lane_def i assms(5,6) l by blast
  moreover have "ring_lane k q rb' xs b"
    using assms(2) unfolding lane_inv_def ring_lane_def same_lane_laws [OF assms(1)] by blast
  ultimately show ?thesis by (simp add: lane_inv_def)
qed

lemma publishes_same:
  assumes "same_lane q rb rb'" "lane (rw_local_w w') q = lane (rw_local_w w) q" "idx_index (rw_cached_r w') q = idx_index (rw_cached_r w) q"
  shows "publishes k q rb' w' op t b = publishes k q rb w op t b" "room_seen k q w' = room_seen k q w"
  using assms(3) index_of_lane [OF assms(2)] same_lane_laws(1) [OF assms(1)] by (simp_all add: publishes_def room_seen_def)

text \<open>A lane whose slots and indices are the same keeps its invariant, as long as its handles do
  not enter it.\<close>

definition writes_lane :: "priority \<Rightarrow> 'a write_at \<Rightarrow> bool" where
  "writes_lane q wa \<longleftrightarrow> (case wa of WIdle _ \<Rightarrow> False | WLoad _ p _ \<Rightarrow> p = q | WSlot _ p _ \<Rightarrow> p = q
     | WPublish _ p _ \<Rightarrow> p = q | WCas _ p _ _ \<Rightarrow> p = q)"

definition reads_lane :: "priority \<Rightarrow> 'a read_at \<Rightarrow> bool" where
  "reads_lane q ra \<longleftrightarrow> (case ra of RTake _ p \<Rightarrow> p = q | RPublish p _ \<Rightarrow> p = q | RCas p _ _ \<Rightarrow> p = q
     | RIdle (ReadPeeked p _) \<Rightarrow> p = q | RUninit \<Rightarrow> True | _ \<Rightarrow> False)"

lemma write_ok_other: "\<not> writes_lane q wa \<Longrightarrow> write_ok k q rb w wa b"
  by (cases wa) (simp_all add: writes_lane_def write_ok_def)

lemma read_ok_other: "\<not> reads_lane q ra \<Longrightarrow> read_ok q rb rd ra xs"
  by (auto simp: reads_lane_def read_ok_def split: read_at.splits read_result.splits)

lemma write_ok_same:
  assumes "same_lane q rb rb'" "lane (rw_local_w w') q = lane (rw_local_w w) q" "idx_index (rw_cached_r w') q = idx_index (rw_cached_r w) q"
  shows "write_ok k q rb' w' wa b = write_ok k q rb w wa b"
  using publishes_same [OF assms] by (cases wa) (simp_all add: write_ok_def)

lemma read_ok_same:
  assumes "same_lane q rb rb'" "lane (rr_local_r rd') q = lane (rr_local_r rd) q" "idx_index (rr_cached_w rd') q = idx_index (rr_cached_w rd) q"
  shows "read_ok q rb' rd' ra xs = read_ok q rb rd ra xs"
proof -
  have "ring_get rb' q (rr_local_r rd') = ring_get rb q (rr_local_r rd)"
    using same_lane_laws(1) [OF assms(1)] index_of_lane [OF assms(2)] by (simp add: ring_get_at)
  moreover have "element_seen q rd' = element_seen q rd"
    using assms(3) index_of_lane [OF assms(2)] by (simp add: element_seen_def)
  ultimately show ?thesis by (simp add: read_ok_def took_def split: read_at.splits read_result.splits)
qed

text \<open>Two steps of one lane, seen from another: the writer's, and the reader's.\<close>

lemma lane_steps_writer_other:
  assumes "lane_steps k q rb w wa rd ra xs b" "same_lane q rb rb'"
    "lane (rw_local_w w') q = lane (rw_local_w w) q" "idx_index (rw_cached_r w') q = idx_index (rw_cached_r w) q"
    "wa' = wa \<or> \<not> writes_lane q wa'"
  shows "lane_steps k q rb' w' wa' rd ra xs b"
proof -
  note same = same_lane_taken [OF assms(2), of rd ra]
  have "lane_inv k q (with_taken rb' rd ra) w' rd xs b"
    by (rule lane_inv_same [OF same _ assms(3,4) refl refl]) (use assms(1) in \<open>simp add: lane_steps_def\<close>)
  moreover have "write_ok k q (with_taken rb' rd ra) w' wa' b"
    using assms(1,5) write_ok_same [OF same assms(3,4)] write_ok_other by (auto simp: lane_steps_def)
  moreover have "read_ok q rb' rd ra xs"
    using assms(1) read_ok_same [OF assms(2), of rd rd] by (simp add: lane_steps_def)
  ultimately show ?thesis by (simp add: lane_steps_def)
qed

lemma lane_steps_reader_other:
  assumes "lane_steps k q rb w wa rd ra xs b" "same_lane q rb rb'" "same_lane q (with_taken rb rd ra) (with_taken rb' rd' ra')"
    "lane (rr_local_r rd') q = lane (rr_local_r rd) q" "idx_index (rr_cached_w rd') q = idx_index (rr_cached_w rd) q"
    "ra' = ra \<or> \<not> reads_lane q ra'"
  shows "lane_steps k q rb' w wa rd' ra' xs b"
proof -
  have "lane_inv k q (with_taken rb' rd' ra') w rd' xs b"
    by (rule lane_inv_same [OF assms(3) _ refl refl assms(4,5)]) (use assms(1) in \<open>simp add: lane_steps_def\<close>)
  moreover have "write_ok k q (with_taken rb' rd' ra') w wa b"
    using assms(1) write_ok_same [OF assms(3), of w w] by (simp add: lane_steps_def)
  moreover have "read_ok q rb' rd' ra' xs"
    using assms(1,6) read_ok_same [OF assms(2,4,5)] read_ok_other by (auto simp: lane_steps_def)
  ultimately show ?thesis by (simp add: lane_steps_def)
qed

subsection \<open>Loads of older values\<close>

lemma between_sub:
  fixes a d e :: u8
  assumes "unat d \<le> unat e" "unat (a - e) \<le> unat a"
  shows "unat (a - e) \<le> unat (a - d)" "unat (a - d) \<le> unat a"
proof -
  have "e \<le> a" using assms(2) by (simp add: word_le_nat_alt [symmetric] word_sub_le_iff)
  moreover have "d \<le> e" using assms(1) by (simp add: word_le_nat_alt)
  ultimately have "unat (a - e) = unat a - unat e" "unat (a - d) = unat a - unat d" by (simp_all add: unat_sub)
  then show "unat (a - e) \<le> unat (a - d)" "unat (a - d) \<le> unat a" using assms(1) by simp_all
qed

lemma lane_inv_load_r:
  assumes inv: "lane_inv k q rb w rd xs b" and v: "idx_between (rw_cached_r w) v (rb_idx_r rb)"
  shows "lane_inv k q rb (w\<lparr>rw_cached_r := v\<rparr>) rd xs b"
    and "unat (idx_index (rw_local_w w) q - idx_index v q) \<le> 2 ^ k"
proof -
  let ?w = "idx_index (rw_local_w w) q" and ?c = "idx_index (rw_cached_r w) q"
  have "unat (idx_index v q - ?c) \<le> unat (idx_index (rb_idx_r rb) q - ?c)" using v by (simp add: idx_between_def)
  moreover have "unat ((?w - ?c) - (idx_index (rb_idx_r rb) q - ?c)) \<le> unat (?w - ?c)"
    using lane_facts(4) [OF inv] inv by (simp add: lane_inv_def writer_lane_def)
  ultimately have "unat (?w - idx_index (rb_idx_r rb) q) \<le> unat (?w - idx_index v q)" "unat (?w - idx_index v q) \<le> unat (?w - ?c)"
    using between_sub [of "idx_index v q - ?c" "idx_index (rb_idx_r rb) q - ?c" "?w - ?c"] by simp_all
  then show "lane_inv k q rb (w\<lparr>rw_cached_r := v\<rparr>) rd xs b" "unat (?w - idx_index v q) \<le> 2 ^ k"
    using lane_facts(4) [OF inv] inv by (auto simp: lane_inv_def writer_lane_def split: if_splits)
qed

lemma lane_inv_load_w:
  assumes inv: "lane_inv k q rb w rd xs b" and v: "idx_between (rr_cached_w rd) v (rb_idx_w rb)"
  shows "lane_inv k q rb w (rd\<lparr>rr_cached_w := v\<rparr>) xs b"
proof -
  let ?r = "idx_index (rr_local_r rd) q" and ?c = "idx_index (rr_cached_w rd) q" and ?w = "idx_index (rb_idx_w rb) q"
  have x: "unat (?w - ?r) = length xs" "unat (?c - ?r) \<le> length xs" "length xs \<le> 128"
    using lane_facts [OF inv] inv by (simp_all add: lane_inv_def reader_lane_def)
  have le: "unat (idx_index v q - ?c) \<le> unat (?w - ?c)" using v by (simp add: idx_between_def)
  have "unat ((?w - ?r) - (?c - ?r)) = unat (?w - ?r) - unat (?c - ?r)"
    using x(1,2) by (intro unat_sub) (simp add: word_le_nat_alt)
  then have wc: "unat (?w - ?c) = length xs - unat (?c - ?r)" using x(1) by simp
  have "unat (a + b) \<le> unat a + unat b" for a b :: u8 by (simp add: unat_word_ariths)
  from this [of "idx_index v q - ?c" "?c - ?r"] have "unat (idx_index v q - ?r) \<le> length xs" using le wc x(2) by simp
  then show ?thesis using inv by (simp add: lane_inv_def reader_lane_def)
qed

subsection \<open>Steps in the lane\<close>

lemma slots_apart:
  assumes "lane_inv k p rb w rd q b" "q \<noteq> []" "length q < 2 ^ k"
  shows "ring_slot rb p (rw_local_w w) \<noteq> ring_slot rb p (rr_local_r rd)"
proof -
  have wf: "ring_wf k rb" using assms(1) by (simp add: lane_inv_def)
  let ?r = "idx_index (rr_local_r rd) p"
  have w: "idx_index (rw_local_w w) p = ?r + of_nat (length q)"
    using assms(1) lane_facts(2,3) [OF assms(1)] by (simp add: lane_inv_def ring_lane_def)
  have "(unat ?r + length q) mod 2 ^ k \<noteq> (unat ?r + 0) mod 2 ^ k"
    using add_mod_inject [of "length q" "2 ^ k" 0 "unat ?r"] assms(2,3) by auto
  then show ?thesis
    using ring_pos_add [OF wf, of ?r "length q"] ring_pos_add [OF wf, of ?r 0] by (simp add: ring_slot_def w)
qed

lemma ring_put_swap: "ring_slot rb p i \<noteq> ring_slot rb p j \<Longrightarrow> ring_put (ring_put rb p i x) p j y = ring_put (ring_put rb p j y) p i x"
  by (simp add: ring_put_def ring_slot_def list_update_swap)

lemma ring_put_swap_lane: "p \<noteq> q \<Longrightarrow> ring_put (ring_put rb p i x) q j y = ring_put (ring_put rb q j y) p i x"
  by (simp add: ring_put_def ring_slot_def fun_upd_twist)

lemma ring_put_twice [simp]: "ring_put (ring_put rb p i x) p i y = ring_put rb p i y"
  by (simp add: ring_put_def ring_slot_def)

lemma ring_put_same: "ring_get rb p i = x \<Longrightarrow> ring_put rb p i x = rb"
  by (auto simp: ring_put_def ring_get_def)

lemma ring_slot_put [simp]: "ring_slot (ring_put rb q j x) p i = ring_slot rb p i"
  by (simp add: ring_slot_def)

text \<open>A write at the write position, while a reader holds an element.\<close>

lemma with_taken_put:
  assumes "lane_inv k p (with_taken rb rd ra) w rd q b" "length q < 2 ^ k" "read_ok p rb rd ra q"
  shows "with_taken (ring_put rb p (rw_local_w w) x) rd ra = ring_put (with_taken rb rd ra) p (rw_local_w w) x"
    and "read_ok p (ring_put rb p (rw_local_w w) x) rd ra q"
proof -
  have apart: "ring_slot rb p (rw_local_w w) \<noteq> ring_slot rb p (rr_local_r rd)" if "q \<noteq> []"
    using slots_apart [OF assms(1) that assms(2)] by (cases ra) (auto simp: with_taken_def)
  have get: "ring_get (ring_put rb p (rw_local_w w) x) p (rr_local_r rd) = ring_get rb p (rr_local_r rd)" if "q \<noteq> []"
    using apart [OF that] by (simp add: ring_get_def) (simp add: ring_put_def)
  have swap: "ring_put (ring_put rb p (rw_local_w w) x) p' (rr_local_r rd) y = ring_put (ring_put rb p' (rr_local_r rd) y) p (rw_local_w w) x"
    if "p' = p \<Longrightarrow> q \<noteq> []" for p' y
    using that apart ring_put_swap [of rb p "rw_local_w w" "rr_local_r rd" x y] ring_put_swap_lane [of p p' rb "rw_local_w w" x "rr_local_r rd" y]
    by (cases "p' = p") auto
  have ne: "(\<exists>t. ra = RPublish p t) \<or> (\<exists>t old. ra = RCas p t old) \<Longrightarrow> q \<noteq> []"
    using assms(3) by (auto simp: read_ok_def took_def)
  show "with_taken (ring_put rb p (rw_local_w w) x) rd ra = ring_put (with_taken rb rd ra) p (rw_local_w w) x"
    using swap ne by (cases ra) (auto simp: with_taken_def)
  show "read_ok p (ring_put rb p (rw_local_w w) x) rd ra q"
    using assms(3) get by (auto simp: read_ok_def took_def split: read_at.splits read_result.splits)
qed

lemma lane_room:
  assumes "lane_inv k p rb w rd q b" "room_seen k p w"
  shows "length q < 2 ^ k"
  using assms by (auto simp: lane_inv_def writer_lane_def room_seen_def)

text \<open>The slot is written; nothing is published yet.\<close>

lemma lane_write_slot:
  assumes "lane_steps k p rb w (WSlot op p t) rd ra q b"
  shows "lane_steps k p (ring_put rb p (rw_local_w w) (Some t)) w (WPublish op p t) rd ra q b"
proof -
  let ?R = "with_taken rb rd ra" and ?rb = "ring_put rb p (rw_local_w w) (Some t)"
  have inv: "lane_inv k p ?R w rd q b" and b: "op \<noteq> CommitOp" "b = None" "room_seen k p w" and ok: "read_ok p rb rd ra q"
    using assms by (auto simp: lane_steps_def write_ok_def)
  note lt = lane_room [OF inv b(3)]
  note put = with_taken_put [OF inv lt ok, of "Some t"]
  have "ring_lane k p (ring_put ?R p (rw_local_w w) (Some t)) q (Some t)" by (rule ring_lane_put [OF inv lt refl])
  then have "ring_lane k p (with_taken ?rb rd ra) q None" unfolding put(1) using lt by (simp add: ring_lane_def)
  then have "lane_inv k p (with_taken ?rb rd ra) w rd q b"
    using inv b(2) unfolding put(1) by (simp add: lane_inv_def writer_lane_def reader_lane_def)
  moreover have "publishes k p (with_taken ?rb rd ra) w op t b"
    using b ring_put_at_write(1) [OF inv lt refl, of "Some t"] unfolding put(1) by (simp add: publishes_def)
  ultimately show ?thesis using put(2) by (simp add: lane_steps_def write_ok_def)
qed

lemma with_taken_idx:
  "with_taken (rb\<lparr>rb_idx_w := i\<rparr>) rd ra = (with_taken rb rd ra)\<lparr>rb_idx_w := i\<rparr>"
  by (cases ra) (simp_all add: with_taken_def ring_put_def ring_slot_def)

lemma with_taken_simps [simp]:
  "rb_idx_w (with_taken rb rd ra) = rb_idx_w rb" "rb_idx_r (with_taken rb rd ra) = rb_idx_r rb"
  by (cases ra; simp add: with_taken_def)+

lemma read_ok_idx [simp]:
  "read_ok p (rb\<lparr>rb_idx_w := i\<rparr>) rd ra q = read_ok p rb rd ra q"
  by (simp add: read_ok_def took_def ring_get_def ring_slot_def split: read_at.splits read_result.splits)

text \<open>A push or a commit is published.\<close>

lemma lane_publish:
  assumes st: "lane_steps k p rb w wa rd ra q b" and pub: "publishes k p (with_taken rb rd ra) w op t b" "op \<noteq> BookOp"
    and i: "i = write_target op p (rw_local_w w)" "lane x p = lane i p"
  shows "lane_steps k p (rb\<lparr>rb_idx_w := x\<rparr>) (w\<lparr>rw_local_w := i\<rparr>) (WIdle r) rd ra (q @ [t]) None"
proof -
  let ?R = "with_taken rb rd ra"
  have inv: "lane_inv k p ?R w rd q b" and ok: "read_ok p rb rd ra q" using st by (simp_all add: lane_steps_def)
  have room: "unat (idx_index (rw_local_w w) p - idx_index (rw_cached_r w) p) < 2 ^ k"
    and at: "ring_at ?R p (idx_index (rw_local_w w) p) = Some t"
  proof -
    have "ring_at ?R p (idx_index (rw_local_w w) p) = b" if "b \<noteq> None"
      using inv that lane_facts(2) [OF inv] unfolding lane_inv_def ring_lane_def by metis
    then show "unat (idx_index (rw_local_w w) p - idx_index (rw_cached_r w) p) < 2 ^ k"
        "ring_at ?R p (idx_index (rw_local_w w) p) = Some t"
      using pub inv by (auto simp: publishes_def room_seen_def lane_inv_def writer_lane_def split: if_splits)
  qed
  have nb: "\<not> booked i p" "idx_index i p = idx_index (rw_local_w w) p + 1"
    using pub inv i(1) by (cases op; simp add: write_target_def publishes_def lane_inv_def writer_lane_def)+
  have "lane_inv k p (?R\<lparr>rb_idx_w := x\<rparr>) (w\<lparr>rw_local_w := i\<rparr>) rd (q @ [t]) None"
  proof (rule lane_append [OF inv room])
    show "ring_at (?R\<lparr>rb_idx_w := x\<rparr>) p (idx_index (rb_idx_r ?R) p + of_nat j) = Some (q ! j)" if "j < length q" for j
      using inv that unfolding ring_at_idx by (simp add: lane_inv_def ring_lane_def)
  qed (use inv at nb i(2) in \<open>simp_all add: lane_inv_def\<close>)
  moreover have "read_ok p rb rd ra (q @ [t])"
    using ok by (auto simp: read_ok_def took_def split: read_at.splits read_result.splits)
  ultimately show ?thesis by (simp add: lane_steps_def with_taken_idx write_ok_def)
qed

text \<open>A booking is published.\<close>

lemma lane_publish_book:
  assumes "lane_steps k p rb w (WPublish BookOp p t) rd ra q b"
  shows "lane_steps k p (rb\<lparr>rb_idx_w := idx_set (rb_idx_w rb) (flag_prio p FLAG_BOOKED)\<rparr>)
    (w\<lparr>rw_local_w := write_target BookOp p (rw_local_w w)\<rparr>) (WIdle r) rd ra q (Some t)"
proof -
  let ?R = "with_taken rb rd ra" and ?i = "idx_set (rw_local_w w) (flag_prio p FLAG_BOOKED)"
  let ?x = "idx_set (rb_idx_w rb) (flag_prio p FLAG_BOOKED)"
  have inv: "lane_inv k p ?R w rd q None" and ok: "read_ok p rb rd ra q" and room: "room_seen k p w"
      and at: "ring_at ?R p (idx_index (rw_local_w w) p) = Some t"
    using assms by (auto simp: lane_steps_def write_ok_def publishes_def)
  have lt: "length q < 2 ^ k" by (rule lane_room [OF inv room])
  have "lane ?x p = lane ?i p" using inv by (intro lane_set_cong) (simp add: lane_inv_def writer_lane_def)
  then have "writer_lane k p (?R\<lparr>rb_idx_w := ?x\<rparr>) (w\<lparr>rw_local_w := ?i\<rparr>) q (Some t)"
    using inv room by (auto simp: lane_inv_def writer_lane_def room_seen_def)
  moreover have "ring_lane k p (?R\<lparr>rb_idx_w := ?x\<rparr>) q (Some t)"
    using inv lt at lane_facts(2) [OF inv] by (simp add: lane_inv_def ring_lane_def)
  ultimately have "lane_inv k p (?R\<lparr>rb_idx_w := ?x\<rparr>) (w\<lparr>rw_local_w := ?i\<rparr>) rd q (Some t)"
    using inv by (simp add: lane_inv_def reader_lane_def)
  then show ?thesis using ok by (simp add: lane_steps_def with_taken_idx write_ok_def write_target_def)
qed

text \<open>The booked element is changed in its slot.\<close>

lemma lane_write_peek:
  assumes "lane_steps k p rb w (WIdle r) rd ra q (Some s)"
  shows "lane_steps k p (wp_store p t rb w) w (WIdle r) rd ra q (Some t)"
proof -
  have inv: "lane_inv k p (with_taken rb rd ra) w rd q (Some s)" and ok: "read_ok p rb rd ra q"
    using assms by (simp_all add: lane_steps_def)
  then have "length q < 2 ^ k" by (simp add: lane_inv_def ring_lane_def)
  from with_taken_put [OF inv this ok, of "Some t"] wp_store_spec [OF inv, of t]
  show ?thesis by (simp add: lane_steps_def wp_store_def write_ok_def)
qed

text \<open>A writer begins, or has loaded the read index.\<close>

lemma is_full_seen:
  assumes "ring_wf k rb" "unat (idx_index w p - idx_index c p) \<le> 2 ^ k"
  shows "ring_is_full c w p (ring_capacity rb) \<longleftrightarrow> \<not> unat (idx_index w p - idx_index c p) < 2 ^ k"
proof -
  have "ring_is_full c w p (ring_capacity rb) \<longleftrightarrow> unat (idx_index w p - idx_index c p) = 2 ^ k"
    using unat_ring_capacity [OF assms(1)] by (metis ring_is_full_def word_unat_eq_iff)
  then show ?thesis using assms(2) by auto
qed

lemma with_taken_wf: "ring_wf k (with_taken rb rd ra) = ring_wf k rb"
  by (cases ra) (simp_all add: with_taken_def)

lemma lane_write_call:
  assumes "lane_steps k p rb w wa rd ra q b" "op = CommitOp \<Longrightarrow> b = Some t" "op = PushOp \<Longrightarrow> b = None"
  shows "lane_steps k p rb w (write_call op p t rb w) rd ra q b"
proof -
  have inv: "lane_inv k p (with_taken rb rd ra) w rd q b" using assms(1) by (simp add: lane_steps_def)
  then have wf: "ring_wf k rb" by (simp add: lane_inv_def with_taken_wf)
  have "unat (idx_index (rw_local_w w) p - idx_index (rw_cached_r w) p) \<le> 2 ^ k"
    using inv by (auto simp: lane_inv_def writer_lane_def)
  note full = is_full_seen [OF wf this]
  have "b = None" if "op \<noteq> CommitOp" "\<not> (op = BookOp \<and> idx_any (rw_local_w w) (flag_prio p FLAG_BOOKED))"
    using that assms(3) inv by (cases op) (auto simp: idx_any_booked lane_inv_def writer_lane_def)
  then show ?thesis
    using assms(1,2) full by (auto simp: lane_steps_def write_call_def write_ok_def publishes_def room_seen_def)
qed

lemma lane_write_load:
  assumes "lane_steps k p rb w (WLoad op p t) rd ra q b" "idx_between (rw_cached_r w) v (rb_idx_r rb)"
  shows "lane_steps k p rb (w\<lparr>rw_cached_r := v\<rparr>)
    (if ring_is_full v (rw_local_w w) p (ring_capacity rb) then WIdle (Some t) else WSlot op p t) rd ra q b"
proof -
  have inv: "lane_inv k p (with_taken rb rd ra) w rd q b" using assms(1) by (simp add: lane_steps_def)
  then have wf: "ring_wf k rb" by (simp add: lane_inv_def with_taken_wf)
  have v: "idx_between (rw_cached_r w) v (rb_idx_r (with_taken rb rd ra))" using assms(2) by simp
  note full = is_full_seen [OF wf lane_inv_load_r(2) [OF inv v]]
  show ?thesis
    using assms(1) lane_inv_load_r(1) [OF inv v] full by (auto simp: lane_steps_def write_ok_def room_seen_def)
qed

text \<open>The reader's steps.\<close>

lemma lane_read_take:
  assumes "lane_steps k p rb w wa rd (RTake op p) q b"
  shows "\<exists>t xs. q = t # xs \<and> ring_get rb p (rr_local_r rd) = Some t
    \<and> lane_steps k p rb w wa rd (RIdle (ReadPeeked p t)) q b
    \<and> lane_steps k p (ring_put rb p (rr_local_r rd) None) w wa rd (RPublish p t) q b
    \<and> with_taken (ring_put rb p (rr_local_r rd) None) rd (RPublish p t) = rb"
proof -
  have inv: "lane_inv k p rb w rd q b" and seen: "element_seen p rd" and wok: "write_ok k p rb w wa b"
    using assms by (simp_all add: lane_steps_def with_taken_def read_ok_def)
  have "q \<noteq> []" using inv seen by (auto simp: lane_inv_def reader_lane_def element_seen_def)
  then obtain t xs where q: "q = t # xs" by (cases q) auto
  have get: "ring_get rb p (rr_local_r rd) = Some t"
    using inv lane_facts(3) [OF inv] q by (auto simp: ring_get_at lane_inv_def ring_lane_def dest: spec [of _ 0])
  have slot: "ring_slot rb p (rr_local_r rd) < length (rb_ptr rb p)"
    using inv ring_pos_mod [of k rb "idx_index (rr_local_r rd) p"] by (simp add: lane_inv_def ring_slot_def) (simp add: ring_wf_def)
  have "ring_get (ring_put rb p (rr_local_r rd) None) p (rr_local_r rd) = None"
    using slot by (simp add: ring_get_def) (simp add: ring_put_def)
  moreover have restored: "with_taken (ring_put rb p (rr_local_r rd) None) rd (RPublish p t) = rb"
    using ring_put_same [OF get] by (simp add: with_taken_def)
  ultimately show ?thesis
    using inv wok seen q get by (auto simp: lane_steps_def read_ok_def took_def with_taken_def)
qed

lemma lane_read_publish:
  assumes st: "lane_steps k p rb w wa rd ra q b" and ra: "ra = RPublish p t \<or> ra = RCas p t old"
    and i: "i = idx_increment (rr_local_r rd) p" "lane x p = lane i p"
  shows "lane_steps k p (rb\<lparr>rb_idx_r := x\<rparr>) w wa (rd\<lparr>rr_local_r := i\<rparr>) (RIdle (ReadGot p t)) (tl q) b"
proof -
  let ?R = "with_taken rb rd ra"
  have R: "?R = ring_put rb p (rr_local_r rd) (Some t)" using ra by (auto simp: with_taken_def)
  have inv: "lane_inv k p ?R w rd q b" and wok: "write_ok k p ?R w wa b" using st by (simp_all add: lane_steps_def)
  have tk: "took p rb rd t q" using st ra by (auto simp: lane_steps_def read_ok_def)
  then obtain xs where q: "q = t # xs" by (auto simp: took_def)
  have rb: "ring_put ?R p (rr_local_r rd) None = rb" using tk by (simp add: R took_def ring_put_same)
  have "lane_inv k p (rb\<lparr>rb_idx_r := x\<rparr>) w (rd\<lparr>rr_local_r := i\<rparr>) xs b"
    by (rule lane_take [OF inv [unfolded q] _ _ i(2)]) (use tk i(1) in \<open>simp_all add: rb took_def element_seen_def\<close>)
  moreover have "write_ok k p (rb\<lparr>rb_idx_r := x\<rparr>) w wa b"
  proof -
    have "publishes k p (rb\<lparr>rb_idx_r := x\<rparr>) w op s b" if pub: "publishes k p ?R w op s b" for op s
    proof (cases "op = CommitOp")
      case False
      then have b: "b = None" "room_seen k p w" "ring_at ?R p (idx_index (rw_local_w w) p) = Some s"
        using pub by (simp_all add: publishes_def)
      have "ring_slot ?R p (rw_local_w w) \<noteq> ring_slot ?R p (rr_local_r rd)"
        by (rule slots_apart [OF inv]) (use q lane_room [OF inv b(2)] in simp_all)
      then have "ring_at ?R p (idx_index (rw_local_w w) p) = ring_at rb p (idx_index (rw_local_w w) p)"
        unfolding R ring_get_at [symmetric] by (simp add: ring_get_def) (simp add: ring_put_def)
      then show ?thesis using b False by (simp add: publishes_def)
    qed (use pub in \<open>simp add: publishes_def\<close>)
    then show ?thesis using wok by (cases wa) (auto simp: write_ok_def)
  qed
  ultimately show ?thesis using q by (simp add: lane_steps_def with_taken_def read_ok_def)
qed

lemma lane_read_peek:
  assumes "lane_steps k p rb w wa rd (RIdle (ReadPeeked p s)) q b"
  shows "lane_steps k p (rr_peek_store p t rb rd) w wa rd (RIdle (ReadPeeked p s)) (t # tl q) b"
proof -
  let ?rb = "rr_peek_store p t rb rd"
  have inv: "lane_inv k p rb w rd q b" and seen: "element_seen p rd" and wok: "write_ok k p rb w wa b"
    using assms by (simp_all add: lane_steps_def with_taken_def read_ok_def)
  have wf: "ring_wf k rb" using inv by (simp add: lane_inv_def)
  have "q \<noteq> []" using inv seen by (auto simp: lane_inv_def reader_lane_def element_seen_def)
  then obtain x xs where q: "q = x # xs" by (cases q) auto
  have le: "length q \<le> 2 ^ k" using inv by (auto simp: lane_inv_def ring_lane_def split: if_splits)
  let ?r = "idx_index (rr_local_r rd) p"
  have at: "ring_at ?rb p (?r + of_nat j) = (if j = 0 then Some t else ring_at rb p (?r + of_nat j))" if "j < 2 ^ k" for j
    using ring_at_put_same [OF wf, of "rr_local_r rd" p ?r 0 j "Some t"] that by (simp add: rr_peek_store_def)
  have w: "idx_index (rb_idx_w rb) p = ?r + of_nat (length q)" "idx_index (rw_local_w w) p = ?r + of_nat (length q)"
    using inv lane_facts(2,3) [OF inv] by (simp_all add: lane_inv_def ring_lane_def)
  have end_at: "ring_at ?rb p (?r + of_nat (length q)) = ring_at rb p (?r + of_nat (length q))" if "length q < 2 ^ k"
    using at [OF that] q by simp
  have "ring_lane k p ?rb (t # xs) b"
    unfolding ring_lane_def
  proof (intro conjI allI impI)
    show "idx_index (rb_idx_w ?rb) p = idx_index (rb_idx_r ?rb) p + of_nat (length (t # xs))"
      using w(1) lane_facts(3) [OF inv] q by (simp add: rr_peek_store_def)
    show "length (t # xs) + (if b = None then 0 else 1) \<le> 2 ^ k"
      using inv q by (auto simp: lane_inv_def ring_lane_def split: if_splits)
    show "ring_at ?rb p (idx_index (rb_idx_r ?rb) p + of_nat j) = Some ((t # xs) ! j)" if "j < length (t # xs)" for j
    proof -
      have "j < length q" using that q by simp
      then have "ring_at rb p (?r + of_nat j) = Some (q ! j)"
        using inv lane_facts(3) [OF inv] by (simp add: lane_inv_def ring_lane_def)
      then show ?thesis
        using at [of j] \<open>j < length q\<close> le q lane_facts(3) [OF inv] by (cases j) (simp_all add: rr_peek_store_def)
    qed
    show "ring_at ?rb p (idx_index (rb_idx_w ?rb) p) = b" if "b \<noteq> None"
    proof -
      have "length q < 2 ^ k" "ring_at rb p (idx_index (rb_idx_w rb) p) = b"
        using inv that by (auto simp: lane_inv_def ring_lane_def split: if_splits)
      then show ?thesis using end_at w(1) by (simp add: rr_peek_store_def)
    qed
  qed
  then have inv': "lane_inv k p ?rb w rd (t # xs) b"
    using inv q by (simp add: lane_inv_def rr_peek_store_def writer_lane_def reader_lane_def)
  have "publishes k p ?rb w op s b" if "publishes k p rb w op s b" for op s
    using that end_at lane_room [OF inv] w(2) by (auto simp: publishes_def)
  then have "write_ok k p ?rb w wa b" using wok by (cases wa) (auto simp: write_ok_def)
  then show ?thesis using inv' seen q by (simp add: lane_steps_def with_taken_def read_ok_def)
qed

end
