(* ===== verification/Ringbuf_Threads.thy ===== *)
theory Ringbuf_Threads
  imports Ringbuf_Steps
begin

text \<open>
  The threads of \<open>Ringbuf_Steps\<close> together: whatever the interleaving of their steps, and however
  old the values that they load, every lane keeps its invariant.  So no thread reads a slot that
  is not initialised, no two threads use one slot at the same time, and each operation is one
  event of a bounded queue, at the step that publishes it.  A thread that runs alone computes
  what the operations of \<open>Ringbuf\<close> say.
\<close>

section \<open>The invariant of all the handles\<close>

text \<open>What a step on lane \<open>p\<close> may change elsewhere.\<close>

definition elsewhere :: "priority \<Rightarrow> 'a ring \<Rightarrow> 'a ring \<Rightarrow> (priority \<Rightarrow> 'b) \<Rightarrow> (priority \<Rightarrow> 'b) \<Rightarrow> bool" where
  "elsewhere p rb rb' f f' \<longleftrightarrow> (\<forall>r. r \<noteq> p \<longrightarrow> same_lane r rb rb' \<and> f' r = f r)"

lemma elsewhere_same [simp]: "elsewhere p rb rb f f"
  by (simp add: elsewhere_def)

lemma target_other: "r \<noteq> p \<Longrightarrow> lane (write_target op p i) r = lane i r"
  by (cases op) (simp_all add: write_target_def lane_increment_other lane_set_other lane_unset_other)

lemma same_lane_idx_w: "lane x r = lane (rb_idx_w rb) r \<Longrightarrow> same_lane r rb (rb\<lparr>rb_idx_w := x\<rparr>)"
  and same_lane_idx_r: "lane x r = lane (rb_idx_r rb) r \<Longrightarrow> same_lane r rb (rb\<lparr>rb_idx_r := x\<rparr>)"
  by (simp_all add: same_lane_def)

definition write_moves :: "nat \<Rightarrow> priority \<Rightarrow> idx \<Rightarrow> 'a ring \<Rightarrow> ring_writer \<Rightarrow> 'a write_at \<Rightarrow> ring_reader \<Rightarrow> 'a read_at \<Rightarrow>
    (priority \<Rightarrow> 'a list) \<Rightarrow> (priority \<Rightarrow> 'a option) \<Rightarrow> 'a ring \<times> ring_writer \<times> 'a write_at \<Rightarrow> bool" where
  "write_moves k p l rb w wa rd ra Q B z \<longleftrightarrow> (case z of (rb', w', wa') \<Rightarrow> case after_write wa wa' (Q, B) of (Q', B') \<Rightarrow>
     lane_steps k p rb' w' wa' rd ra (Q' p) (B' p)
     \<and> elsewhere p rb rb' Q Q' \<and> elsewhere p rb rb' B B' \<and> elsewhere p rb rb' (lane (rw_local_w w)) (lane (rw_local_w w'))
     \<and> rw_update w' = rw_update w \<and> (\<forall>r. writes_lane r wa' \<longrightarrow> r = p)
     \<and> (rw_cached_r w' = rw_cached_r w \<or> (\<exists>op t. wa = WLoad op p t) \<and> rw_cached_r w' = l))"

lemma write_step_moves:
  assumes st: "lane_steps k p rb w wa rd ra (Q p) (B p)" and wl: "writes_lane p wa"
    and l: "\<And>op t. wa = WLoad op p t \<Longrightarrow> idx_between (rw_cached_r w) l (rb_idx_r rb)"
    and sync: "\<And>r. rw_update w = UpdateS \<Longrightarrow> lane (rw_local_w w) r = lane (rb_idx_w rb) r"
  shows "write_moves k p l rb w wa rd ra Q B (write_step l rb w wa)"
proof (cases wa)
  case (WIdle r)
  then show ?thesis using wl by (simp add: writes_lane_def)
next
  case wa: (WLoad op p' t)
  then have p: "p' = p" using wl by (simp add: writes_lane_def)
  from lane_write_load [OF st [unfolded wa p] l] wa p
  show ?thesis by (auto simp: write_moves_def after_write_def writes_lane_def)
next
  case wa: (WSlot op p' t)
  then have p: "p' = p" using wl by (simp add: writes_lane_def)
  from lane_write_slot [OF st [unfolded wa p]] wa p
  show ?thesis by (simp add: write_moves_def after_write_def writes_lane_def elsewhere_def)
next
  case wa: (WPublish op p' t)
  then have p: "p' = p" using wl by (simp add: writes_lane_def)
  have pub: "publishes k p (with_taken rb rd ra) w op t (B p)" using st wa p by (simp add: lane_steps_def write_ok_def)
  have b: "op \<noteq> CommitOp \<Longrightarrow> B p = None" using pub by (simp add: publishes_def)
  show ?thesis
  proof (cases "op = BookOp")
    case True
    from lane_publish_book [OF st [unfolded wa p True]] wa p True
    show ?thesis
      by (simp add: write_moves_def after_write_def writes_lane_def elsewhere_def Let_def same_lane_idx_w lane_set_other target_other)
  next
    case nb: False
    show ?thesis
    proof (cases "rw_update w")
      case UpdateS
      note sync = sync [OF UpdateS]
      from lane_publish [OF st pub nb refl refl] wa p nb UpdateS b
      show ?thesis
        by (cases op) (auto simp: write_moves_def after_write_def writes_lane_def elsewhere_def Let_def same_lane_idx_w target_other sync)
    next
      case UpdateM
      have "lane_steps k p rb w (WCas op p t l) rd ra (Q p) (B p)"
        using st pub nb by (simp add: lane_steps_def write_ok_def)
      then show ?thesis using wa p nb UpdateM by (simp add: write_moves_def after_write_def writes_lane_def elsewhere_def)
    qed
  qed
next
  case wa: (WCas op p' t old)
  then have p: "p' = p" using wl by (simp add: writes_lane_def)
  have pub: "publishes k p (with_taken rb rd ra) w op t (B p)" "op \<noteq> BookOp"
    using st wa p by (simp_all add: lane_steps_def write_ok_def)
  have b: "op \<noteq> CommitOp \<Longrightarrow> B p = None" using pub(1) by (simp add: publishes_def)
  show ?thesis
  proof (cases "rb_idx_w rb = old")
    case True
    have "lane (aidx_update old p (write_target op p (rw_local_w w))) p = lane (write_target op p (rw_local_w w)) p"
      by (simp add: lane_update)
    from lane_publish [OF st pub refl this] wa p True pub(2) b
    show ?thesis
      by (cases op)
        (auto simp: write_moves_def after_write_def writes_lane_def elsewhere_def Let_def same_lane_idx_w target_other lane_update)
  next
    case False
    have "lane_steps k p rb w (WCas op p t (rb_idx_w rb)) rd ra (Q p) (B p)"
      using st pub by (simp add: lane_steps_def write_ok_def)
    then show ?thesis using wa p False by (simp add: write_moves_def after_write_def writes_lane_def elsewhere_def)
  qed
qed

definition reads_home :: "priority \<Rightarrow> 'a read_at \<Rightarrow> bool" where
  "reads_home p ra \<longleftrightarrow> (case ra of RCheck _ ps \<Rightarrow> p \<in> set ps | RLoad _ p' ps \<Rightarrow> p' = p \<or> p \<in> set ps | RTake _ p' \<Rightarrow> p' = p
     | RPublish p' _ \<Rightarrow> p' = p | RCas p' _ _ \<Rightarrow> p' = p | RIdle (ReadPeeked p' _) \<Rightarrow> p' = p | RIdle _ \<Rightarrow> False | RUninit \<Rightarrow> False)"

text \<open>The lane that a reader is working on, if it is at one.\<close>

definition reads_now :: "priority \<Rightarrow> 'a read_at \<Rightarrow> bool" where
  "reads_now p ra \<longleftrightarrow> (case ra of RCheck _ (p' # _) \<Rightarrow> p' = p | RLoad _ p' _ \<Rightarrow> p' = p | RTake _ p' \<Rightarrow> p' = p
     | RPublish p' _ \<Rightarrow> p' = p | RCas p' _ _ \<Rightarrow> p' = p | _ \<Rightarrow> False)"

definition read_moves :: "nat \<Rightarrow> priority \<Rightarrow> idx \<Rightarrow> 'a ring \<Rightarrow> ring_writer \<Rightarrow> 'a write_at \<Rightarrow> ring_reader \<Rightarrow> 'a read_at \<Rightarrow>
    (priority \<Rightarrow> 'a list) \<Rightarrow> 'a option \<Rightarrow> 'a ring \<times> ring_reader \<times> 'a read_at \<Rightarrow> bool" where
  "read_moves k p l rb w wa rd ra Q b z \<longleftrightarrow> (case z of (rb', rd', ra') \<Rightarrow> let Q' = after_read ra ra' Q in
     lane_steps k p rb' w wa rd' ra' (Q' p) b
     \<and> elsewhere p rb rb' Q Q' \<and> elsewhere p rb rb' (lane (rr_local_r rd)) (lane (rr_local_r rd'))
     \<and> elsewhere p (with_taken rb rd ra) (with_taken rb' rd' ra') Q Q'
     \<and> rr_update rd' = rr_update rd \<and> (\<forall>r. reads_lane r ra' \<longrightarrow> r = p) \<and> (\<forall>r. reads_home r ra' \<longrightarrow> reads_home r ra)
     \<and> (rr_cached_w rd' = rr_cached_w rd \<or> (\<exists>op ps. ra = RLoad op p ps) \<and> rr_cached_w rd' = l))"

lemma element_seen_iff: "\<not> ring_is_empty (rr_local_r rd) (rr_cached_w rd) p \<longleftrightarrow> element_seen p rd"
  by (auto simp: element_seen_def ring_is_empty_def unat_gt_0)

lemma read_step_moves:
  assumes st: "lane_steps k p rb w wa rd ra (Q p) b" and now: "reads_now p ra"
    and l: "\<And>op ps. ra = RLoad op p ps \<Longrightarrow> idx_between (rr_cached_w rd) l (rb_idx_w rb)"
    and sync: "\<And>r. rr_update rd = UpdateS \<Longrightarrow> lane (rr_local_r rd) r = lane (rb_idx_r rb) r"
  shows "read_moves k p l rb w wa rd ra Q b (read_step l rb rd ra)"
proof -
  have idle: "with_taken rb rd' ra' = rb"
    if "\<And>p' t'. ra' \<noteq> RPublish p' t'" "\<And>p' t' v. ra' \<noteq> RCas p' t' v" for rd' and ra' :: "'a read_at"
    using that by (simp add: with_taken_def split: read_at.split)
  have pub: "read_moves k p l rb w wa rd ra Q b (rb\<lparr>rb_idx_r := x\<rparr>, rd\<lparr>rr_local_r := i\<rparr>, RIdle (ReadGot p t))"
    if ra: "ra = RPublish p t \<or> ra = RCas p t old" and i: "i = idx_increment (rr_local_r rd) p" "lane x p = lane i p"
      and x: "\<And>r. r \<noteq> p \<Longrightarrow> lane x r = lane (rb_idx_r rb) r" for x i t old
  proof -
    have R: "with_taken rb rd ra = ring_put rb p (rr_local_r rd) (Some t)" using ra by (auto simp: with_taken_def)
    have "same_lane r (with_taken rb rd ra) (rb\<lparr>rb_idx_r := x\<rparr>)" if "r \<noteq> p" for r
      using that x by (simp add: R same_lane_def ring_put_def)
    moreover have "after_read ra (RIdle (ReadGot p t)) Q = Q(p := tl (Q p))" using ra by (auto simp: after_read_def)
    ultimately show ?thesis
      using lane_read_publish [OF st ra i] x i(1) ra
      by (auto simp: read_moves_def elsewhere_def same_lane_idx_r lane_increment_other reads_lane_def reads_home_def with_taken_def)
  qed
  show ?thesis
  proof (cases ra)
    case (RIdle r)
    then show ?thesis using now by (simp add: reads_now_def)
  next
    case RUninit
    then show ?thesis using now by (simp add: reads_now_def)
  next
    case (RCheck op ps)
    then obtain ps' where ra: "ra = RCheck op (p # ps')" using now by (auto simp: reads_now_def split: list.splits)
    have "lane_steps k p rb w wa rd (if ring_is_empty (rr_local_r rd) (rr_cached_w rd) p then RLoad op p ps' else RTake op p) (Q p) b"
      using st ra element_seen_iff [of rd p] by (auto simp: lane_steps_def with_taken_def read_ok_def)
    then show ?thesis
      using ra by (auto simp: read_moves_def after_read_def idle elsewhere_def reads_lane_def reads_home_def)
  next
    case (RLoad op p' ps)
    then have ra: "ra = RLoad op p ps" using now by (simp add: reads_now_def)
    have inv: "lane_inv k p rb w rd (Q p) b" and wok: "write_ok k p rb w wa b"
      using st ra by (simp_all add: lane_steps_def with_taken_def)
    have "lane_steps k p rb w wa (rd\<lparr>rr_cached_w := l\<rparr>) (if ring_is_empty (rr_local_r rd) l p then RCheck op ps else RTake op p) (Q p) b"
      using lane_inv_load_w [OF inv l [OF ra]] wok element_seen_iff [of "rd\<lparr>rr_cached_w := l\<rparr>" p]
      by (auto simp: lane_steps_def with_taken_def read_ok_def)
    then show ?thesis
      using ra by (auto simp: read_moves_def after_read_def idle elsewhere_def reads_lane_def reads_home_def)
  next
    case (RTake op p')
    then have ra: "ra = RTake op p" using now by (simp add: reads_now_def)
    obtain t xs where t: "Q p = t # xs" "ring_get rb p (rr_local_r rd) = Some t"
        "lane_steps k p rb w wa rd (RIdle (ReadPeeked p t)) (Q p) b"
        "lane_steps k p (ring_put rb p (rr_local_r rd) None) w wa rd (RPublish p t) (Q p) b"
        "with_taken (ring_put rb p (rr_local_r rd) None) rd (RPublish p t) = rb"
      using lane_read_take [OF st [unfolded ra]] by blast
    show ?thesis
      using ra t by (auto simp: read_moves_def after_read_def idle elsewhere_def reads_lane_def reads_home_def)
  next
    case (RPublish p' t)
    then have ra: "ra = RPublish p t" using now by (simp add: reads_now_def)
    show ?thesis
    proof (cases "rr_update rd")
      case UpdateS
      then show ?thesis using pub [of t _ "idx_increment (rr_local_r rd) p" "idx_increment (rr_local_r rd) p"] ra sync
        by (simp add: Let_def lane_increment_other)
    next
      case UpdateM
      have "lane_steps k p rb w wa rd (RCas p t l) (Q p) b"
        using st ra by (simp add: lane_steps_def with_taken_def read_ok_def)
      then show ?thesis using ra UpdateM
        by (auto simp: read_moves_def after_read_def elsewhere_def reads_lane_def reads_home_def with_taken_def)
    qed
  next
    case (RCas p' t old)
    then have ra: "ra = RCas p t old" using now by (simp add: reads_now_def)
    show ?thesis
    proof (cases "rb_idx_r rb = old")
      case True
      then show ?thesis
        using pub [of t old "idx_increment (rr_local_r rd) p" "aidx_update old p (idx_increment (rr_local_r rd) p)"] ra
        by (simp add: Let_def lane_update)
    next
      case False
      have "lane_steps k p rb w wa rd (RCas p t (rb_idx_r rb)) (Q p) b"
        using st ra by (simp add: lane_steps_def with_taken_def read_ok_def)
      then show ?thesis using ra False
        by (auto simp: read_moves_def after_read_def elsewhere_def reads_lane_def reads_home_def with_taken_def)
    qed
  qed
qed

text \<open>Which handles there are: with the plain store of \<open>UpdateS\<close> one handle has all lanes, as the
  writer and the reader of \<open>spsc.rs\<close>, the reader of \<open>mpsc.rs\<close> and the writer of \<open>spmc.rs\<close> do; their
  other handles have a lane each and use \<open>UpdateM\<close>.\<close>

definition flavour_ok :: "(priority \<Rightarrow> priority) \<Rightarrow> (priority \<Rightarrow> priority) \<Rightarrow> update \<Rightarrow> update \<Rightarrow> bool" where
  "flavour_ok wh rh u v \<longleftrightarrow> (u = UpdateS \<longrightarrow> (\<forall>p q. wh p = wh q)) \<and> (v = UpdateS \<longrightarrow> (\<forall>p q. rh p = rh q))"

definition lane_of :: "nat \<Rightarrow> (priority \<Rightarrow> priority) \<Rightarrow> (priority \<Rightarrow> priority) \<Rightarrow> 'a ring_sys \<Rightarrow> (priority \<Rightarrow> 'a list) \<Rightarrow>
    (priority \<Rightarrow> 'a option) \<Rightarrow> priority \<Rightarrow> bool" where
  "lane_of k wh rh y Q B p \<longleftrightarrow>
     lane_steps k p (y_ring y) (y_w y (wh p)) (y_wat y (wh p)) (y_r y (rh p)) (y_rat y (rh p)) (Q p) (B p)"

definition at_home :: "(priority \<Rightarrow> priority) \<Rightarrow> (priority \<Rightarrow> priority) \<Rightarrow> update \<Rightarrow> update \<Rightarrow> 'a ring_sys \<Rightarrow> bool" where
  "at_home wh rh u v y \<longleftrightarrow> (\<forall>i. rw_update (y_w y i) = u \<and> (\<forall>p. writes_lane p (y_wat y i) \<longrightarrow> wh p = i))
     \<and> (\<forall>j. rr_update (y_r y j) = v \<and> (\<forall>p. reads_home p (y_rat y j) \<longrightarrow> rh p = j))"

definition steps_inv :: "nat \<Rightarrow> (priority \<Rightarrow> priority) \<Rightarrow> (priority \<Rightarrow> priority) \<Rightarrow> update \<Rightarrow> update \<Rightarrow> 'a ring_sys \<Rightarrow>
    (priority \<Rightarrow> 'a list) \<Rightarrow> (priority \<Rightarrow> 'a option) \<Rightarrow> bool" where
  "steps_inv k wh rh u v y Q B \<longleftrightarrow> (\<forall>p. lane_of k wh rh y Q B p) \<and> at_home wh rh u v y"

lemma set_writer_simps [simp]:
  "y_ring (set_writer i (rb, w, a) y) = rb" "y_w (set_writer i (rb, w, a) y) = (y_w y)(i := w)"
  "y_wat (set_writer i (rb, w, a) y) = (y_wat y)(i := a)" "y_r (set_writer i (rb, w, a) y) = y_r y"
  "y_rat (set_writer i (rb, w, a) y) = y_rat y"
  by (simp_all add: set_writer_def)

lemma set_reader_simps [simp]:
  "y_ring (set_reader j (rb, rd, a) y) = rb" "y_r (set_reader j (rb, rd, a) y) = (y_r y)(j := rd)"
  "y_rat (set_reader j (rb, rd, a) y) = (y_rat y)(j := a)" "y_w (set_reader j (rb, rd, a) y) = y_w y"
  "y_wat (set_reader j (rb, rd, a) y) = y_wat y"
  by (simp_all add: set_reader_def)

lemma set_writer_same: "set_writer i (y_ring y, y_w y i, y_wat y i) y = y"
  and set_reader_same: "set_reader j (y_ring y, y_r y j, y_rat y j) y = y"
  by (simp_all add: set_writer_def set_reader_def)

lemma lane_of_sync:
  assumes "lane_of k wh rh y Q B r"
  shows "lane (rw_local_w (y_w y (wh r))) r = lane (rb_idx_w (y_ring y)) r"
    and "lane (rr_local_r (y_r y (rh r))) r = lane (rb_idx_r (y_ring y)) r"
  using assms by (simp_all add: lane_of_def lane_steps_def lane_inv_def writer_lane_def reader_lane_def)

text \<open>The load of a writer moves nothing of another lane but what the writer knows of it.\<close>

lemma lane_steps_writer_load:
  assumes "lane_steps k q rb w wa rd ra xs b" "idx_between (rw_cached_r w) v (rb_idx_r rb)" "\<not> writes_lane q wa"
  shows "lane_steps k q rb (w\<lparr>rw_cached_r := v\<rparr>) wa rd ra xs b"
  using assms lane_inv_load_r(1) [of k q "with_taken rb rd ra" w rd xs b v]
  by (simp add: lane_steps_def write_ok_other)

lemma lane_steps_reader_load:
  assumes "lane_steps k q rb w wa rd ra xs b" "idx_between (rr_cached_w rd) v (rb_idx_w rb)" "ra = RLoad op p ps"
  shows "lane_steps k q rb w wa (rd\<lparr>rr_cached_w := v\<rparr>) ra xs b"
  using assms lane_inv_load_w [of k q rb w rd xs b v] by (simp add: lane_steps_def with_taken_def read_ok_def)

lemma steps_inv_writer:
  assumes inv: "steps_inv k wh rh u v y Q B" and fl: "flavour_ok wh rh u v"
    and l: "\<And>op p t. y_wat y i = WLoad op p t \<Longrightarrow> idx_between (rw_cached_r (y_w y i)) l (rb_idx_r (y_ring y))"
    and z: "z = write_step l (y_ring y) (y_w y i) (y_wat y i)" and QB: "after_write (y_wat y i) (snd (snd z)) (Q, B) = (Q', B')"
  shows "steps_inv k wh rh u v (set_writer i z y) Q' B'"
proof (cases "\<exists>r. y_wat y i = WIdle r")
  case True
  then have "z = (y_ring y, y_w y i, y_wat y i)" "Q' = Q" "B' = B" using z QB by (auto simp: after_write_def)
  then show ?thesis using inv by (simp add: set_writer_same)
next
  case False
  let ?rb = "y_ring y" and ?w = "y_w y i" and ?wa = "y_wat y i"
  obtain p where p: "writes_lane p ?wa"
    by (cases ?wa) (use that False in \<open>simp_all add: writes_lane_def\<close>)
  have home: "wh p = i" using inv p by (simp add: steps_inv_def at_home_def)
  have lanes: "lane_of k wh rh y Q B r" for r using inv by (simp add: steps_inv_def)
  obtain rb' w' wa' where z': "z = (rb', w', wa')" by (cases z) auto
  have st: "lane_steps k p ?rb ?w ?wa (y_r y (rh p)) (y_rat y (rh p)) (Q p) (B p)" using lanes [of p] home by (simp add: lane_of_def)
  have "write_moves k p l ?rb ?w ?wa (y_r y (rh p)) (y_rat y (rh p)) Q B z"
    unfolding z
  proof (rule write_step_moves [of k p ?rb ?w ?wa _ _ Q B, OF st p])
    show "idx_between (rw_cached_r ?w) l (rb_idx_r ?rb)" if "?wa = WLoad op p t" for op t
      using l that by blast
    show "lane (rw_local_w ?w) r = lane (rb_idx_w ?rb) r" if "rw_update ?w = UpdateS" for r
    proof -
      have "u = UpdateS" using that inv by (simp add: steps_inv_def at_home_def)
      then have "wh r = i" using fl home by (auto simp: flavour_ok_def)
      then show ?thesis using lane_of_sync(1) [OF lanes [of r]] by simp
    qed
  qed
  then have here: "lane_steps k p rb' w' wa' (y_r y (rh p)) (y_rat y (rh p)) (Q' p) (B' p)"
    and out: "\<And>r. r \<noteq> p \<Longrightarrow> same_lane r ?rb rb' \<and> Q' r = Q r \<and> B' r = B r \<and> lane (rw_local_w w') r = lane (rw_local_w ?w) r"
    and upd: "rw_update w' = rw_update ?w" and wr: "\<And>r. writes_lane r wa' \<Longrightarrow> r = p"
    and cached: "rw_cached_r w' = rw_cached_r ?w \<or> (\<exists>op t. ?wa = WLoad op p t) \<and> rw_cached_r w' = l"
    using QB by (auto simp: write_moves_def elsewhere_def z')
  have "lane_of k wh rh (set_writer i z y) Q' B' r" for r
  proof (cases "r = p")
    case True
    then show ?thesis using here home by (simp add: lane_of_def z')
  next
    case other: False
    have nw: "\<not> writes_lane r ?wa" using other p by (cases ?wa) (auto simp: writes_lane_def)
    note r = out [OF other]
    show ?thesis
    proof (cases "wh r = i")
      case True
      then have here: "lane_steps k r ?rb ?w ?wa (y_r y (rh r)) (y_rat y (rh r)) (Q r) (B r)"
        using lanes [of r] by (simp add: lane_of_def)
      from cached obtain w0 where w0: "lane_steps k r ?rb w0 ?wa (y_r y (rh r)) (y_rat y (rh r)) (Q r) (B r)"
          "rw_cached_r w' = rw_cached_r w0" "rw_local_w w0 = rw_local_w ?w"
      proof
        assume load: "(\<exists>op t. ?wa = WLoad op p t) \<and> rw_cached_r w' = l"
        then have "idx_between (rw_cached_r ?w) l (rb_idx_r ?rb)" using l p by (auto simp: writes_lane_def)
        from lane_steps_writer_load [OF here this nw] show thesis by (rule that) (use load in simp_all)
      qed (use here that in blast)
      have "lane_steps k r rb' w' wa' (y_r y (rh r)) (y_rat y (rh r)) (Q r) (B r)"
        by (rule lane_steps_writer_other [OF w0(1)]) (use r w0(2,3) wr other in auto)
      then show ?thesis using r True by (simp add: lane_of_def z')
    next
      case False
      have "lane_steps k r rb' (y_w y (wh r)) (y_wat y (wh r)) (y_r y (rh r)) (y_rat y (rh r)) (Q r) (B r)"
        by (rule lane_steps_writer_other [OF lanes [of r, unfolded lane_of_def]]) (use r in simp_all)
      then show ?thesis using r False by (simp add: lane_of_def z')
    qed
  qed
  moreover have "at_home wh rh u v (set_writer i z y)"
    using inv upd wr home by (auto simp: steps_inv_def at_home_def z')
  ultimately show ?thesis by (simp add: steps_inv_def)
qed

lemma with_taken_load: "with_taken rb (rd\<lparr>rr_cached_w := v\<rparr>) ra = with_taken rb rd ra"
  by (cases ra) (simp_all add: with_taken_def)

lemma steps_inv_reader:
  assumes inv: "steps_inv k wh rh u v y Q B" and fl: "flavour_ok wh rh u v"
    and l: "\<And>op p ps. y_rat y j = RLoad op p ps \<Longrightarrow> idx_between (rr_cached_w (y_r y j)) l (rb_idx_w (y_ring y))"
    and z: "z = read_step l (y_ring y) (y_r y j) (y_rat y j)"
  shows "steps_inv k wh rh u v (set_reader j z y) (after_read (y_rat y j) (snd (snd z)) Q) B"
proof (cases "\<exists>p. reads_now p (y_rat y j)")
  case False
  have lanes: "lane_of k wh rh y Q B r" for r using inv by (simp add: steps_inv_def)
  have Q: "after_read (y_rat y j) (snd (snd z)) Q = Q"
    using False by (cases "y_rat y j") (auto simp: after_read_def reads_now_def)
  show ?thesis
  proof (cases "\<exists>op. y_rat y j = RCheck op []")
    case True
    then have z': "z = (y_ring y, y_r y j, RIdle ReadNone)" using z by auto
    have "lane_of k wh rh (set_reader j z y) Q B r" for r
    proof (cases "rh r = j")
      case rj: True
      then show ?thesis
        using lanes [of r] True by (auto simp: lane_of_def z' lane_steps_def with_taken_def read_ok_def)
    qed (use lanes [of r] in \<open>simp add: lane_of_def z'\<close>)
    moreover have "at_home wh rh u v (set_reader j z y)"
      using inv by (simp add: steps_inv_def at_home_def z' reads_home_def)
    ultimately show ?thesis unfolding Q by (simp add: steps_inv_def)
  next
    case nocheck: False
    then have "z = (y_ring y, y_r y j, y_rat y j)"
      using False z by (cases "y_rat y j") (auto simp: reads_now_def neq_Nil_conv split: list.splits)
    then show ?thesis unfolding Q using inv by (simp add: set_reader_same)
  qed
next
  case True
  let ?rb = "y_ring y" and ?rd = "y_r y j" and ?ra = "y_rat y j"
  from True obtain p where p: "reads_now p ?ra" by blast
  have "reads_home p ?ra" using p by (cases ?ra) (auto simp: reads_now_def reads_home_def split: list.splits)
  then have home: "rh p = j" using inv by (simp add: steps_inv_def at_home_def)
  have lanes: "lane_of k wh rh y Q B r" for r using inv by (simp add: steps_inv_def)
  obtain rb' rd' ra' where z': "z = (rb', rd', ra')" by (cases z) auto
  define Q' where "Q' = after_read ?ra ra' Q"
  have st: "lane_steps k p ?rb (y_w y (wh p)) (y_wat y (wh p)) ?rd ?ra (Q p) (B p)" using lanes [of p] home by (simp add: lane_of_def)
  have "read_moves k p l ?rb (y_w y (wh p)) (y_wat y (wh p)) ?rd ?ra Q (B p) z"
    unfolding z
  proof (rule read_step_moves [of k p ?rb _ _ ?rd ?ra Q, OF st p])
    show "idx_between (rr_cached_w ?rd) l (rb_idx_w ?rb)" if "?ra = RLoad op p ps" for op ps
      using l that by blast
    show "lane (rr_local_r ?rd) r = lane (rb_idx_r ?rb) r" if "rr_update ?rd = UpdateS" for r
    proof -
      have "v = UpdateS" using that inv by (simp add: steps_inv_def at_home_def)
      then have "rh r = j" using fl home by (auto simp: flavour_ok_def)
      then show ?thesis using lane_of_sync(2) [OF lanes [of r]] by simp
    qed
  qed
  then have here: "lane_steps k p rb' (y_w y (wh p)) (y_wat y (wh p)) rd' ra' (Q' p) (B p)"
    and out: "\<And>r. r \<noteq> p \<Longrightarrow> same_lane r ?rb rb' \<and> Q' r = Q r \<and> lane (rr_local_r rd') r = lane (rr_local_r ?rd) r
        \<and> same_lane r (with_taken ?rb ?rd ?ra) (with_taken rb' rd' ra')"
    and upd: "rr_update rd' = rr_update ?rd" and rd: "\<And>r. reads_lane r ra' \<Longrightarrow> r = p" "\<And>r. reads_home r ra' \<Longrightarrow> reads_home r ?ra"
    and cached: "rr_cached_w rd' = rr_cached_w ?rd \<or> (\<exists>op ps. ?ra = RLoad op p ps) \<and> rr_cached_w rd' = l"
    by (auto simp: read_moves_def elsewhere_def z' Q'_def Let_def)
  have "lane_of k wh rh (set_reader j z y) Q' B r" for r
  proof (cases "r = p")
    case True
    then show ?thesis using here home by (simp add: lane_of_def z')
  next
    case other: False
    note r = out [OF other]
    show ?thesis
    proof (cases "rh r = j")
      case True
      then have here: "lane_steps k r ?rb (y_w y (wh r)) (y_wat y (wh r)) ?rd ?ra (Q r) (B r)"
        using lanes [of r] by (simp add: lane_of_def)
      from cached obtain r0 where r0: "lane_steps k r ?rb (y_w y (wh r)) (y_wat y (wh r)) r0 ?ra (Q r) (B r)"
          "rr_cached_w rd' = rr_cached_w r0" "rr_local_r r0 = rr_local_r ?rd" "with_taken ?rb r0 ?ra = with_taken ?rb ?rd ?ra"
      proof
        assume load: "(\<exists>op ps. ?ra = RLoad op p ps) \<and> rr_cached_w rd' = l"
        then obtain op ps where ra: "?ra = RLoad op p ps" by blast
        from lane_steps_reader_load [OF here l [OF ra] ra] show thesis
          by (rule that) (use load in \<open>simp_all add: with_taken_load\<close>)
      qed (use here that in blast)
      have "lane_steps k r rb' (y_w y (wh r)) (y_wat y (wh r)) rd' ra' (Q r) (B r)"
        by (rule lane_steps_reader_other [OF r0(1)]) (use r r0(2-) rd(1) other in auto)
      then show ?thesis using r True by (simp add: lane_of_def z')
    next
      case False
      have "lane_steps k r rb' (y_w y (wh r)) (y_wat y (wh r)) (y_r y (rh r)) (y_rat y (rh r)) (Q r) (B r)"
        by (rule lane_steps_reader_other [OF lanes [of r, unfolded lane_of_def]]) (use r in \<open>simp_all add: same_lane_taken\<close>)
      then show ?thesis using r False by (simp add: lane_of_def z')
    qed
  qed
  moreover have "at_home wh rh u v (set_reader j z y)"
    using inv upd rd(2) home by (auto simp: steps_inv_def at_home_def z')
  ultimately show ?thesis unfolding Q'_def by (simp add: steps_inv_def z')
qed

lemma lane_booked_get:
  assumes "lane_steps k p rb w wa rd ra q (Some t)"
  shows "wp_deref p rb w = Inr t"
proof -
  have li: "lane_inv k p (with_taken rb rd ra) w rd q (Some t)" and ok: "read_ok p rb rd ra q"
    using assms by (simp_all add: lane_steps_def)
  have lt: "length q < 2 ^ k" using li by (simp add: lane_inv_def ring_lane_def)
  let ?g = "ring_get rb p (rw_local_w w)"
  have "with_taken rb rd ra = ring_put (with_taken rb rd ra) p (rw_local_w w) ?g"
    using with_taken_put(1) [OF li lt ok, of ?g] by (simp add: ring_put_same)
  then have "ring_get (with_taken rb rd ra) p (rw_local_w w) = ?g"
    using ring_put_at_write(1) [OF li lt refl, of ?g] unfolding ring_get_at by metis
  then show ?thesis using wp_deref_spec [OF li] by (simp add: wp_deref_def)
qed

text \<open>A call, and a change of an element in its slot.\<close>

lemma steps_inv_write_call:
  assumes inv: "steps_inv k wh rh u v y Q B" and idle: "y_wat y (wh p) = WIdle x"
    and commit: "op = CommitOp \<Longrightarrow> rw_peek p (y_w y (wh p)) \<and> wp_deref p (y_ring y) (y_w y (wh p)) = Inr t"
    and push: "op = PushOp \<Longrightarrow> \<not> rw_peek p (y_w y (wh p))"
  shows "steps_inv k wh rh u v (y\<lparr>y_wat := (y_wat y)(wh p := write_call op p t (y_ring y) (y_w y (wh p)))\<rparr>) Q B"
proof -
  let ?wa = "write_call op p t (y_ring y) (y_w y (wh p))" and ?rd = "y_r y (rh p)" and ?ra = "y_rat y (rh p)"
  have lanes: "lane_of k wh rh y Q B r" for r using inv by (simp add: steps_inv_def)
  have st: "lane_steps k p (y_ring y) (y_w y (wh p)) (WIdle x) ?rd ?ra (Q p) (B p)" using lanes [of p] idle by (simp add: lane_of_def)
  then have li: "lane_inv k p (with_taken (y_ring y) ?rd ?ra) (y_w y (wh p)) ?rd (Q p) (B p)"
    and ok: "read_ok p (y_ring y) ?rd ?ra (Q p)" by (simp_all add: lane_steps_def)
  have "B p = Some t" if c: "op = CommitOp"
  proof -
    from commit [OF c] rw_peek_spec [OF li] obtain s where s: "B p = Some s" by auto
    from lane_booked_get [OF st [unfolded s]] commit [OF c] show ?thesis by (simp add: s)
  qed
  moreover have "B p = None" if "op = PushOp" using push [OF that] rw_peek_spec [OF li] by simp
  ultimately have here: "lane_steps k p (y_ring y) (y_w y (wh p)) ?wa ?rd ?ra (Q p) (B p)"
    by (rule lane_write_call [OF st])
  have wl: "writes_lane r ?wa \<Longrightarrow> r = p" for r by (auto simp: write_call_def writes_lane_def split: if_splits)
  have "lane_of k wh rh (y\<lparr>y_wat := (y_wat y)(wh p := ?wa)\<rparr>) Q B r" for r
  proof (cases "r = p \<or> wh r \<noteq> wh p")
    case True
    then show ?thesis using here lanes [of r] by (auto simp: lane_of_def)
  next
    case False
    then have "\<not> writes_lane r ?wa" using wl by blast
    then have "lane_steps k r (y_ring y) (y_w y (wh p)) ?wa (y_r y (rh r)) (y_rat y (rh r)) (Q r) (B r)"
      using lanes [of r] False by (simp add: lane_of_def lane_steps_def write_ok_other)
    then show ?thesis using False by (simp add: lane_of_def)
  qed
  moreover have "at_home wh rh u v (y\<lparr>y_wat := (y_wat y)(wh p := ?wa)\<rparr>)"
    using inv wl by (auto simp: steps_inv_def at_home_def)
  ultimately show ?thesis by (simp add: steps_inv_def)
qed

lemma steps_inv_write_peek:
  assumes inv: "steps_inv k wh rh u v y Q B" and idle: "y_wat y (wh p) = WIdle x" and peek: "rw_peek p (y_w y (wh p))"
  shows "steps_inv k wh rh u v (y\<lparr>y_ring := wp_store p t (y_ring y) (y_w y (wh p))\<rparr>) Q (B(p := Some t))"
proof -
  have lanes: "lane_of k wh rh y Q B r" for r using inv by (simp add: steps_inv_def)
  then have st: "lane_steps k p (y_ring y) (y_w y (wh p)) (WIdle x) (y_r y (rh p)) (y_rat y (rh p)) (Q p) (B p)"
    using idle by (metis lane_of_def)
  then have "lane_inv k p (with_taken (y_ring y) (y_r y (rh p)) (y_rat y (rh p))) (y_w y (wh p)) (y_r y (rh p)) (Q p) (B p)"
    by (simp add: lane_steps_def)
  then obtain s where "B p = Some s" using peek rw_peek_spec by blast
  note here = lane_write_peek [OF st [unfolded this], of t]
  have "lane_of k wh rh (y\<lparr>y_ring := wp_store p t (y_ring y) (y_w y (wh p))\<rparr>) Q (B(p := Some t)) r" for r
  proof (cases "r = p")
    case False
    have "lane_steps k r (wp_store p t (y_ring y) (y_w y (wh p))) (y_w y (wh r)) (y_wat y (wh r)) (y_r y (rh r)) (y_rat y (rh r)) (Q r) (B r)"
      by (rule lane_steps_writer_other [OF lanes [of r, unfolded lane_of_def]]) (use False in \<open>simp_all add: wp_store_def\<close>)
    then show ?thesis using False by (simp add: lane_of_def)
  qed (use here idle in \<open>simp add: lane_of_def\<close>)
  then show ?thesis using inv by (simp add: steps_inv_def at_home_def)
qed

lemma steps_inv_read_peek:
  assumes inv: "steps_inv k wh rh u v y Q B" and at: "y_rat y j = RIdle (ReadPeeked p x)"
  shows "steps_inv k wh rh u v (y\<lparr>y_ring := rr_peek_store p t (y_ring y) (y_r y j)\<rparr>) (Q(p := t # tl (Q p))) B"
proof -
  have lanes: "lane_of k wh rh y Q B r" for r using inv by (simp add: steps_inv_def)
  have home: "rh p = j" using inv at by (simp add: steps_inv_def at_home_def reads_home_def)
  have here: "lane_steps k p (rr_peek_store p t (y_ring y) (y_r y j)) (y_w y (wh p)) (y_wat y (wh p)) (y_r y j) (y_rat y j) (t # tl (Q p)) (B p)"
    unfolding at by (rule lane_read_peek) (use lanes [of p] home at in \<open>simp add: lane_of_def\<close>)
  have "lane_of k wh rh (y\<lparr>y_ring := rr_peek_store p t (y_ring y) (y_r y j)\<rparr>) (Q(p := t # tl (Q p))) B r" for r
  proof (cases "r = p")
    case False
    then have same: "same_lane r (y_ring y) (rr_peek_store p t (y_ring y) (y_r y j))" by (simp add: rr_peek_store_def)
    have "lane_steps k r (rr_peek_store p t (y_ring y) (y_r y j)) (y_w y (wh r)) (y_wat y (wh r)) (y_r y (rh r)) (y_rat y (rh r)) (Q r) (B r)"
      by (rule lane_steps_reader_other [OF _ same same_lane_taken [OF same] refl refl]) (use lanes [of r] in \<open>simp_all add: lane_of_def\<close>)
    then show ?thesis using False by (simp add: lane_of_def)
  qed (use here home in \<open>simp add: lane_of_def\<close>)
  then show ?thesis using inv by (simp add: steps_inv_def at_home_def)
qed

lemma steps_inv_read_call:
  assumes inv: "steps_inv k wh rh u v y Q B" and idle: "y_rat y j = RIdle x" and ps: "\<And>p. p \<in> set ps \<Longrightarrow> rh p = j"
  shows "steps_inv k wh rh u v (y\<lparr>y_rat := (y_rat y)(j := RCheck op ps)\<rparr>) Q B"
proof -
  have "lane_of k wh rh (y\<lparr>y_rat := (y_rat y)(j := RCheck op ps)\<rparr>) Q B r" for r
    using inv idle by (auto simp: steps_inv_def lane_of_def lane_steps_def with_taken_def read_ok_def dest!: spec [of _ r])
  then show ?thesis using inv ps by (auto simp: steps_inv_def at_home_def reads_home_def)
qed

lemma steps_inv_start:
  assumes "ring_new (2 ^ k) = Some rb" "k \<le> 7"
  shows "steps_inv k wh rh u v (ring_sys_new u v rb) (\<lambda>_. []) (\<lambda>_. None)"
  using lane_inv_new [OF assms]
  by (simp add: steps_inv_def lane_of_def lane_steps_def at_home_def ring_sys_new_def with_taken_def write_ok_def read_ok_def
      writes_lane_def reads_home_def rw_new_def rr_new_def)

lemma ring_run_inv:
  assumes "ring_run wh rh u v (2 ^ k) y Q B" "flavour_ok wh rh u v" "k \<le> 7"
  shows "steps_inv k wh rh u v y Q B"
  using assms
proof (induction y Q B rule: ring_run.induct)
  case (ring_start rb)
  then show ?case by (intro steps_inv_start) simp_all
next
  case ring_write_call
  then show ?case by (intro steps_inv_write_call) auto
next
  case ring_write_step
  then show ?case by (intro steps_inv_writer) auto
next
  case ring_write_peek
  then show ?case by (intro steps_inv_write_peek) auto
next
  case ring_read_call
  then show ?case by (intro steps_inv_read_call) auto
next
  case ring_read_step
  then show ?case by (intro steps_inv_reader) auto
next
  case ring_read_peek
  then show ?case by (intro steps_inv_read_peek) auto
qed

lemma ring_run_capacity: "ring_run wh rh u v cap y Q B \<Longrightarrow> \<exists>k \<le> 7. cap = 2 ^ k"
  by (induction y Q B rule: ring_run.induct) (use ring_new_Some_iff in blast)+

lemma ring_run_lanes:
  assumes "ring_run wh rh u v cap y Q B" "flavour_ok wh rh u v"
  obtains k where "cap = 2 ^ k" "k \<le> 7" "at_home wh rh u v y"
    "\<And>p. lane_steps k p (y_ring y) (y_w y (wh p)) (y_wat y (wh p)) (y_r y (rh p)) (y_rat y (rh p)) (Q p) (B p)"
proof -
  obtain k where k: "k \<le> 7" "cap = 2 ^ k" using ring_run_capacity [OF assms(1)] by blast
  from ring_run_inv [OF assms(1) [unfolded k(2)] assms(2) k(1)] that [OF k(2,1)] show thesis
    by (simp add: steps_inv_def lane_of_def)
qed

section \<open>Schedules\<close>

text \<open>A run given by its calls and steps; a step loads the index as it is, or the older value given.\<close>

datatype 'a ring_action = ActWrite write_op priority 'a | ActStepW priority "idx option"
  | ActRead read_op priority "priority list" | ActStepR priority "idx option"

definition write_load :: "idx option \<Rightarrow> 'a ring \<Rightarrow> 'a write_at \<Rightarrow> idx" where
  "write_load l rb at = (case l of Some i \<Rightarrow> i | None \<Rightarrow> (case at of WLoad _ _ _ \<Rightarrow> rb_idx_r rb | _ \<Rightarrow> rb_idx_w rb))"

definition read_load :: "idx option \<Rightarrow> 'a ring \<Rightarrow> 'a read_at \<Rightarrow> idx" where
  "read_load l rb at = (case l of Some i \<Rightarrow> i | None \<Rightarrow> (case at of RLoad _ _ _ \<Rightarrow> rb_idx_w rb | _ \<Rightarrow> rb_idx_r rb))"

fun ring_act :: "(priority \<Rightarrow> priority) \<Rightarrow> (priority \<Rightarrow> priority) \<Rightarrow> 'a ring_action \<Rightarrow>
    'a ring_sys \<times> (priority \<Rightarrow> 'a list) \<times> (priority \<Rightarrow> 'a option) \<Rightarrow>
    ('a ring_sys \<times> (priority \<Rightarrow> 'a list) \<times> (priority \<Rightarrow> 'a option)) option" where
  "ring_act wh rh (ActWrite op p t) (y, Q, B) = (case y_wat y (wh p) of
       WIdle _ \<Rightarrow>
         if (op = CommitOp \<longrightarrow> rw_peek p (y_w y (wh p)) \<and> wp_deref p (y_ring y) (y_w y (wh p)) = Inr t)
            \<and> (op = PushOp \<longrightarrow> \<not> rw_peek p (y_w y (wh p)))
         then Some (y\<lparr>y_wat := (y_wat y)(wh p := write_call op p t (y_ring y) (y_w y (wh p)))\<rparr>, Q, B) else None
     | _ \<Rightarrow> None)"
| "ring_act wh rh (ActStepW i l) (y, Q, B) =
     (let v = write_load l (y_ring y) (y_wat y i); z = write_step v (y_ring y) (y_w y i) (y_wat y i)
      in if (case y_wat y i of WLoad _ _ _ \<Rightarrow> idx_between (rw_cached_r (y_w y i)) v (rb_idx_r (y_ring y)) | _ \<Rightarrow> True)
         then Some (set_writer i z y, after_write (y_wat y i) (snd (snd z)) (Q, B)) else None)"
| "ring_act wh rh (ActRead op j ps) (y, Q, B) = (case y_rat y j of
       RIdle _ \<Rightarrow> if list_all (\<lambda>p. rh p = j) ps then Some (y\<lparr>y_rat := (y_rat y)(j := RCheck op ps)\<rparr>, Q, B) else None
     | _ \<Rightarrow> None)"
| "ring_act wh rh (ActStepR j l) (y, Q, B) =
     (let v = read_load l (y_ring y) (y_rat y j); z = read_step v (y_ring y) (y_r y j) (y_rat y j)
      in if (case y_rat y j of RLoad _ _ _ \<Rightarrow> idx_between (rr_cached_w (y_r y j)) v (rb_idx_w (y_ring y)) | _ \<Rightarrow> True)
         then Some (set_reader j z y, after_read (y_rat y j) (snd (snd z)) Q, B) else None)"

definition ring_exec :: "(priority \<Rightarrow> priority) \<Rightarrow> (priority \<Rightarrow> priority) \<Rightarrow> update \<Rightarrow> update \<Rightarrow> nat \<Rightarrow> 'a ring_action list \<Rightarrow>
    ('a ring_sys \<times> (priority \<Rightarrow> 'a list) \<times> (priority \<Rightarrow> 'a option)) option" where
  "ring_exec wh rh u v cap acts = fold (\<lambda>a s. Option.bind s (ring_act wh rh a)) acts
     (map_option (\<lambda>rb. (ring_sys_new u v rb, (\<lambda>_. []), (\<lambda>_. None))) (ring_new cap))"

lemma idx_between_code [code]:
  "idx_between seen v cur \<longleftrightarrow>
     list_all (\<lambda>p. unat (idx_index v p - idx_index seen p) \<le> unat (idx_index cur p - idx_index seen p)) PRIO_ALL"
  by (simp add: idx_between_def list_all_iff)

lemma ring_act_run:
  assumes "ring_run wh rh u v cap y Q B" "ring_act wh rh a (y, Q, B) = Some (y', Q', B')"
  shows "ring_run wh rh u v cap y' Q' B'"
proof (cases a)
  case (ActWrite op p t)
  then show ?thesis
    using assms ring_write_call [OF assms(1), of p _ op t] by (auto split: write_at.splits if_splits)
next
  case (ActStepW i l)
  define v where "v = write_load l (y_ring y) (y_wat y i)"
  define z where "z = write_step v (y_ring y) (y_w y i) (y_wat y i)"
  have x: "\<And>op p t. y_wat y i = WLoad op p t \<Longrightarrow> idx_between (rw_cached_r (y_w y i)) v (rb_idx_r (y_ring y))"
    "y' = set_writer i z y" "after_write (y_wat y i) (snd (snd z)) (Q, B) = (Q', B')"
    using assms(2) unfolding ActStepW ring_act.simps Let_def v_def [symmetric] z_def [symmetric] by (auto split: if_splits)
  from ring_write_step [OF assms(1) x(1) z_def x(3)] x(2) show ?thesis by simp
next
  case (ActRead op j ps)
  then obtain x where "y_rat y j = RIdle x" "\<And>p. p \<in> set ps \<Longrightarrow> rh p = j"
      "y' = y\<lparr>y_rat := (y_rat y)(j := RCheck op ps)\<rparr>" "Q' = Q" "B' = B"
    using assms(2) by (auto simp: list_all_iff split: if_splits read_at.splits)
  then show ?thesis using ring_read_call [OF assms(1), of j x ps op] by simp
next
  case (ActStepR j l)
  define v where "v = read_load l (y_ring y) (y_rat y j)"
  define z where "z = read_step v (y_ring y) (y_r y j) (y_rat y j)"
  have x: "\<And>op p ps. y_rat y j = RLoad op p ps \<Longrightarrow> idx_between (rr_cached_w (y_r y j)) v (rb_idx_w (y_ring y))"
    "y' = set_reader j z y" "Q' = after_read (y_rat y j) (snd (snd z)) Q" "B' = B"
    using assms(2) unfolding ActStepR ring_act.simps Let_def v_def [symmetric] z_def [symmetric] by (auto split: if_splits)
  from ring_read_step [OF assms(1) x(1) z_def] x(2-4) show ?thesis by simp
qed

lemma ring_exec_run:
  assumes "ring_exec wh rh u v cap acts = Some (y, Q, B)"
  shows "ring_run wh rh u v cap y Q B"
proof -
  have none: "fold (\<lambda>a s. Option.bind s (ring_act wh rh a)) acts None = None" for acts :: "'a ring_action list"
    by (induction acts) simp_all
  have "ring_run wh rh u v cap y Q B"
    if "fold (\<lambda>a s. Option.bind s (ring_act wh rh a)) acts (Some (y0, Q0, B0)) = Some (y, Q, B)" "ring_run wh rh u v cap y0 Q0 B0"
    for y0 Q0 B0
    using that
  proof (induction acts arbitrary: y0 Q0 B0)
    case (Cons a acts)
    then obtain y1 Q1 B1 where "ring_act wh rh a (y0, Q0, B0) = Some (y1, Q1, B1)"
      by (cases "ring_act wh rh a (y0, Q0, B0)") (auto simp: none)
    then show ?case using Cons ring_act_run by (metis (no_types, lifting) bind.bind_lunit fold_simps(2))
  qed simp
  then show ?thesis
    using assms by (cases "ring_new cap :: 'a ring option") (auto simp: ring_exec_def none intro: ring_start)
qed

lemma ring_exec_reaches:
  assumes "case ring_exec wh rh u v cap acts of None \<Rightarrow> False | Some (y, Q, B) \<Rightarrow> P y Q B"
  shows "\<exists>y Q B. ring_run wh rh u v cap y Q B \<and> P y Q B"
  using assms ring_exec_run by (fastforce split: option.splits)

definition demo_acts :: "nat ring_action list" where
  "demo_acts = [ActWrite PushOp High 7, ActStepW High None, ActStepW High None, ActStepW High None,
     ActRead PullOp High [High], ActStepR High None, ActStepR High None, ActWrite PushOp High 8]"

text \<open>A second element is about to be written while the first is about to be taken.\<close>

lemma demo_run: "\<exists>y Q B. ring_run (\<lambda>p. p) (\<lambda>p. p) UpdateM UpdateM 2 y Q B
    \<and> y_wat y High = WSlot PushOp High (8 :: nat) \<and> y_rat y High = RTake PullOp High"
  by (rule ring_exec_reaches [where acts = demo_acts]) code_simp

text \<open>And both are about to be published, by threads that have loaded the index before.\<close>

lemma demo_run_publish: "\<exists>y Q B. ring_run (\<lambda>p. p) (\<lambda>p. p) UpdateM UpdateM 2 y Q B
    \<and> y_wat y High = WCas PushOp High (8 :: nat) (rb_idx_w (y_ring y)) \<and> y_rat y High = RCas High 7 (rb_idx_r (y_ring y))"
  by (rule ring_exec_reaches [where acts = "demo_acts @ [ActStepW High None, ActStepR High None, ActStepW High None, ActStepR High None]"])
    code_simp

text \<open>A buffer of one element is full, and the reader has not seen that.\<close>

lemma demo_run_load: "\<exists>y Q B. ring_run (\<lambda>p. p) (\<lambda>p. p) UpdateM UpdateM 1 y Q B
    \<and> y_wat y High = WLoad PushOp High (8 :: nat) \<and> y_rat y High = RLoad PullOp High []"
  by (rule ring_exec_reaches [where acts = "[ActWrite PushOp High 7, ActStepW High None, ActStepW High None, ActStepW High None,
       ActWrite PushOp High 8, ActRead PullOp High [High], ActStepR High None]"])
    code_simp

lemma demo_flavour: "flavour_ok (\<lambda>p. p) (\<lambda>p. p) UpdateM UpdateM"
  by (simp add: flavour_ok_def)

section \<open>What the threads can rely on\<close>

text \<open>C11: However the steps of the threads interleave, and however old the indices are that they
  load: a lane never holds more than its capacity, the element that is booked included; no
  reader comes upon a slot that is not initialised, the slot it takes from holds the first
  element of the lane, and so does the reader that has taken an element and not yet released its
  slot; the element behind a reference of \<open>peek_mut\<close> is there; and the slot behind a
  \<open>WriterPeek\<close> holds what was booked.
\<close>

theorem ring_steps_safe:
  assumes "ring_run wh rh u v cap y Q B" "flavour_ok wh rh u v"
  shows "length (Q p) + (if B p = None then 0 else 1) \<le> cap
    \<and> y_rat y (rh p) \<noteq> RUninit
    \<and> (\<forall>op. y_rat y (rh p) \<noteq> RTake op p \<or> (\<exists>t xs. Q p = t # xs \<and> ring_get (y_ring y) p (rr_local_r (y_r y (rh p))) = Some t))
    \<and> (\<forall>t. y_rat y (rh p) \<noteq> RPublish p t \<or> (\<exists>xs. Q p = t # xs))
    \<and> (\<forall>x. y_rat y (rh p) \<noteq> RIdle (ReadPeeked p x) \<or> (\<exists>t xs. Q p = t # xs \<and> ring_get (y_ring y) p (rr_local_r (y_r y (rh p))) = Some t))
    \<and> (\<forall>t. B p \<noteq> Some t \<or> wp_deref p (y_ring y) (y_w y (wh p)) = Inr t)"
proof -
  obtain k where k: "cap = 2 ^ k"
    and st: "lane_steps k p (y_ring y) (y_w y (wh p)) (y_wat y (wh p)) (y_r y (rh p)) (y_rat y (rh p)) (Q p) (B p)"
    using ring_run_lanes [OF assms] by metis
  have "length (Q p) + (if B p = None then 0 else 1) \<le> cap"
    using st by (simp add: lane_steps_def lane_inv_def ring_lane_def k)
  moreover have "y_rat y (rh p) \<noteq> RUninit" "y_rat y (rh p) = RPublish p t \<Longrightarrow> \<exists>xs. Q p = t # xs" for t
    using st by (auto simp: lane_steps_def read_ok_def took_def)
  moreover have "\<exists>t xs. Q p = t # xs \<and> ring_get (y_ring y) p (rr_local_r (y_r y (rh p))) = Some t"
    if "y_rat y (rh p) = RTake op p \<or> y_rat y (rh p) = RIdle (ReadPeeked p x)" for op x
  proof -
    have "lane_steps k p (y_ring y) (y_w y (wh p)) (y_wat y (wh p)) (y_r y (rh p)) (RTake op p) (Q p) (B p)"
      using st that by (auto simp: lane_steps_def with_taken_def read_ok_def)
    from lane_read_take [OF this] show ?thesis by blast
  qed
  moreover have "wp_deref p (y_ring y) (y_w y (wh p)) = Inr t" if "B p = Some t" for t
    using lane_booked_get [OF st [unfolded that]] .
  ultimately show ?thesis by blast
qed

theorem ring_steps_safe_witness:
  "\<exists>y Q B t xs. ring_run (\<lambda>p. p) (\<lambda>p. p) UpdateM UpdateM 2 y Q B \<and> y_rat y High = RTake PullOp High
     \<and> length (Q High) \<le> 2 \<and> Q High = (t :: nat) # xs \<and> ring_get (y_ring y) High (rr_local_r (y_r y High)) = Some t"
proof -
  obtain y Q B where run: "ring_run (\<lambda>p. p) (\<lambda>p. p) UpdateM UpdateM 2 y Q B" and at: "y_rat y High = RTake PullOp (High :: priority)"
      "y_wat y High = WSlot PushOp High (8 :: nat)"
    using demo_run by blast
  from ring_steps_safe [OF run demo_flavour, of High] run at show ?thesis by (fastforce split: if_splits)
qed

text \<open>C10: No two threads use one slot at the same time.  While a writer is about to write its slot,
  or holds a \<open>WriterPeek\<close>, the slot that a reader is about to take from, or holds a reference
  to, is another one, in the same lane as well; and no other writer is at a slot of the lane.
\<close>

theorem ring_steps_race_free:
  assumes "ring_run wh rh u v cap y Q B" "flavour_ok wh rh u v"
    and "(\<exists>op t. y_wat y i = WSlot op p t) \<or> i = wh p \<and> B p \<noteq> None"
    and "(\<exists>op. y_rat y j = RTake op p) \<or> (\<exists>x. y_rat y j = RIdle (ReadPeeked p x))"
  shows "ring_slot (y_ring y) p (rw_local_w (y_w y i)) \<noteq> ring_slot (y_ring y) p (rr_local_r (y_r y j))
    \<and> i = wh p \<and> j = rh p"
proof -
  obtain k where h: "at_home wh rh u v y"
    and st: "lane_steps k p (y_ring y) (y_w y (wh p)) (y_wat y (wh p)) (y_r y (rh p)) (y_rat y (rh p)) (Q p) (B p)"
    using ring_run_lanes [OF assms(1,2)] by metis
  have "writes_lane p (y_wat y i) \<or> i = wh p" "reads_home p (y_rat y j)"
    using assms(3,4) by (auto simp: writes_lane_def reads_home_def)
  then have i: "i = wh p" and j: "j = rh p" using h by (auto simp: at_home_def)
  have "with_taken (y_ring y) (y_r y (rh p)) (y_rat y (rh p)) = y_ring y"
    using assms(4) j by (auto simp: with_taken_def)
  then have li: "lane_inv k p (y_ring y) (y_w y (wh p)) (y_r y (rh p)) (Q p) (B p)" using st by (simp add: lane_steps_def)
  have "element_seen p (y_r y (rh p))" using st assms(4) j by (auto simp: lane_steps_def read_ok_def)
  then have "Q p \<noteq> []" using li by (auto simp: lane_inv_def reader_lane_def element_seen_def)
  moreover have "length (Q p) < 2 ^ k"
  proof (cases "B p = None")
    case True
    then have "room_seen k p (y_w y (wh p))" using st assms(3) i by (auto simp: lane_steps_def write_ok_def)
    then show ?thesis by (rule lane_room [OF li])
  qed (use li in \<open>auto simp: lane_inv_def ring_lane_def split: if_splits\<close>)
  ultimately show ?thesis using slots_apart [OF li] i j by blast
qed

theorem ring_steps_race_free_witness:
  "\<exists>y Q B. ring_run (\<lambda>p. p) (\<lambda>p. p) UpdateM UpdateM 2 y Q B
     \<and> y_wat y High = WSlot PushOp High (8 :: nat) \<and> y_rat y High = RTake PullOp High
     \<and> ring_slot (y_ring y) High (rw_local_w (y_w y High)) \<noteq> ring_slot (y_ring y) High (rr_local_r (y_r y High))"
proof -
  obtain y Q B where run: "ring_run (\<lambda>p. p) (\<lambda>p. p) UpdateM UpdateM 2 y Q B" and at: "y_rat y High = RTake PullOp (High :: priority)"
      "y_wat y High = WSlot PushOp High (8 :: nat)"
    using demo_run by blast
  from ring_steps_race_free [OF run demo_flavour, of High High High] run at show ?thesis by blast
qed

section \<open>Each operation is one event of a bounded queue\<close>

datatype 'a ring_event = EvPush priority 'a | EvBook priority 'a | EvCommit priority 'a | EvPull priority 'a

text \<open>A queue for each lane, and what is booked at its end.\<close>

inductive queue_next :: "nat \<Rightarrow> (priority \<Rightarrow> 'a list) \<times> (priority \<Rightarrow> 'a option) \<Rightarrow> 'a ring_event option \<Rightarrow>
    (priority \<Rightarrow> 'a list) \<times> (priority \<Rightarrow> 'a option) \<Rightarrow> bool" for cap where
  next_none: "queue_next cap QB None QB"
| next_push: "B p = None \<Longrightarrow> length (Q p) < cap \<Longrightarrow> queue_next cap (Q, B) (Some (EvPush p t)) (Q(p := Q p @ [t]), B)"
| next_book: "B p = None \<Longrightarrow> length (Q p) < cap \<Longrightarrow> queue_next cap (Q, B) (Some (EvBook p t)) (Q, B(p := Some t))"
| next_commit: "B p = Some t \<Longrightarrow> queue_next cap (Q, B) (Some (EvCommit p t)) (Q(p := Q p @ [t]), B(p := None))"
| next_pull: "Q p = t # xs \<Longrightarrow> queue_next cap (Q, B) (Some (EvPull p t)) (Q(p := xs), B)"

text \<open>The event of a step: an operation that succeeds, as its caller sees it, in its last step.\<close>

definition write_event :: "'a write_at \<Rightarrow> 'a write_at \<Rightarrow> 'a ring_event option" where
  "write_event at at' =
     (let event = (\<lambda>op p t. case op of PushOp \<Rightarrow> EvPush p t | BookOp \<Rightarrow> EvBook p t | CommitOp \<Rightarrow> EvCommit p t)
      in case (at, at') of
           (WPublish op p t, WIdle None) \<Rightarrow> Some (event op p t)
         | (WCas op p t _, WIdle None) \<Rightarrow> Some (event op p t)
         | _ \<Rightarrow> None)"

definition read_event :: "'a read_at \<Rightarrow> 'a read_at \<Rightarrow> 'a ring_event option" where
  "read_event at at' = (case (at, at') of
       (RPublish _ _, RIdle (ReadGot p t)) \<Rightarrow> Some (EvPull p t)
     | (RCas _ _ _, RIdle (ReadGot p t)) \<Rightarrow> Some (EvPull p t)
     | _ \<Rightarrow> None)"

lemma publishes_next:
  assumes "lane_inv k p R w rd (Q p) (B p)" "publishes k p R w op t (B p)"
  shows "queue_next (2 ^ k) (Q, B) (Some (case op of PushOp \<Rightarrow> EvPush p t | BookOp \<Rightarrow> EvBook p t | CommitOp \<Rightarrow> EvCommit p t))
    (case op of PushOp \<Rightarrow> (Q(p := Q p @ [t]), B) | BookOp \<Rightarrow> (Q, B(p := Some t)) | CommitOp \<Rightarrow> (Q(p := Q p @ [t]), B(p := None)))"
  using assms lane_room [OF assms(1)] by (cases op) (auto simp: publishes_def intro: queue_next.intros)

text \<open>C9: Every step of a thread is an event of the bounded queue or changes nothing of it.  The
  last step of a \<open>push\<close> or \<open>book\<close> that succeeds finds its lane with room and nothing booked,
  that of a \<open>commit\<close> finds what it commits booked, and that of a \<open>pull\<close> gives the first element
  of its lane, which leaves the queue: the operations are linearizable, and each lane is first
  in, first out.
\<close>

theorem ring_steps_linearize:
  assumes "ring_run wh rh u v cap y Q B" "flavour_ok wh rh u v"
  shows "(let z = write_step l (y_ring y) (y_w y i) (y_wat y i)
      in queue_next cap (Q, B) (write_event (y_wat y i) (snd (snd z))) (after_write (y_wat y i) (snd (snd z)) (Q, B)))
    \<and> (let z = read_step l (y_ring y) (y_r y (rh p)) (y_rat y (rh p))
      in queue_next cap (Q, B) (read_event (y_rat y (rh p)) (snd (snd z))) (after_read (y_rat y (rh p)) (snd (snd z)) Q, B))"
proof -
  obtain k where k: "cap = 2 ^ k" and h: "at_home wh rh u v y"
    and st: "\<And>p. lane_steps k p (y_ring y) (y_w y (wh p)) (y_wat y (wh p)) (y_r y (rh p)) (y_rat y (rh p)) (Q p) (B p)"
    using ring_run_lanes [OF assms] by metis
  have pub: "queue_next cap (Q, B) (Some (case op of PushOp \<Rightarrow> EvPush p t | BookOp \<Rightarrow> EvBook p t | CommitOp \<Rightarrow> EvCommit p t))
    (case op of PushOp \<Rightarrow> (Q(p := Q p @ [t]), B) | BookOp \<Rightarrow> (Q, B(p := Some t)) | CommitOp \<Rightarrow> (Q(p := Q p @ [t]), B(p := None)))"
    if "y_wat y i = WPublish op p t \<or> y_wat y i = WCas op p t old" for op p t old
  proof -
    have i: "wh p = i" using that h by (force simp: at_home_def writes_lane_def)
    show ?thesis unfolding k
      by (rule publishes_next) (use st [of p] that i in \<open>auto simp: lane_steps_def write_ok_def\<close>)
  qed
  have got: "\<exists>xs. Q q = t # xs" if "y_rat y (rh p) = RPublish q t \<or> y_rat y (rh p) = RCas q t old" for q t old
  proof -
    have "rh q = rh p" using that h by (force simp: at_home_def reads_home_def)
    then show ?thesis using st [of q] that by (auto simp: lane_steps_def read_ok_def took_def)
  qed
  have "queue_next cap (Q, B) (write_event (y_wat y i) (snd (snd (write_step l (y_ring y) (y_w y i) (y_wat y i)))))
      (after_write (y_wat y i) (snd (snd (write_step l (y_ring y) (y_w y i) (y_wat y i)))) (Q, B))"
  proof (cases "y_wat y i")
    case (WPublish op p t)
    then show ?thesis using pub [of op p t]
      by (cases op; cases "rw_update (y_w y i)") (simp_all add: write_event_def after_write_def Let_def next_none)
  next
    case (WCas op p t old)
    then show ?thesis using pub [of op p t old]
      by (cases op) (simp_all add: write_event_def after_write_def Let_def next_none)
  qed (simp_all add: write_event_def after_write_def next_none)
  moreover have "queue_next cap (Q, B) (read_event (y_rat y (rh p)) (snd (snd (read_step l (y_ring y) (y_r y (rh p)) (y_rat y (rh p))))))
      (after_read (y_rat y (rh p)) (snd (snd (read_step l (y_ring y) (y_r y (rh p)) (y_rat y (rh p))))) Q, B)"
  proof (cases "y_rat y (rh p)")
    case (RPublish q t)
    then obtain xs where "Q q = t # xs" using got by blast
    then show ?thesis using RPublish next_pull [of Q q t xs]
      by (cases "rr_update (y_r y (rh p))") (simp_all add: read_event_def after_read_def Let_def next_none)
  next
    case (RCas q t old)
    then obtain xs where "Q q = t # xs" using got by blast
    then show ?thesis using RCas next_pull [of Q q t xs]
      by (simp add: read_event_def after_read_def Let_def next_none)
  next
    case (RCheck op ps)
    then show ?thesis by (cases ps) (simp_all add: read_event_def after_read_def next_none)
  next
    case (RTake op q)
    then show ?thesis
      by (simp add: read_event_def after_read_def next_none split: option.split)
  qed (simp_all add: read_event_def after_read_def next_none)
  ultimately show ?thesis by (simp add: Let_def)
qed

theorem ring_steps_linearize_witness:
  "\<exists>y Q B. ring_run (\<lambda>p. p) (\<lambda>p. p) UpdateM UpdateM 2 y Q B
     \<and> queue_next 2 (Q, B) (Some (EvPush High (8 :: nat))) (Q(High := Q High @ [8]), B)
     \<and> queue_next 2 (Q, B) (Some (EvPull High 7)) (Q(High := tl (Q High)), B)"
proof -
  obtain y Q B where run: "ring_run (\<lambda>p. p) (\<lambda>p. p) UpdateM UpdateM 2 y Q B"
    and at: "y_wat y High = WCas PushOp High (8 :: nat) (rb_idx_w (y_ring y))" "y_rat y High = RCas High 7 (rb_idx_r (y_ring y))"
    using demo_run_publish by blast
  from ring_steps_linearize [OF run demo_flavour, of _ High High] run at show ?thesis
    by (auto simp: Let_def write_event_def after_write_def read_event_def after_read_def)
qed

text \<open>
  A load of the index as it is now is exact.  A writer that finds no room so refuses just
  when its lane is full, and a reader passes a lane over just when it is empty.
\<close>

theorem ring_steps_exact:
  assumes "ring_run wh rh u v cap y Q B" "flavour_ok wh rh u v"
  shows "(y_wat y i \<noteq> WLoad op p t
      \<or> (snd (snd (write_step (rb_idx_r (y_ring y)) (y_ring y) (y_w y i) (y_wat y i))) = WIdle (Some t)) = (length (Q p) = cap))
    \<and> (y_rat y j \<noteq> RLoad rop p ps
      \<or> (snd (snd (read_step (rb_idx_w (y_ring y)) (y_ring y) (y_r y j) (y_rat y j))) = RTake rop p) = (Q p \<noteq> []))"
proof -
  obtain k where k: "cap = 2 ^ k" and h: "at_home wh rh u v y"
    and st: "lane_steps k p (y_ring y) (y_w y (wh p)) (y_wat y (wh p)) (y_r y (rh p)) (y_rat y (rh p)) (Q p) (B p)"
    using ring_run_lanes [OF assms] by metis
  let ?R = "with_taken (y_ring y) (y_r y (rh p)) (y_rat y (rh p))"
  have li: "lane_inv k p ?R (y_w y (wh p)) (y_r y (rh p)) (Q p) (B p)" using st by (simp add: lane_steps_def)
  then have wf: "ring_wf k (y_ring y)" by (simp add: lane_inv_def with_taken_wf)
  have le: "length (Q p) \<le> 2 ^ k" using li by (auto simp: lane_inv_def ring_lane_def split: if_splits)
  note f = lane_facts(4,5) [OF li, simplified]
  have "snd (snd (write_step (rb_idx_r (y_ring y)) (y_ring y) (y_w y i) (y_wat y i))) = WIdle (Some t) \<longleftrightarrow> length (Q p) = cap"
    if w: "y_wat y i = WLoad op p t"
  proof -
    have "wh p = i" using h w by (force simp: at_home_def writes_lane_def)
    then show ?thesis
      using w f(1) le is_full_seen [OF wf, of "rw_local_w (y_w y i)" p "rb_idx_r (y_ring y)"] by (auto simp: k)
  qed
  moreover have "snd (snd (read_step (rb_idx_w (y_ring y)) (y_ring y) (y_r y j) (y_rat y j))) = RTake rop p \<longleftrightarrow> Q p \<noteq> []"
    if r: "y_rat y j = RLoad rop p ps"
  proof -
    have "rh p = j" using h r by (force simp: at_home_def reads_home_def)
    then show ?thesis using r f(2) by (auto simp: ring_is_empty_def unat_eq_zero)
  qed
  ultimately show ?thesis by blast
qed

theorem ring_steps_exact_witness:
  "\<exists>y Q B. ring_run (\<lambda>p. p) (\<lambda>p. p) UpdateM UpdateM 1 y Q B
     \<and> y_wat y High = WLoad PushOp High (8 :: nat) \<and> y_rat y High = RLoad PullOp High []
     \<and> (snd (snd (write_step (rb_idx_r (y_ring y)) (y_ring y) (y_w y High) (y_wat y High))) = WIdle (Some 8)) = (length (Q High) = 1)
     \<and> (snd (snd (read_step (rb_idx_w (y_ring y)) (y_ring y) (y_r y High) (y_rat y High))) = RTake PullOp High) = (Q High \<noteq> [])"
proof -
  obtain y Q B where run: "ring_run (\<lambda>p. p) (\<lambda>p. p) UpdateM UpdateM 1 y Q B"
    and at: "y_wat y High = WLoad PushOp High (8 :: nat)" "y_rat y High = RLoad PullOp High []"
    using demo_run_load by blast
  from ring_steps_exact [OF run demo_flavour, of High PushOp High 8 High PullOp "[]"] run at show ?thesis by blast
qed

section \<open>A thread that runs alone\<close>

text \<open>Its loads give what the indices are.\<close>

primrec write_alone :: "nat \<Rightarrow> 'a ring \<times> ring_writer \<times> 'a write_at \<Rightarrow> 'a ring \<times> ring_writer \<times> 'a write_at" where
  "write_alone 0 z = z"
| "write_alone (Suc n) z = (case z of (rb, w, at) \<Rightarrow>
     write_alone n (write_step (case at of WLoad _ _ _ \<Rightarrow> rb_idx_r rb | _ \<Rightarrow> rb_idx_w rb) rb w at))"

primrec read_alone :: "nat \<Rightarrow> 'a ring \<times> ring_reader \<times> 'a read_at \<Rightarrow> 'a ring \<times> ring_reader \<times> 'a read_at" where
  "read_alone 0 z = z"
| "read_alone (Suc n) z = (case z of (rb, rd, at) \<Rightarrow>
     read_alone n (read_step (case at of RLoad _ _ _ \<Rightarrow> rb_idx_w rb | _ \<Rightarrow> rb_idx_r rb) rb rd at))"

lemma write_alone_idle [simp]: "write_alone n (rb, w, WIdle r) = (rb, w, WIdle r)"
  by (induction n) simp_all

lemma read_alone_stays [simp]:
  "read_alone n (rb, rd, RIdle r) = (rb, rd, RIdle r)" "read_alone n (rb, rd, RUninit) = (rb, rd, RUninit)"
  by (induction n) simp_all

lemma alone_add:
  "write_alone (m + n) zw = write_alone n (write_alone m zw)" "read_alone (m + n) zr = read_alone n (read_alone m zr)"
  by (induction m arbitrary: zw zr) (auto split: prod.split)


lemma reader_alone_lane:
  "(fst (rr_is_empty p rb rd) \<and> (\<exists>n \<le> 2. read_alone n (rb, rd, RCheck op (p # ps)) = (rb, snd (rr_is_empty p rb rd), RCheck op ps)))
   \<or> (\<not> fst (rr_is_empty p rb rd) \<and> (\<exists>n \<le> 2. read_alone n (rb, rd, RCheck op (p # ps)) = (rb, snd (rr_is_empty p rb rd), RTake op p)))"
proof (cases "ring_is_empty (rr_local_r rd) (rr_cached_w rd) p")
  case True
  then have "read_alone 2 (rb, rd, RCheck op (p # ps)) = (rb, snd (rr_is_empty p rb rd), if fst (rr_is_empty p rb rd) then RCheck op ps else RTake op p)"
    by (simp add: rr_is_empty_def Let_def numeral_2_eq_2)
  then show ?thesis by (cases "fst (rr_is_empty p rb rd)") auto
next
  case False
  then have "read_alone 1 (rb, rd, RCheck op (p # ps)) = (rb, snd (rr_is_empty p rb rd), RTake op p)"
    "\<not> fst (rr_is_empty p rb rd)"
    by (simp_all add: rr_is_empty_def)
  then show ?thesis by (metis one_le_numeral)
qed

lemma read_alone_pulls:
  "read_alone 3 (rb, rd, RTake PullOp p) = (case ring_get rb p (rr_local_r rd) of
       None \<Rightarrow> (rb, rd, RUninit)
     | Some t \<Rightarrow> let i = idx_increment (rr_local_r rd) p
         in ((ring_put rb p (rr_local_r rd) None)\<lparr>rb_idx_r := run_update (rr_update rd) (rb_idx_r rb) p i\<rparr>,
           rd\<lparr>rr_local_r := i\<rparr>, RIdle (ReadGot p t)))"
  by (cases "rr_update rd") (simp_all add: numeral_3_eq_3 Let_def split: option.split)

text \<open>Where a reader that has ended its loop is.\<close>

definition pull_end :: "priority \<Rightarrow> (ring_ub + 'a option) \<times> 'a ring \<times> ring_reader \<Rightarrow> 'a ring \<times> ring_reader \<times> 'a read_at" where
  "pull_end p z = (case z of (r, rb, rd) \<Rightarrow> (rb, rd, case r of
       Inl _ \<Rightarrow> RUninit | Inr None \<Rightarrow> RIdle ReadNone | Inr (Some t) \<Rightarrow> RIdle (ReadGot p t)))"

definition peek_end :: "'a ring \<Rightarrow> (ring_ub + (priority \<times> 'a) option) \<times> ring_reader \<Rightarrow> 'a ring \<times> ring_reader \<times> 'a read_at" where
  "peek_end rb z = (case z of (r, rd) \<Rightarrow> (rb, rd, case r of
       Inl _ \<Rightarrow> RUninit | Inr None \<Rightarrow> RIdle ReadNone | Inr (Some (p, t)) \<Rightarrow> RIdle (ReadPeeked p t)))"

lemma read_alone_ends:
  "read_alone n (pull_end p z) = pull_end p z" "read_alone n (peek_end rb z') = peek_end rb z'"
  by (auto simp: pull_end_def peek_end_def split: prod.split sum.split option.split)

lemma reader_alone_pull: "\<exists>p n. n \<le> 2 * length ps + 3 \<and> read_alone n (rb, rd, RCheck PullOp ps) = pull_end p (rr_pull_loop ps rb rd)"
proof (induction ps arbitrary: rd)
  case Nil
  have "1 \<le> 2 * length [] + 3 \<and> read_alone 1 (rb, rd, RCheck PullOp []) = pull_end High (rr_pull_loop [] rb rd)"
    by (simp add: pull_end_def)
  then show ?case by blast
next
  case (Cons p ps)
  define rd' where "rd' = snd (rr_is_empty p rb rd)"
  show ?case
  proof (cases "fst (rr_is_empty p rb rd)")
    case True
    then have e: "rr_is_empty p rb rd = (True, rd')" by (simp add: rd'_def prod_eq_iff)
    obtain m where m: "m \<le> 2" "read_alone m (rb, rd, RCheck PullOp (p # ps)) = (rb, rd', RCheck PullOp ps)"
      using reader_alone_lane [of p rb rd PullOp ps] True rd'_def by auto
    obtain q n where n: "n \<le> 2 * length ps + 3" "read_alone n (rb, rd', RCheck PullOp ps) = pull_end q (rr_pull_loop ps rb rd')"
      using Cons.IH [of rd'] by blast
    have "read_alone (m + n) (rb, rd, RCheck PullOp (p # ps)) = pull_end q (rr_pull_loop (p # ps) rb rd)"
      using m(2) n(2) e by (simp add: alone_add rr_pull_inner_def)
    then show ?thesis using m(1) n(1) by (intro exI conjI) auto
  next
    case False
    then have e: "rr_is_empty p rb rd = (False, rd')" by (simp add: rd'_def prod_eq_iff)
    obtain m where m: "m \<le> 2" "read_alone m (rb, rd, RCheck PullOp (p # ps)) = (rb, rd', RTake PullOp p)"
      using reader_alone_lane [of p rb rd PullOp ps] False rd'_def by auto
    have "read_alone (m + 3) (rb, rd, RCheck PullOp (p # ps)) = pull_end p (rr_pull_loop (p # ps) rb rd)"
      using m(2) e by (simp add: alone_add rr_pull_inner_def read_alone_pulls pull_end_def Let_def ring_put_def split: option.split)
    then show ?thesis using m(1) by (intro exI conjI) auto
  qed
qed

lemma reader_alone_peek: "\<exists>n. n \<le> 2 * length ps + 1 \<and> read_alone n (rb, rd, RCheck PeekOp ps) = peek_end rb (rr_peek_loop ps rb rd)"
proof (induction ps arbitrary: rd)
  case Nil
  have "1 \<le> 2 * length [] + 1 \<and> read_alone 1 (rb, rd, RCheck PeekOp []) = peek_end rb (rr_peek_loop [] rb rd)"
    by (simp add: peek_end_def)
  then show ?case by blast
next
  case (Cons p ps)
  define rd' where "rd' = snd (rr_is_empty p rb rd)"
  show ?case
  proof (cases "fst (rr_is_empty p rb rd)")
    case True
    then have e: "rr_is_empty p rb rd = (True, rd')" by (simp add: rd'_def prod_eq_iff)
    obtain m where m: "m \<le> 2" "read_alone m (rb, rd, RCheck PeekOp (p # ps)) = (rb, rd', RCheck PeekOp ps)"
      using reader_alone_lane [of p rb rd PeekOp ps] True rd'_def by auto
    obtain n where n: "n \<le> 2 * length ps + 1" "read_alone n (rb, rd', RCheck PeekOp ps) = peek_end rb (rr_peek_loop ps rb rd')"
      using Cons.IH [of rd'] by blast
    have "read_alone (m + n) (rb, rd, RCheck PeekOp (p # ps)) = peek_end rb (rr_peek_loop (p # ps) rb rd)"
      using m(2) n(2) e by (simp add: alone_add)
    then show ?thesis using m(1) n(1) by (intro exI conjI) auto
  next
    case False
    then have e: "rr_is_empty p rb rd = (False, rd')" by (simp add: rd'_def prod_eq_iff)
    obtain m where m: "m \<le> 2" "read_alone m (rb, rd, RCheck PeekOp (p # ps)) = (rb, rd', RTake PeekOp p)"
      using reader_alone_lane [of p rb rd PeekOp ps] False rd'_def by auto
    have "read_alone 1 (rb, rd', RTake PeekOp p) = peek_end rb (rr_peek_loop (p # ps) rb rd)"
      using e by (simp add: peek_end_def split: option.split)
    then have "read_alone (m + 1) (rb, rd, RCheck PeekOp (p # ps)) = peek_end rb (rr_peek_loop (p # ps) rb rd)"
      unfolding alone_add m(2) .
    moreover have "m + 1 \<le> 2 * length (p # ps) + 1" using m(1) by simp
    ultimately show ?thesis by blast
  qed
qed



end
