(* ===== verification/Sync.thy ===== *)
theory Sync
  imports Qos
begin

text \<open>
  What the two sides of a pipeline share besides the ring buffers: the status word and the
  backoff word of \<open>src/pipeline/mod.rs\<close> and \<open>tx.rs\<close>, the event of \<open>src/sync/event.rs\<close> and the
  atomic duration of \<open>src/sync/time.rs\<close>.  Each atomic operation is one function on the word.
  Durations are seconds and nanoseconds in \<open>time.rs\<close> and numbers of microseconds elsewhere.
\<close>

section \<open>The status word\<close>

definition STATUS_CONGESTED :: u16 where "STATUS_CONGESTED = push_bit 0 1"
definition STATUS_FLUSH :: u16 where "STATUS_FLUSH = push_bit PRIO_NUM 1"
definition STATUS_DISABLED :: u16 where "STATUS_DISABLED = push_bit PRIO_NUM STATUS_FLUSH"
definition STATUS_BACKOFF :: u16 where "STATUS_BACKOFF = push_bit 1 STATUS_DISABLED"

definition status_congested :: "priority \<Rightarrow> u16" where
  "status_congested p = push_bit (prio_idx p) STATUS_CONGESTED"

definition status_flush :: "priority \<Rightarrow> u16" where
  "status_flush p = push_bit (prio_idx p) STATUS_FLUSH"

definition status_any :: "u16 \<Rightarrow> u16 \<Rightarrow> bool" where "status_any v f \<longleftrightarrow> v AND f \<noteq> 0"

definition status_new :: u16 where "status_new = 0"

text \<open>The new word; the code also returns the old one.\<close>

definition status_set :: "u16 \<Rightarrow> u16 \<Rightarrow> u16" where "status_set f v = v OR f"
definition status_unset :: "u16 \<Rightarrow> u16 \<Rightarrow> u16" where "status_unset f v = v AND NOT f"

datatype flag = Congested priority | Flush priority | Disabled | Backoff

primrec flag_bit :: "flag \<Rightarrow> u16" where
  "flag_bit (Congested p) = status_congested p"
| "flag_bit (Flush p) = status_flush p"
| "flag_bit Disabled = STATUS_DISABLED"
| "flag_bit Backoff = STATUS_BACKOFF"

primrec flag_pos :: "flag \<Rightarrow> nat" where
  "flag_pos (Congested p) = prio_idx p"
| "flag_pos (Flush p) = 4 + prio_idx p"
| "flag_pos Disabled = 8"
| "flag_pos Backoff = 9"

lemma flag_pos_less: "flag_pos f < 16"
  using prio_idx_less by (cases f) (simp_all add: less_trans [OF prio_idx_less])

lemma flag_pos_inject: "flag_pos f = flag_pos g \<longleftrightarrow> f = g"
proof -
  have ne: "prio_idx p \<noteq> 4" "prio_idx p \<noteq> 5" "prio_idx p \<noteq> 8" "prio_idx p \<noteq> 9" "prio_idx p \<noteq> 4 + prio_idx q"
    for p q using prio_idx_less [of p] by linarith+
  show ?thesis by (cases f; cases g) (simp_all add: prio_idx_inject ne ne [symmetric])
qed

lemma bit_flag: "bit (flag_bit f) n \<longleftrightarrow> n = flag_pos f"
proof -
  have "flag_bit f = push_bit (flag_pos f) 1"
    by (cases f) (simp_all only: flag_bit.simps flag_pos.simps status_congested_def status_flush_def
      STATUS_CONGESTED_def STATUS_FLUSH_def STATUS_DISABLED_def STATUS_BACKOFF_def PRIO_NUM_4 push_bit_push_bit,
      simp_all add: add.commute)
  then show ?thesis
    using flag_pos_less [of f] by (simp only: bit_push_bit_iff) (auto simp: bit_1_iff)
qed

lemma status_any_bit: "status_any v (flag_bit f) \<longleftrightarrow> bit v (flag_pos f)"
proof -
  have "bit (v AND flag_bit f) n \<longleftrightarrow> n = flag_pos f \<and> bit v n" for n
    by (auto simp: bit_and_iff bit_flag)
  then show ?thesis
    unfolding status_any_def by (metis bit_eqI bit_0_eq bot_apply bot_bool_def)
qed

lemma status_any_laws:
  "status_any (status_set (flag_bit f) v) (flag_bit g) \<longleftrightarrow> g = f \<or> status_any v (flag_bit g)"
  "status_any (status_unset (flag_bit f) v) (flag_bit g) \<longleftrightarrow> g \<noteq> f \<and> status_any v (flag_bit g)"
  "\<not> status_any status_new (flag_bit g)"
  using flag_pos_inject [of g f] flag_pos_less [of g]
  by (auto simp: status_any_bit status_set_def status_unset_def status_new_def bit_or_iff bit_and_iff bit_not_iff bit_flag)

section \<open>The backoff word\<close>

definition BATCH_BITS :: nat where "BATCH_BITS = 16"

definition backoff_new :: u64 where "backoff_new = 0"
definition backoff_clear :: "u64 \<Rightarrow> u64" where "backoff_clear _ = 0"

definition backoff_start :: "nat \<Rightarrow> u64 \<Rightarrow> u64" where
  "backoff_start first_write _ = push_bit BATCH_BITS (of_nat first_write)"

definition backoff_update :: "u16 \<Rightarrow> u64 \<Rightarrow> u64" where
  "backoff_update bytes v = v OR ucast bytes"

definition backoff_load :: "u64 \<Rightarrow> u16 \<times> nat" where
  "backoff_load value = (ucast value, unat (drop_bit BATCH_BITS value))"

lemma backoff_fields:
  fixes a :: u64 and b :: u16
  assumes "t < 2 ^ 48"
  shows "backoff_load (push_bit 16 (of_nat t) OR ucast b) = (b, t)"
proof -
  have u: "unat (of_nat t :: u64) = t" using assms by (simp add: unat_of_nat take_bit_nat_eq_self)
  have "take_bit 48 (of_nat t :: u64) = of_nat t"
    using assms u by (simp add: word_unat_eq_iff unsigned_take_bit_eq take_bit_nat_eq_self)
  then have bt: "bit (of_nat t :: u64) n \<Longrightarrow> n < 48" for n by (metis bit_take_bit_iff)
  have "ucast (push_bit 16 (of_nat t) OR ucast b :: u64) = b"
    by (rule bit_word_eqI) (auto simp: bit_simps)
  moreover have "drop_bit 16 (push_bit 16 (of_nat t) OR ucast b) = (of_nat t :: u64)"
    by (rule bit_word_eqI)
      (auto simp: bit_drop_bit_eq bit_or_iff bit_push_bit_iff bit_ucast_iff dest: bt bit_imp_le_length)
  ultimately show ?thesis using u by (simp only: backoff_load_def BATCH_BITS_def)
qed

lemma backoff_updates:
  "fold backoff_update bs (push_bit 16 a OR ucast b) = push_bit 16 a OR ucast (fold (\<lambda>x acc. acc OR x) bs b)"
proof (induction bs arbitrary: b)
  case (Cons x xs)
  have "backoff_update x (push_bit 16 a OR ucast b) = push_bit 16 a OR ucast (b OR x)"
    unfolding backoff_update_def by (rule bit_word_eqI) (auto simp: bit_simps)
  then show ?case using Cons.IH [of "b OR x"] by simp
qed simp

section \<open>Events\<close>

definition EV_UNSET :: u8 where "EV_UNSET = 0"
definition EV_OK :: u8 where "EV_OK = push_bit 0 1"
definition EV_ERR :: u8 where "EV_ERR = push_bit 1 1"

datatype event_check = CheckUnset | CheckOk | CheckErr

definition event_new :: u8 where "event_new = EV_UNSET"

definition event_check :: "u8 \<Rightarrow> event_check \<times> u8" where
  "event_check f =
     (if f AND EV_ERR \<noteq> 0 then CheckErr else if f = EV_OK then CheckOk else CheckUnset, f AND NOT EV_OK)"

text \<open>\<open>notify\<close>: \<open>False\<close> is \<open>NotifyError\<close>.  Waking the listeners is up to the event library.\<close>

definition event_notify :: "u8 \<Rightarrow> bool \<times> u8" where
  "event_notify f = (f AND EV_ERR = 0, f OR EV_OK)"

text \<open>The drop of either side.\<close>

definition event_err :: "u8 \<Rightarrow> u8" where "event_err _ = EV_ERR"

text \<open>A run of an event: each call and its answer.\<close>

datatype event_call = EvNotify | EvCheck | EvDropSide
datatype event_answer = Notified bool | Checked event_check | DroppedSide

primrec run_event :: "event_call list \<Rightarrow> u8 \<Rightarrow> event_answer list" where
  "run_event [] f = []"
| "run_event (c # cs) f = (case c of
       EvNotify \<Rightarrow> (case event_notify f of (b, f') \<Rightarrow> Notified b # run_event cs f')
     | EvCheck \<Rightarrow> (case event_check f of (r, f') \<Rightarrow> Checked r # run_event cs f')
     | EvDropSide \<Rightarrow> DroppedSide # run_event cs (event_err f))"

text \<open>The specification: whether a notification is pending, and whether a side is gone.\<close>

primrec spec_event :: "event_call list \<Rightarrow> bool \<Rightarrow> bool \<Rightarrow> event_answer list" where
  "spec_event [] pending gone = []"
| "spec_event (c # cs) pending gone = (case c of
       EvNotify \<Rightarrow> Notified (\<not> gone) # spec_event cs True gone
     | EvCheck \<Rightarrow> Checked (if gone then CheckErr else if pending then CheckOk else CheckUnset) # spec_event cs False gone
     | EvDropSide \<Rightarrow> DroppedSide # spec_event cs False True)"

definition event_word :: "bool \<Rightarrow> bool \<Rightarrow> u8" where
  "event_word pending gone = (if pending then EV_OK else 0) OR (if gone then EV_ERR else 0)"

lemma event_values: "EV_OK = 1" "EV_ERR = 2" "EV_UNSET = 0"
  by (simp_all add: EV_OK_def EV_ERR_def EV_UNSET_def)

lemma event_word_laws:
  "event_check (event_word pending gone) =
     (if gone then CheckErr else if pending then CheckOk else CheckUnset, event_word False gone)"
  "event_notify (event_word pending gone) = (\<not> gone, event_word True gone)"
  "event_err (event_word pending gone) = event_word False True"
  by (cases pending; cases gone; simp add: event_check_def event_notify_def event_err_def event_word_def event_values)+

lemma run_event_spec: "run_event cs (event_word pending gone) = spec_event cs pending gone"
proof (induction cs arbitrary: pending gone)
  case (Cons c cs)
  then show ?case by (cases c) (simp_all add: event_word_laws)
qed simp

text \<open>How a wait for an event ends that is cut off by a timer.\<close>

datatype wait_end = WaitOk | WaitGone | WaitElapsed

section \<open>Durations\<close>

record duration =
  dur_secs :: nat
  dur_nanos :: nat

definition duration_wf :: "duration \<Rightarrow> bool" where
  "duration_wf d \<longleftrightarrow> dur_secs d < 2 ^ 64 \<and> dur_nanos d < 10 ^ 9"

text \<open>The clock of the model counts microseconds.\<close>

definition duration_micros :: "duration \<Rightarrow> nat" where
  "duration_micros d = dur_secs d * 10 ^ 6 + dur_nanos d div 1000"

definition duration_to_u64 :: "duration \<Rightarrow> u64" where
  "duration_to_u64 d = push_bit 32 (of_nat (dur_secs d)) OR of_nat (dur_nanos d)"

text \<open>\<open>Duration::new\<close> carries whole seconds out of the nanoseconds.\<close>

definition u64_to_duration :: "u64 \<Rightarrow> duration" where
  "u64_to_duration v = (let nanos = unat (ucast v :: u32) in
     \<lparr>dur_secs = unat (drop_bit 32 v) + nanos div 10 ^ 9, dur_nanos = nanos mod 10 ^ 9\<rparr>)"

text \<open>\<open>AtomicDuration::new\<close> and \<open>store\<close>: \<open>None\<close> is the failed assertion.\<close>

definition atomic_duration_store :: "duration \<Rightarrow> u64 option" where
  "atomic_duration_store d = (if dur_secs d \<le> 2 ^ 32 - 1 then Some (duration_to_u64 d) else None)"

definition atomic_duration_load :: "u64 \<Rightarrow> duration" where
  "atomic_duration_load = u64_to_duration"

lemma split_word_halves:
  fixes a b :: u64
  assumes "a < 2 ^ 32" "b < 2 ^ 32"
  shows "drop_bit 32 (push_bit 32 a OR b) = a" "take_bit 32 (push_bit 32 a OR b) = b"
proof -
  have t: "take_bit 32 a = a" "take_bit 32 b = b"
    using assms by (auto simp: word_less_nat_alt word_unat_eq_iff unsigned_take_bit_eq take_bit_nat_eq_self)
  have bb: "bit b n \<Longrightarrow> n < 32" "bit a n \<Longrightarrow> n < 32" for n
    using t by (metis bit_take_bit_iff)+
  show "drop_bit 32 (push_bit 32 a OR b) = a"
    by (rule bit_word_eqI) (auto simp: bit_drop_bit_eq bit_or_iff bit_push_bit_iff dest: bb)
  show "take_bit 32 (push_bit 32 a OR b) = b"
    by (rule bit_word_eqI) (auto simp: bit_take_bit_iff bit_or_iff bit_push_bit_iff dest: bb)
qed

lemma duration_roundtrip:
  assumes "duration_wf d" "dur_secs d < 2 ^ 32"
  shows "u64_to_duration (duration_to_u64 d) = d"
proof -
  let ?a = "of_nat (dur_secs d) :: u64" and ?b = "of_nat (dur_nanos d) :: u64"
  have n: "dur_nanos d < 2 ^ 32" using assms(1) by (simp add: duration_wf_def)
  have u: "unat ?a = dur_secs d" "unat ?b = dur_nanos d"
    using assms(2) n by (simp_all add: unat_of_nat take_bit_nat_eq_self)
  then have l: "?a < 2 ^ 32" "?b < 2 ^ 32" using assms(2) n by (simp_all add: word_less_nat_alt)
  have "unat (ucast (push_bit 32 ?a OR ?b) :: u32) = unat (take_bit 32 (push_bit 32 ?a OR ?b))"
    by (simp only: unsigned_ucast_eq unsigned_take_bit_eq) simp
  then have "unat (ucast (push_bit 32 ?a OR ?b) :: u32) = dur_nanos d"
    unfolding split_word_halves(2) [OF l] using u by simp
  moreover have "unat (drop_bit 32 (push_bit 32 ?a OR ?b)) = dur_secs d"
    unfolding split_word_halves(1) [OF l] using u by simp
  ultimately show ?thesis
    using assms(1) by (simp add: u64_to_duration_def duration_to_u64_def Let_def duration_wf_def)
qed

definition checked_sub :: "nat \<Rightarrow> nat \<Rightarrow> nat option" where
  "checked_sub a b = (if b \<le> a then Some (a - b) else None)"

section \<open>Properties\<close>

text \<open>The flags of the status word are independent: setting or clearing one, of any priority,
  changes no other.\<close>

theorem status_flags_independent:
  "status_any (status_set (flag_bit f) v) (flag_bit g) = (g = f \<or> status_any v (flag_bit g))
   \<and> status_any (status_unset (flag_bit f) v) (flag_bit g) = (g \<noteq> f \<and> status_any v (flag_bit g))
   \<and> \<not> status_any status_new (flag_bit g)"
  by (simp add: status_any_laws)

text \<open>An event answers any sequence of notifications, checks and drops of a side like a
  binary semaphore that is closed by the first drop: a check succeeds once per burst of
  notifications, and after a drop every call fails, also if a notification was pending.\<close>

theorem event_is_binary_semaphore: "run_event cs event_new = spec_event cs False False"
  using run_event_spec [of cs False False] by (simp add: event_word_def event_new_def EV_UNSET_def)

text \<open>After a first write at a time below 2 ^ 48 microseconds the backoff word gives that
  time and the bitwise disjunction of the batch lengths reported since, not the last one.\<close>

theorem backoff_holds_disjunction:
  assumes "t < 2 ^ 48"
  shows "backoff_load (fold backoff_update bs (backoff_start t v)) = (fold (\<lambda>x acc. acc OR x) bs 0, t)"
  using backoff_updates [of bs "of_nat t" 0] backoff_fields [OF assms, of "fold (\<lambda>x acc. acc OR x) bs 0"]
  by (simp only: backoff_start_def BATCH_BITS_def) simp

theorem backoff_holds_disjunction_witness:
  "backoff_load (fold backoff_update [5, 10] (backoff_start 7 0)) = (15, 7)"
  using backoff_holds_disjunction [of 7 "[5, 10]" 0] by simp

text \<open>A duration whose seconds fit in 32 bits is read back from the atomic as it was stored;
  any other is refused.\<close>

theorem atomic_duration_roundtrip:
  assumes "duration_wf d"
  shows "map_option atomic_duration_load (atomic_duration_store d) = (if dur_secs d < 2 ^ 32 then Some d else None)"
  using duration_roundtrip [OF assms] by (auto simp: atomic_duration_store_def atomic_duration_load_def)

theorem atomic_duration_roundtrip_witness:
  "map_option atomic_duration_load (atomic_duration_store \<lparr>dur_secs = 3, dur_nanos = 999999999\<rparr>)
     = Some \<lparr>dur_secs = 3, dur_nanos = 999999999\<rparr>"
  using atomic_duration_roundtrip [of "\<lparr>dur_secs = 3, dur_nanos = 999999999\<rparr>"] by (simp add: duration_wf_def)

end
