(* ===== verification/Single_Or_Vec.thy ===== *)
theory Single_Or_Vec
  imports Prelude
begin

text \<open>
  \<open>src/collections/single_or_vec.rs\<close>: the collection that keeps one element inline and
  more in a \<open>Vec\<close>.  The code asks a \<open>Vec\<close> for its capacity only to see whether it is 0,
  so the model of a \<open>Vec\<close> is its elements and the flag \<open>allocated\<close> (capacity not 0):
  \<open>Vec::new()\<close> is not allocated, a \<open>Vec\<close> that holds or has held elements is.
\<close>

section \<open>Ranges\<close>

datatype bound = Included nat | Excluded nat | Unbounded

type_synonym range = "bound \<times> bound"

text \<open>The two \<open>match\<close>es on a range's bounds, repeated in \<open>drain\<close> and the \<open>view\<close>s.\<close>

definition range_start :: "range \<Rightarrow> nat" where
  "range_start r = (case fst r of Included n \<Rightarrow> n | Excluded n \<Rightarrow> n + 1 | Unbounded \<Rightarrow> 0)"

definition range_end :: "range \<Rightarrow> nat \<Rightarrow> nat" where
  "range_end r len = (case snd r of Included n \<Rightarrow> n + 1 | Excluded n \<Rightarrow> n | Unbounded \<Rightarrow> len)"

abbreviation range_from :: "nat \<Rightarrow> range" where "range_from a \<equiv> (Included a, Unbounded)"
abbreviation range_upto :: "nat \<Rightarrow> range" where "range_upto b \<equiv> (Unbounded, Excluded b)"
abbreviation range_between :: "nat \<Rightarrow> nat \<Rightarrow> range" where
  "range_between a b \<equiv> (Included a, Excluded b)"

lemma range_simps [simp]:
  "range_start (Included a, e) = a" "range_start (Unbounded, e) = 0"
  "range_end (s, Excluded b) n = b" "range_end (s, Unbounded) n = n"
  by (simp_all add: range_start_def range_end_def)

section \<open>The collection\<close>

datatype 'a single_or_vec = Single 'a | Vec (vec_elems: "'a list") (vec_allocated: bool)

definition sov_new :: "'a single_or_vec" where
  "sov_new = Vec [] False"

definition sov_single :: "'a \<Rightarrow> 'a single_or_vec" where
  "sov_single t = Single t"

fun sov_push :: "'a single_or_vec \<Rightarrow> 'a \<Rightarrow> 'a single_or_vec" where
  "sov_push (Vec v False) value = Single value"
| "sov_push (Single first) value = Vec [first, value] True"
| "sov_push (Vec v True) value = Vec (v @ [value]) True"

fun sov_truncate :: "'a single_or_vec \<Rightarrow> nat \<Rightarrow> 'a single_or_vec" where
  "sov_truncate (Vec v a) len = Vec (take len v) a"
| "sov_truncate (Single t) len = (if len = 0 then Vec [] False else Single t)"

definition sov_clear :: "'a single_or_vec \<Rightarrow> 'a single_or_vec" where
  "sov_clear s = sov_truncate s 0"

fun sov_len :: "'a single_or_vec \<Rightarrow> nat" where
  "sov_len (Single _) = 1"
| "sov_len (Vec v _) = length v"

definition sov_is_empty :: "'a single_or_vec \<Rightarrow> bool" where
  "sov_is_empty s \<longleftrightarrow> sov_len s = 0"

fun sov_as_slice :: "'a single_or_vec \<Rightarrow> 'a list" where
  "sov_as_slice (Single v) = [v]"
| "sov_as_slice (Vec v _) = v"

definition slice_get :: "'a list \<Rightarrow> nat \<Rightarrow> 'a option" where
  "slice_get xs i = (if i < length xs then Some (xs ! i) else None)"

definition sov_get :: "'a single_or_vec \<Rightarrow> nat \<Rightarrow> 'a option" where
  "sov_get s index = slice_get (sov_as_slice s) index"

text \<open>Storing through \<open>get_mut\<close>/\<open>IndexMut\<close>: \<open>None\<close> where the index is out of range.\<close>

fun sov_set :: "'a single_or_vec \<Rightarrow> nat \<Rightarrow> 'a \<Rightarrow> 'a single_or_vec option" where
  "sov_set (Single v) index x = (if index = 0 then Some (Single x) else None)"
| "sov_set (Vec v a) index x = (if index < length v then Some (Vec (v[index := x]) a) else None)"

definition sov_eq :: "'a single_or_vec \<Rightarrow> 'a single_or_vec \<Rightarrow> bool" where
  "sov_eq s t \<longleftrightarrow> sov_as_slice s = sov_as_slice t"

section \<open>Iteration\<close>

record 'a into_iter =
  it_drain :: "'a list"
  it_last :: "'a option"

text \<open>\<open>it.next_back()\<close> takes the last element off a \<open>vec::IntoIter\<close>.\<close>

fun sov_into_iter :: "'a single_or_vec \<Rightarrow> 'a into_iter" where
  "sov_into_iter (Single first) = \<lparr>it_drain = [], it_last = Some first\<rparr>"
| "sov_into_iter (Vec v _) =
     (if v = [] then \<lparr>it_drain = [], it_last = None\<rparr>
      else \<lparr>it_drain = butlast v, it_last = Some (last v)\<rparr>)"

definition into_iter_next :: "'a into_iter \<Rightarrow> 'a option \<times> 'a into_iter" where
  "into_iter_next it = (case it_drain it of
       x # xs \<Rightarrow> (Some x, it\<lparr>it_drain := xs\<rparr>)
     | [] \<Rightarrow> (it_last it, it\<lparr>it_last := None\<rparr>))"

definition into_iter_left :: "'a into_iter \<Rightarrow> nat" where
  "into_iter_left it = length (it_drain it) + (case it_last it of None \<Rightarrow> 0 | Some _ \<Rightarrow> 1)"

lemma into_iter_next_left:
  "into_iter_next it = (Some x, it') \<Longrightarrow> into_iter_left it' < into_iter_left it"
  by (auto simp: into_iter_next_def into_iter_left_def split: list.splits option.splits)

function into_iter_collect :: "'a into_iter \<Rightarrow> 'a list" where
  "into_iter_collect it = (case into_iter_next it of
       (None, _) \<Rightarrow> []
     | (Some x, it') \<Rightarrow> x # into_iter_collect it')"
  by pat_completeness auto
termination
  by (relation "measure into_iter_left") (auto intro: into_iter_next_left [OF sym])

declare into_iter_collect.simps [simp del]

definition sov_drain :: "'a single_or_vec \<Rightarrow> range \<Rightarrow> 'a list" where
  "sov_drain s r = (let start_delta = range_start r; end_delta = range_end r (sov_len s)
     in take (usize_sub end_delta start_delta) (drop start_delta (into_iter_collect (sov_into_iter s))))"

definition sov_extend :: "'a single_or_vec \<Rightarrow> 'a list \<Rightarrow> 'a single_or_vec" where
  "sov_extend s xs = fold (\<lambda>value s. sov_push s value) xs s"

section \<open>Refinement to lists\<close>

text \<open>
  An unallocated \<open>Vec\<close> holds nothing: the invariant that makes \<open>push\<close> right to replace
  it by the inline element.
\<close>

fun sov_wf :: "'a single_or_vec \<Rightarrow> bool" where
  "sov_wf (Single _) = True"
| "sov_wf (Vec v a) = (a \<or> v = [])"

lemma sov_wf_new [simp]: "sov_wf sov_new" "sov_wf (sov_single x)"
  by (simp_all add: sov_new_def sov_single_def)

lemma sov_wf_push [simp]: "sov_wf (sov_push s x)"
  by (induction s x rule: sov_push.induct) auto

lemma sov_wf_truncate [simp]: "sov_wf s \<Longrightarrow> sov_wf (sov_truncate s n)"
  by (cases s) auto

lemma sov_wf_clear [simp]: "sov_wf s \<Longrightarrow> sov_wf (sov_clear s)"
  by (simp add: sov_clear_def)

lemma sov_wf_set: "sov_wf s \<Longrightarrow> sov_set s i x = Some s' \<Longrightarrow> sov_wf s'"
  by (cases s) (auto split: if_splits)

lemma sov_as_slice_new [simp]:
  "sov_as_slice sov_new = []" "sov_as_slice (sov_single x) = [x]"
  by (simp_all add: sov_new_def sov_single_def)

lemma sov_as_slice_push [simp]: "sov_wf s \<Longrightarrow> sov_as_slice (sov_push s x) = sov_as_slice s @ [x]"
  by (induction s x rule: sov_push.induct) auto

lemma sov_as_slice_truncate [simp]: "sov_as_slice (sov_truncate s n) = take n (sov_as_slice s)"
  by (cases s) auto

lemma sov_as_slice_clear [simp]: "sov_as_slice (sov_clear s) = []"
  by (simp add: sov_clear_def)

lemma sov_len_slice [simp]: "sov_len s = length (sov_as_slice s)"
  by (cases s) auto

lemma sov_is_empty_iff [simp]: "sov_is_empty s \<longleftrightarrow> sov_as_slice s = []"
  by (simp add: sov_is_empty_def)

lemma sov_set_slice:
  "sov_set s i x = Some s' \<Longrightarrow> i < length (sov_as_slice s) \<and> sov_as_slice s' = (sov_as_slice s)[i := x]"
  by (cases s) (auto split: if_splits)

lemma sov_extend_wf [simp]: "sov_wf s \<Longrightarrow> sov_wf (sov_extend s xs)"
  by (induction xs arbitrary: s) (simp_all add: sov_extend_def)

lemma sov_as_slice_extend [simp]:
  "sov_wf s \<Longrightarrow> sov_as_slice (sov_extend s xs) = sov_as_slice s @ xs"
  by (induction xs arbitrary: s) (simp_all add: sov_extend_def)

lemma slice_get_Some_iff: "slice_get xs i = Some x \<longleftrightarrow> i < length xs \<and> xs ! i = x"
  by (auto simp: slice_get_def)

lemma slice_get_None_iff: "slice_get xs i = None \<longleftrightarrow> length xs \<le> i"
  by (auto simp: slice_get_def)

lemma into_iter_collect_eq:
  "into_iter_collect it = it_drain it @ (case it_last it of None \<Rightarrow> [] | Some x \<Rightarrow> [x])"
proof (induction it rule: into_iter_collect.induct)
  case (1 it)
  obtain o' it' where n: "into_iter_next it = (o', it')" by force
  show ?case
  proof (cases o')
    case None
    then have "it_drain it = []" "it_last it = None"
      using n by (auto simp: into_iter_next_def split: list.splits)
    then show ?thesis using n None by (simp add: into_iter_collect.simps [of it])
  next
    case (Some x)
    have "into_iter_collect it' = it_drain it' @ (case it_last it' of None \<Rightarrow> [] | Some x \<Rightarrow> [x])"
      by (rule "1.IH" [OF n [symmetric] Some])
    then show ?thesis
      using n Some by (auto simp: into_iter_collect.simps [of it] into_iter_next_def split: list.splits)
  qed
qed

lemma sov_into_iter_collect [simp]: "into_iter_collect (sov_into_iter s) = sov_as_slice s"
  by (cases s) (auto simp: into_iter_collect_eq)

lemma sov_drain_slice:
  assumes "range_start r \<le> range_end r (length (sov_as_slice s))"
  shows "sov_drain s r = drop (range_start r) (take (range_end r (length (sov_as_slice s))) (sov_as_slice s))"
  using assms by (simp add: sov_drain_def Let_def drop_take)

section \<open>Properties\<close>



text \<open>\<open>drain\<close> of a range gives the elements in the range.\<close>

theorem single_or_vec_drain:
  assumes "a \<le> b"
  shows "sov_drain s (range_between a b) = drop a (take b (sov_as_slice s))"
  using sov_drain_slice [of "range_between a b" s] assms by simp

theorem single_or_vec_drain_witness: "sov_drain (Vec [(1 :: nat), 2, 3] True) (range_between 1 3) = [2, 3]"
  using single_or_vec_drain [of 1 3 "Vec [1 :: nat, 2, 3] True"] by simp

end
