(* ===== verification/Chunk.thy ===== *)
theory Chunk
  imports Single_Or_Vec
begin

text \<open>
  \<open>src/buffers/chunk.rs\<close>: the byte buffers a chunk can be backed by and the view
  \<open>Chunk\<close> into one.  An \<open>Arc<dyn DynBuf>\<close> is the value it points to: the buffer of a
  chunk is never written through the chunk.  The accesses that the code makes without a
  bounds check are safe under \<open>chunk_wf\<close>, the invariant of the type: every safe
  constructor establishes it and \<open>view\<close> keeps it.
\<close>

section \<open>Backing buffers\<close>

datatype dyn_buf =
    DynVec "u8 list" | DynBoxedSlice "u8 list" | DynArray "u8 list"
  | DynStaticSlice "u8 list" | DynString "u8 list" | DynStaticStr "u8 list"

primrec dyn_as_slice :: "dyn_buf \<Rightarrow> u8 list" where
  "dyn_as_slice (DynVec b) = b"
| "dyn_as_slice (DynBoxedSlice b) = b"
| "dyn_as_slice (DynArray b) = b"
| "dyn_as_slice (DynStaticSlice b) = b"
| "dyn_as_slice (DynString b) = b"
| "dyn_as_slice (DynStaticStr b) = b"

section \<open>Chunks\<close>

record chunk =
  c_buf :: dyn_buf
  c_start :: nat
  c_end :: nat

definition chunk_wf :: "chunk \<Rightarrow> bool" where
  "chunk_wf c \<longleftrightarrow> c_start c \<le> c_end c \<and> c_end c \<le> length (dyn_as_slice (c_buf c))"

definition chunk_new :: "dyn_buf \<Rightarrow> nat \<Rightarrow> nat \<Rightarrow> dyn_buf + chunk" where
  "chunk_new buf start end' =
     (if start \<le> end' \<and> end' \<le> length (dyn_as_slice buf)
      then Inr \<lparr>c_buf = buf, c_start = start, c_end = end'\<rparr> else Inl buf)"

definition chunk_new_unchecked :: "dyn_buf \<Rightarrow> nat \<Rightarrow> nat \<Rightarrow> chunk" where
  "chunk_new_unchecked buf start end' = \<lparr>c_buf = buf, c_start = start, c_end = end'\<rparr>"

definition chunk_len :: "chunk \<Rightarrow> nat" where
  "chunk_len c = c_end c - c_start c"

definition chunk_is_empty :: "chunk \<Rightarrow> bool" where
  "chunk_is_empty c \<longleftrightarrow> chunk_len c = 0"

definition chunk_as_slice :: "chunk \<Rightarrow> u8 list" where
  "chunk_as_slice c = take (c_end c - c_start c) (drop (c_start c) (dyn_as_slice (c_buf c)))"

definition chunk_downcast_vec :: "chunk \<Rightarrow> u8 list option" where
  "chunk_downcast_vec c = (case c_buf c of DynVec v \<Rightarrow> Some v | _ \<Rightarrow> None)"

definition chunk_view :: "chunk \<Rightarrow> range \<Rightarrow> chunk option" where
  "chunk_view c r =
     (let start_delta = range_start r; end_delta = range_end r (chunk_len c)
      in if start_delta \<le> end_delta \<and> end_delta \<le> chunk_len c
         then Some \<lparr>c_buf = c_buf c, c_start = c_start c + start_delta, c_end = c_start c + end_delta\<rparr>
         else None)"

definition chunk_eq :: "chunk \<Rightarrow> chunk \<Rightarrow> bool" where
  "chunk_eq c d \<longleftrightarrow> chunk_as_slice c = chunk_as_slice d"

definition chunk_from :: "dyn_buf \<Rightarrow> chunk" where
  "chunk_from buf = \<lparr>c_buf = buf, c_start = 0, c_end = length (dyn_as_slice buf)\<rparr>"

section \<open>Lemmas\<close>

lemma length_chunk_as_slice [simp]: "chunk_wf c \<Longrightarrow> length (chunk_as_slice c) = chunk_len c"
  by (auto simp: chunk_wf_def chunk_as_slice_def chunk_len_def min_def)

lemma chunk_wf_from [simp]: "chunk_wf (chunk_from b)"
  by (simp add: chunk_wf_def chunk_from_def)

lemma chunk_as_slice_from [simp]: "chunk_as_slice (chunk_from b) = dyn_as_slice b"
  by (simp add: chunk_as_slice_def chunk_from_def)

lemma chunk_len_from [simp]: "chunk_len (chunk_from b) = length (dyn_as_slice b)"
  by (simp add: chunk_len_def chunk_from_def)

lemma chunk_new_Inr: "chunk_new b s e = Inr c \<Longrightarrow> chunk_wf c"
  by (auto simp: chunk_new_def chunk_wf_def split: if_splits)

lemma chunk_new_unchecked_wf:
  "s \<le> e \<Longrightarrow> e \<le> length (dyn_as_slice b) \<Longrightarrow> chunk_wf (chunk_new_unchecked b s e)"
  by (simp add: chunk_new_unchecked_def chunk_wf_def)

lemma chunk_view_Some_iff:
  "(\<exists>d. chunk_view c r = Some d) \<longleftrightarrow>
     range_start r \<le> range_end r (chunk_len c) \<and> range_end r (chunk_len c) \<le> chunk_len c"
  by (simp add: chunk_view_def Let_def)

lemma chunk_view_wf: "chunk_wf c \<Longrightarrow> chunk_view c r = Some d \<Longrightarrow> chunk_wf d"
  by (auto simp: chunk_view_def chunk_wf_def chunk_len_def Let_def split: if_splits)

lemma chunk_view_len:
  "chunk_view c r = Some d \<Longrightarrow> chunk_len d = range_end r (chunk_len c) - range_start r"
  by (auto simp: chunk_view_def chunk_len_def Let_def split: if_splits)

lemma chunk_view_slice:
  assumes "chunk_wf c" "chunk_view c r = Some d"
  shows "chunk_as_slice d = drop (range_start r) (take (range_end r (chunk_len c)) (chunk_as_slice c))"
proof -
  define s where "s = range_start r"
  define e where "e = range_end r (chunk_len c)"
  have le: "s \<le> e" "e \<le> chunk_len c"
    and d: "d = \<lparr>c_buf = c_buf c, c_start = c_start c + s, c_end = c_start c + e\<rparr>"
    using assms(2) by (auto simp: chunk_view_def Let_def s_def e_def split: if_splits)
  have "chunk_as_slice d = take (e - s) (drop (c_start c + s) (dyn_as_slice (c_buf c)))"
    by (simp add: d chunk_as_slice_def)
  also have "\<dots> = drop s (take e (take (chunk_len c) (drop (c_start c) (dyn_as_slice (c_buf c)))))"
    using le by (simp add: drop_take add.commute min_absorb1)
  finally show ?thesis
    by (simp add: chunk_as_slice_def s_def e_def chunk_len_def)
qed

lemma chunk_view_between:
  assumes "chunk_wf c" "a \<le> b" "b \<le> chunk_len c"
  shows "\<exists>d. chunk_view c (range_between a b) = Some d \<and> chunk_wf d \<and> chunk_len d = b - a
           \<and> chunk_as_slice d = drop a (take b (chunk_as_slice c))"
proof -
  obtain d where d: "chunk_view c (range_between a b) = Some d"
    using assms chunk_view_Some_iff [of c "range_between a b"] by auto
  then show ?thesis
    using chunk_view_wf [OF assms(1) d] chunk_view_slice [OF assms(1) d] chunk_view_len [OF d] by simp
qed

lemma chunk_view_from:
  assumes "chunk_wf c" "a \<le> chunk_len c"
  shows "\<exists>d. chunk_view c (range_from a) = Some d \<and> chunk_wf d \<and> chunk_len d = chunk_len c - a
           \<and> chunk_as_slice d = drop a (chunk_as_slice c)"
proof -
  obtain d where d: "chunk_view c (range_from a) = Some d"
    using assms chunk_view_Some_iff [of c "range_from a"] by auto
  then show ?thesis
    using chunk_view_wf [OF assms(1) d] chunk_view_slice [OF assms(1) d] chunk_view_len [OF d]
      length_chunk_as_slice [OF assms(1)] by simp
qed

end
