(* ===== verification/Buffer_Traits.thy ===== *)
theory Buffer_Traits
  imports Chunk "HOL-Library.Sublist"
begin

text \<open>
  The traits of \<open>src/buffers/mod.rs\<close>.  A trait is the record of its methods, which is what
  generic code is handed (\<open>writer_ops\<close>, \<open>reader_ops\<close>); the promises its documentation
  makes are the assumptions of the locales \<open>writer\<close> and \<open>reader\<close>, stated over a view
  of the implementation: the invariant of its state, the bytes written so far and the
  room left, or the bytes still to be read.  An access that the code makes without a
  bounds check ends in \<open>WriteOob\<close>/\<open>ReadOob\<close> when it is out of range (a panic in
  test builds, undefined behaviour otherwise); the laws leave no room for it.
\<close>

section \<open>Writers\<close>

datatype write_err = DidntWrite | WriteOob

text \<open>
  The closure that \<open>with_slot\<close> runs on a slot of uninitialized bytes: the bytes it
  leaves there and the count it returns, or \<open>None\<close> when it writes outside the slot.
\<close>

type_synonym slot_fn = "u8 list \<Rightarrow> (u8 list \<times> nat) option"

record 'w writer_ops =
  w_write :: "u8 list \<Rightarrow> ('w, write_err, nat) op"
  w_write_exact :: "u8 list \<Rightarrow> ('w, write_err, unit) op"
  w_remaining :: "'w \<Rightarrow> nat"
  w_write_u8 :: "u8 \<Rightarrow> ('w, write_err, unit) op"
  w_write_chunk :: "chunk \<Rightarrow> ('w, write_err, unit) op"
  w_with_slot :: "nat \<Rightarrow> slot_fn \<Rightarrow> ('w, write_err, nat) op"

text \<open>The methods that the trait \<open>Writer\<close> provides itself.\<close>

definition default_write_u8 :: "(u8 list \<Rightarrow> ('w, write_err, unit) op) \<Rightarrow> u8 \<Rightarrow> ('w, write_err, unit) op" where
  "default_write_u8 write_exact byte = write_exact [byte]"

definition default_write_chunk :: "(u8 list \<Rightarrow> ('w, write_err, unit) op) \<Rightarrow> chunk \<Rightarrow> ('w, write_err, unit) op" where
  "default_write_chunk write_exact c = write_exact (chunk_as_slice c)"

definition can_write :: "'w writer_ops \<Rightarrow> 'w \<Rightarrow> bool" where
  "can_write W w \<longleftrightarrow> w_remaining W w \<noteq> 0"

subsection \<open>What a writer promises\<close>

record 'w writer_view =
  wv_inv :: "'w \<Rightarrow> bool"
  wv_written :: "'w \<Rightarrow> u8 list"
  wv_fits :: "'w \<Rightarrow> nat \<Rightarrow> bool"

definition appends :: "'w writer_view \<Rightarrow> 'w \<Rightarrow> u8 list \<Rightarrow> 'w \<Rightarrow> bool" where
  "appends V w bs w' \<longleftrightarrow> wv_inv V w' \<and> wv_written V w' = wv_written V w @ bs
     \<and> (\<forall>n. wv_fits V w' n \<longleftrightarrow> wv_fits V w (length bs + n))"

text \<open>
  An operation emits \<open>bs\<close>: when they fit it succeeds and appends exactly these bytes;
  when they do not it reports \<open>DidntWrite\<close>, having appended a strict prefix at most.
\<close>

definition emits :: "'w writer_view \<Rightarrow> ('w, write_err, 'a) op \<Rightarrow> u8 list \<Rightarrow> bool" where
  "emits V m bs \<longleftrightarrow> (\<forall>w. wv_inv V w \<longrightarrow>
     (if wv_fits V w (length bs)
      then \<exists>x w'. m w = (Inr x, w') \<and> appends V w bs w'
      else \<exists>k w'. m w = (Inl DidntWrite, w') \<and> k < length bs \<and> appends V w (take k bs) w'))"

lemma emits_fitsD:
  "emits V m bs \<Longrightarrow> wv_inv V w \<Longrightarrow> wv_fits V w (length bs) \<Longrightarrow>
     \<exists>x w'. m w = (Inr x, w') \<and> appends V w bs w'"
  by (simp add: emits_def)

lemma emits_fullD:
  "emits V m bs \<Longrightarrow> wv_inv V w \<Longrightarrow> \<not> wv_fits V w (length bs) \<Longrightarrow>
     \<exists>k w'. m w = (Inl DidntWrite, w') \<and> k < length bs \<and> appends V w (take k bs) w'"
  by (simp add: emits_def)

text \<open>What a slot function has to do for \<open>with_slot\<close>: fill a slot of \<open>len\<close> bytes, in
  bounds, so that its first bytes are \<open>bs\<close>.\<close>

definition fills :: "slot_fn \<Rightarrow> nat \<Rightarrow> u8 list \<Rightarrow> bool" where
  "fills f len bs \<longleftrightarrow> length bs \<le> len \<and> (\<forall>slot. length slot = len \<longrightarrow>
     (\<exists>slot'. f slot = Some (slot', length bs) \<and> length slot' = len \<and> take (length bs) slot' = bs))"

lemma fills_exact:
  assumes "fills f (length bs) bs" "length slot = length bs"
  shows "f slot = Some (bs, length bs)"
proof -
  obtain slot' where "f slot = Some (slot', length bs)" "length slot' = length bs"
      "take (length bs) slot' = bs"
    using assms unfolding fills_def by blast
  then show ?thesis by (metis order_refl take_all)
qed

text \<open>\<open>write\<close> takes as much as fits, and complains when it can take nothing.\<close>

definition takes_some :: "'w writer_view \<Rightarrow> ('w, write_err, nat) op \<Rightarrow> u8 list \<Rightarrow> bool" where
  "takes_some V m bs \<longleftrightarrow> (\<forall>w. wv_inv V w \<longrightarrow>
     (\<exists>k w'. m w = (Inr k, w') \<and> 0 < k \<and> k \<le> length bs \<and> appends V w (take k bs) w'
        \<and> (k < length bs \<longrightarrow> \<not> wv_fits V w (Suc k)))
     \<or> (m w = (Inl DidntWrite, w) \<and> (bs = [] \<or> \<not> wv_fits V w 1)))"

locale writer =
  fixes W :: "'w writer_ops"
    and V :: "'w writer_view"
  assumes fits_zero: "wv_inv V w \<Longrightarrow> wv_fits V w 0"
    and fits_mono: "wv_inv V w \<Longrightarrow> wv_fits V w n \<Longrightarrow> k \<le> n \<Longrightarrow> wv_fits V w k"
    and takes_some: "takes_some V (w_write W bs) bs"
    and emits_exact: "bs \<noteq> [] \<Longrightarrow> emits V (w_write_exact W bs) bs"
    and emits_u8: "emits V (w_write_u8 W b) [b]"
    and emits_chunk: "chunk_wf c \<Longrightarrow> chunk_len c \<noteq> 0 \<Longrightarrow> emits V (w_write_chunk W c) (chunk_as_slice c)"
    and emits_slot: "bs \<noteq> [] \<Longrightarrow> fills f (length bs) bs \<Longrightarrow> emits V (w_with_slot W (length bs) f) bs"
begin

lemma appends_refl: "wv_inv V w \<Longrightarrow> appends V w [] w"
  by (simp add: appends_def)

lemma appends_trans: "appends V w as w' \<Longrightarrow> appends V w' bs w'' \<Longrightarrow> appends V w (as @ bs) w''"
  by (auto simp: appends_def add.assoc)

lemma emits_ok: "emits V (ok x) []"
  by (auto simp: emits_def fits_zero intro: appends_refl)

text \<open>Writing one thing after the other emits the concatenation.\<close>

lemma emits_andthen:
  assumes m: "emits V m as" and f: "\<And>x. emits V (f x) bs"
  shows "emits V (andthen m f) (as @ bs)"
  unfolding emits_def
proof (intro allI impI)
  fix w assume w: "wv_inv V w"
  show "if wv_fits V w (length (as @ bs))
    then \<exists>x w'. andthen m f w = (Inr x, w') \<and> appends V w (as @ bs) w'
    else \<exists>k w'. andthen m f w = (Inl DidntWrite, w') \<and> k < length (as @ bs)
           \<and> appends V w (take k (as @ bs)) w'"
  proof (cases "wv_fits V w (length as)")
    case False
    then have "\<not> wv_fits V w (length (as @ bs))"
      using fits_mono [OF w, of "length (as @ bs)" "length as"] by auto
    moreover obtain k w' where "m w = (Inl DidntWrite, w')" "k < length as" "appends V w (take k as) w'"
      using emits_fullD [OF m w False] by blast
    ultimately show ?thesis by (auto intro!: exI [of _ k])
  next
    case True
    then obtain x w' where mw: "m w = (Inr x, w')" and a: "appends V w as w'"
      using emits_fitsD [OF m w] by blast
    then have w': "wv_inv V w'" and fw: "wv_fits V w' (length bs) \<longleftrightarrow> wv_fits V w (length (as @ bs))"
      by (auto simp: appends_def)
    show ?thesis
    proof (cases "wv_fits V w' (length bs)")
      case True
      then obtain y w'' where "f x w' = (Inr y, w'')" "appends V w' bs w''"
        using emits_fitsD [OF f w'] by blast
      then show ?thesis using True fw mw a by (auto intro: appends_trans)
    next
      case False
      then obtain k w'' where k: "f x w' = (Inl DidntWrite, w'')" "k < length bs" "appends V w' (take k bs) w''"
        using emits_fullD [OF f w'] by blast
      then have "appends V w (take (length as + k) (as @ bs)) w''"
        using appends_trans [OF a] by simp
      then show ?thesis using False fw mw k by (auto intro!: exI [of _ "length as + k"])
    qed
  qed
qed

lemma emits_then_ok: "emits V m bs \<Longrightarrow> emits V (andthen m (\<lambda>_. ok x)) bs"
  using emits_andthen [OF _ emits_ok, of m bs] by simp

lemma emits_eq: "emits V m bs \<Longrightarrow> bs = cs \<Longrightarrow> emits V m cs"
  by simp

end

text \<open>A writer that also takes empty slices without complaint.\<close>

locale total_writer = writer +
  assumes emits_exact_nil: "emits V (w_write_exact W []) []"
    and emits_chunk_nil: "chunk_wf c \<Longrightarrow> chunk_len c = 0 \<Longrightarrow> emits V (w_write_chunk W c) []"
begin

lemma emits_any_chunk:
  assumes c: "chunk_wf c"
  shows "emits V (w_write_chunk W c) (chunk_as_slice c)"
proof (cases "chunk_len c = 0")
  case True
  then have "chunk_as_slice c = []" using c by (metis length_0_conv length_chunk_as_slice)
  then show ?thesis using emits_chunk_nil [OF c True] by simp
next
  case False
  then show ?thesis by (rule emits_chunk [OF c])
qed

end

section \<open>Readers\<close>

datatype read_err = DidntRead | ReadOob

text \<open>
  A \<open>read\<close> into a buffer of \<open>n\<close> bytes gives the bytes that were filled in;
  \<open>read_chunks\<close> gives the chunks it passes to its closure, in order.
\<close>

record 'r reader_ops =
  r_read :: "nat \<Rightarrow> ('r, read_err, u8 list) op"
  r_read_exact :: "nat \<Rightarrow> ('r, read_err, u8 list) op"
  r_remaining :: "'r \<Rightarrow> nat"
  r_read_chunks :: "nat \<Rightarrow> ('r, read_err, chunk list) op"
  r_read_chunk :: "nat \<Rightarrow> ('r, read_err, chunk) op"
  r_read_chunk_contiguous :: "nat \<Rightarrow> ('r, read_err, chunk) op"
  r_read_u8 :: "('r, read_err, u8) op"

text \<open>The methods that the trait \<open>Reader\<close> provides itself.\<close>

definition default_read_u8 :: "(nat \<Rightarrow> ('r, read_err, u8 list) op) \<Rightarrow> ('r, read_err, u8) op" where
  "default_read_u8 read = andthen (read 1) (\<lambda>bs. case bs of [byte] \<Rightarrow> ok byte | _ \<Rightarrow> err DidntRead)"

definition can_read :: "'r reader_ops \<Rightarrow> 'r \<Rightarrow> bool" where
  "can_read R r \<longleftrightarrow> r_remaining R r \<noteq> 0"

text \<open>\<open>AdvanceableReader::advance\<close>, over the two moves it chooses between.\<close>

definition default_advance ::
    "(nat \<Rightarrow> ('r, read_err, unit) op) \<Rightarrow> (nat \<Rightarrow> ('r, read_err, unit) op) \<Rightarrow> int \<Rightarrow> ('r, read_err, unit) op" where
  "default_advance skip backtrack offset =
     (if offset > 0 then skip (nat offset) else backtrack (nat (- offset)))"

subsection \<open>What a reader promises\<close>

record 'r reader_view =
  rv_inv :: "'r \<Rightarrow> bool"
  rv_pending :: "'r \<Rightarrow> u8 list"

text \<open>An operation parses \<open>bs\<close> off the front of the input into a value that satisfies \<open>P\<close>.\<close>

definition parses :: "'r reader_view \<Rightarrow> ('r, read_err, 'a) op \<Rightarrow> ('a \<Rightarrow> bool) \<Rightarrow> u8 list \<Rightarrow> bool" where
  "parses V m P bs \<longleftrightarrow> (\<forall>r rest. rv_inv V r \<longrightarrow> rv_pending V r = bs @ rest \<longrightarrow>
     (\<exists>x r'. m r = (Inr x, r') \<and> P x \<and> rv_inv V r' \<and> rv_pending V r' = rest))"

text \<open>An operation starves on \<open>bs\<close>: input that stops inside \<open>bs\<close> makes it fail.\<close>

definition starves :: "'r reader_view \<Rightarrow> ('r, read_err, 'a) op \<Rightarrow> u8 list \<Rightarrow> bool" where
  "starves V m bs \<longleftrightarrow> (\<forall>r. rv_inv V r \<longrightarrow> strict_prefix (rv_pending V r) bs \<longrightarrow>
     (\<exists>r'. m r = (Inl DidntRead, r')))"

definition chunks_hold :: "u8 list \<Rightarrow> chunk list \<Rightarrow> bool" where
  "chunks_hold bs cs \<longleftrightarrow> (\<forall>c \<in> set cs. chunk_wf c) \<and> concat (map chunk_as_slice cs) = bs"

lemma parsesD:
  "parses V m P bs \<Longrightarrow> rv_inv V r \<Longrightarrow> rv_pending V r = bs @ rest \<Longrightarrow>
     \<exists>x r'. m r = (Inr x, r') \<and> P x \<and> rv_inv V r' \<and> rv_pending V r' = rest"
  by (simp add: parses_def)

lemma starvesD:
  "starves V m bs \<Longrightarrow> rv_inv V r \<Longrightarrow> strict_prefix (rv_pending V r) bs \<Longrightarrow> \<exists>r'. m r = (Inl DidntRead, r')"
  by (simp add: starves_def)

lemma parses_ok [codec_intros]: "P x \<Longrightarrow> parses V (ok x) P []"
  by (simp add: parses_def)

lemma parses_mono: "parses V m P bs \<Longrightarrow> (\<And>x. P x \<Longrightarrow> Q x) \<Longrightarrow> parses V m Q bs"
  unfolding parses_def by blast

text \<open>Reading one thing after the other parses the concatenation, and starves inside it.\<close>

lemma parses_andthen:
  assumes m: "parses V m P as" and f: "\<And>x. P x \<Longrightarrow> parses V (f x) Q bs"
  shows "parses V (andthen m f) Q (as @ bs)"
  unfolding parses_def
proof (intro allI impI)
  fix r rest assume r: "rv_inv V r" "rv_pending V r = (as @ bs) @ rest"
  then obtain x r' where x: "m r = (Inr x, r')" "P x" "rv_inv V r'" "rv_pending V r' = bs @ rest"
    using parsesD [OF m, of r "bs @ rest"] by auto
  then obtain y r'' where "f x r' = (Inr y, r'')" "Q y" "rv_inv V r''" "rv_pending V r'' = rest"
    using parsesD [OF f [OF x(2)]] by blast
  then show "\<exists>y r'. andthen m f r = (Inr y, r') \<and> Q y \<and> rv_inv V r' \<and> rv_pending V r' = rest"
    using x(1) by auto
qed

lemma starves_nil [simp]: "starves V m []"
  by (simp add: starves_def)

lemma starves_andthen:
  assumes m: "parses V m P as" "starves V m as" and f: "\<And>x. P x \<Longrightarrow> starves V (f x) bs"
  shows "starves V (andthen m f) (as @ bs)"
  unfolding starves_def
proof (intro allI impI)
  fix r assume r: "rv_inv V r" "strict_prefix (rv_pending V r) (as @ bs)"
  show "\<exists>r'. andthen m f r = (Inl DidntRead, r')"
  proof (cases "strict_prefix (rv_pending V r) as")
    case True
    then show ?thesis using starvesD [OF m(2) r(1)] by fastforce
  next
    case False
    then obtain rest where rest: "rv_pending V r = as @ rest" "strict_prefix rest bs"
      using r(2) by (cases "rv_pending V r = as") (auto simp: strict_prefix_def prefix_append)
    then obtain x r' where "m r = (Inr x, r')" "P x" "rv_inv V r'" "rv_pending V r' = rest"
      using parsesD [OF m(1) r(1)] by blast
    then show ?thesis using starvesD [OF f] rest(2) by fastforce
  qed
qed

lemma parses_map:
  "parses V m P bs \<Longrightarrow> (\<And>x. P x \<Longrightarrow> Q (f x)) \<Longrightarrow> parses V (andthen m (\<lambda>x. ok (f x))) Q bs"
  using parses_andthen [of V m P bs "\<lambda>x. ok (f x)" Q "[]"] by (auto intro: parses_ok)

lemma starves_map: "parses V m P bs \<Longrightarrow> starves V m bs \<Longrightarrow> starves V (andthen m f) bs"
  using starves_andthen [of V m P bs f "[]"] by simp

locale reader =
  fixes R :: "'r reader_ops"
    and V :: "'r reader_view"
  assumes remaining_eq: "rv_inv V r \<Longrightarrow> r_remaining R r = length (rv_pending V r)"
    and parses_u8: "parses V (r_read_u8 R) ((=) b) [b]"
    and starves_u8: "starves V (r_read_u8 R) [b]"
    and parses_exact: "bs \<noteq> [] \<Longrightarrow> parses V (r_read_exact R (length bs)) ((=) bs) bs"
    and starves_exact: "bs \<noteq> [] \<Longrightarrow> starves V (r_read_exact R (length bs)) bs"
    and parses_chunk: "bs \<noteq> [] \<Longrightarrow>
      parses V (r_read_chunk R (length bs)) (\<lambda>c. chunk_wf c \<and> chunk_as_slice c = bs) bs"
    and starves_chunk: "bs \<noteq> [] \<Longrightarrow> starves V (r_read_chunk R (length bs)) bs"
    and parses_chunks: "bs \<noteq> [] \<Longrightarrow> parses V (r_read_chunks R (length bs)) (chunks_hold bs) bs"
    and starves_chunks: "bs \<noteq> [] \<Longrightarrow> starves V (r_read_chunks R (length bs)) bs"
    and contiguous: "rv_inv V r \<Longrightarrow> n \<noteq> 0 \<Longrightarrow>
      (\<exists>c r'. r_read_chunk_contiguous R n r = (Inr c, r') \<and> chunk_wf c \<and> rv_inv V r'
         \<and> n \<le> length (rv_pending V r) \<and> chunk_as_slice c = take n (rv_pending V r)
         \<and> rv_pending V r' = drop n (rv_pending V r))
      \<or> r_read_chunk_contiguous R n r = (Inl DidntRead, r)"
begin

lemma can_read_iff: "rv_inv V r \<Longrightarrow> can_read R r \<longleftrightarrow> rv_pending V r \<noteq> []"
  by (simp add: can_read_def remaining_eq)

end

end
