(* ===== verification/Plain_Buffers.thy ===== *)
theory Plain_Buffers
  imports Buffer_Traits
begin

text \<open>
  The plain implementations of \<open>Writer\<close> and \<open>Reader\<close>: byte slices
  (\<open>src/buffers/slice.rs\<close>), \<open>Vec<u8>\<close> (\<open>vec.rs\<close>), the fixed-capacity \<open>BoxBuf\<close>
  (\<open>boxbuf.rs\<close>), and from \<open>chunk.rs\<close> the reader that consumes a \<open>Chunk\<close> and the
  \<open>ChunkWriter\<close>.  Each is interpreted as a \<open>writer\<close> or a \<open>reader\<close>.
\<close>

section \<open>Writing to a byte slice\<close>

text \<open>
  A writer on \<open>&mut [u8]\<close> shrinks the slice from the front; \<open>sw_done\<close> are the bytes it
  has left behind, \<open>sw_rest\<close> the slice it still holds.
\<close>

record slice_writer =
  sw_done :: "u8 list"
  sw_rest :: "u8 list"

definition slice_writer_of :: "u8 list \<Rightarrow> slice_writer" where
  "slice_writer_of s = \<lparr>sw_done = [], sw_rest = s\<rparr>"

definition slice_write :: "u8 list \<Rightarrow> (slice_writer, write_err, nat) op" where
  "slice_write bytes self =
     (let len = min (length bytes) (length (sw_rest self)) in
      if len = 0 then (Inl DidntWrite, self)
      else (Inr len, \<lparr>sw_done = sw_done self @ take len bytes, sw_rest = drop len (sw_rest self)\<rparr>))"

definition slice_write_exact :: "u8 list \<Rightarrow> (slice_writer, write_err, unit) op" where
  "slice_write_exact bytes self =
     (let len = length bytes in
      if length (sw_rest self) < len then (Inl DidntWrite, self)
      else (Inr (), snd (slice_write bytes self)))"

definition slice_with_slot :: "nat \<Rightarrow> slot_fn \<Rightarrow> (slice_writer, write_err, nat) op" where
  "slice_with_slot len write self =
     (if length (sw_rest self) < len then (Inl DidntWrite, self)
      else case write (take len (sw_rest self)) of
          None \<Rightarrow> (Inl WriteOob, self)
        | Some (slot, written) \<Rightarrow>
            let s = slot @ drop len (sw_rest self) in
            if length s < written then (Inl WriteOob, self)
            else let self' = \<lparr>sw_done = sw_done self @ take written s, sw_rest = drop written s\<rparr>
              in if written = 0 then (Inl DidntWrite, self') else (Inr written, self'))"

definition slice_writer_ops :: "slice_writer writer_ops" where
  "slice_writer_ops = \<lparr>w_write = slice_write, w_write_exact = slice_write_exact,
     w_remaining = (\<lambda>self. length (sw_rest self)),
     w_write_u8 = default_write_u8 slice_write_exact,
     w_write_chunk = default_write_chunk slice_write_exact,
     w_with_slot = slice_with_slot\<rparr>"

definition slice_writer_view :: "slice_writer writer_view" where
  "slice_writer_view = \<lparr>wv_inv = (\<lambda>_. True), wv_written = sw_done,
     wv_fits = (\<lambda>self n. n \<le> length (sw_rest self))\<rparr>"

lemma emits_slice_write_exact: "emits slice_writer_view (slice_write_exact bs) bs"
  by (auto simp: emits_def appends_def slice_writer_view_def slice_write_exact_def slice_write_def
      Let_def intro!: exI [of _ 0])

lemma emits_slice_with_slot:
  assumes bs: "bs \<noteq> []" and f: "fills f (length bs) bs"
  shows "emits slice_writer_view (slice_with_slot (length bs) f) bs"
  unfolding emits_def
proof (intro allI impI)
  fix w
  show "if wv_fits slice_writer_view w (length bs)
    then \<exists>x w'. slice_with_slot (length bs) f w = (Inr x, w') \<and> appends slice_writer_view w bs w'
    else \<exists>k w'. slice_with_slot (length bs) f w = (Inl DidntWrite, w') \<and> k < length bs
           \<and> appends slice_writer_view w (take k bs) w'"
  proof (cases "length bs \<le> length (sw_rest w)")
    case True
    then have "f (take (length bs) (sw_rest w)) = Some (bs, length bs)"
      by (intro fills_exact [OF f]) simp
    then show ?thesis
      using bs True by (auto simp: slice_with_slot_def appends_def slice_writer_view_def Let_def)
  next
    case False
    then show ?thesis
      using bs by (auto simp: slice_with_slot_def appends_def slice_writer_view_def intro!: exI [of _ 0])
  qed
qed

lemma chunk_as_slice_nil_iff: "chunk_wf c \<Longrightarrow> chunk_as_slice c = [] \<longleftrightarrow> chunk_len c = 0"
  by (metis length_0_conv length_chunk_as_slice)

lemma takes_some_slice_write: "takes_some slice_writer_view (slice_write bs) bs"
  by (auto simp: takes_some_def slice_writer_view_def slice_write_def Let_def appends_def min_def)

interpretation slice_w: total_writer slice_writer_ops slice_writer_view
proof unfold_locales
  fix c assume "chunk_wf c" "chunk_len c = 0"
  then have "chunk_as_slice c = []" by (simp add: chunk_as_slice_nil_iff)
  then show "emits slice_writer_view (w_write_chunk slice_writer_ops c) []"
    using emits_slice_write_exact [of "[]"]
    by (simp add: slice_writer_ops_def default_write_chunk_def)
qed (simp_all add: slice_writer_ops_def default_write_u8_def default_write_chunk_def
    emits_slice_write_exact emits_slice_with_slot takes_some_slice_write, simp_all add: slice_writer_view_def)

section \<open>Reading a byte slice\<close>

definition slice_read :: "nat \<Rightarrow> (u8 list, read_err, u8 list) op" where
  "slice_read n self =
     (let len = min (length self) n in
      if len = 0 then (Inl DidntRead, self) else (Inr (take len self), drop len self))"

definition slice_read_exact :: "nat \<Rightarrow> (u8 list, read_err, u8 list) op" where
  "slice_read_exact len self =
     (if length self < len then (Inl DidntRead, self) else (Inr (take len self), drop len self))"

definition slice_read_u8 :: "(u8 list, read_err, u8) op" where
  "slice_read_u8 = andthen (slice_read 1) (\<lambda>buf. ok (hd buf))"

definition slice_read_chunk :: "nat \<Rightarrow> (u8 list, read_err, chunk) op" where
  "slice_read_chunk len = andthen (slice_read_exact len) (\<lambda>buffer. ok (chunk_from (DynBoxedSlice buffer)))"

definition slice_read_chunks :: "nat \<Rightarrow> (u8 list, read_err, chunk list) op" where
  "slice_read_chunks len = andthen (slice_read_chunk len) (\<lambda>c. ok [c])"

definition slice_reader_ops :: "u8 list reader_ops" where
  "slice_reader_ops = \<lparr>r_read = slice_read, r_read_exact = slice_read_exact, r_remaining = length,
     r_read_chunks = slice_read_chunks, r_read_chunk = slice_read_chunk,
     r_read_chunk_contiguous = slice_read_chunk, r_read_u8 = slice_read_u8\<rparr>"

definition slice_siphon :: "'w writer_ops \<Rightarrow> u8 list \<Rightarrow> 'w \<Rightarrow> nat option \<times> u8 list \<times> 'w" where
  "slice_siphon W self out = (case w_write W self out of
       (Inr len, out') \<Rightarrow> (Some len, drop len self, out')
     | (Inl _, out') \<Rightarrow> (None, self, out'))"

definition slice_reader_view :: "u8 list reader_view" where
  "slice_reader_view = \<lparr>rv_inv = (\<lambda>_. True), rv_pending = (\<lambda>s. s)\<rparr>"

lemma strict_prefix_length_less: "strict_prefix xs ys \<Longrightarrow> length xs < length ys"
  by (rule prefix_length_less)

lemma parses_slice_exact: "parses slice_reader_view (slice_read_exact (length bs)) ((=) bs) bs"
  by (simp add: parses_def slice_reader_view_def slice_read_exact_def)

lemma starves_slice_exact: "starves slice_reader_view (slice_read_exact (length bs)) bs"
  by (auto simp: starves_def slice_reader_view_def slice_read_exact_def dest: strict_prefix_length_less)

lemma parses_slice_chunk: "parses slice_reader_view (slice_read_chunk (length bs))
    (\<lambda>c. chunk_wf c \<and> chunk_as_slice c = bs) bs"
  by (simp add: parses_def slice_reader_view_def slice_read_exact_def slice_read_chunk_def)

lemma starves_slice_chunk: "starves slice_reader_view (slice_read_chunk (length bs)) bs"
  by (auto simp: starves_def slice_reader_view_def slice_read_exact_def slice_read_chunk_def
      dest: strict_prefix_length_less)

lemma slice_u8_simps:
  "slice_read_u8 [] = (Inl DidntRead, [])" "slice_read_u8 (b # bs) = (Inr b, bs)"
  by (simp_all add: slice_read_u8_def slice_read_def andthen_def)

interpretation slice_r: reader slice_reader_ops slice_reader_view
proof unfold_locales
  fix r :: "u8 list" and n :: nat
  assume "n \<noteq> 0"
  show "(\<exists>c r'. r_read_chunk_contiguous slice_reader_ops n r = (Inr c, r') \<and> chunk_wf c
         \<and> rv_inv slice_reader_view r' \<and> n \<le> length (rv_pending slice_reader_view r)
         \<and> chunk_as_slice c = take n (rv_pending slice_reader_view r)
         \<and> rv_pending slice_reader_view r' = drop n (rv_pending slice_reader_view r))
      \<or> r_read_chunk_contiguous slice_reader_ops n r = (Inl DidntRead, r)"
    by (auto simp: slice_reader_ops_def slice_reader_view_def slice_read_chunk_def slice_read_exact_def
        andthen_def)
next
  fix b :: u8
  show "parses slice_reader_view (r_read_u8 slice_reader_ops) ((=) b) [b]"
    by (auto simp: parses_def slice_reader_view_def slice_reader_ops_def slice_u8_simps)
  show "starves slice_reader_view (r_read_u8 slice_reader_ops) [b]"
    by (auto simp: starves_def slice_reader_view_def slice_reader_ops_def slice_u8_simps
        strict_prefix_def prefix_Cons)
next
  fix bs :: "u8 list" assume "bs \<noteq> []"
  show "parses slice_reader_view (r_read_chunks slice_reader_ops (length bs)) (chunks_hold bs) bs"
    by (auto simp: parses_def slice_reader_view_def slice_reader_ops_def slice_read_chunks_def
        slice_read_chunk_def slice_read_exact_def chunks_hold_def andthen_def)
  show "starves slice_reader_view (r_read_chunks slice_reader_ops (length bs)) bs"
    by (auto simp: starves_def slice_reader_view_def slice_reader_ops_def slice_read_chunks_def
        slice_read_chunk_def slice_read_exact_def andthen_def dest: strict_prefix_length_less)
qed (simp_all add: slice_reader_ops_def parses_slice_exact starves_slice_exact parses_slice_chunk
    starves_slice_chunk, simp_all add: slice_reader_view_def)

section \<open>\<open>Vec<u8>\<close>\<close>

definition vec_write :: "u8 list \<Rightarrow> (u8 list, write_err, nat) op" where
  "vec_write bytes self =
     (if bytes = [] then (Inl DidntWrite, self) else (Inr (length bytes), self @ bytes))"

definition vec_write_exact :: "u8 list \<Rightarrow> (u8 list, write_err, unit) op" where
  "vec_write_exact bytes = andthen (vec_write bytes) (\<lambda>_. ok ())"

definition vec_write_u8 :: "u8 \<Rightarrow> (u8 list, write_err, unit) op" where
  "vec_write_u8 byte self = (Inr (), self @ [byte])"

definition vec_remaining :: "u8 list \<Rightarrow> nat" where
  "vec_remaining self = 2 ^ 64 - 1"

text \<open>
  The slot is the spare capacity after \<open>reserve\<close>, uninitialized: zeros stand for its
  contents (what a slot function \<open>fills\<close> does not depend on them).
\<close>

definition vec_with_slot :: "nat \<Rightarrow> slot_fn \<Rightarrow> (u8 list, write_err, nat) op" where
  "vec_with_slot len write self = (case write (replicate len 0) of
       None \<Rightarrow> (Inl WriteOob, self)
     | Some (slot, written) \<Rightarrow>
         if length slot < written then (Inl WriteOob, self)
         else let self' = self @ take written slot
           in if written = 0 then (Inl DidntWrite, self') else (Inr written, self'))"

definition vec_mark :: "u8 list \<Rightarrow> nat" where "vec_mark self = length self"
definition vec_rewind :: "nat \<Rightarrow> u8 list \<Rightarrow> bool \<times> u8 list" where
  "vec_rewind mark self = (True, take mark self)"

definition vec_writer_ops :: "u8 list writer_ops" where
  "vec_writer_ops = \<lparr>w_write = vec_write, w_write_exact = vec_write_exact,
     w_remaining = vec_remaining, w_write_u8 = vec_write_u8,
     w_write_chunk = default_write_chunk vec_write_exact, w_with_slot = vec_with_slot\<rparr>"

definition vec_writer_view :: "u8 list writer_view" where
  "vec_writer_view = \<lparr>wv_inv = (\<lambda>_. True), wv_written = (\<lambda>v. v), wv_fits = (\<lambda>_ _. True)\<rparr>"

lemma emits_vec_exact: "bs \<noteq> [] \<Longrightarrow> emits vec_writer_view (vec_write_exact bs) bs"
  by (simp add: emits_def appends_def vec_writer_view_def vec_write_exact_def vec_write_def)

lemma emits_vec_with_slot:
  assumes bs: "bs \<noteq> []" and f: "fills f (length bs) bs"
  shows "emits vec_writer_view (vec_with_slot (length bs) f) bs"
proof -
  have "f (replicate (length bs) 0) = Some (bs, length bs)"
    by (intro fills_exact [OF f]) simp
  then show ?thesis
    using bs by (simp add: emits_def appends_def vec_writer_view_def vec_with_slot_def Let_def)
qed

lemma takes_some_vec_write: "takes_some vec_writer_view (vec_write bs) bs"
  by (auto simp: takes_some_def vec_writer_view_def vec_write_def appends_def)

interpretation vec_w: writer vec_writer_ops vec_writer_view
proof unfold_locales
  fix c assume c: "chunk_wf c" "chunk_len c \<noteq> 0"
  then show "emits vec_writer_view (w_write_chunk vec_writer_ops c) (chunk_as_slice c)"
    by (simp add: vec_writer_ops_def default_write_chunk_def emits_vec_exact chunk_as_slice_nil_iff)
next
  show "emits vec_writer_view (w_write_u8 vec_writer_ops b) [b]" for b
    by (simp add: emits_def appends_def vec_writer_view_def vec_writer_ops_def vec_write_u8_def)
qed (simp_all add: vec_writer_ops_def emits_vec_exact emits_vec_with_slot takes_some_vec_write,
    simp_all add: vec_writer_view_def)

section \<open>\<open>BoxBuf\<close>\<close>

record boxbuf =
  bb_buffer :: "u8 list"
  bb_len :: nat

definition bb_with_capacity :: "nat \<Rightarrow> boxbuf" where
  "bb_with_capacity capacity = \<lparr>bb_buffer = replicate capacity 0, bb_len = 0\<rparr>"

definition bb_capacity :: "boxbuf \<Rightarrow> nat" where
  "bb_capacity self = length (bb_buffer self)"

definition bb_as_slice :: "boxbuf \<Rightarrow> u8 list" where
  "bb_as_slice self = take (bb_len self) (bb_buffer self)"

definition bb_clear :: "boxbuf \<Rightarrow> boxbuf" where
  "bb_clear self = self\<lparr>bb_len := 0\<rparr>"

text \<open>
  The mutable slices that the methods borrow: \<open>as_writable_slice().writer()\<close> with what a
  write through it leaves in the buffer, and a store through \<open>as_mut_slice()\<close>.
\<close>

definition bb_writable :: "boxbuf \<Rightarrow> slice_writer" where
  "bb_writable self = slice_writer_of (drop (bb_len self) (bb_buffer self))"

definition bb_written_back :: "boxbuf \<Rightarrow> slice_writer \<Rightarrow> boxbuf" where
  "bb_written_back self w =
     self\<lparr>bb_buffer := take (bb_len self) (bb_buffer self) @ sw_done w @ sw_rest w\<rparr>"

definition bb_set :: "boxbuf \<Rightarrow> nat \<Rightarrow> u8 list \<Rightarrow> boxbuf" where
  "bb_set self at bytes = self\<lparr>bb_buffer :=
     take at (bb_buffer self) @ bytes @ drop (at + length bytes) (bb_buffer self)\<rparr>"

definition bb_write :: "u8 list \<Rightarrow> (boxbuf, write_err, nat) op" where
  "bb_write bytes self = (case slice_write bytes (bb_writable self) of
       (Inl e, _) \<Rightarrow> (Inl e, self)
     | (Inr len, w) \<Rightarrow> (Inr len, bb_written_back self w\<lparr>bb_len := bb_len self + len\<rparr>))"

definition bb_write_exact :: "u8 list \<Rightarrow> (boxbuf, write_err, unit) op" where
  "bb_write_exact bytes self = (case slice_write_exact bytes (bb_writable self) of
       (Inl e, _) \<Rightarrow> (Inl e, self)
     | (Inr _, w) \<Rightarrow>
         (Inr (), (if bytes = [] then self else bb_written_back self w)
            \<lparr>bb_len := bb_len self + length bytes\<rparr>))"

definition bb_remaining :: "boxbuf \<Rightarrow> nat" where
  "bb_remaining self = bb_capacity self - bb_len self"

definition bb_with_slot :: "nat \<Rightarrow> slot_fn \<Rightarrow> (boxbuf, write_err, nat) op" where
  "bb_with_slot len write self =
     (if bb_remaining self < len then (Inl DidntWrite, self)
      else case write (take len (drop (bb_len self) (bb_buffer self))) of
          None \<Rightarrow> (Inl WriteOob, self)
        | Some (slot, written) \<Rightarrow>
            let self' = (bb_set self (bb_len self) slot)\<lparr>bb_len := bb_len self + written\<rparr>
            in if written = 0 then (Inl DidntWrite, self') else (Inr written, self'))"

definition bb_mark :: "boxbuf \<Rightarrow> nat" where
  "bb_mark self = bb_len self"

definition bb_rewind :: "nat \<Rightarrow> boxbuf \<Rightarrow> bool \<times> boxbuf" where
  "bb_rewind mark self = (True, self\<lparr>bb_len := mark\<rparr>)"

definition bb_ops :: "boxbuf writer_ops" where
  "bb_ops = \<lparr>w_write = bb_write, w_write_exact = bb_write_exact, w_remaining = bb_remaining,
     w_write_u8 = default_write_u8 bb_write_exact,
     w_write_chunk = default_write_chunk bb_write_exact, w_with_slot = bb_with_slot\<rparr>"

definition bb_wf :: "boxbuf \<Rightarrow> bool" where
  "bb_wf self \<longleftrightarrow> bb_len self \<le> bb_capacity self"

text \<open>The view of a buffer of capacity \<open>cap\<close>: no write changes the capacity.\<close>

definition bb_view :: "nat \<Rightarrow> boxbuf writer_view" where
  "bb_view cap = \<lparr>wv_inv = (\<lambda>b. bb_wf b \<and> bb_capacity b = cap), wv_written = bb_as_slice,
     wv_fits = (\<lambda>b n. bb_len b + n \<le> bb_capacity b)\<rparr>"

lemma length_bb_as_slice [simp]: "bb_wf b \<Longrightarrow> length (bb_as_slice b) = bb_len b"
  by (simp add: bb_wf_def bb_as_slice_def bb_capacity_def)

lemma bb_view_simps [simp]:
  "wv_inv (bb_view cap) b \<longleftrightarrow> bb_wf b \<and> bb_capacity b = cap"
  "wv_written (bb_view cap) b = bb_as_slice b"
  "wv_fits (bb_view cap) b n \<longleftrightarrow> bb_len b + n \<le> bb_capacity b"
  by (simp_all add: bb_view_def)

lemma bb_appends_iff:
  assumes "bb_wf b" "bb_capacity b = cap"
  shows "appends (bb_view cap) b bs b' \<longleftrightarrow>
    bb_capacity b' = cap \<and> bb_len b' = bb_len b + length bs \<and> bb_wf b'
    \<and> bb_as_slice b' = bb_as_slice b @ bs"
proof -
  have "bb_wf b' \<Longrightarrow> bb_as_slice b' = bb_as_slice b @ bs \<Longrightarrow> bb_len b' = bb_len b + length bs"
    using assms by (metis length_append length_bb_as_slice)
  then show ?thesis using assms by (auto simp: appends_def)
qed

lemma bb_write_exact_eq:
  assumes "bb_wf b"
  shows "bb_write_exact bs b =
    (if bb_len b + length bs \<le> bb_capacity b
     then (Inr (), (bb_set b (bb_len b) bs)\<lparr>bb_len := bb_len b + length bs\<rparr>)
     else (Inl DidntWrite, b))"
  using assms
  by (auto simp: bb_write_exact_def bb_writable_def slice_writer_of_def slice_write_exact_def
      slice_write_def Let_def bb_written_back_def bb_set_def bb_capacity_def bb_wf_def add.commute)

lemma bb_set_appends:
  assumes "bb_wf b" "bb_len b + length bs \<le> bb_capacity b"
  shows "appends (bb_view (bb_capacity b)) b bs ((bb_set b (bb_len b) bs)\<lparr>bb_len := bb_len b + length bs\<rparr>)"
  using assms by (auto simp: bb_appends_iff bb_set_def bb_capacity_def bb_wf_def bb_as_slice_def)

lemma emits_bb_write_exact: "emits (bb_view cap) (bb_write_exact bs) bs"
  unfolding emits_def
proof (intro allI impI)
  fix w assume w: "wv_inv (bb_view cap) w"
  show "if wv_fits (bb_view cap) w (length bs)
    then \<exists>x w'. bb_write_exact bs w = (Inr x, w') \<and> appends (bb_view cap) w bs w'
    else \<exists>k w'. bb_write_exact bs w = (Inl DidntWrite, w') \<and> k < length bs
           \<and> appends (bb_view cap) w (take k bs) w'"
  proof (cases "bb_len w + length bs \<le> bb_capacity w")
    case True
    then show ?thesis using w bb_set_appends [of w bs] by (auto simp: bb_write_exact_eq)
  next
    case False
    then have "0 < length bs" using w by (auto simp: bb_wf_def)
    then show ?thesis
      using w False by (auto simp: bb_write_exact_eq bb_appends_iff intro!: exI [of _ 0])
  qed
qed

lemma emits_bb_with_slot:
  assumes bs: "bs \<noteq> []" and f: "fills f (length bs) bs"
  shows "emits (bb_view cap) (bb_with_slot (length bs) f) bs"
  unfolding emits_def
proof (intro allI impI)
  fix w assume w: "wv_inv (bb_view cap) w"
  show "if wv_fits (bb_view cap) w (length bs)
    then \<exists>x w'. bb_with_slot (length bs) f w = (Inr x, w') \<and> appends (bb_view cap) w bs w'
    else \<exists>k w'. bb_with_slot (length bs) f w = (Inl DidntWrite, w') \<and> k < length bs
           \<and> appends (bb_view cap) w (take k bs) w'"
  proof (cases "bb_len w + length bs \<le> bb_capacity w")
    case True
    then have "f (take (length bs) (drop (bb_len w) (bb_buffer w))) = Some (bs, length bs)"
      by (intro fills_exact [OF f]) (simp add: bb_capacity_def)
    then show ?thesis
      using bs w True bb_set_appends [of w bs]
      by (auto simp: bb_with_slot_def bb_remaining_def Let_def)
  next
    case False
    then show ?thesis
      using bs w by (auto simp: bb_with_slot_def bb_remaining_def bb_wf_def bb_appends_iff
          intro!: exI [of _ 0])
  qed
qed

lemma bb_write_eq:
  assumes "bb_wf b"
  shows "bb_write bs b =
    (let k = min (length bs) (bb_capacity b - bb_len b) in
     if k = 0 then (Inl DidntWrite, b)
     else (Inr k, (bb_set b (bb_len b) (take k bs))\<lparr>bb_len := bb_len b + k\<rparr>))"
  using assms
  by (auto simp: bb_write_def bb_writable_def slice_writer_of_def
      slice_write_def Let_def bb_written_back_def bb_set_def bb_capacity_def bb_wf_def add.commute
      min_def split: if_splits)

lemma takes_some_bb_write: "takes_some (bb_view cap) (bb_write bs) bs"
  unfolding takes_some_def
proof (intro allI impI)
  fix w assume w: "wv_inv (bb_view cap) w"
  define k where "k = min (length bs) (bb_capacity w - bb_len w)"
  have "appends (bb_view cap) w (take k bs) ((bb_set w (bb_len w) (take k bs))\<lparr>bb_len := bb_len w + k\<rparr>)"
    using bb_set_appends [of w "take k bs"] w by (auto simp: k_def bb_wf_def min_def split: if_splits)
  then show "(\<exists>j w'. bb_write bs w = (Inr j, w') \<and> 0 < j \<and> j \<le> length bs
        \<and> appends (bb_view cap) w (take j bs) w' \<and> (j < length bs \<longrightarrow> \<not> wv_fits (bb_view cap) w (Suc j)))
     \<or> (bb_write bs w = (Inl DidntWrite, w) \<and> (bs = [] \<or> \<not> wv_fits (bb_view cap) w 1))"
    using w by (cases "k = 0") (auto simp: bb_write_eq Let_def k_def min_def split: if_splits)
qed

interpretation box_w: total_writer bb_ops "bb_view cap"
proof unfold_locales
  fix c assume "chunk_wf c" "chunk_len c = 0"
  then have "chunk_as_slice c = []" by (simp add: chunk_as_slice_nil_iff)
  then show "emits (bb_view cap) (w_write_chunk bb_ops c) []"
    using emits_bb_write_exact [of cap "[]"] by (simp add: bb_ops_def default_write_chunk_def)
qed (simp_all add: bb_ops_def default_write_u8_def default_write_chunk_def
    emits_bb_write_exact emits_bb_with_slot takes_some_bb_write, auto simp: bb_wf_def)

text \<open>Rewinding to an earlier mark drops what was appended since.\<close>

lemma bb_rewind_appends:
  assumes b: "bb_wf b" and a: "appends (bb_view (bb_capacity b)) b bs b'"
  shows "bb_as_slice (snd (bb_rewind (bb_mark b) b')) = bb_as_slice b"
    and "bb_wf (snd (bb_rewind (bb_mark b) b'))"
    and "bb_capacity (snd (bb_rewind (bb_mark b) b')) = bb_capacity b"
    and "bb_len (snd (bb_rewind (bb_mark b) b')) = bb_len b"
proof -
  have a': "bb_capacity b' = bb_capacity b" "bb_len b' = bb_len b + length bs" "bb_wf b'"
      "bb_as_slice b' = bb_as_slice b @ bs"
    using a b by (simp_all add: bb_appends_iff)
  have "take (bb_len b) (bb_as_slice b') = bb_as_slice b"
    using a'(4) b by simp
  then show "bb_as_slice (snd (bb_rewind (bb_mark b) b')) = bb_as_slice b"
    using a'(2) by (simp add: bb_rewind_def bb_mark_def bb_as_slice_def)
  show "bb_wf (snd (bb_rewind (bb_mark b) b'))"
    and "bb_capacity (snd (bb_rewind (bb_mark b) b')) = bb_capacity b"
    and "bb_len (snd (bb_rewind (bb_mark b) b')) = bb_len b"
    using a' b by (auto simp: bb_rewind_def bb_mark_def bb_wf_def bb_capacity_def)
qed

section \<open>Reading a chunk\<close>

text \<open>\<open>&mut Chunk\<close> as a reader moves the start of the chunk.\<close>

definition chunk_read :: "nat \<Rightarrow> (chunk, read_err, u8 list) op" where
  "chunk_read n self = (case slice_read n (chunk_as_slice self) of
       (Inl e, _) \<Rightarrow> (Inl e, self)
     | (Inr into, _) \<Rightarrow> (Inr into, self\<lparr>c_start := c_start self + length into\<rparr>))"

definition chunk_read_exact :: "nat \<Rightarrow> (chunk, read_err, u8 list) op" where
  "chunk_read_exact n self = (case slice_read_exact n (chunk_as_slice self) of
       (Inl e, _) \<Rightarrow> (Inl e, self)
     | (Inr into, _) \<Rightarrow> (Inr into, self\<lparr>c_start := c_start self + n\<rparr>))"

definition chunk_read_u8 :: "(chunk, read_err, u8) op" where
  "chunk_read_u8 self = (case slice_read_u8 (chunk_as_slice self) of
       (Inl e, _) \<Rightarrow> (Inl e, self)
     | (Inr b, _) \<Rightarrow> (Inr b, self\<lparr>c_start := c_start self + 1\<rparr>))"

definition chunk_read_chunk :: "nat \<Rightarrow> (chunk, read_err, chunk) op" where
  "chunk_read_chunk len self = (case chunk_view self (range_upto len) of
       None \<Rightarrow> (Inl DidntRead, self)
     | Some res \<Rightarrow> (Inr res, self\<lparr>c_start := c_start self + len\<rparr>))"

definition chunk_read_chunks :: "nat \<Rightarrow> (chunk, read_err, chunk list) op" where
  "chunk_read_chunks len = andthen (chunk_read_chunk len) (\<lambda>c. ok [c])"

definition chunk_reader_ops :: "chunk reader_ops" where
  "chunk_reader_ops = \<lparr>r_read = chunk_read, r_read_exact = chunk_read_exact, r_remaining = chunk_len,
     r_read_chunks = chunk_read_chunks, r_read_chunk = chunk_read_chunk,
     r_read_chunk_contiguous = chunk_read_chunk, r_read_u8 = chunk_read_u8\<rparr>"

definition chunk_reader_view :: "chunk reader_view" where
  "chunk_reader_view = \<lparr>rv_inv = chunk_wf, rv_pending = chunk_as_slice\<rparr>"

lemma chunk_advance:
  assumes "chunk_wf c" "n \<le> chunk_len c"
  shows "chunk_wf (c\<lparr>c_start := c_start c + n\<rparr>)"
    and "chunk_as_slice (c\<lparr>c_start := c_start c + n\<rparr>) = drop n (chunk_as_slice c)"
  using assms by (auto simp: chunk_wf_def chunk_len_def chunk_as_slice_def drop_take add.commute)

lemma chunk_read_exact_eq:
  assumes "chunk_wf c"
  shows "chunk_read_exact n c =
    (if n \<le> chunk_len c then (Inr (take n (chunk_as_slice c)), c\<lparr>c_start := c_start c + n\<rparr>)
     else (Inl DidntRead, c))"
  using assms by (simp add: chunk_read_exact_def slice_read_exact_def)

lemma chunk_read_chunk_eq:
  assumes "chunk_wf c"
  shows "n \<le> chunk_len c \<Longrightarrow> \<exists>d. chunk_read_chunk n c = (Inr d, c\<lparr>c_start := c_start c + n\<rparr>)
           \<and> chunk_wf d \<and> chunk_as_slice d = take n (chunk_as_slice c)"
    and "chunk_len c < n \<Longrightarrow> chunk_read_chunk n c = (Inl DidntRead, c)"
proof -
  assume n: "n \<le> chunk_len c"
  obtain d where d: "chunk_view c (range_upto n) = Some d"
    using n chunk_view_Some_iff [of c "range_upto n"] by auto
  then show "\<exists>d. chunk_read_chunk n c = (Inr d, c\<lparr>c_start := c_start c + n\<rparr>)
           \<and> chunk_wf d \<and> chunk_as_slice d = take n (chunk_as_slice c)"
    using chunk_view_wf [OF assms d] chunk_view_slice [OF assms d] by (simp add: chunk_read_chunk_def)
next
  assume "chunk_len c < n"
  then show "chunk_read_chunk n c = (Inl DidntRead, c)"
    by (simp add: chunk_read_chunk_def chunk_view_def)
qed

lemma chunk_pending_len:
  "chunk_wf c \<Longrightarrow> chunk_as_slice c = bs @ rest \<Longrightarrow> chunk_len c = length bs + length rest"
  by (metis length_append length_chunk_as_slice)

lemma chunk_starved_len: "chunk_wf c \<Longrightarrow> strict_prefix (chunk_as_slice c) bs \<Longrightarrow> chunk_len c < length bs"
  by (metis length_chunk_as_slice prefix_length_less)

lemma parses_chunk_read_chunk:
  "parses chunk_reader_view (chunk_read_chunk (length bs)) (\<lambda>d. chunk_wf d \<and> chunk_as_slice d = bs) bs"
  unfolding parses_def
proof (intro allI impI)
  fix r rest assume "rv_inv chunk_reader_view r" "rv_pending chunk_reader_view r = bs @ rest"
  then have r: "chunk_wf r" "chunk_as_slice r = bs @ rest" by (simp_all add: chunk_reader_view_def)
  then have n: "length bs \<le> chunk_len r" by (simp add: chunk_pending_len)
  show "\<exists>x r'. chunk_read_chunk (length bs) r = (Inr x, r') \<and> (chunk_wf x \<and> chunk_as_slice x = bs)
      \<and> rv_inv chunk_reader_view r' \<and> rv_pending chunk_reader_view r' = rest"
    using chunk_read_chunk_eq(1) [OF r(1) n] chunk_advance [OF r(1) n] r(2)
    by (auto simp: chunk_reader_view_def)
qed

lemma starves_chunk_read_chunk: "starves chunk_reader_view (chunk_read_chunk (length bs)) bs"
  by (auto simp: starves_def chunk_reader_view_def chunk_read_chunk_eq(2) chunk_starved_len)

lemma parses_chunk_read_exact: "parses chunk_reader_view (chunk_read_exact (length bs)) ((=) bs) bs"
  by (auto simp: parses_def chunk_reader_view_def chunk_read_exact_eq chunk_pending_len chunk_advance)

lemma starves_chunk_read_exact: "starves chunk_reader_view (chunk_read_exact (length bs)) bs"
  by (auto simp: starves_def chunk_reader_view_def chunk_read_exact_eq dest: chunk_starved_len)

lemma parses_chunk_read_u8: "parses chunk_reader_view chunk_read_u8 ((=) b) [b]"
  by (auto simp: parses_def chunk_reader_view_def chunk_read_u8_def slice_u8_simps
      chunk_advance [of _ 1, simplified] chunk_pending_len [of _ "[b]"])

lemma starves_chunk_read_u8: "starves chunk_reader_view chunk_read_u8 [b]"
  by (auto simp: starves_def chunk_reader_view_def chunk_read_u8_def slice_u8_simps strict_prefix_def
      prefix_Cons)

interpretation chunk_r: reader chunk_reader_ops chunk_reader_view
proof unfold_locales
  fix r :: chunk and n :: nat
  assume r: "rv_inv chunk_reader_view r"
  then have wf: "chunk_wf r" by (simp add: chunk_reader_view_def)
  show "(\<exists>c r'. r_read_chunk_contiguous chunk_reader_ops n r = (Inr c, r') \<and> chunk_wf c
         \<and> rv_inv chunk_reader_view r' \<and> n \<le> length (rv_pending chunk_reader_view r)
         \<and> chunk_as_slice c = take n (rv_pending chunk_reader_view r)
         \<and> rv_pending chunk_reader_view r' = drop n (rv_pending chunk_reader_view r))
      \<or> r_read_chunk_contiguous chunk_reader_ops n r = (Inl DidntRead, r)"
    using chunk_read_chunk_eq [OF wf, of n] chunk_advance [OF wf, of n] wf
    by (cases "n \<le> chunk_len r") (auto simp: chunk_reader_ops_def chunk_reader_view_def)
next
  fix bs :: "u8 list" assume "bs \<noteq> []"
  have "parses chunk_reader_view (chunk_read_chunks (length bs)) (chunks_hold bs) (bs @ [])"
    unfolding chunk_read_chunks_def
    by (rule parses_andthen [OF parses_chunk_read_chunk]) (simp add: parses_ok chunks_hold_def)
  then show "parses chunk_reader_view (r_read_chunks chunk_reader_ops (length bs)) (chunks_hold bs) bs"
    by (simp add: chunk_reader_ops_def)
  have "starves chunk_reader_view (chunk_read_chunks (length bs)) (bs @ [])"
    unfolding chunk_read_chunks_def
    by (rule starves_andthen [OF parses_chunk_read_chunk starves_chunk_read_chunk]) simp
  then show "starves chunk_reader_view (r_read_chunks chunk_reader_ops (length bs)) bs"
    by (simp add: chunk_reader_ops_def)
qed (simp_all add: chunk_reader_ops_def parses_chunk_read_exact starves_chunk_read_exact
    parses_chunk_read_chunk starves_chunk_read_chunk parses_chunk_read_u8 starves_chunk_read_u8,
    simp add: chunk_reader_view_def)

section \<open>\<open>ChunkWriter\<close>\<close>

text \<open>
  The \<open>Vec\<close> behind the \<open>Arc\<close> is shared with the snapshots and only ever appended to, so
  a snapshot is kept as the value the \<open>Vec\<close> has when it is taken: what it shows is not
  changed by later writes (\<open>snapshot_stable\<close>).
\<close>

record chunk_writer =
  cw_inner :: "u8 list"
  cw_start :: nat

definition cw_new :: chunk_writer where
  "cw_new = \<lparr>cw_inner = [], cw_start = 0\<rparr>"

definition cw_snapshot :: "chunk_writer \<Rightarrow> chunk \<times> chunk_writer" where
  "cw_snapshot self =
     (\<lparr>c_buf = DynVec (cw_inner self), c_start = cw_start self, c_end = length (cw_inner self)\<rparr>,
      self\<lparr>cw_start := length (cw_inner self)\<rparr>)"

definition cw_lift :: "(u8 list, write_err, 'a) op \<Rightarrow> (chunk_writer, write_err, 'a) op" where
  "cw_lift m self = (case m (cw_inner self) of (res, v) \<Rightarrow> (res, self\<lparr>cw_inner := v\<rparr>))"

definition cw_write :: "u8 list \<Rightarrow> (chunk_writer, write_err, nat) op" where
  "cw_write bytes = cw_lift (vec_write bytes)"

definition cw_write_exact :: "u8 list \<Rightarrow> (chunk_writer, write_err, unit) op" where
  "cw_write_exact bytes = andthen (cw_write bytes) (\<lambda>_. ok ())"

definition cw_remaining :: "chunk_writer \<Rightarrow> nat" where
  "cw_remaining self = 2 ^ 64 - 1"

definition cw_with_slot :: "nat \<Rightarrow> slot_fn \<Rightarrow> (chunk_writer, write_err, nat) op" where
  "cw_with_slot len write = cw_lift (vec_with_slot len write)"

definition cw_ops :: "chunk_writer writer_ops" where
  "cw_ops = \<lparr>w_write = cw_write, w_write_exact = cw_write_exact, w_remaining = cw_remaining,
     w_write_u8 = default_write_u8 cw_write_exact,
     w_write_chunk = default_write_chunk cw_write_exact, w_with_slot = cw_with_slot\<rparr>"

definition cw_wf :: "chunk_writer \<Rightarrow> bool" where
  "cw_wf self \<longleftrightarrow> cw_start self \<le> length (cw_inner self)"

text \<open>What has been written is what the next snapshot shows.\<close>

definition cw_view :: "chunk_writer writer_view" where
  "cw_view = \<lparr>wv_inv = cw_wf, wv_written = (\<lambda>w. chunk_as_slice (fst (cw_snapshot w))),
     wv_fits = (\<lambda>_ _. True)\<rparr>"

lemma cw_wf_new [simp]: "cw_wf cw_new"
  by (simp add: cw_new_def cw_wf_def)

lemma cw_snapshot_wf: "cw_wf w \<Longrightarrow> cw_snapshot w = (c, w') \<Longrightarrow> chunk_wf c \<and> cw_wf w'"
  by (auto simp: cw_snapshot_def cw_wf_def chunk_wf_def)

lemma cw_written: "chunk_as_slice (fst (cw_snapshot w)) = drop (cw_start w) (cw_inner w)"
  by (simp add: cw_snapshot_def chunk_as_slice_def)

lemma cw_snapshot_starts_over:
  "cw_snapshot w = (c, w') \<Longrightarrow> chunk_as_slice (fst (cw_snapshot w')) = []"
  by (auto simp: cw_snapshot_def chunk_as_slice_def)

lemma snapshot_stable:
  assumes "chunk_wf \<lparr>c_buf = DynVec v, c_start = s, c_end = e\<rparr>"
  shows "chunk_as_slice \<lparr>c_buf = DynVec (v @ later), c_start = s, c_end = e\<rparr>
       = chunk_as_slice \<lparr>c_buf = DynVec v, c_start = s, c_end = e\<rparr>"
  using assms by (simp add: chunk_as_slice_def chunk_wf_def)

lemma emits_cw_lift:
  assumes "emits vec_writer_view m bs"
  shows "emits cw_view (cw_lift m) bs"
  unfolding emits_def
proof (intro allI impI)
  fix w assume "wv_inv cw_view w"
  then have "cw_wf w" by (simp add: cw_view_def)
  moreover obtain x v where "m (cw_inner w) = (Inr x, v)" "appends vec_writer_view (cw_inner w) bs v"
    using emits_fitsD [OF assms, of "cw_inner w"] by (auto simp: vec_writer_view_def)
  ultimately show "if wv_fits cw_view w (length bs)
    then \<exists>x w'. cw_lift m w = (Inr x, w') \<and> appends cw_view w bs w'
    else \<exists>k w'. cw_lift m w = (Inl DidntWrite, w') \<and> k < length bs \<and> appends cw_view w (take k bs) w'"
    by (auto simp: cw_view_def cw_lift_def appends_def cw_wf_def cw_written vec_writer_view_def)
qed

lemma cw_write_exact_lift: "cw_write_exact bs = cw_lift (vec_write_exact bs)"
  by (rule ext) (auto simp: cw_write_exact_def cw_write_def cw_lift_def vec_write_exact_def vec_write_def
      andthen_def)

lemma emits_cw_write_exact: "bs \<noteq> [] \<Longrightarrow> emits cw_view (cw_write_exact bs) bs"
  unfolding cw_write_exact_lift by (intro emits_cw_lift emits_vec_exact)

lemma takes_some_cw_write: "takes_some cw_view (cw_write bs) bs"
  using emits_cw_write_exact [of bs]
  by (cases "bs = []") (auto simp: takes_some_def emits_def cw_view_def cw_write_def cw_write_exact_def
      cw_lift_def vec_write_def andthen_def)

interpretation cw_w: writer cw_ops cw_view
proof unfold_locales
  fix c assume "chunk_wf c" "chunk_len c \<noteq> 0"
  then show "emits cw_view (w_write_chunk cw_ops c) (chunk_as_slice c)"
    by (simp add: cw_ops_def default_write_chunk_def chunk_as_slice_nil_iff emits_cw_write_exact)
qed (simp_all add: cw_ops_def cw_with_slot_def emits_cw_lift emits_vec_with_slot emits_cw_write_exact takes_some_cw_write
    default_write_u8_def, simp_all add: cw_view_def)

end
