(* ===== verification/Bytes_Buf.thy ===== *)
theory Bytes_Buf
  imports Plain_Buffers
begin

text \<open>
  \<open>src/buffers/bytes.rs\<close>: the collection of chunks \<open>Bytes\<close>, its reader with a cursor that
  can be moved both ways, its writer, and the equality that compares the contents of two
  differently cut collections.  A position of the reader is refined to an offset into the
  contents (\<open>at_offset\<close>); \<open>bytes_dense\<close> says that no chunk is empty, which \<open>push\<close> keeps
  and which \<open>read_u8\<close>, \<open>siphon\<close> and the equality need.
\<close>

section \<open>The collection\<close>

record bytes =
  b_chunks :: "chunk single_or_vec"

definition bytes_new :: bytes where
  "bytes_new = \<lparr>b_chunks = sov_new\<rparr>"

definition bytes_single :: "chunk \<Rightarrow> bytes" where
  "bytes_single c = \<lparr>b_chunks = sov_single c\<rparr>"

definition bytes_from :: "dyn_buf \<Rightarrow> bytes" where
  "bytes_from buf = bytes_single (chunk_from buf)"

abbreviation chunks_of :: "bytes \<Rightarrow> chunk list" where
  "chunks_of b \<equiv> sov_as_slice (b_chunks b)"

definition bytes_len :: "bytes \<Rightarrow> nat" where
  "bytes_len b = fold (\<lambda>c len. len + chunk_len c) (chunks_of b) 0"

definition bytes_is_empty :: "bytes \<Rightarrow> bool" where
  "bytes_is_empty b \<longleftrightarrow> sov_is_empty (b_chunks b)"

definition bytes_clear :: "bytes \<Rightarrow> bytes" where
  "bytes_clear b = b\<lparr>b_chunks := sov_clear (b_chunks b)\<rparr>"

definition bytes_push :: "bytes \<Rightarrow> chunk \<Rightarrow> bytes" where
  "bytes_push b c = (if chunk_is_empty c then b else b\<lparr>b_chunks := sov_push (b_chunks b) c\<rparr>)"

definition bytes_extend :: "bytes \<Rightarrow> chunk list \<Rightarrow> bytes" where
  "bytes_extend b cs = fold (\<lambda>c b. bytes_push b c) cs b"

definition bytes_slices :: "bytes \<Rightarrow> u8 list list" where
  "bytes_slices b = map chunk_as_slice (chunks_of b)"

definition bytes_to_vec :: "bytes \<Rightarrow> u8 list" where
  "bytes_to_vec b = fold (\<lambda>s acc. acc @ s) (bytes_slices b) []"

definition bytes_to_chunk :: "bytes \<Rightarrow> chunk" where
  "bytes_to_chunk b = (case chunks_of b of
       [] \<Rightarrow> chunk_from (DynArray [])
     | [c] \<Rightarrow> c
     | _ \<Rightarrow> chunk_from (DynVec (bytes_to_vec b)))"

subsection \<open>Equality\<close>

text \<open>The loop of \<open>eq\<close> over the current slice and the rest of the slices of both sides.\<close>

fun next_slice :: "u8 list list \<Rightarrow> u8 list option \<times> u8 list list" where
  "next_slice [] = (None, [])"
| "next_slice (s # ss) = (Some s, ss)"

fun slices_left :: "u8 list option \<Rightarrow> u8 list list \<Rightarrow> nat" where
  "slices_left None ss = length ss"
| "slices_left (Some _) ss = Suc (length ss)"

lemma slices_left_eq: "(c, ss') = next_slice ss \<Longrightarrow> slices_left c ss' = length ss"
  by (cases ss) auto

function bytes_eq_loop :: "u8 list option \<Rightarrow> u8 list list \<Rightarrow> u8 list option \<Rightarrow> u8 list list \<Rightarrow> bool" where
  "bytes_eq_loop current_self self_slices current_other other_slices =
     (case (current_self, current_other) of
        (None, None) \<Rightarrow> True
      | (None, Some _) \<Rightarrow> False
      | (Some _, None) \<Rightarrow> False
      | (Some l, Some r) \<Rightarrow>
          let cmp_len = min (length l) (length r) in
          if take cmp_len l \<noteq> take cmp_len r then False
          else let (cs, ss) = (if cmp_len = length l then next_slice self_slices
                               else (Some (drop cmp_len l), self_slices));
                   (co, os) = (if cmp_len = length r then next_slice other_slices
                               else (Some (drop cmp_len r), other_slices))
               in bytes_eq_loop cs ss co os)"
  by pat_completeness auto
termination
  by (relation "measure (\<lambda>(cs, ss, co, os). slices_left cs ss + slices_left co os)")
    (auto simp: min_def slices_left_eq slices_left_eq [OF sym] split: if_splits prod.splits)

declare bytes_eq_loop.simps [simp del]

definition bytes_eq :: "bytes \<Rightarrow> bytes \<Rightarrow> bool" where
  "bytes_eq self other =
     (let (cs, ss) = next_slice (bytes_slices self); (co, os) = next_slice (bytes_slices other)
      in bytes_eq_loop cs ss co os)"

section \<open>The reader\<close>

record bytes_pos =
  bp_slice :: nat
  bp_byte :: nat

definition bytes_pos_zero :: bytes_pos where
  "bytes_pos_zero = \<lparr>bp_slice = 0, bp_byte = 0\<rparr>"

record bytes_reader =
  br_inner :: bytes
  br_cursor :: bytes_pos

definition bytes_reader :: "bytes \<Rightarrow> bytes_reader" where
  "bytes_reader b = \<lparr>br_inner = b, br_cursor = \<lparr>bp_slice = 0, bp_byte = 0\<rparr>\<rparr>"

definition br_mark :: "bytes_reader \<Rightarrow> bytes_pos" where
  "br_mark self = br_cursor self"

definition br_seek :: "bytes_pos \<Rightarrow> bytes_reader \<Rightarrow> bool \<times> bytes_reader" where
  "br_seek mark self = (case sov_get (b_chunks (br_inner self)) (bp_slice mark) of
       Some c \<Rightarrow> if bp_byte mark \<le> chunk_len c then (True, self\<lparr>br_cursor := mark\<rparr>) else (False, self)
     | None \<Rightarrow> (False, self))"

text \<open>
  ``Move the byte cursor; when the current slice is consumed, move to the next one'': the
  step that \<open>read\<close>, \<open>read_u8\<close>, \<open>siphon\<close> and \<open>skip\<close> share.
\<close>

definition pos_moved :: "chunk \<Rightarrow> bytes_pos \<Rightarrow> nat \<Rightarrow> bytes_pos" where
  "pos_moved c pos len =
     (if bp_byte pos + len = chunk_len c then \<lparr>bp_slice = bp_slice pos + 1, bp_byte = 0\<rparr>
      else pos\<lparr>bp_byte := bp_byte pos + len\<rparr>)"

text \<open>The loop of \<open>read\<close>: \<open>n\<close> bytes of \<open>into\<close> are left, \<open>acc\<close> has been read.\<close>

function br_read_loop ::
    "chunk list \<Rightarrow> nat \<Rightarrow> bytes_pos \<Rightarrow> u8 list \<Rightarrow> (read_err + u8 list) \<times> bytes_pos" where
  "br_read_loop cs n pos acc = (case slice_get cs (bp_slice pos) of
       None \<Rightarrow> (Inr acc, pos)
     | Some c \<Rightarrow>
         if chunk_len c < bp_byte pos then (Inl ReadOob, pos)
         else let from_len = chunk_len c - bp_byte pos;
                  len = min from_len n;
                  acc' = acc @ take len (drop (bp_byte pos) (chunk_as_slice c));
                  pos' = pos_moved c pos len
              in if n - len = 0 then (Inr acc', pos') else br_read_loop cs (n - len) pos' acc')"
  by pat_completeness auto
termination
  by (relation "measure (\<lambda>(cs, n, pos, acc). length cs - bp_slice pos)")
    (auto simp: slice_get_Some_iff pos_moved_def min_def split: if_splits)

declare br_read_loop.simps [simp del]

definition br_read :: "nat \<Rightarrow> (bytes_reader, read_err, u8 list) op" where
  "br_read n self = (case br_read_loop (chunks_of (br_inner self)) n (br_cursor self) [] of
       (Inl e, pos) \<Rightarrow> (Inl e, self\<lparr>br_cursor := pos\<rparr>)
     | (Inr read, pos) \<Rightarrow>
         (if read = [] then Inl DidntRead else Inr read, self\<lparr>br_cursor := pos\<rparr>))"

definition br_read_exact :: "nat \<Rightarrow> (bytes_reader, read_err, u8 list) op" where
  "br_read_exact n = andthen (br_read n)
     (\<lambda>read. if length read = n then ok read else err DidntRead)"

definition br_read_u8 :: "(bytes_reader, read_err, u8) op" where
  "br_read_u8 self = (case sov_get (b_chunks (br_inner self)) (bp_slice (br_cursor self)) of
       None \<Rightarrow> (Inl DidntRead, self)
     | Some c \<Rightarrow> (case slice_get (chunk_as_slice c) (bp_byte (br_cursor self)) of
           None \<Rightarrow> (Inl DidntRead, self)
         | Some byte \<Rightarrow> (Inr byte, self\<lparr>br_cursor := pos_moved c (br_cursor self) 1\<rparr>)))"

definition br_remaining :: "bytes_reader \<Rightarrow> nat" where
  "br_remaining self =
     fold (\<lambda>it acc. acc + chunk_len it) (drop (bp_slice (br_cursor self)) (chunks_of (br_inner self))) 0
     - bp_byte (br_cursor self)"

text \<open>\<open>BytesSliceIterator::next\<close> on the cursor and \<open>remaining\<close>.\<close>

definition bsi_next :: "chunk list \<Rightarrow> bytes_pos \<times> nat \<Rightarrow> (read_err + chunk option) \<times> (bytes_pos \<times> nat)" where
  "bsi_next cs st = (case st of (pos, remaining) \<Rightarrow>
     if remaining = 0 then (Inr None, st)
     else case slice_get cs (bp_slice pos) of
         None \<Rightarrow> (Inl ReadOob, st)
       | Some c \<Rightarrow>
           if chunk_len c < bp_byte pos then (Inl ReadOob, st)
           else let start = bp_byte pos; len = chunk_len c - start in
             if remaining < len then
               (Inr (chunk_view c (range_between start (start + remaining))),
                pos\<lparr>bp_byte := start + remaining\<rparr>, 0)
             else if remaining = len then
               (Inr (chunk_view c (range_between start (start + remaining))),
                \<lparr>bp_slice = bp_slice pos + 1, bp_byte = 0\<rparr>, 0)
             else
               (Inr (chunk_view c (range_between start (start + len))),
                \<lparr>bp_slice = bp_slice pos + 1, bp_byte = 0\<rparr>, remaining - len))"

function bsi_loop :: "chunk list \<Rightarrow> bytes_pos \<times> nat \<Rightarrow> chunk list \<Rightarrow> (read_err + chunk list) \<times> bytes_pos" where
  "bsi_loop cs st acc = (case bsi_next cs st of
       (Inl e, st') \<Rightarrow> (Inl e, fst st')
     | (Inr None, st') \<Rightarrow> (Inr acc, fst st')
     | (Inr (Some c), st') \<Rightarrow> bsi_loop cs st' (acc @ [c]))"
  by pat_completeness auto
termination
  by (relation "measure (\<lambda>(cs, (pos, remaining), acc).
        length cs - bp_slice pos + (if remaining = 0 then 0 else 1))")
    (auto simp: bsi_next_def slice_get_Some_iff Let_def split: if_splits prod.splits option.splits)

declare bsi_loop.simps [simp del]

definition br_read_chunks :: "nat \<Rightarrow> (bytes_reader, read_err, chunk list) op" where
  "br_read_chunks len self =
     (if br_remaining self < len then (Inl DidntRead, self)
      else case bsi_loop (chunks_of (br_inner self)) (br_cursor self, len) [] of
          (res, pos) \<Rightarrow> (res, self\<lparr>br_cursor := pos\<rparr>))"

definition br_read_chunk :: "nat \<Rightarrow> (bytes_reader, read_err, chunk) op" where
  "br_read_chunk len self = (case sov_get (b_chunks (br_inner self)) (bp_slice (br_cursor self)) of
       None \<Rightarrow> (Inl DidntRead, self)
     | Some c \<Rightarrow>
         let start = bp_byte (br_cursor self) in
         if chunk_len c - start < len then
           andthen (br_read_exact len) (\<lambda>buffer. ok (chunk_from (DynBoxedSlice buffer))) self
         else if chunk_len c - start = len then
           (case chunk_view c (range_from start) of
              None \<Rightarrow> (Inl DidntRead, self)
            | Some s \<Rightarrow> (Inr s,
                self\<lparr>br_cursor := \<lparr>bp_slice = bp_slice (br_cursor self) + 1, bp_byte = 0\<rparr>\<rparr>))
         else
           let self' = self\<lparr>br_cursor := (br_cursor self)\<lparr>bp_byte := start + len\<rparr>\<rparr> in
           (case chunk_view c (range_between start (start + len)) of
              None \<Rightarrow> (Inl DidntRead, self')
            | Some s \<Rightarrow> (Inr s, self')))"

definition br_read_chunk_contiguous :: "nat \<Rightarrow> (bytes_reader, read_err, chunk) op" where
  "br_read_chunk_contiguous len self =
     (case sov_get (b_chunks (br_inner self)) (bp_slice (br_cursor self)) of
       None \<Rightarrow> (Inl DidntRead, self)
     | Some c \<Rightarrow>
         let start = bp_byte (br_cursor self) in
         if chunk_len c - start < len then (Inl DidntRead, self)
         else if chunk_len c - start = len then
           (case chunk_view c (range_from start) of
              None \<Rightarrow> (Inl DidntRead, self)
            | Some s \<Rightarrow> (Inr s,
                self\<lparr>br_cursor := \<lparr>bp_slice = bp_slice (br_cursor self) + 1, bp_byte = 0\<rparr>\<rparr>))
         else
           (case chunk_view c (range_between start (start + len)) of
              None \<Rightarrow> (Inl DidntRead, self)
            | Some s \<Rightarrow> (Inr s, self\<lparr>br_cursor := (br_cursor self)\<lparr>bp_byte := start + len\<rparr>\<rparr>)))"

definition br_ops :: "bytes_reader reader_ops" where
  "br_ops = \<lparr>r_read = br_read, r_read_exact = br_read_exact, r_remaining = br_remaining,
     r_read_chunks = br_read_chunks, r_read_chunk = br_read_chunk,
     r_read_chunk_contiguous = br_read_chunk_contiguous, r_read_u8 = br_read_u8\<rparr>"

subsection \<open>Siphoning into a writer\<close>

text \<open>
  The loop of \<open>siphon\<close>.  \<open>DidntRead\<close> stands for \<open>DidntSiphon\<close>; a writer that returned a
  \<open>NonZeroUsize\<close> of 0 would be undefined behaviour.
\<close>

function br_siphon_loop ::
    "'w writer_ops \<Rightarrow> chunk list \<Rightarrow> bytes_pos \<Rightarrow> 'w \<Rightarrow> nat \<Rightarrow> (read_err + nat) \<times> bytes_pos \<times> 'w" where
  "br_siphon_loop W cs pos out read = (case slice_get cs (bp_slice pos) of
       None \<Rightarrow> (if read = 0 then Inl DidntRead else Inr read, pos, out)
     | Some c \<Rightarrow>
         if chunk_len c < bp_byte pos then (Inl ReadOob, pos, out)
         else case w_write W (drop (bp_byte pos) (chunk_as_slice c)) out of
             (Inr len, out') \<Rightarrow>
               if len = 0 then (Inl ReadOob, pos, out')
               else br_siphon_loop W cs (pos_moved c pos len) out' (read + len)
           | (Inl DidntWrite, out') \<Rightarrow> (if read = 0 then Inl DidntRead else Inr read, pos, out')
           | (Inl WriteOob, out') \<Rightarrow> (Inl ReadOob, pos, out'))"
  by pat_completeness auto
termination
  by (relation "measures [\<lambda>(W, cs, pos, out, read). length cs - bp_slice pos,
       \<lambda>(W, cs, pos, out, read). Suc (chunk_len (cs ! bp_slice pos)) - bp_byte pos]")
    (auto simp: slice_get_Some_iff pos_moved_def split: if_splits)

declare br_siphon_loop.simps [simp del]

definition br_siphon :: "'w writer_ops \<Rightarrow> bytes_reader \<Rightarrow> 'w \<Rightarrow> (read_err + nat) \<times> bytes_reader \<times> 'w" where
  "br_siphon W self out = (case br_siphon_loop W (chunks_of (br_inner self)) (br_cursor self) out 0 of
       (res, pos, out') \<Rightarrow> (res, self\<lparr>br_cursor := pos\<rparr>, out'))"

subsection \<open>Moving the cursor\<close>

function br_skip_loop :: "chunk list \<Rightarrow> nat \<Rightarrow> bytes_pos \<Rightarrow> (read_err + unit) \<times> bytes_pos" where
  "br_skip_loop cs remaining_offset pos =
     (if remaining_offset = 0 then (Inr (), pos)
      else case slice_get cs (bp_slice pos) of
          None \<Rightarrow> (Inl DidntRead, pos)
        | Some s \<Rightarrow>
            let remains_in_current_slice = chunk_len s - bp_byte pos;
                advance = min remaining_offset remains_in_current_slice
            in if chunk_len s < bp_byte pos then (Inl ReadOob, pos)
               else br_skip_loop cs (remaining_offset - advance) (pos_moved s pos advance))"
  by pat_completeness auto
termination
  by (relation "measure (\<lambda>(cs, n, pos). length cs - bp_slice pos + n)")
    (auto simp: slice_get_Some_iff pos_moved_def min_def split: if_splits)

declare br_skip_loop.simps [simp del]

definition br_skip :: "nat \<Rightarrow> (bytes_reader, read_err, unit) op" where
  "br_skip offset self = (case br_skip_loop (chunks_of (br_inner self)) offset (br_cursor self) of
       (res, pos) \<Rightarrow> (res, self\<lparr>br_cursor := pos\<rparr>))"

function br_backtrack_loop :: "chunk list \<Rightarrow> nat \<Rightarrow> bytes_pos \<Rightarrow> (read_err + unit) \<times> bytes_pos" where
  "br_backtrack_loop cs remaining_offset pos =
     (if remaining_offset = 0 then (Inr (), pos)
      else let backtrack = min remaining_offset (bp_byte pos);
               remaining_offset' = remaining_offset - backtrack;
               byte = bp_byte pos - backtrack
           in if byte = 0 then
                if bp_slice pos = 0 then
                  (if remaining_offset' = 0 then Inr () else Inl DidntRead, pos\<lparr>bp_byte := 0\<rparr>)
                else (case slice_get cs (bp_slice pos - 1) of
                    None \<Rightarrow> (Inl DidntRead, \<lparr>bp_slice = bp_slice pos - 1, bp_byte = 0\<rparr>)
                  | Some c \<Rightarrow> br_backtrack_loop cs remaining_offset'
                      \<lparr>bp_slice = bp_slice pos - 1, bp_byte = chunk_len c\<rparr>)
              else br_backtrack_loop cs remaining_offset' (pos\<lparr>bp_byte := byte\<rparr>))"
  by pat_completeness auto
termination
  by (relation "measures [\<lambda>(cs, n, pos). bp_slice pos, \<lambda>(cs, n, pos). n]")
    (auto simp: min_def split: if_splits)

declare br_backtrack_loop.simps [simp del]

definition br_backtrack :: "nat \<Rightarrow> (bytes_reader, read_err, unit) op" where
  "br_backtrack offset self = (case br_backtrack_loop (chunks_of (br_inner self)) offset (br_cursor self) of
       (res, pos) \<Rightarrow> (res, self\<lparr>br_cursor := pos\<rparr>))"

definition br_advance :: "int \<Rightarrow> (bytes_reader, read_err, unit) op" where
  "br_advance = default_advance br_skip br_backtrack"

datatype seek_from = SeekStart nat | SeekCurrent int | SeekEnd int

text \<open>
  \<open>io::Seek::seek\<close>.  The position has to fit in an \<open>i64\<close>; the sums and differences
  after it are those of integers (the code overflows beyond \<open>i64\<close>).
\<close>

definition br_io_seek :: "seek_from \<Rightarrow> bytes_reader \<Rightarrow> int option \<times> bytes_reader" where
  "br_io_seek pos self =
     (let current_pos = fold (\<lambda>s acc. acc + length s)
            (take (bp_slice (br_cursor self)) (bytes_slices (br_inner self))) 0
            + bp_byte (br_cursor self)
      in if 2 ^ 63 \<le> current_pos then (None, self)
         else let current_pos = int current_pos;
                  offset = (case pos of
                      SeekStart s \<Rightarrow> (if s < 2 ^ 63 then int s else 2 ^ 63 - 1) - current_pos
                    | SeekCurrent s \<Rightarrow> s
                    | SeekEnd s \<Rightarrow> int (bytes_len (br_inner self)) + s - current_pos)
              in case br_advance offset self of
                  (Inr _, self') \<Rightarrow> (Some (offset + current_pos), self')
                | (Inl _, self') \<Rightarrow> (None, self'))"

definition bytes_view :: "bytes \<Rightarrow> range \<Rightarrow> bytes option" where
  "bytes_view self r =
     (let start_delta = range_start r; end_delta = range_end r (bytes_len self)
      in case br_skip start_delta (bytes_reader self) of
          (Inl _, _) \<Rightarrow> None
        | (Inr _, rd) \<Rightarrow> (case br_read_chunks (usize_sub end_delta start_delta) rd of
              (Inl _, _) \<Rightarrow> None
            | (Inr cs, _) \<Rightarrow> Some \<lparr>b_chunks = fold (\<lambda>c b. sov_push b c) cs sov_new\<rparr>))"

section \<open>The writer\<close>

record bytes_writer =
  bw_inner :: bytes
  bw_writer :: chunk_writer

definition bytes_writer :: "bytes \<Rightarrow> bytes_writer" where
  "bytes_writer b = \<lparr>bw_inner = b, bw_writer = cw_new\<rparr>"

text \<open>``Take a snapshot and push it unless it is empty'', in \<open>write_chunk\<close> and \<open>drop\<close>.\<close>

definition bw_flushed :: "bytes_writer \<Rightarrow> bytes_writer" where
  "bw_flushed self = (case cw_snapshot (bw_writer self) of (written, cw) \<Rightarrow>
     \<lparr>bw_inner = (if chunk_is_empty written then bw_inner self else bytes_push (bw_inner self) written),
      bw_writer = cw\<rparr>)"

definition bw_drop :: "bytes_writer \<Rightarrow> bytes" where
  "bw_drop self = bw_inner (bw_flushed self)"

definition bw_lift :: "(chunk_writer, write_err, 'a) op \<Rightarrow> (bytes_writer, write_err, 'a) op" where
  "bw_lift m self = (case m (bw_writer self) of (res, cw) \<Rightarrow> (res, self\<lparr>bw_writer := cw\<rparr>))"

definition bw_write_chunk :: "chunk \<Rightarrow> (bytes_writer, write_err, unit) op" where
  "bw_write_chunk c self =
     (let self' = bw_flushed self in
      (Inr (), if chunk_is_empty c then self' else self'\<lparr>bw_inner := bytes_push (bw_inner self') c\<rparr>))"

definition bw_ops :: "bytes_writer writer_ops" where
  "bw_ops = \<lparr>w_write = (\<lambda>bytes. bw_lift (cw_write bytes)),
     w_write_exact = (\<lambda>bytes. bw_lift (cw_write_exact bytes)), w_remaining = (\<lambda>_. 2 ^ 64 - 1),
     w_write_u8 = default_write_u8 (\<lambda>bytes. bw_lift (cw_write_exact bytes)),
     w_write_chunk = bw_write_chunk, w_with_slot = (\<lambda>len write. bw_lift (cw_with_slot len write))\<rparr>"

end
