(* ===== verification/Bytes_Laws.thy ===== *)
theory Bytes_Laws
  imports Bytes_Buf
begin

text \<open>
  What \<open>Bytes\<close> promises.  A position of the reader is an offset into the contents
  (\<open>at_offset\<close>); every operation of the reader moves that offset by what it reads, and
  never leaves the chunks.  \<open>BytesReader\<close> on a dense collection is a \<open>reader\<close>,
  \<open>BytesWriter\<close> is a \<open>writer\<close>, and \<open>==\<close> on dense collections is equality of contents.
\<close>

section \<open>Invariant and contents\<close>

definition chunks_wf :: "chunk list \<Rightarrow> bool" where
  "chunks_wf cs \<longleftrightarrow> (\<forall>c \<in> set cs. chunk_wf c)"

definition chunks_dense :: "chunk list \<Rightarrow> bool" where
  "chunks_dense cs \<longleftrightarrow> (\<forall>c \<in> set cs. chunk_len c \<noteq> 0)"

definition content :: "chunk list \<Rightarrow> u8 list" where
  "content cs = concat (map chunk_as_slice cs)"

definition bytes_wf :: "bytes \<Rightarrow> bool" where
  "bytes_wf b \<longleftrightarrow> sov_wf (b_chunks b) \<and> chunks_wf (chunks_of b)"

definition bytes_dense :: "bytes \<Rightarrow> bool" where
  "bytes_dense b \<longleftrightarrow> chunks_dense (chunks_of b)"

definition bytes_content :: "bytes \<Rightarrow> u8 list" where
  "bytes_content b = content (chunks_of b)"

lemma chunks_wf_simps [simp]:
  "chunks_wf []" "chunks_wf (c # cs) \<longleftrightarrow> chunk_wf c \<and> chunks_wf cs"
  "chunks_wf (cs @ ds) \<longleftrightarrow> chunks_wf cs \<and> chunks_wf ds"
  by (auto simp: chunks_wf_def)

lemma chunks_dense_simps [simp]:
  "chunks_dense []" "chunks_dense (c # cs) \<longleftrightarrow> chunk_len c \<noteq> 0 \<and> chunks_dense cs"
  "chunks_dense (cs @ ds) \<longleftrightarrow> chunks_dense cs \<and> chunks_dense ds"
  by (auto simp: chunks_dense_def)

lemma content_simps [simp]:
  "content [] = []" "content (c # cs) = chunk_as_slice c @ content cs"
  "content (cs @ ds) = content cs @ content ds"
  by (auto simp: content_def)

lemma chunks_wf_nth: "chunks_wf cs \<Longrightarrow> i < length cs \<Longrightarrow> chunk_wf (cs ! i)"
  by (simp add: chunks_wf_def)

lemma chunks_dense_nth: "chunks_dense cs \<Longrightarrow> i < length cs \<Longrightarrow> 0 < chunk_len (cs ! i)"
  by (simp add: chunks_dense_def)

lemma content_nil_iff: "chunks_wf cs \<Longrightarrow> chunks_dense cs \<Longrightarrow> content cs = [] \<longleftrightarrow> cs = []"
  by (cases cs) (auto simp: chunk_as_slice_nil_iff)

lemma bytes_new_laws [simp]:
  "bytes_wf bytes_new" "bytes_dense bytes_new" "bytes_content bytes_new = []"
  by (simp_all add: bytes_wf_def bytes_dense_def bytes_content_def bytes_new_def)

lemma bytes_single_laws [simp]:
  "chunk_wf c \<Longrightarrow> bytes_wf (bytes_single c)" "bytes_content (bytes_single c) = chunk_as_slice c"
  by (simp_all add: bytes_wf_def bytes_content_def bytes_single_def)

lemma bytes_clear_laws [simp]:
  "bytes_wf (bytes_clear b)" "bytes_dense (bytes_clear b)" "bytes_content (bytes_clear b) = []"
  by (cases "b_chunks b"; simp add: bytes_clear_def bytes_wf_def bytes_dense_def bytes_content_def sov_clear_def)+

lemma bytes_push_laws [simp]:
  assumes "bytes_wf b" "chunk_wf c"
  shows "bytes_wf (bytes_push b c)" "bytes_content (bytes_push b c) = bytes_content b @ chunk_as_slice c"
    "bytes_dense (bytes_push b c) = bytes_dense b"
  using assms
  by (auto simp: bytes_wf_def bytes_dense_def bytes_content_def bytes_push_def chunk_is_empty_def
      chunk_as_slice_nil_iff)

lemma bytes_extend_laws:
  assumes "bytes_wf b" "chunks_wf cs"
  shows "bytes_wf (bytes_extend b cs) \<and> bytes_content (bytes_extend b cs) = bytes_content b @ content cs
    \<and> bytes_dense (bytes_extend b cs) = bytes_dense b"
  using assms by (induction cs arbitrary: b) (simp_all add: bytes_extend_def)

lemma fold_chunk_len: "chunks_wf cs \<Longrightarrow> fold (\<lambda>c len. len + chunk_len c) cs n = n + length (content cs)"
  by (induction cs arbitrary: n) simp_all

lemma bytes_len_content: "bytes_wf b \<Longrightarrow> bytes_len b = length (bytes_content b)"
  by (simp add: bytes_len_def bytes_wf_def bytes_content_def fold_chunk_len)

lemma fold_append: "fold (\<lambda>s acc. acc @ s) ss acc = acc @ concat ss"
  by (induction ss arbitrary: acc) simp_all

lemma bytes_to_vec_content: "bytes_to_vec b = bytes_content b"
  by (simp add: bytes_to_vec_def fold_append bytes_slices_def bytes_content_def content_def)

lemma bytes_to_chunk_content:
  "bytes_wf b \<Longrightarrow> chunk_wf (bytes_to_chunk b) \<and> chunk_as_slice (bytes_to_chunk b) = bytes_content b"
  by (auto simp: bytes_to_chunk_def bytes_to_vec_content bytes_content_def bytes_wf_def split: list.splits)

section \<open>Equality\<close>

definition left_content :: "u8 list option \<Rightarrow> u8 list list \<Rightarrow> u8 list" where
  "left_content c ss = (case c of None \<Rightarrow> [] | Some s \<Rightarrow> s) @ concat ss"

definition left_dense :: "u8 list option \<Rightarrow> u8 list list \<Rightarrow> bool" where
  "left_dense c ss \<longleftrightarrow> (\<forall>s \<in> set ss. s \<noteq> []) \<and> (case c of None \<Rightarrow> ss = [] | Some s \<Rightarrow> s \<noteq> [])"

lemma next_slice_left:
  "left_content (fst (next_slice ss)) (snd (next_slice ss)) = concat ss"
  "(\<forall>s \<in> set ss. s \<noteq> []) \<Longrightarrow> left_dense (fst (next_slice ss)) (snd (next_slice ss))"
  by (cases ss; simp add: left_content_def left_dense_def)+

lemma left_content_nil: "left_dense c ss \<Longrightarrow> left_content c ss = [] \<longleftrightarrow> c = None"
  by (auto simp: left_content_def left_dense_def split: option.splits)

lemma left_step:
  assumes "left_dense (Some l) ss" "k \<le> length l"
    and "(if k = length l then next_slice ss else (Some (drop k l), ss)) = (c', ss')"
  shows "left_content c' ss' = drop k l @ concat ss \<and> left_dense c' ss'"
proof (cases "k = length l")
  case True
  then have "c' = fst (next_slice ss)" "ss' = snd (next_slice ss)" using assms(3) by auto
  then show ?thesis using assms(1) True next_slice_left [of ss] by (simp add: left_dense_def)
next
  case False
  then have "c' = Some (drop k l)" "ss' = ss" using assms(3) by auto
  then show ?thesis using assms False by (simp add: left_dense_def left_content_def)
qed

lemma bytes_eq_loop_iff:
  "left_dense c ss \<Longrightarrow> left_dense d ts \<Longrightarrow>
     bytes_eq_loop c ss d ts \<longleftrightarrow> left_content c ss = left_content d ts"
proof (induction c ss d ts rule: bytes_eq_loop.induct)
  case (1 c ss d ts)
  show ?case
  proof (cases "c = None \<or> d = None")
    case True
    then show ?thesis
      using 1(2,3)
      by (auto simp: bytes_eq_loop.simps [of c ss d ts] left_content_def left_dense_def
          split: option.splits)
  next
    case False
    then obtain l r where lr: "c = Some l" "d = Some r" by auto
    define k where "k = min (length l) (length r)"
    obtain c' ss' where c': "(if k = length l then next_slice ss else (Some (drop k l), ss)) = (c', ss')"
      by (metis surj_pair)
    obtain d' ts' where d': "(if k = length r then next_slice ts else (Some (drop k r), ts)) = (d', ts')"
      by (metis surj_pair)
    have L: "left_content c' ss' = drop k l @ concat ss \<and> left_dense c' ss'"
      using 1(2) lr by (intro left_step [OF _ _ c']) (simp_all add: k_def)
    have R: "left_content d' ts' = drop k r @ concat ts \<and> left_dense d' ts'"
      using 1(3) lr by (intro left_step [OF _ _ d']) (simp_all add: k_def)
    have split: "left_content c ss = take k l @ left_content c' ss'"
        "left_content d ts = take k r @ left_content d' ts'"
      using lr L R by (simp_all add: left_content_def)
    have len: "length (take k l) = length (take k r)" by (simp add: k_def)
    have step: "bytes_eq_loop c ss d ts \<longleftrightarrow> take k l = take k r \<and> bytes_eq_loop c' ss' d' ts'"
      using lr c' d' by (simp add: bytes_eq_loop.simps [of "Some l" ss "Some r" ts] Let_def flip: k_def)
    show ?thesis
    proof (cases "take k l = take k r")
      case False
      then show ?thesis using step split len by (metis append_eq_append_conv)
    next
      case True
      have "bytes_eq_loop c' ss' d' ts' \<longleftrightarrow> left_content c' ss' = left_content d' ts'"
        using True L R
        by (intro "1.IH" [OF _ lr k_def _ _ c' [symmetric] _ d' [symmetric]]) (simp_all add: lr)
      then show ?thesis using step split len True by simp
    qed
  qed
qed

lemma bytes_eq_content:
  assumes "bytes_wf a" "bytes_wf b" "bytes_dense a" "bytes_dense b"
  shows "bytes_eq a b \<longleftrightarrow> bytes_content a = bytes_content b"
proof -
  have d: "\<forall>s \<in> set (bytes_slices x). s \<noteq> []" if "bytes_wf x" "bytes_dense x" for x
    using that by (auto simp: bytes_slices_def bytes_wf_def bytes_dense_def chunks_wf_def
        chunks_dense_def chunk_as_slice_nil_iff)
  have c: "concat (bytes_slices x) = bytes_content x" for x
    by (simp add: bytes_slices_def bytes_content_def content_def)
  show ?thesis
    using bytes_eq_loop_iff [OF next_slice_left(2) next_slice_left(2), of "bytes_slices a" "bytes_slices b"]
      assms by (simp add: bytes_eq_def next_slice_left c d split_beta)
qed

section \<open>Positions\<close>

definition at_offset :: "chunk list \<Rightarrow> bytes_pos \<Rightarrow> nat" where
  "at_offset cs pos = length (content (take (bp_slice pos) cs)) + bp_byte pos"

definition pos_valid :: "chunk list \<Rightarrow> bytes_pos \<Rightarrow> bool" where
  "pos_valid cs pos \<longleftrightarrow>
     (if bp_slice pos < length cs then bp_byte pos \<le> chunk_len (cs ! bp_slice pos)
      else bp_slice pos = length cs \<and> bp_byte pos = 0)"

text \<open>A position inside a chunk or at the end: what \<open>read_u8\<close> needs.\<close>

definition pos_normal :: "chunk list \<Rightarrow> bytes_pos \<Rightarrow> bool" where
  "pos_normal cs pos \<longleftrightarrow>
     (if bp_slice pos < length cs then bp_byte pos < chunk_len (cs ! bp_slice pos)
      else bp_slice pos = length cs \<and> bp_byte pos = 0)"

definition pending :: "chunk list \<Rightarrow> bytes_pos \<Rightarrow> u8 list" where
  "pending cs pos = drop (at_offset cs pos) (content cs)"

lemma pos_normal_valid: "pos_normal cs pos \<Longrightarrow> pos_valid cs pos"
  by (auto simp: pos_normal_def pos_valid_def split: if_splits)

lemma pos_valid_zero: "pos_valid cs \<lparr>bp_slice = 0, bp_byte = 0\<rparr>"
  by (simp add: pos_valid_def)

lemma pos_normal_next:
  "chunks_dense cs \<Longrightarrow> i < length cs \<Longrightarrow> pos_normal cs \<lparr>bp_slice = Suc i, bp_byte = 0\<rparr>"
  by (auto simp: pos_normal_def chunks_dense_nth Suc_lessI)

lemma pos_normal_zero: "chunks_dense cs \<Longrightarrow> pos_normal cs \<lparr>bp_slice = 0, bp_byte = 0\<rparr>"
  by (auto simp: pos_normal_def chunks_dense_nth)

lemma at_offset_zero [simp]: "at_offset cs \<lparr>bp_slice = 0, bp_byte = 0\<rparr> = 0"
  by (simp add: at_offset_def)

lemma length_content_take_Suc:
  assumes "chunks_wf cs" "i < length cs"
  shows "length (content (take (Suc i) cs)) = length (content (take i cs)) + chunk_len (cs ! i)"
  using assms by (simp add: take_Suc_conv_app_nth chunks_wf_nth)

lemma length_content_take_le: "length (content (take i cs)) \<le> length (content cs)"
  by (metis append_take_drop_id content_simps(3) le_add1 length_append)

lemma pending_chunk:
  assumes "chunks_wf cs" "bp_slice pos < length cs" "bp_byte pos \<le> chunk_len (cs ! bp_slice pos)"
  shows "pending cs pos = drop (bp_byte pos) (chunk_as_slice (cs ! bp_slice pos))
           @ content (drop (Suc (bp_slice pos)) cs)"
proof -
  let ?i = "bp_slice pos"
  have "content cs = content (take ?i cs) @ chunk_as_slice (cs ! ?i) @ content (drop (Suc ?i) cs)"
    using assms(2) by (metis content_simps(2,3) id_take_nth_drop)
  then have "pending cs pos = drop (bp_byte pos) (chunk_as_slice (cs ! ?i) @ content (drop (Suc ?i) cs))"
    by (simp add: pending_def at_offset_def)
  then show ?thesis using assms by (simp add: chunks_wf_nth)
qed

lemma at_offset_le:
  assumes "chunks_wf cs" "pos_valid cs pos"
  shows "at_offset cs pos \<le> length (content cs)"
proof (cases "bp_slice pos < length cs")
  case True
  then have "length (content (take (bp_slice pos) cs)) + chunk_len (cs ! bp_slice pos) \<le> length (content cs)"
    using length_content_take_Suc [OF assms(1) True] length_content_take_le by metis
  then show ?thesis using assms(2) True by (simp add: at_offset_def pos_valid_def)
next
  case False
  then show ?thesis using assms(2) by (simp add: at_offset_def pos_valid_def)
qed

lemma length_pending:
  "chunks_wf cs \<Longrightarrow> pos_valid cs pos \<Longrightarrow> length (pending cs pos) = length (content cs) - at_offset cs pos"
  by (simp add: pending_def)

lemma pending_at: "at_offset cs pos' = at_offset cs pos + n \<Longrightarrow> pending cs pos' = drop n (pending cs pos)"
  by (simp add: pending_def add.commute)

lemma pending_end: "\<not> bp_slice pos < length cs \<Longrightarrow> pos_valid cs pos \<Longrightarrow> pending cs pos = []"
  by (simp add: pending_def pos_valid_def at_offset_def)

lemma pos_moved_laws:
  assumes cs: "chunks_wf cs" "bp_slice pos < length cs"
    and n: "bp_byte pos + n \<le> chunk_len (cs ! bp_slice pos)"
  defines "pos' \<equiv> pos_moved (cs ! bp_slice pos) pos n"
  shows "at_offset cs pos' = at_offset cs pos + n" "pos_valid cs pos'"
    "chunks_dense cs \<Longrightarrow> pos_normal cs pos'" "pending cs pos' = drop n (pending cs pos)"
proof -
  show *: "at_offset cs pos' = at_offset cs pos + n"
    using cs length_content_take_Suc [OF cs]
    by (auto simp: pos'_def pos_moved_def at_offset_def)
  show "pending cs pos' = drop n (pending cs pos)"
    by (rule pending_at [OF *])
  show "chunks_dense cs \<Longrightarrow> pos_normal cs pos'"
    using cs n pos_normal_next [of cs "bp_slice pos"] by (auto simp: pos'_def pos_moved_def pos_normal_def)
  show "pos_valid cs pos'"
    using cs n by (auto simp: pos'_def pos_moved_def pos_valid_def)
qed

section \<open>Reading\<close>

lemma br_read_loop_spec:
  assumes "chunks_wf cs" "pos_valid cs pos"
  shows "\<exists>pos'. br_read_loop cs n pos acc = (Inr (acc @ take n (pending cs pos)), pos')
    \<and> pos_valid cs pos' \<and> at_offset cs pos' = at_offset cs pos + min n (length (pending cs pos))
    \<and> (chunks_dense cs \<longrightarrow> pos_normal cs pos \<or> 0 < n \<longrightarrow> pos_normal cs pos')"
  using assms
proof (induction cs n pos acc rule: br_read_loop.induct)
  case (1 cs n pos acc)
  let ?i = "bp_slice pos"
  show ?case
  proof (cases "?i < length cs")
    case False
    then have "slice_get cs ?i = None" by (simp add: slice_get_None_iff)
    moreover have "pos_normal cs pos" using False 1(3) by (auto simp: pos_normal_def pos_valid_def)
    ultimately show ?thesis
      using 1(3) pending_end [OF False 1(3)] by (simp add: br_read_loop.simps [of cs])
  next
    case True
    define c where "c = cs ! ?i"
    define len where "len = min (chunk_len c - bp_byte pos) n"
    define pos' where "pos' = pos_moved c pos len"
    have get: "slice_get cs ?i = Some c" using True by (simp add: slice_get_Some_iff c_def)
    have le: "bp_byte pos \<le> chunk_len c" using 1(3) True by (simp add: pos_valid_def c_def)
    have wf: "chunk_wf c" using 1(2) True by (simp add: c_def chunks_wf_nth)
    have n: "bp_byte pos + len \<le> chunk_len (cs ! ?i)" using le by (simp add: len_def c_def)
    have mv: "at_offset cs pos' = at_offset cs pos + len" "pos_valid cs pos'"
        "chunks_dense cs \<Longrightarrow> pos_normal cs pos'" "pending cs pos' = drop len (pending cs pos)"
      using pos_moved_laws [OF 1(2) True n] by (simp_all add: pos'_def c_def)
    have pend: "pending cs pos = drop (bp_byte pos) (chunk_as_slice c) @ content (drop (Suc ?i) cs)"
      using pending_chunk [OF 1(2) True] le by (simp add: c_def)
    have got: "take len (drop (bp_byte pos) (chunk_as_slice c)) = take len (pending cs pos)"
      using wf le by (simp add: pend len_def)
    have lenp: "len \<le> length (pending cs pos)" using wf le by (simp add: pend len_def)
    have unf: "br_read_loop cs n pos acc =
        (if n - len = 0 then (Inr (acc @ take len (pending cs pos)), pos')
         else br_read_loop cs (n - len) pos' (acc @ take len (pending cs pos)))"
      using get le got [unfolded len_def]
      by (auto simp: br_read_loop.simps [of cs n] Let_def pos'_def len_def min_def split: if_splits)
    show ?thesis
    proof (cases "n - len = 0")
      case True
      then have "len = n" by (simp add: len_def)
      then show ?thesis using unf mv lenp by simp
    next
      case False
      have "\<exists>q. br_read_loop cs (n - len) pos' (acc @ take len (pending cs pos))
          = (Inr ((acc @ take len (pending cs pos)) @ take (n - len) (pending cs pos')), q)
        \<and> pos_valid cs q \<and> at_offset cs q = at_offset cs pos' + min (n - len) (length (pending cs pos'))
        \<and> (chunks_dense cs \<longrightarrow> pos_normal cs pos' \<or> 0 < n - len \<longrightarrow> pos_normal cs q)"
        using False
        by (intro "1.IH" [OF get _ refl len_def _ pos'_def _ 1(2) mv(2)]) (use le got in simp_all)
      moreover have "take len (pending cs pos) @ take (n - len) (pending cs pos') = take n (pending cs pos)"
        using False by (simp add: mv(4) len_def flip: take_add)
      ultimately show ?thesis
        using unf False mv lenp by (auto simp: len_def min_def split: if_splits)
    qed
  qed
qed

definition br_ok :: "bytes_reader \<Rightarrow> bool" where
  "br_ok r \<longleftrightarrow> bytes_wf (br_inner r) \<and> pos_valid (chunks_of (br_inner r)) (br_cursor r)"

definition br_pending :: "bytes_reader \<Rightarrow> u8 list" where
  "br_pending r = pending (chunks_of (br_inner r)) (br_cursor r)"

definition br_offset :: "bytes_reader \<Rightarrow> nat" where
  "br_offset r = at_offset (chunks_of (br_inner r)) (br_cursor r)"

definition br_normal :: "bytes_reader \<Rightarrow> bool" where
  "br_normal r \<longleftrightarrow> pos_normal (chunks_of (br_inner r)) (br_cursor r)"

text \<open>The reader \<open>r'\<close> is \<open>r\<close>, moved on by \<open>n\<close> bytes.\<close>

definition br_steps :: "bytes_reader \<Rightarrow> nat \<Rightarrow> bytes_reader \<Rightarrow> bool" where
  "br_steps r n r' \<longleftrightarrow> br_ok r' \<and> br_inner r' = br_inner r \<and> br_offset r' = br_offset r + n
     \<and> (bytes_dense (br_inner r) \<longrightarrow> br_normal r \<or> 0 < n \<longrightarrow> br_normal r')"

lemma br_steps_pending: "br_steps r n r' \<Longrightarrow> br_pending r' = drop n (br_pending r)"
  by (auto simp: br_steps_def br_pending_def br_offset_def intro!: pending_at)

lemma br_steps_refl: "br_ok r \<Longrightarrow> br_steps r 0 r"
  by (simp add: br_steps_def)

lemma br_stepsI:
  assumes "br_ok r" "pos_valid (chunks_of (br_inner r)) pos"
    "at_offset (chunks_of (br_inner r)) pos = br_offset r + n"
    "chunks_dense (chunks_of (br_inner r)) \<Longrightarrow> br_normal r \<or> 0 < n \<Longrightarrow> pos_normal (chunks_of (br_inner r)) pos"
  shows "br_steps r n (r\<lparr>br_cursor := pos\<rparr>)"
  using assms by (auto simp: br_steps_def br_ok_def br_offset_def br_normal_def bytes_dense_def)

lemma br_okD:
  assumes "br_ok r"
  shows "chunks_wf (chunks_of (br_inner r))" "pos_valid (chunks_of (br_inner r)) (br_cursor r)"
    "br_offset r \<le> length (bytes_content (br_inner r))"
    "br_pending r = drop (br_offset r) (bytes_content (br_inner r))"
  using assms at_offset_le
  by (auto simp: br_ok_def bytes_wf_def br_offset_def bytes_content_def br_pending_def pending_def)

lemma br_ok_reader [simp]: "bytes_wf b \<Longrightarrow> br_ok (bytes_reader b)"
  by (simp add: br_ok_def bytes_reader_def pos_valid_zero)

lemma br_reader_laws [simp]:
  "br_inner (bytes_reader b) = b" "br_offset (bytes_reader b) = 0" "br_pending (bytes_reader b) = bytes_content b"
  "bytes_dense b \<Longrightarrow> br_normal (bytes_reader b)"
  by (simp_all add: bytes_reader_def br_offset_def br_pending_def pending_def bytes_content_def
      br_normal_def pos_normal_zero bytes_dense_def)

lemma br_read_spec:
  assumes "br_ok r"
  shows "\<exists>r'. br_read n r = (if take n (br_pending r) = [] then Inl DidntRead else Inr (take n (br_pending r)), r')
     \<and> br_steps r (min n (length (br_pending r))) r'"
proof -
  obtain pos where pos: "br_read_loop (chunks_of (br_inner r)) n (br_cursor r) [] = (Inr (take n (br_pending r)), pos)"
      "pos_valid (chunks_of (br_inner r)) pos"
      "at_offset (chunks_of (br_inner r)) pos = br_offset r + min n (length (br_pending r))"
      "chunks_dense (chunks_of (br_inner r)) \<Longrightarrow> br_normal r \<or> 0 < n \<Longrightarrow> pos_normal (chunks_of (br_inner r)) pos"
    using br_read_loop_spec [OF br_okD(1,2) [OF assms], of n "[]"]
    by (auto simp: br_pending_def br_offset_def br_normal_def)
  have "br_steps r (min n (length (br_pending r))) (r\<lparr>br_cursor := pos\<rparr>)"
    using pos by (intro br_stepsI assms) auto
  then show ?thesis using pos(1) by (auto simp: br_read_def)
qed

lemma br_read_exact_spec:
  assumes "br_ok r" "0 < n"
  shows "n \<le> length (br_pending r) \<Longrightarrow>
      \<exists>r'. br_read_exact n r = (Inr (take n (br_pending r)), r') \<and> br_steps r n r'"
    and "length (br_pending r) < n \<Longrightarrow> \<exists>r'. br_read_exact n r = (Inl DidntRead, r')"
proof -
  obtain r' where r': "br_read n r = (if take n (br_pending r) = [] then Inl DidntRead
        else Inr (take n (br_pending r)), r')" "br_steps r (min n (length (br_pending r))) r'"
    using br_read_spec [OF assms(1)] by blast
  show "n \<le> length (br_pending r) \<Longrightarrow>
      \<exists>r'. br_read_exact n r = (Inr (take n (br_pending r)), r') \<and> br_steps r n r'"
    using r' assms(2) by (auto simp: br_read_exact_def andthen_def min_absorb1)
  show "length (br_pending r) < n \<Longrightarrow> \<exists>r'. br_read_exact n r = (Inl DidntRead, r')"
    using r' by (auto simp: br_read_exact_def andthen_def)
qed

lemma br_here:
  assumes "br_ok r"
  shows "bp_slice (br_cursor r) < length (chunks_of (br_inner r)) \<Longrightarrow>
      \<exists>c. sov_get (b_chunks (br_inner r)) (bp_slice (br_cursor r)) = Some c
        \<and> c = chunks_of (br_inner r) ! bp_slice (br_cursor r) \<and> chunk_wf c
        \<and> bp_byte (br_cursor r) \<le> chunk_len c
        \<and> br_pending r = drop (bp_byte (br_cursor r)) (chunk_as_slice c)
            @ content (drop (Suc (bp_slice (br_cursor r))) (chunks_of (br_inner r)))"
    and "\<not> bp_slice (br_cursor r) < length (chunks_of (br_inner r)) \<Longrightarrow>
      sov_get (b_chunks (br_inner r)) (bp_slice (br_cursor r)) = None \<and> br_pending r = [] \<and> br_normal r"
  using br_okD [OF assms] pending_chunk [of "chunks_of (br_inner r)" "br_cursor r"]
    pending_end [of "br_cursor r" "chunks_of (br_inner r)"]
  by (auto simp: sov_get_def slice_get_Some_iff slice_get_None_iff chunks_wf_nth br_pending_def
      pos_valid_def br_normal_def pos_normal_def)

lemma br_moved_steps:
  assumes "br_ok r" "bp_slice (br_cursor r) < length (chunks_of (br_inner r))"
    and "bp_byte (br_cursor r) + n \<le> chunk_len (chunks_of (br_inner r) ! bp_slice (br_cursor r))"
  shows "br_steps r n (r\<lparr>br_cursor := pos_moved (chunks_of (br_inner r) ! bp_slice (br_cursor r)) (br_cursor r) n\<rparr>)"
  using pos_moved_laws [OF br_okD(1) [OF assms(1)] assms(2,3)] assms(1)
  by (intro br_stepsI) (auto simp: br_offset_def)

lemma br_read_u8_spec:
  assumes "br_ok r" "br_normal r"
  shows "br_pending r = b # bs \<Longrightarrow> \<exists>r'. br_read_u8 r = (Inr b, r') \<and> br_steps r 1 r'"
    and "br_pending r = [] \<Longrightarrow> br_read_u8 r = (Inl DidntRead, r)"
proof -
  assume p: "br_pending r = b # bs"
  then have i: "bp_slice (br_cursor r) < length (chunks_of (br_inner r))"
    using br_here(2) [OF assms(1)] by auto
  obtain c where c: "sov_get (b_chunks (br_inner r)) (bp_slice (br_cursor r)) = Some c"
      "c = chunks_of (br_inner r) ! bp_slice (br_cursor r)" "chunk_wf c"
      "br_pending r = drop (bp_byte (br_cursor r)) (chunk_as_slice c)
            @ content (drop (Suc (bp_slice (br_cursor r))) (chunks_of (br_inner r)))"
    using br_here(1) [OF assms(1) i] by blast
  have lt: "bp_byte (br_cursor r) < chunk_len c"
    using assms(2) i c(2) by (simp add: br_normal_def pos_normal_def)
  then have "chunk_as_slice c ! bp_byte (br_cursor r) = b"
    using c(3,4) p by (simp add: drop_nth_Cons)
  then have "slice_get (chunk_as_slice c) (bp_byte (br_cursor r)) = Some b"
    using lt c(3) by (simp add: slice_get_def)
  then show "\<exists>r'. br_read_u8 r = (Inr b, r') \<and> br_steps r 1 r'"
    using c(1,2) lt br_moved_steps [OF assms(1) i, of 1] by (simp add: br_read_u8_def)
next
  assume p: "br_pending r = []"
  show "br_read_u8 r = (Inl DidntRead, r)"
  proof (cases "bp_slice (br_cursor r) < length (chunks_of (br_inner r))")
    case False
    then show ?thesis using br_here(2) [OF assms(1)] by (simp add: br_read_u8_def)
  next
    case True
    then show ?thesis using br_here(1) [OF assms(1) True] p assms(2)
      by (auto simp: br_normal_def pos_normal_def)
  qed
qed

lemma br_remaining_pending: "br_ok r \<Longrightarrow> br_remaining r = length (br_pending r)"
proof -
  assume r: "br_ok r"
  let ?cs = "chunks_of (br_inner r)" and ?i = "bp_slice (br_cursor r)"
  have "fold (\<lambda>it acc. acc + chunk_len it) (drop ?i ?cs) 0 = length (content (drop ?i ?cs))"
    using br_okD(1) [OF r] fold_chunk_len [of "drop ?i ?cs" 0]
    by (metis add_0 append_take_drop_id chunks_wf_simps(3))
  moreover have "length (content ?cs) = length (content (take ?i ?cs)) + length (content (drop ?i ?cs))"
    by (metis append_take_drop_id content_simps(3) length_append)
  ultimately show ?thesis
    by (simp add: br_remaining_def br_pending_def pending_def at_offset_def)
qed

lemma chunks_hold_content: "chunks_hold bs cs \<longleftrightarrow> chunks_wf cs \<and> content cs = bs"
  by (simp add: chunks_hold_def chunks_wf_def content_def)

lemma bsi_next_spec:
  assumes c: "slice_get cs (bp_slice pos) = Some c" "chunk_wf c" "bp_byte pos \<le> chunk_len c" and n: "0 < n"
  defines "k \<equiv> min (chunk_len c - bp_byte pos) n"
  shows "\<exists>d. bsi_next cs (pos, n) = (Inr (Some d), pos_moved c pos k, n - k)
    \<and> chunk_wf d \<and> chunk_len d = k \<and> chunk_as_slice d = take k (drop (bp_byte pos) (chunk_as_slice c))"
proof -
  have "bp_byte pos \<le> bp_byte pos + k" "bp_byte pos + k \<le> chunk_len c"
    using c(3) by (auto simp: k_def)
  then obtain d where d: "chunk_view c (range_between (bp_byte pos) (bp_byte pos + k)) = Some d"
      "chunk_wf d" "chunk_len d = k" "chunk_as_slice d = drop (bp_byte pos) (take (bp_byte pos + k) (chunk_as_slice c))"
    using chunk_view_between [OF c(2)] by (metis add_diff_cancel_left')
  moreover have "bsi_next cs (pos, n)
      = (Inr (chunk_view c (range_between (bp_byte pos) (bp_byte pos + k))), pos_moved c pos k, n - k)"
    using c n by (auto simp: bsi_next_def Let_def k_def pos_moved_def min_def)
  ultimately show ?thesis by (simp add: take_drop add.commute)
qed

lemma bsi_loop_spec:
  assumes "chunks_wf cs" "pos_valid cs (fst st)" "snd st \<le> length (pending cs (fst st))"
  shows "\<exists>out pos'. bsi_loop cs st acc = (Inr (acc @ out), pos') \<and> chunks_hold (take (snd st) (pending cs (fst st))) out
    \<and> pos_valid cs pos' \<and> at_offset cs pos' = at_offset cs (fst st) + snd st
    \<and> (chunks_dense cs \<longrightarrow> pos_normal cs (fst st) \<or> 0 < snd st \<longrightarrow> pos_normal cs pos')
    \<and> (chunks_dense cs \<longrightarrow> pos_normal cs (fst st) \<longrightarrow> chunks_dense out)"
  using assms
proof (induction cs st acc rule: bsi_loop.induct)
  case (1 cs st acc)
  obtain pos n where st [simp]: "st = (pos, n)" by force
  show ?case
  proof (cases "n = 0")
    case True
    then show ?thesis
      using 1 by (auto simp: bsi_loop.simps [of cs] bsi_next_def chunks_hold_content intro!: exI [of _ "[]"])
  next
    case False
    have i: "bp_slice pos < length cs"
      using pending_end [of pos cs] 1(3,4) False by (cases "bp_slice pos < length cs") auto
    define c where "c = cs ! bp_slice pos"
    define k where "k = min (chunk_len c - bp_byte pos) n"
    have c: "slice_get cs (bp_slice pos) = Some c" "chunk_wf c" "bp_byte pos \<le> chunk_len c"
      using i 1(2,3) by (simp_all add: slice_get_Some_iff c_def chunks_wf_nth pos_valid_def)
    obtain d where d: "bsi_next cs (pos, n) = (Inr (Some d), pos_moved c pos k, n - k)" "chunk_wf d"
        "chunk_len d = k" "chunk_as_slice d = take k (drop (bp_byte pos) (chunk_as_slice c))"
      using bsi_next_spec [OF c, of n] False by (auto simp: k_def)
    define pos1 where "pos1 = pos_moved c pos k"
    have le: "bp_byte pos + k \<le> chunk_len (cs ! bp_slice pos)"
      using c(3) by (simp add: k_def c_def)
    have mv: "at_offset cs pos1 = at_offset cs pos + k" "pos_valid cs pos1"
        "chunks_dense cs \<Longrightarrow> pos_normal cs pos1" "pending cs pos1 = drop k (pending cs pos)"
      using pos_moved_laws [OF 1(2) i le] by (simp_all add: pos1_def c_def)
    have pend: "pending cs pos = drop (bp_byte pos) (chunk_as_slice c) @ content (drop (Suc (bp_slice pos)) cs)"
      using pending_chunk [OF 1(2) i] c(3) by (simp add: c_def)
    have got: "chunk_as_slice d = take k (pending cs pos)"
      using c(2,3) by (simp add: d(4) pend k_def)
    have kn: "k \<le> n" by (simp add: k_def)
    have "\<exists>out pos'. bsi_loop cs (pos1, n - k) (acc @ [d]) = (Inr ((acc @ [d]) @ out), pos')
      \<and> chunks_hold (take (snd (pos1, n - k)) (pending cs (fst (pos1, n - k)))) out
      \<and> pos_valid cs pos' \<and> at_offset cs pos' = at_offset cs (fst (pos1, n - k)) + snd (pos1, n - k)
      \<and> (chunks_dense cs \<longrightarrow> pos_normal cs (fst (pos1, n - k)) \<or> 0 < snd (pos1, n - k) \<longrightarrow> pos_normal cs pos')
      \<and> (chunks_dense cs \<longrightarrow> pos_normal cs (fst (pos1, n - k)) \<longrightarrow> chunks_dense out)"
      using 1(4) mv by (intro "1.IH" [OF _ refl refl]) (auto simp: d(1) pos1_def 1(2))
    then obtain out pos' where o: "bsi_loop cs (pos1, n - k) (acc @ [d]) = (Inr (acc @ d # out), pos')"
        "chunks_hold (take (n - k) (pending cs pos1)) out" "pos_valid cs pos'"
        "at_offset cs pos' = at_offset cs pos1 + (n - k)"
        "chunks_dense cs \<Longrightarrow> pos_normal cs pos1 \<Longrightarrow> pos_normal cs pos' \<and> chunks_dense out"
      by auto
    have "take k (pending cs pos) @ take (n - k) (pending cs pos1) = take n (pending cs pos)"
      using take_add [of k "n - k" "pending cs pos"] kn mv(4) by simp
    then have "chunks_hold (take n (pending cs pos)) (d # out)"
      using o(2) d(2) by (simp add: chunks_hold_content got)
    moreover have "chunks_dense cs \<Longrightarrow> pos_normal cs pos \<Longrightarrow> chunk_len d \<noteq> 0"
      using i False by (simp add: d(3) k_def pos_normal_def c_def)
    ultimately show ?thesis
      using o d(1) mv kn by (intro exI [of _ "d # out"] exI [of _ pos'])
        (auto simp: bsi_loop.simps [of cs "(pos, n)"] pos1_def)
  qed
qed

lemma br_read_chunks_spec:
  assumes r: "br_ok r"
  shows "n \<le> length (br_pending r) \<Longrightarrow> \<exists>out r'. br_read_chunks n r = (Inr out, r')
      \<and> chunks_hold (take n (br_pending r)) out \<and> br_steps r n r'
      \<and> (bytes_dense (br_inner r) \<longrightarrow> br_normal r \<longrightarrow> chunks_dense out)"
    and "length (br_pending r) < n \<Longrightarrow> br_read_chunks n r = (Inl DidntRead, r)"
proof -
  assume n: "n \<le> length (br_pending r)"
  obtain out pos where o: "bsi_loop (chunks_of (br_inner r)) (br_cursor r, n) [] = (Inr out, pos)"
      "chunks_hold (take n (br_pending r)) out" "pos_valid (chunks_of (br_inner r)) pos"
      "at_offset (chunks_of (br_inner r)) pos = br_offset r + n"
      "chunks_dense (chunks_of (br_inner r)) \<Longrightarrow> br_normal r \<or> 0 < n \<Longrightarrow> pos_normal (chunks_of (br_inner r)) pos"
      "chunks_dense (chunks_of (br_inner r)) \<Longrightarrow> br_normal r \<Longrightarrow> chunks_dense out"
    using bsi_loop_spec [of "chunks_of (br_inner r)" "(br_cursor r, n)" "[]"] br_okD(1,2) [OF r] n
    by (auto simp: br_pending_def br_offset_def br_normal_def)
  have "br_steps r n (r\<lparr>br_cursor := pos\<rparr>)"
    using o(3-5) by (intro br_stepsI r) auto
  then show "\<exists>out r'. br_read_chunks n r = (Inr out, r')
      \<and> chunks_hold (take n (br_pending r)) out \<and> br_steps r n r'
      \<and> (bytes_dense (br_inner r) \<longrightarrow> br_normal r \<longrightarrow> chunks_dense out)"
    using o(1,2,6) n by (auto simp: br_read_chunks_def br_remaining_pending [OF r] bytes_dense_def)
next
  assume "length (br_pending r) < n"
  then show "br_read_chunks n r = (Inl DidntRead, r)"
    by (simp add: br_read_chunks_def br_remaining_pending [OF r])
qed

text \<open>One view of the current chunk, for \<open>read_chunk\<close> and \<open>read_chunk_contiguous\<close>.\<close>

lemma br_contiguous_spec:
  assumes r: "br_ok r" and i: "bp_slice (br_cursor r) < length (chunks_of (br_inner r))"
  defines "c \<equiv> chunks_of (br_inner r) ! bp_slice (br_cursor r)"
  shows "bp_byte (br_cursor r) + n \<le> chunk_len c \<Longrightarrow>
     \<exists>d r'. br_read_chunk_contiguous n r = (Inr d, r') \<and> br_read_chunk n r = (Inr d, r')
       \<and> chunk_wf d \<and> n \<le> length (br_pending r)
       \<and> chunk_as_slice d = take n (br_pending r) \<and> br_steps r n r'"
    and "chunk_len c < bp_byte (br_cursor r) + n \<Longrightarrow> br_read_chunk_contiguous n r = (Inl DidntRead, r)"
proof -
  have c: "sov_get (b_chunks (br_inner r)) (bp_slice (br_cursor r)) = Some c" "chunk_wf c"
      "bp_byte (br_cursor r) \<le> chunk_len c"
      "br_pending r = drop (bp_byte (br_cursor r)) (chunk_as_slice c)
            @ content (drop (Suc (bp_slice (br_cursor r))) (chunks_of (br_inner r)))"
    using br_here(1) [OF r i] by (auto simp: c_def)
  show "chunk_len c < bp_byte (br_cursor r) + n \<Longrightarrow> br_read_chunk_contiguous n r = (Inl DidntRead, r)"
    using c by (auto simp: br_read_chunk_contiguous_def Let_def)
  assume n: "bp_byte (br_cursor r) + n \<le> chunk_len c"
  obtain d where d: "chunk_view c (range_between (bp_byte (br_cursor r)) (bp_byte (br_cursor r) + n)) = Some d"
      "chunk_wf d" "chunk_as_slice d = take n (drop (bp_byte (br_cursor r)) (chunk_as_slice c))"
    using chunk_view_between [OF c(2) le_add1 n] by (auto simp: take_drop add.commute)
  have eq: "chunk_view c (range_from (bp_byte (br_cursor r))) = Some d"
    if "chunk_len c - bp_byte (br_cursor r) = n"
    using d(1) that c(3) n by (auto simp: chunk_view_def Let_def)
  have st: "br_steps r n (r\<lparr>br_cursor := pos_moved c (br_cursor r) n\<rparr>)"
    using br_moved_steps [OF r i] n by (simp add: c_def)
  have "br_read_chunk_contiguous n r = (Inr d, r\<lparr>br_cursor := pos_moved c (br_cursor r) n\<rparr>)"
    "br_read_chunk n r = (Inr d, r\<lparr>br_cursor := pos_moved c (br_cursor r) n\<rparr>)"
    using c(1,3) d(1) eq n
    by (auto simp: br_read_chunk_contiguous_def br_read_chunk_def Let_def pos_moved_def)
  then show "\<exists>d r'. br_read_chunk_contiguous n r = (Inr d, r') \<and> br_read_chunk n r = (Inr d, r')
       \<and> chunk_wf d \<and> n \<le> length (br_pending r)
       \<and> chunk_as_slice d = take n (br_pending r) \<and> br_steps r n r'"
    using c(2-4) d n st by auto
qed

lemma br_read_chunk_spec:
  assumes r: "br_ok r" and n: "0 < n"
  shows "n \<le> length (br_pending r) \<Longrightarrow> \<exists>d r'. br_read_chunk n r = (Inr d, r')
      \<and> chunk_wf d \<and> chunk_as_slice d = take n (br_pending r) \<and> br_steps r n r'"
    and "length (br_pending r) < n \<Longrightarrow> \<exists>r'. br_read_chunk n r = (Inl DidntRead, r')"
proof -
  let ?i = "bp_slice (br_cursor r)" and ?cs = "chunks_of (br_inner r)"
  have *: "if n \<le> length (br_pending r)
     then \<exists>d r'. br_read_chunk n r = (Inr d, r') \<and> chunk_wf d
        \<and> chunk_as_slice d = take n (br_pending r) \<and> br_steps r n r'
     else \<exists>r'. br_read_chunk n r = (Inl DidntRead, r')"
  proof (cases "?i < length ?cs")
    case False
    then show ?thesis using br_here(2) [OF r] n by (simp add: br_read_chunk_def)
  next
    case i: True
    show ?thesis
    proof (cases "bp_byte (br_cursor r) + n \<le> chunk_len (?cs ! ?i)")
      case True
      then show ?thesis using br_contiguous_spec(1) [OF r i True] by auto
    next
      case False
      have u: "br_read_chunk n r = andthen (br_read_exact n) (\<lambda>buffer. ok (chunk_from (DynBoxedSlice buffer))) r"
        using br_here(1) [OF r i] False n by (auto simp: br_read_chunk_def Let_def)
      show ?thesis
      proof (cases "n \<le> length (br_pending r)")
        case True
        then show ?thesis using br_read_exact_spec(1) [OF r n] by (auto simp: u andthen_def)
      next
        case False
        then show ?thesis using br_read_exact_spec(2) [OF r n] by (auto simp: u andthen_def)
      qed
    qed
  qed
  show "n \<le> length (br_pending r) \<Longrightarrow> \<exists>d r'. br_read_chunk n r = (Inr d, r')
      \<and> chunk_wf d \<and> chunk_as_slice d = take n (br_pending r) \<and> br_steps r n r'"
    and "length (br_pending r) < n \<Longrightarrow> \<exists>r'. br_read_chunk n r = (Inl DidntRead, r')"
    using * by (auto simp: not_le [symmetric])
qed

section \<open>\<open>BytesReader\<close> is a reader\<close>

definition br_view :: "bytes \<Rightarrow> bytes_reader reader_view" where
  "br_view b = \<lparr>rv_inv = (\<lambda>r. br_inner r = b \<and> bytes_dense b \<and> br_ok r \<and> br_normal r),
     rv_pending = br_pending\<rparr>"

lemma br_view_inv:
  "rv_inv (br_view b) r \<longleftrightarrow> br_inner r = b \<and> bytes_dense b \<and> br_ok r \<and> br_normal r"
  "rv_pending (br_view b) r = br_pending r"
  by (simp_all add: br_view_def)

lemma br_view_steps: "rv_inv (br_view b) r \<Longrightarrow> br_steps r n r' \<Longrightarrow> rv_inv (br_view b) r'"
  by (auto simp: br_view_inv br_steps_def)

lemma br_parsesI:
  assumes "\<And>r. br_ok r \<Longrightarrow> br_normal r \<Longrightarrow> length bs \<le> length (br_pending r) \<Longrightarrow>
      take (length bs) (br_pending r) = bs \<Longrightarrow> \<exists>x r'. m r = (Inr x, r') \<and> P x \<and> br_steps r (length bs) r'"
  shows "parses (br_view b) m P bs"
  unfolding parses_def
proof (intro allI impI)
  fix r rest assume r: "rv_inv (br_view b) r" "rv_pending (br_view b) r = bs @ rest"
  then obtain x r' where x: "m r = (Inr x, r')" "P x" "br_steps r (length bs) r'"
    using assms [of r] by (auto simp: br_view_inv)
  then show "\<exists>x r'. m r = (Inr x, r') \<and> P x \<and> rv_inv (br_view b) r' \<and> rv_pending (br_view b) r' = rest"
    using r br_view_steps [OF r(1) x(3)] br_steps_pending [OF x(3)] by (auto simp: br_view_inv(2))
qed

lemma br_starvesI:
  assumes "\<And>r. br_ok r \<Longrightarrow> br_normal r \<Longrightarrow> length (br_pending r) < length bs \<Longrightarrow> \<exists>r'. m r = (Inl DidntRead, r')"
  shows "starves (br_view b) m bs"
  using assms by (auto simp: starves_def br_view_inv dest: prefix_length_less)

interpretation bytes_r: reader br_ops "br_view b"
proof unfold_locales
  fix x :: u8
  show "parses (br_view b) (r_read_u8 br_ops) ((=) x) [x]"
  proof (rule br_parsesI)
    fix r assume r: "br_ok r" "br_normal r" "length [x] \<le> length (br_pending r)"
      "take (length [x]) (br_pending r) = [x]"
    then obtain rest where "br_pending r = x # rest" by (cases "br_pending r") auto
    then show "\<exists>y r'. r_read_u8 br_ops r = (Inr y, r') \<and> x = y \<and> br_steps r (length [x]) r'"
      using br_read_u8_spec(1) [OF r(1,2)] by (auto simp: br_ops_def)
  qed
  show "starves (br_view b) (r_read_u8 br_ops) [x]"
    using br_read_u8_spec(2) by (intro br_starvesI) (auto simp: br_ops_def)
next
  fix bs :: "u8 list" assume "bs \<noteq> []"
  then have n: "0 < length bs" by simp
  show "parses (br_view b) (r_read_exact br_ops (length bs)) ((=) bs) bs"
    using br_read_exact_spec(1) [OF _ n] by (intro br_parsesI) (fastforce simp: br_ops_def)
  show "starves (br_view b) (r_read_exact br_ops (length bs)) bs"
    using br_read_exact_spec(2) [OF _ n] by (intro br_starvesI) (simp add: br_ops_def)
  show "parses (br_view b) (r_read_chunk br_ops (length bs)) (\<lambda>c. chunk_wf c \<and> chunk_as_slice c = bs) bs"
    using br_read_chunk_spec(1) [OF _ n] by (intro br_parsesI) (fastforce simp: br_ops_def)
  show "starves (br_view b) (r_read_chunk br_ops (length bs)) bs"
    using br_read_chunk_spec(2) [OF _ n] by (intro br_starvesI) (simp add: br_ops_def)
  show "parses (br_view b) (r_read_chunks br_ops (length bs)) (chunks_hold bs) bs"
    using br_read_chunks_spec(1) [of _ "length bs"] by (intro br_parsesI) (fastforce simp: br_ops_def)
  show "starves (br_view b) (r_read_chunks br_ops (length bs)) bs"
    using br_read_chunks_spec(2) [of _ "length bs"] by (intro br_starvesI) (simp add: br_ops_def)
next
  fix r n assume r: "rv_inv (br_view b) r"
  then have o: "br_ok r" by (simp add: br_view_inv)
  let ?i = "bp_slice (br_cursor r)" and ?cs = "chunks_of (br_inner r)"
  show "(\<exists>c r'. r_read_chunk_contiguous br_ops n r = (Inr c, r') \<and> chunk_wf c \<and> rv_inv (br_view b) r'
         \<and> n \<le> length (rv_pending (br_view b) r) \<and> chunk_as_slice c = take n (rv_pending (br_view b) r)
         \<and> rv_pending (br_view b) r' = drop n (rv_pending (br_view b) r))
      \<or> r_read_chunk_contiguous br_ops n r = (Inl DidntRead, r)"
  proof (cases "?i < length ?cs \<and> bp_byte (br_cursor r) + n \<le> chunk_len (?cs ! ?i)")
    case True
    then obtain d r' where "br_read_chunk_contiguous n r = (Inr d, r')" "chunk_wf d" "n \<le> length (br_pending r)"
       "chunk_as_slice d = take n (br_pending r)" "br_steps r n r'"
      using br_contiguous_spec(1) [OF o] by blast
    then show ?thesis
      using br_view_steps [OF r] br_steps_pending by (auto simp: br_ops_def br_view_inv(2))
  next
    case False
    then show ?thesis
      using br_contiguous_spec(2) [OF o] br_here(2) [OF o]
      by (cases "?i < length ?cs") (auto simp: br_ops_def br_read_chunk_contiguous_def)
  qed
next
  fix r assume "rv_inv (br_view b) r"
  then show "r_remaining br_ops r = length (rv_pending (br_view b) r)"
    by (simp add: br_ops_def br_view_inv br_remaining_pending)
qed

section \<open>Properties\<close>

text \<open>On collections without empty chunks \<open>==\<close> compares the contents, however they are
  cut into chunks.\<close>

theorem bytes_eq_iff:
  assumes "bytes_wf a" "bytes_wf b" "bytes_dense a" "bytes_dense b"
  shows "bytes_eq a b \<longleftrightarrow> bytes_to_vec a = bytes_to_vec b"
  unfolding bytes_to_vec_content by (rule bytes_eq_content [OF assms])

theorem bytes_eq_iff_witness:
  "bytes_eq (bytes_extend bytes_new [chunk_from (DynVec [1, 2]), chunk_from (DynVec [3])])
     (bytes_from (DynArray [1, 2, 3]))"
proof -
  have a: "bytes_wf x" "bytes_dense x" "bytes_to_vec x = [1, 2, 3]"
    if "x = bytes_extend bytes_new [chunk_from (DynVec [1, 2]), chunk_from (DynVec [3])]" for x
    using bytes_extend_laws [of bytes_new "[chunk_from (DynVec [1, 2]), chunk_from (DynVec [3])]"]
    by (simp_all add: that bytes_to_vec_content)
  have b: "bytes_wf y" "bytes_dense y" "bytes_to_vec y = [1, 2, 3]"
    if "y = bytes_from (DynArray [1, 2, 3])" for y
    by (simp_all add: that bytes_to_vec_content bytes_from_def bytes_dense_def) (simp add: bytes_single_def)
  show ?thesis using bytes_eq_iff [OF a(1) b(1) a(2) b(2)] a(3) b(3) by auto
qed

text \<open>An empty chunk breaks \<open>==\<close>: the empty collection and the collection of one empty
  chunk have the same contents and are not equal.\<close>

theorem bytes_eq_empty_chunk:
  "bytes_to_vec bytes_new = bytes_to_vec (bytes_from (DynVec []))
   \<and> \<not> bytes_eq bytes_new (bytes_from (DynVec []))
   \<and> bytes_len (bytes_from (DynVec [])) = 0 \<and> \<not> bytes_is_empty (bytes_from (DynVec []))"
  by (simp add: bytes_to_vec_content bytes_from_def bytes_eq_def bytes_slices_def bytes_new_def
      bytes_single_def bytes_eq_loop.simps [of None] bytes_content_def bytes_len_def bytes_is_empty_def)

text \<open>All the ways to read \<open>n\<close> bytes give the same bytes and leave the reader \<open>n\<close> bytes
  further on, without an access out of range.\<close>

theorem bytes_reads_agree:
  assumes "br_ok r" "0 < n" "n \<le> length (br_pending r)"
  shows "\<exists>r1 r2 r3 c cs. br_read_exact n r = (Inr (take n (br_pending r)), r1)
    \<and> br_read_chunk n r = (Inr c, r2) \<and> chunk_as_slice c = take n (br_pending r)
    \<and> br_read_chunks n r = (Inr cs, r3) \<and> content cs = take n (br_pending r)
    \<and> br_pending r1 = drop n (br_pending r) \<and> br_pending r2 = drop n (br_pending r)
    \<and> br_pending r3 = drop n (br_pending r) \<and> br_remaining r1 = br_remaining r - n"
proof -
  obtain r1 where 1: "br_read_exact n r = (Inr (take n (br_pending r)), r1)" "br_steps r n r1"
    using br_read_exact_spec(1) [OF assms] by blast
  obtain c r2 where 2: "br_read_chunk n r = (Inr c, r2)" "chunk_as_slice c = take n (br_pending r)" "br_steps r n r2"
    using br_read_chunk_spec(1) [OF assms] by blast
  obtain cs r3 where 3: "br_read_chunks n r = (Inr cs, r3)" "chunks_hold (take n (br_pending r)) cs" "br_steps r n r3"
    using br_read_chunks_spec(1) [OF assms(1,3)] by blast
  have "br_remaining r1 = br_remaining r - n"
    using 1(2) br_steps_pending [OF 1(2)] by (simp add: br_remaining_pending assms(1) br_steps_def)
  then show ?thesis
    using 1 2 3 by (simp add: br_steps_pending chunks_hold_content)
qed

theorem bytes_reads_agree_witness:
  "\<exists>c r2. br_read_chunk 3 (bytes_reader (bytes_push (bytes_from (DynVec [1, 2])) (chunk_from (DynVec [3, 4]))))
     = (Inr c, r2) \<and> chunk_as_slice c = [1, 2, 3]"
  using bytes_reads_agree [of "bytes_reader (bytes_push (bytes_from (DynVec [1, 2])) (chunk_from (DynVec [3, 4])))" 3]
  by (auto simp: bytes_from_def)

text \<open>Asking for more than is left fails in every way to read, and \<open>read_chunks\<close> then
  leaves the reader where it was.\<close>

theorem bytes_reads_short:
  assumes "br_ok r" "length (br_pending r) < n"
  shows "\<exists>r1 r2. br_read_exact n r = (Inl DidntRead, r1) \<and> br_read_chunk n r = (Inl DidntRead, r2)
    \<and> br_read_chunks n r = (Inl DidntRead, r)"
  using br_read_exact_spec(2) [of r n] br_read_chunk_spec(2) [of r n] br_read_chunks_spec(2) [of r n] assms
  by fastforce

theorem bytes_reads_short_witness:
  "\<exists>r. br_read_exact 3 (bytes_reader (bytes_from (DynVec [1, 2]))) = (Inl DidntRead, r)"
  using bytes_reads_short [of "bytes_reader (bytes_from (DynVec [1, 2]))" 3] by (auto simp: bytes_from_def)

end
