(* ===== verification/Bytes_Cursor.thy ===== *)
theory Bytes_Cursor
  imports Bytes_Laws
begin

text \<open>
  The rest of what \<open>Bytes\<close> promises: siphoning into any \<open>writer\<close>, moving the cursor both
  ways (\<open>skip\<close>, \<open>backtrack\<close>, \<open>io::Seek\<close>), \<open>view\<close>, and \<open>BytesWriter\<close> as a \<open>writer\<close>.
\<close>

section \<open>Siphoning\<close>

context writer begin

lemma siphon_loop_spec:
  assumes "W' = W" "chunks_wf cs" "chunks_dense cs" "pos_normal cs pos" "wv_inv V out"
  shows "\<exists>k pos' out'. br_siphon_loop W' cs pos out read
      = (if read + k = 0 then Inl DidntRead else Inr (read + k), pos', out')
    \<and> k \<le> length (pending cs pos) \<and> pos_normal cs pos' \<and> at_offset cs pos' = at_offset cs pos + k
    \<and> appends V out (take k (pending cs pos)) out'
    \<and> (k < length (pending cs pos) \<longrightarrow> \<not> wv_fits V out (Suc k))"
  using assms
proof (induction W' cs pos out read rule: br_siphon_loop.induct)
  case (1 W' cs pos out read)
  let ?i = "bp_slice pos"
  have W: "W' = W" by fact
  have valid: "pos_valid cs pos" using 1(5) by (rule pos_normal_valid)
  show ?case
  proof (cases "?i < length cs")
    case False
    then show ?thesis
      using 1(5,6) pending_end [OF False valid] appends_refl
      by (intro exI [of _ 0]) (simp add: br_siphon_loop.simps [of W'] slice_get_def)
  next
    case i: True
    define c where "c = cs ! ?i"
    define ds where "ds = drop (bp_byte pos) (chunk_as_slice c)"
    have c: "slice_get cs ?i = Some c" "chunk_wf c" "bp_byte pos < chunk_len c"
      using i 1(3,5) by (simp_all add: slice_get_Some_iff c_def chunks_wf_nth pos_normal_def)
    have ds: "ds \<noteq> []" "length ds = chunk_len c - bp_byte pos" using c(2,3) by (simp_all add: ds_def)
    have pend: "pending cs pos = ds @ content (drop (Suc ?i) cs)"
      using pending_chunk [OF 1(3) i] c(3) by (simp add: c_def ds_def)
    show ?thesis
    proof (cases "w_write W ds out = (Inl DidntWrite, out)")
      case True
      then have "\<not> wv_fits V out 1"
        using takes_some [of ds] 1(6) ds(1) by (auto simp: takes_some_def)
      moreover have "br_siphon_loop W' cs pos out read = (if read = 0 then Inl DidntRead else Inr read, pos, out)"
        using True c W by (simp add: br_siphon_loop.simps [of W cs] ds_def [symmetric])
      ultimately show ?thesis
        using 1(5,6) appends_refl by (intro exI [of _ 0]) simp
    next
      case False
      then obtain j w' where j: "w_write W ds out = (Inr j, w')" "0 < j" "j \<le> length ds"
          "appends V out (take j ds) w'" "j < length ds \<longrightarrow> \<not> wv_fits V out (Suc j)"
        using takes_some [of ds] 1(6) by (auto simp: takes_some_def)
      have w': "wv_inv V w'" "wv_fits V w' n \<longleftrightarrow> wv_fits V out (j + n)" for n
        using j(3,4) by (auto simp: appends_def min_absorb2)
      define pos1 where "pos1 = pos_moved c pos j"
      have le: "bp_byte pos + j \<le> chunk_len (cs ! ?i)" using j(3) ds(2) c(3) by (simp add: c_def)
      have mv: "at_offset cs pos1 = at_offset cs pos + j" "pos_normal cs pos1"
          "pending cs pos1 = drop j (pending cs pos)"
        using pos_moved_laws [OF 1(3) i le] 1(4) by (simp_all add: pos1_def c_def)
      have unf: "br_siphon_loop W' cs pos out read = br_siphon_loop W' cs pos1 w' (read + j)"
        using c j W by (simp add: br_siphon_loop.simps [of W cs pos] ds_def [symmetric] pos1_def)
      have lt: "\<not> chunk_len c < bp_byte pos" using c(3) by simp
      have "\<exists>k pos' out'. br_siphon_loop W' cs pos1 w' (read + j)
          = (if read + j + k = 0 then Inl DidntRead else Inr (read + j + k), pos', out')
        \<and> k \<le> length (pending cs pos1) \<and> pos_normal cs pos' \<and> at_offset cs pos' = at_offset cs pos1 + k
        \<and> appends V w' (take k (pending cs pos1)) out'
        \<and> (k < length (pending cs pos1) \<longrightarrow> \<not> wv_fits V w' (Suc k))"
        unfolding pos1_def
        by (rule "1.IH" [OF c(1) lt _ refl]) (use j W mv(2) w'(1) 1 in \<open>simp_all add: ds_def pos1_def\<close>)
      then obtain k pos' out' where k: "br_siphon_loop W' cs pos1 w' (read + j)
          = (if read + j + k = 0 then Inl DidntRead else Inr (read + j + k), pos', out')"
          "k \<le> length (pending cs pos1)" "pos_normal cs pos'" "at_offset cs pos' = at_offset cs pos1 + k"
          "appends V w' (take k (pending cs pos1)) out'"
          "k < length (pending cs pos1) \<longrightarrow> \<not> wv_fits V w' (Suc k)"
        by blast
      have "take j ds = take j (pending cs pos)" using j(3) by (simp add: pend)
      then have "appends V out (take (j + k) (pending cs pos)) out'"
        using appends_trans [OF j(4) k(5)] mv(3) by (simp add: take_add)
      moreover have "length (pending cs pos1) + j = length (pending cs pos)"
        using j(3) by (simp add: mv(3) pend)
      ultimately show ?thesis
        using k j(2) mv(1) w'(2)
        by (intro exI [of _ "j + k"] exI [of _ pos'] exI [of _ out']) (auto simp: unf add.assoc)
    qed
  qed
qed

text \<open>
  Siphoning moves everything that fits, and nothing is lost or repeated: what the writer
  took is what the reader has moved past.
\<close>

lemma siphon_spec:
  assumes r: "rv_inv (br_view b) r" and w: "wv_inv V w"
  shows "\<exists>k r' w'. br_siphon W r w = (if k = 0 then Inl DidntRead else Inr k, r', w')
    \<and> k \<le> length (br_pending r) \<and> rv_inv (br_view b) r' \<and> br_steps r k r'
    \<and> appends V w (take k (br_pending r)) w'
    \<and> (k < length (br_pending r) \<longrightarrow> \<not> wv_fits V w (Suc k))"
proof -
  have o: "br_ok r" "br_normal r" "chunks_dense (chunks_of (br_inner r))"
    using r by (auto simp: br_view_inv bytes_dense_def)
  obtain k pos w' where k: "br_siphon_loop W (chunks_of (br_inner r)) (br_cursor r) w 0
      = (if k = 0 then Inl DidntRead else Inr k, pos, w')"
    "k \<le> length (br_pending r)" "pos_normal (chunks_of (br_inner r)) pos"
    "at_offset (chunks_of (br_inner r)) pos = br_offset r + k"
    "appends V w (take k (br_pending r)) w'" "k < length (br_pending r) \<longrightarrow> \<not> wv_fits V w (Suc k)"
    using siphon_loop_spec [OF refl br_okD(1) [OF o(1)] o(3) _ w, of "br_cursor r" 0] o(2)
    by (auto simp: br_pending_def br_offset_def br_normal_def)
  have "br_steps r k (r\<lparr>br_cursor := pos\<rparr>)"
    using k(3,4) o(1) by (intro br_stepsI) (auto intro: pos_normal_valid)
  then show ?thesis
    using k br_view_steps [OF r] by (intro exI [of _ k]) (auto simp: br_siphon_def)
qed

end

section \<open>Moving the cursor\<close>

lemma br_skip_loop_spec:
  assumes "chunks_wf cs" "pos_valid cs pos"
  shows "\<exists>pos'. br_skip_loop cs n pos
      = (if n \<le> length (pending cs pos) then Inr () else Inl DidntRead, pos')
    \<and> pos_valid cs pos' \<and> at_offset cs pos' = at_offset cs pos + min n (length (pending cs pos))
    \<and> (chunks_dense cs \<longrightarrow> pos_normal cs pos \<or> 0 < n \<longrightarrow> pos_normal cs pos')"
  using assms
proof (induction cs n pos rule: br_skip_loop.induct)
  case (1 cs n pos)
  let ?i = "bp_slice pos"
  show ?case
  proof (cases "n = 0")
    case True
    then show ?thesis using 1(3) by (simp add: br_skip_loop.simps [of cs])
  next
    case n: False
    show ?thesis
    proof (cases "?i < length cs")
      case False
      then have "pos_normal cs pos" using 1(3) by (simp add: pos_normal_def pos_valid_def)
      then show ?thesis
        using n False 1(3) pending_end [OF False 1(3)]
        by (simp add: br_skip_loop.simps [of cs] slice_get_def)
    next
      case i: True
      define c where "c = cs ! ?i"
      define k where "k = min n (chunk_len c - bp_byte pos)"
      define pos1 where "pos1 = pos_moved c pos k"
      have c: "slice_get cs ?i = Some c" "chunk_wf c" "bp_byte pos \<le> chunk_len c"
        using i 1(2,3) by (simp_all add: slice_get_Some_iff c_def chunks_wf_nth pos_valid_def)
      have le: "bp_byte pos + k \<le> chunk_len (cs ! ?i)" using c(3) by (simp add: c_def k_def)
      have mv: "at_offset cs pos1 = at_offset cs pos + k" "pos_valid cs pos1"
          "chunks_dense cs \<Longrightarrow> pos_normal cs pos1" "pending cs pos1 = drop k (pending cs pos)"
        using pos_moved_laws [OF 1(2) i le] by (simp_all add: pos1_def c_def)
      have kp: "k \<le> length (pending cs pos)"
        using pending_chunk [OF 1(2) i] c by (simp add: c_def [symmetric] k_def)
      have unf: "br_skip_loop cs n pos = br_skip_loop cs (n - k) pos1"
        using n c by (simp add: br_skip_loop.simps [of cs n] Let_def k_def pos1_def)
      have "\<exists>pos'. br_skip_loop cs (n - k) pos1
          = (if n - k \<le> length (pending cs pos1) then Inr () else Inl DidntRead, pos')
        \<and> pos_valid cs pos' \<and> at_offset cs pos' = at_offset cs pos1 + min (n - k) (length (pending cs pos1))
        \<and> (chunks_dense cs \<longrightarrow> pos_normal cs pos1 \<or> 0 < n - k \<longrightarrow> pos_normal cs pos')"
        unfolding pos1_def
        by (rule "1.IH" [OF n c(1) refl k_def]) (use c 1(2) mv(2) in \<open>simp_all add: pos1_def\<close>)
      then show ?thesis
        using mv kp by (auto simp: unf k_def min_def split: if_splits)
    qed
  qed
qed

lemma br_skip_spec:
  assumes r: "br_ok r"
  shows "\<exists>r'. br_skip n r = (if n \<le> length (br_pending r) then Inr () else Inl DidntRead, r')
     \<and> br_steps r (min n (length (br_pending r))) r'"
proof -
  obtain pos where pos: "br_skip_loop (chunks_of (br_inner r)) n (br_cursor r)
        = (if n \<le> length (br_pending r) then Inr () else Inl DidntRead, pos)"
      "pos_valid (chunks_of (br_inner r)) pos"
      "at_offset (chunks_of (br_inner r)) pos = br_offset r + min n (length (br_pending r))"
      "chunks_dense (chunks_of (br_inner r)) \<Longrightarrow> br_normal r \<or> 0 < n \<Longrightarrow> pos_normal (chunks_of (br_inner r)) pos"
    using br_skip_loop_spec [OF br_okD(1,2) [OF r], of n]
    by (auto simp: br_pending_def br_offset_def br_normal_def)
  have "br_steps r (min n (length (br_pending r))) (r\<lparr>br_cursor := pos\<rparr>)"
    using pos by (intro br_stepsI r) auto
  then show ?thesis using pos(1) by (auto simp: br_skip_def)
qed

lemma br_backtrack_loop_spec:
  assumes "chunks_wf cs" "pos_valid cs pos"
  shows "\<exists>pos'. br_backtrack_loop cs n pos
      = (if n \<le> at_offset cs pos then Inr () else Inl DidntRead, pos')
    \<and> pos_valid cs pos' \<and> at_offset cs pos' = at_offset cs pos - n"
  using assms
proof (induction cs n pos rule: br_backtrack_loop.induct)
  case (1 cs n pos)
  let ?i = "bp_slice pos"
  define k where "k = min n (bp_byte pos)"
  show ?case
  proof (cases "n = 0")
    case True
    then show ?thesis using 1(4) by (simp add: br_backtrack_loop.simps [of cs])
  next
    case n: False
    show ?thesis
    proof (cases "bp_byte pos - k = 0")
      case False
      then have kn: "k = n" "n < bp_byte pos" by (auto simp: k_def)
      have "br_backtrack_loop cs n pos = br_backtrack_loop cs 0 (pos\<lparr>bp_byte := bp_byte pos - n\<rparr>)"
        using kn n by (simp add: br_backtrack_loop.simps [of cs n] Let_def min_def)
      moreover have "pos_valid cs (pos\<lparr>bp_byte := bp_byte pos - n\<rparr>)"
        using 1(4) kn by (auto simp: pos_valid_def split: if_splits)
      ultimately show ?thesis using kn by (simp add: br_backtrack_loop.simps [of cs 0] at_offset_def)
    next
      case byte0: True
      then have kb: "k = bp_byte pos" "bp_byte pos \<le> n" by (auto simp: k_def)
      show ?thesis
      proof (cases "?i = 0")
        case True
        then have "br_backtrack_loop cs n pos
            = (if n \<le> at_offset cs pos then Inr () else Inl DidntRead, pos\<lparr>bp_byte := 0\<rparr>)"
          using n byte0 kb by (simp add: br_backtrack_loop.simps [of cs n] Let_def at_offset_def min_def)
        moreover have "pos_valid cs (pos\<lparr>bp_byte := 0\<rparr>)"
          using True 1(4) by (simp add: pos_valid_def split: if_splits)
        ultimately show ?thesis using True kb by (simp add: at_offset_def)
      next
        case i: False
        have lt: "?i - 1 < length cs" using 1(4) i by (auto simp: pos_valid_def split: if_splits)
        define c where "c = cs ! (?i - 1)"
        define pos1 where "pos1 = \<lparr>bp_slice = ?i - 1, bp_byte = chunk_len c\<rparr>"
        have c: "slice_get cs (?i - 1) = Some c" using lt by (simp add: slice_get_Some_iff c_def)
        have at: "at_offset cs pos = at_offset cs pos1 + k"
          using length_content_take_Suc [OF 1(3) lt] i kb
          by (simp add: at_offset_def pos1_def c_def)
        have v: "pos_valid cs pos1" using lt by (simp add: pos_valid_def pos1_def c_def)
        have unf: "br_backtrack_loop cs n pos = br_backtrack_loop cs (n - k) pos1"
          using n byte0 kb i c
          by (simp add: br_backtrack_loop.simps [of cs n] Let_def pos1_def min_def)
        have "\<exists>pos'. br_backtrack_loop cs (n - k) pos1
            = (if n - k \<le> at_offset cs pos1 then Inr () else Inl DidntRead, pos')
          \<and> pos_valid cs pos' \<and> at_offset cs pos' = at_offset cs pos1 - (n - k)"
          unfolding pos1_def
          by (rule "1.IH"(1) [OF n k_def refl refl byte0 i c]) (use 1(3) v in \<open>simp_all add: pos1_def\<close>)
        then show ?thesis using kb by (auto simp: unf at)
      qed
    qed
  qed
qed

text \<open>The reader \<open>r'\<close> is \<open>r\<close> moved back to offset \<open>n\<close>.\<close>

lemma br_backtrack_spec:
  assumes r: "br_ok r"
  shows "\<exists>r'. br_backtrack n r = (if n \<le> br_offset r then Inr () else Inl DidntRead, r')
     \<and> br_ok r' \<and> br_inner r' = br_inner r \<and> br_offset r' = br_offset r - n"
proof -
  obtain pos where "br_backtrack_loop (chunks_of (br_inner r)) n (br_cursor r)
        = (if n \<le> br_offset r then Inr () else Inl DidntRead, pos)"
      "pos_valid (chunks_of (br_inner r)) pos"
      "at_offset (chunks_of (br_inner r)) pos = br_offset r - n"
    using br_backtrack_loop_spec [OF br_okD(1,2) [OF r], of n] by (auto simp: br_offset_def)
  then show ?thesis using r by (auto simp: br_backtrack_def br_ok_def br_offset_def)
qed

lemma br_seek_spec:
  assumes "br_ok r"
  shows "case br_seek pos r of
      (True, r') \<Rightarrow> br_ok r' \<and> r' = r\<lparr>br_cursor := pos\<rparr> | (False, r') \<Rightarrow> r' = r"
  using assms
  by (auto simp: br_seek_def sov_get_def slice_get_def br_ok_def pos_valid_def split: option.splits)

text \<open>A reader that marks its position inside a chunk finds it again.\<close>

lemma br_seek_mark:
  assumes "br_ok r" "br_inner r' = br_inner r" "br_pending r \<noteq> []"
  shows "br_seek (br_mark r) r' = (True, r'\<lparr>br_cursor := br_cursor r\<rparr>)"
proof -
  have "bp_slice (br_cursor r) < length (chunks_of (br_inner r))"
    using br_here(2) [OF assms(1)] assms(3) by blast
  then show ?thesis using br_here(1) [OF assms(1)] assms(2) by (auto simp: br_seek_def br_mark_def)
qed

text \<open>Where a seek leads, as an offset from the start.\<close>

fun seek_target :: "seek_from \<Rightarrow> nat \<Rightarrow> nat \<Rightarrow> int" where
  "seek_target (SeekStart s) cur len = (if s < 2 ^ 63 then int s else 2 ^ 63 - 1)"
| "seek_target (SeekCurrent d) cur len = int cur + d"
| "seek_target (SeekEnd d) cur len = int len + d"

lemma br_current_pos:
  assumes "br_ok r"
  shows "fold (\<lambda>s acc. acc + length s) (take (bp_slice (br_cursor r)) (bytes_slices (br_inner r))) 0
    + bp_byte (br_cursor r) = br_offset r"
proof -
  have "fold (\<lambda>s acc. acc + length s) (map chunk_as_slice cs) n = n + length (content cs)" for cs n
    by (induction cs arbitrary: n) simp_all
  then show ?thesis by (simp add: bytes_slices_def take_map br_offset_def at_offset_def)
qed

lemma br_advance_spec:
  assumes r: "br_ok r"
  shows "\<exists>r'. br_advance d r = (if 0 \<le> int (br_offset r) + d \<and>
        int (br_offset r) + d \<le> int (length (bytes_content (br_inner r))) then Inr () else Inl DidntRead, r')
     \<and> br_ok r' \<and> br_inner r' = br_inner r
     \<and> (0 \<le> int (br_offset r) + d \<longrightarrow> int (br_offset r) + d \<le> int (length (bytes_content (br_inner r)))
        \<longrightarrow> int (br_offset r') = int (br_offset r) + d)"
proof (cases "d > 0")
  case True
  obtain r' where r': "br_skip (nat d) r = (if nat d \<le> length (br_pending r) then Inr () else Inl DidntRead, r')"
      "br_steps r (min (nat d) (length (br_pending r))) r'"
    using br_skip_spec [OF r] by blast
  have "length (br_pending r) = length (bytes_content (br_inner r)) - br_offset r"
    using br_okD(4) [OF r] by simp
  then have "nat d \<le> length (br_pending r) \<longleftrightarrow> int (br_offset r) + d \<le> int (length (bytes_content (br_inner r)))"
    using br_okD(3) [OF r] True by linarith
  then show ?thesis
    using r' True by (auto simp: br_advance_def default_advance_def br_steps_def)
next
  case False
  obtain r' where r': "br_backtrack (nat (- d)) r = (if nat (- d) \<le> br_offset r then Inr () else Inl DidntRead, r')"
     "br_ok r'" "br_inner r' = br_inner r" "br_offset r' = br_offset r - nat (- d)"
    using br_backtrack_spec [OF r] by blast
  then show ?thesis
    using False br_okD(3) [OF r] by (auto simp: br_advance_def default_advance_def)
qed

lemma br_io_seek_spec:
  fixes pos :: seek_from
  assumes r: "br_ok r" and small: "br_offset r < 2 ^ 63"
  defines "t \<equiv> seek_target pos (br_offset r) (length (bytes_content (br_inner r)))"
  shows "\<exists>r'. br_io_seek pos r =
      (if 0 \<le> t \<and> t \<le> int (length (bytes_content (br_inner r))) then Some t else None, r')
    \<and> br_ok r' \<and> br_inner r' = br_inner r
    \<and> (0 \<le> t \<longrightarrow> t \<le> int (length (bytes_content (br_inner r))) \<longrightarrow>
         br_pending r' = drop (nat t) (bytes_content (br_inner r)))"
proof -
  have wf: "bytes_wf (br_inner r)" using r by (simp add: br_ok_def)
  define d where "d = t - int (br_offset r)"
  have d: "d = (case pos of SeekStart s \<Rightarrow> (if s < 2 ^ 63 then int s else 2 ^ 63 - 1) - int (br_offset r)
      | SeekCurrent s \<Rightarrow> s | SeekEnd s \<Rightarrow> int (bytes_len (br_inner r)) + s - int (br_offset r))"
    by (cases pos) (simp_all add: d_def t_def bytes_len_content [OF wf])
  have eq: "br_io_seek pos r = (case br_advance d r of
      (Inr _, self') \<Rightarrow> (Some (d + int (br_offset r)), self') | (Inl _, self') \<Rightarrow> (None, self'))"
    using small unfolding br_io_seek_def br_current_pos [OF r] d by (simp add: Let_def)
  obtain r' where r': "br_advance d r = (if 0 \<le> t \<and> t \<le> int (length (bytes_content (br_inner r)))
         then Inr () else Inl DidntRead, r')" "br_ok r'" "br_inner r' = br_inner r"
     "0 \<le> t \<longrightarrow> t \<le> int (length (bytes_content (br_inner r))) \<longrightarrow> int (br_offset r') = t"
    using br_advance_spec [OF r, of d] by (auto simp: d_def)
  show ?thesis
    using r' br_okD(4) [OF r'(2)] by (auto simp: eq d_def intro!: arg_cong2 [of _ _ _ _ drop])
qed

section \<open>Views\<close>

lemma sov_push_all: "sov_wf s \<Longrightarrow> fold (\<lambda>c b. sov_push b c) cs s = sov_extend s cs"
  by (simp add: sov_extend_def)

lemma bytes_view_Some:
  assumes b: "bytes_wf b" and le: "range_start r \<le> range_end r (bytes_len b)" "range_end r (bytes_len b) \<le> bytes_len b"
  shows "\<exists>v. bytes_view b r = Some v \<and> bytes_wf v \<and> (bytes_dense b \<longrightarrow> bytes_dense v)
    \<and> bytes_content v = drop (range_start r) (take (range_end r (bytes_len b)) (bytes_content b))"
proof -
  define s where "s = range_start r"
  define e where "e = range_end r (bytes_len b)"
  have len: "bytes_len b = length (bytes_content b)" by (rule bytes_len_content [OF b])
  have se: "s \<le> e" "e \<le> length (bytes_content b)" using le by (simp_all add: s_def e_def len)
  obtain rd where rd: "br_skip s (bytes_reader b) = (Inr (), rd)" "br_steps (bytes_reader b) s rd"
    using br_skip_spec [of "bytes_reader b" s] b se by (auto simp: min_absorb1)
  have pend: "br_pending rd = drop s (bytes_content b)" "br_inner rd = b" "br_ok rd"
    using br_steps_pending [OF rd(2)] rd(2) b by (auto simp: br_steps_def)
  have norm: "bytes_dense b \<Longrightarrow> br_normal rd" using rd(2) by (auto simp: br_steps_def)
  obtain out rd' where out: "br_read_chunks (e - s) rd = (Inr out, rd')"
      "chunks_hold (take (e - s) (br_pending rd)) out" "bytes_dense b \<longrightarrow> br_normal rd \<longrightarrow> chunks_dense out"
    using br_read_chunks_spec(1) [OF pend(3), of "e - s"] diff_le_mono [OF se(2), of s]
    by (auto simp: pend)
  have "bytes_view b r = Some \<lparr>b_chunks = sov_extend sov_new out\<rparr>"
    using rd(1) out(1) se(1) by (simp add: bytes_view_def Let_def s_def e_def sov_push_all)
  then show ?thesis
    using out(2,3) norm se
    by (auto simp: bytes_wf_def bytes_dense_def bytes_content_def chunks_hold_content pend
        take_drop_split s_def e_def)
qed

lemma bytes_view_None:
  assumes b: "bytes_wf b" and small: "bytes_len b < 2 ^ 63"
    and r: "\<not> (range_start r \<le> range_end r (bytes_len b) \<and> range_end r (bytes_len b) \<le> bytes_len b)"
  shows "bytes_view b r = None"
proof -
  define s where "s = range_start r"
  define e where "e = range_end r (bytes_len b)"
  have len: "bytes_len b = length (bytes_content b)" by (rule bytes_len_content [OF b])
  obtain rd where rd: "br_skip s (bytes_reader b)
      = (if s \<le> length (bytes_content b) then Inr () else Inl DidntRead, rd)"
      "br_steps (bytes_reader b) (min s (length (bytes_content b))) rd"
    using br_skip_spec [of "bytes_reader b" s] b by auto
  have rok: "br_ok rd" using rd(2) by (simp add: br_steps_def)
  have pend: "br_pending rd = drop (min s (length (bytes_content b))) (bytes_content b)"
    using br_steps_pending [OF rd(2)] b by simp
  show ?thesis
  proof (cases "s \<le> length (bytes_content b)")
    case False
    then show ?thesis using rd(1) by (simp add: bytes_view_def Let_def s_def)
  next
    case True
    then have "length (br_pending rd) < usize_sub e s"
      using r small pend by (auto simp: usize_sub_def s_def e_def len)
    then have "br_read_chunks (usize_sub e s) rd = (Inl DidntRead, rd)"
      by (rule br_read_chunks_spec(2) [OF rok])
    then show ?thesis using rd(1) True by (simp add: bytes_view_def Let_def s_def e_def)
  qed
qed

section \<open>\<open>BytesWriter\<close> is a writer\<close>

definition bw_wf :: "bytes_writer \<Rightarrow> bool" where
  "bw_wf w \<longleftrightarrow> bytes_wf (bw_inner w) \<and> cw_wf (bw_writer w)"

definition bw_written :: "bytes_writer \<Rightarrow> u8 list" where
  "bw_written w = bytes_content (bw_inner w) @ drop (cw_start (bw_writer w)) (cw_inner (bw_writer w))"

definition bw_view :: "bytes_writer writer_view" where
  "bw_view = \<lparr>wv_inv = bw_wf, wv_written = bw_written, wv_fits = (\<lambda>_ _. True)\<rparr>"

lemma bw_wf_new [simp]: "bytes_wf b \<Longrightarrow> bw_wf (bytes_writer b)"
  by (simp add: bw_wf_def bytes_writer_def)

lemma bw_written_new [simp]: "bw_written (bytes_writer b) = bytes_content b"
  by (simp add: bw_written_def bytes_writer_def cw_new_def)

lemma bw_flushed_laws:
  assumes "bw_wf w"
  shows "bw_wf (bw_flushed w)" "bytes_content (bw_inner (bw_flushed w)) = bw_written w"
    "bw_written (bw_flushed w) = bw_written w"
    "bytes_dense (bw_inner w) \<Longrightarrow> bytes_dense (bw_inner (bw_flushed w))"
proof -
  obtain c cw where s: "cw_snapshot (bw_writer w) = (c, cw)" by force
  have c: "chunk_wf c" "cw_wf cw" "chunk_as_slice c = drop (cw_start (bw_writer w)) (cw_inner (bw_writer w))"
    using cw_snapshot_wf [OF _ s] assms cw_written [of "bw_writer w"] s by (auto simp: bw_wf_def)
  have d: "drop (cw_start cw) (cw_inner cw) = []" using s by (auto simp: cw_snapshot_def)
  have e: "chunk_is_empty c \<Longrightarrow> chunk_as_slice c = []"
    using c(1) by (simp add: chunk_is_empty_def chunk_as_slice_nil_iff)
  show 1: "bytes_content (bw_inner (bw_flushed w)) = bw_written w"
    using s c e assms by (auto simp: bw_flushed_def bw_written_def bw_wf_def)
  show "bw_wf (bw_flushed w)" "bytes_dense (bw_inner w) \<Longrightarrow> bytes_dense (bw_inner (bw_flushed w))"
    using s c assms by (auto simp: bw_flushed_def bw_wf_def)
  have "bw_written (bw_flushed w) = bytes_content (bw_inner (bw_flushed w))"
    using s d by (simp add: bw_flushed_def bw_written_def)
  then show "bw_written (bw_flushed w) = bw_written w" using 1 by simp
qed

lemma bw_drop_laws:
  assumes "bw_wf w"
  shows "bytes_wf (bw_drop w)" "bytes_content (bw_drop w) = bw_written w"
    "bytes_dense (bw_inner w) \<Longrightarrow> bytes_dense (bw_drop w)"
  using bw_flushed_laws [OF assms] by (simp_all add: bw_drop_def bw_wf_def)

lemma emits_bw_lift:
  assumes "emits cw_view m bs"
  shows "emits bw_view (bw_lift m) bs"
  unfolding emits_def
proof (intro allI impI)
  fix w assume "wv_inv bw_view w"
  then have w: "bw_wf w" by (simp add: bw_view_def)
  then obtain x cw where "m (bw_writer w) = (Inr x, cw)" "appends cw_view (bw_writer w) bs cw"
    using emits_fitsD [OF assms, of "bw_writer w"] by (auto simp: cw_view_def bw_wf_def)
  then show "if wv_fits bw_view w (length bs)
    then \<exists>x w'. bw_lift m w = (Inr x, w') \<and> appends bw_view w bs w'
    else \<exists>k w'. bw_lift m w = (Inl DidntWrite, w') \<and> k < length bs \<and> appends bw_view w (take k bs) w'"
    using w by (simp add: bw_view_def bw_lift_def appends_def bw_wf_def bw_written_def cw_view_def cw_written)
qed

lemma takes_some_bw_lift:
  assumes "takes_some cw_view m bs"
  shows "takes_some bw_view (bw_lift m) bs"
  unfolding takes_some_def
proof (intro allI impI)
  fix w assume "wv_inv bw_view w"
  then have w: "bytes_wf (bw_inner w)" "wv_inv cw_view (bw_writer w)" by (simp_all add: bw_view_def bw_wf_def cw_view_def)
  have lift: "appends bw_view w ds (w\<lparr>bw_writer := cw\<rparr>)" if "appends cw_view (bw_writer w) ds cw" for ds cw
    using that w(1) by (simp add: bw_view_def appends_def bw_wf_def bw_written_def cw_view_def cw_written)
  have fits: "wv_fits bw_view w n" "wv_fits cw_view (bw_writer w) n" for n
    by (simp_all add: bw_view_def cw_view_def)
  from assms w(2) consider (some) k cw where "m (bw_writer w) = (Inr k, cw)" "0 < k" "k \<le> length bs"
      "appends cw_view (bw_writer w) (take k bs) cw" "k < length bs \<longrightarrow> \<not> wv_fits cw_view (bw_writer w) (Suc k)"
    | (none) "m (bw_writer w) = (Inl DidntWrite, bw_writer w)" "bs = []"
    using fits by (auto simp: takes_some_def)
  then show "(\<exists>k w'. bw_lift m w = (Inr k, w') \<and> 0 < k \<and> k \<le> length bs \<and> appends bw_view w (take k bs) w'
        \<and> (k < length bs \<longrightarrow> \<not> wv_fits bw_view w (Suc k)))
     \<or> (bw_lift m w = (Inl DidntWrite, w) \<and> (bs = [] \<or> \<not> wv_fits bw_view w 1))"
  proof cases
    case some
    then show ?thesis using lift fits by (auto simp: bw_lift_def)
  next
    case none
    then show ?thesis by (simp add: bw_lift_def)
  qed
qed

lemma emits_bw_write_chunk:
  assumes c: "chunk_wf c"
  shows "emits bw_view (bw_write_chunk c) (chunk_as_slice c)"
proof -
  have "appends bw_view w (chunk_as_slice c) (snd (bw_write_chunk c w))" if w: "bw_wf w" for w
  proof -
    have f: "bw_wf (bw_flushed w)" "bytes_content (bw_inner (bw_flushed w)) = bw_written w"
        "bw_written (bw_flushed w) = bw_written w"
      using bw_flushed_laws [OF w] by auto
    have "drop (cw_start (bw_writer (bw_flushed w))) (cw_inner (bw_writer (bw_flushed w))) = []"
      using f(2,3) by (simp add: bw_written_def)
    then show ?thesis
      using f c by (auto simp: bw_view_def appends_def bw_write_chunk_def Let_def bw_wf_def bw_written_def
          chunk_is_empty_def chunk_as_slice_nil_iff)
  qed
  then show ?thesis by (auto simp: emits_def bw_view_def bw_write_chunk_def Let_def)
qed

lemma bw_write_chunk_dense:
  "bw_wf w \<Longrightarrow> chunk_wf c \<Longrightarrow> bytes_dense (bw_inner w) \<Longrightarrow> bytes_dense (bw_inner (snd (bw_write_chunk c w)))"
  using bw_flushed_laws [of w] by (auto simp: bw_write_chunk_def Let_def bw_wf_def)

interpretation bytes_w: writer bw_ops bw_view
proof unfold_locales
  fix c assume "chunk_wf c" "chunk_len c \<noteq> 0"
  then show "emits bw_view (w_write_chunk bw_ops c) (chunk_as_slice c)"
    by (simp add: bw_ops_def emits_bw_write_chunk)
next
  fix bs show "takes_some bw_view (w_write bw_ops bs) bs"
    by (simp add: bw_ops_def takes_some_bw_lift takes_some_cw_write)
qed (simp_all add: bw_ops_def emits_bw_lift default_write_u8_def cw_with_slot_def emits_cw_lift
    emits_vec_with_slot emits_cw_write_exact, simp_all add: bw_view_def)

section \<open>Properties\<close>



text \<open>\<open>io::Seek\<close> goes to the offset that the argument names, from the start, the
  current position or the end, when it lies within the contents, and fails otherwise.\<close>

theorem bytes_io_seek:
  assumes "br_ok r" "br_offset r < 2 ^ 63"
  defines "len \<equiv> length (bytes_content (br_inner r))"
  shows "\<exists>r'. br_io_seek s r =
      (if 0 \<le> seek_target s (br_offset r) len \<and> seek_target s (br_offset r) len \<le> int len
       then Some (seek_target s (br_offset r) len) else None, r')
    \<and> br_ok r' \<and> (0 \<le> seek_target s (br_offset r) len \<longrightarrow> seek_target s (br_offset r) len \<le> int len \<longrightarrow>
         br_pending r' = drop (nat (seek_target s (br_offset r) len)) (bytes_content (br_inner r)))"
  using br_io_seek_spec [OF assms(1,2), of s] unfolding len_def by blast

theorem bytes_io_seek_witness:
  "\<exists>r'. br_io_seek (SeekEnd (- 1)) (bytes_reader (bytes_from (DynVec [1, 2, 3]))) = (Some 2, r')
     \<and> br_pending r' = [3]"
  using bytes_io_seek [of "bytes_reader (bytes_from (DynVec [1, 2, 3]))" "SeekEnd (- 1)"]
  by (auto simp: bytes_from_def)

text \<open>\<open>view\<close> of a range inside the contents is that part of them; any other range gives
  \<open>None\<close>, also one whose end lies before its start (in a build that wraps).\<close>

theorem bytes_view_range:
  assumes "bytes_wf b" "bytes_len b < 2 ^ 63"
  shows "case bytes_view b (range_between s e) of
      Some v \<Rightarrow> s \<le> e \<and> e \<le> bytes_len b \<and> bytes_wf v \<and> bytes_content v = drop s (take e (bytes_content b))
    | None \<Rightarrow> \<not> (s \<le> e \<and> e \<le> bytes_len b)"
proof (cases "s \<le> e \<and> e \<le> bytes_len b")
  case True
  then show ?thesis using bytes_view_Some [OF assms(1), of "range_between s e"] by auto
next
  case False
  then show ?thesis using bytes_view_None [OF assms, of "range_between s e"] by simp
qed

theorem bytes_view_range_witness:
  "case bytes_view (bytes_from (DynVec [1, 2, 3])) (range_between 1 3) of
     Some v \<Rightarrow> bytes_content v = [2, 3] | None \<Rightarrow> False"
  using bytes_view_range [of "bytes_from (DynVec [1, 2, 3])" 1 3]
  by (auto simp: bytes_from_def bytes_len_content split: option.splits)

text \<open>After \<open>backtrack\<close> to a chunk boundary the cursor stays behind the last byte of
  the chunk before it, and \<open>read_u8\<close> fails although bytes are left.\<close>

theorem backtrack_then_read_u8:
  "let b = bytes_push (bytes_from (DynVec [1, 2])) (chunk_from (DynVec [3, 4]));
       r = snd (br_backtrack 1 (snd (br_skip 3 (bytes_reader b))))
   in br_offset r = 2 \<and> br_pending r = [3, 4] \<and> br_read_u8 r = (Inl DidntRead, r)"
  by code_simp

text \<open>What is written through \<open>BytesWriter\<close> and the chunks handed to it end up in the
  collection in the order of the calls, without empty chunks.\<close>

theorem bytes_writer_order:
  assumes "bytes_wf b" "chunk_wf c" "xs \<noteq> []" "ys \<noteq> []"
  defines "m \<equiv> andthen (w_write_exact bw_ops xs) (\<lambda>_. andthen (w_write_chunk bw_ops c) (\<lambda>_. w_write_exact bw_ops ys))"
  shows "\<exists>w. m (bytes_writer b) = (Inr (), w) \<and> bytes_wf (bw_drop w)
    \<and> bytes_content (bw_drop w) = bytes_content b @ xs @ chunk_as_slice c @ ys"
proof -
  have "emits bw_view (w_write_chunk bw_ops c) (chunk_as_slice c)"
    by (simp add: bw_ops_def emits_bw_write_chunk assms(2))
  then have "emits bw_view m (xs @ chunk_as_slice c @ ys)"
    unfolding m_def by (intro bytes_w.emits_andthen bytes_w.emits_exact assms(3,4))
  then obtain w where "m (bytes_writer b) = (Inr (), w)" "appends bw_view (bytes_writer b) (xs @ chunk_as_slice c @ ys) w"
    using emits_fitsD [of bw_view m "xs @ chunk_as_slice c @ ys" "bytes_writer b"] assms(1) by (auto simp: bw_view_def)
  then show ?thesis
    using bw_drop_laws [of w] by (simp add: appends_def bw_view_def)
qed

theorem bytes_writer_order_witness:
  "\<exists>w. andthen (w_write_exact bw_ops [1]) (\<lambda>_. andthen (w_write_chunk bw_ops (chunk_from (DynVec [2, 3])))
      (\<lambda>_. w_write_exact bw_ops [4])) (bytes_writer bytes_new) = (Inr (), w)
    \<and> bytes_content (bw_drop w) = [1, 2, 3, 4]"
  using bytes_writer_order [of bytes_new "chunk_from (DynVec [2, 3])" "[1]" "[4]"] by auto

end
