(* ===== verification/Vle.thy ===== *)
theory Vle
  imports Bytes_Cursor
begin

text \<open>
  \<open>src/codec/core/vle.rs\<close>: integers in 1 to 9 bytes, seven bits at a time with the top bit
  as continuation mark, the ninth byte whole.  The codec is generic in its writer and its
  reader, so its functions take the dictionary of the one they use.
\<close>

section \<open>Lengths\<close>

text \<open>The constants \<open>B1\<close> to \<open>B8\<close>.\<close>

definition vle_B :: "nat \<Rightarrow> u64" where
  "vle_B n = push_bit (7 * n) (- 1)"

definition vle_len :: "u64 \<Rightarrow> nat" where
  "vle_len x = (if x AND vle_B 1 = 0 then 1 else if x AND vle_B 2 = 0 then 2
     else if x AND vle_B 3 = 0 then 3 else if x AND vle_B 4 = 0 then 4
     else if x AND vle_B 5 = 0 then 5 else if x AND vle_B 6 = 0 then 6
     else if x AND vle_B 7 = 0 then 7 else if x AND vle_B 8 = 0 then 8 else 9)"

definition VLE_LEN_MAX :: nat where
  "VLE_LEN_MAX = vle_len (- 1)"

definition w_len_u64 :: "u64 \<Rightarrow> nat" where "w_len_u64 x = vle_len x"
definition w_len_usize :: "nat \<Rightarrow> nat" where "w_len_usize x = w_len_u64 (of_nat x)"
definition w_len_u32 :: "u32 \<Rightarrow> nat" where "w_len_u32 x = w_len_u64 (ucast x)"
definition w_len_u16 :: "u16 \<Rightarrow> nat" where "w_len_u16 x = w_len_u64 (ucast x)"
definition w_len_u8 :: "u8 \<Rightarrow> nat" where "w_len_u8 x = 1"

section \<open>Writing and reading\<close>

definition write_u8 :: "'w writer_ops \<Rightarrow> u8 \<Rightarrow> ('w, write_err, unit) op" where
  "write_u8 W x = w_write_u8 W x"

definition read_u8 :: "'r reader_ops \<Rightarrow> ('r, read_err, u8) op" where
  "read_u8 R = r_read_u8 R"

lemma drop_bit_7_less: "(x :: u64) AND NOT 0x7f \<noteq> 0 \<Longrightarrow> unat (drop_bit 7 x) < unat x"
proof -
  assume "x AND NOT 0x7f \<noteq> 0"
  then have "0 < unat x" by (cases "x = 0") (auto simp: unat_gt_0)
  then show ?thesis by (simp add: drop_bit_eq_div unat_div)
qed

text \<open>
  The closure that \<open>write\<close> runs on the slot: the loop with its unchecked stores, then the
  last byte.  \<open>None\<close> is a store out of the slot.
\<close>

function vle_write_loop :: "u64 \<Rightarrow> u8 list \<Rightarrow> nat \<Rightarrow> (u8 list \<times> nat) option" where
  "vle_write_loop x buffer len =
     (if x AND NOT 0x7f \<noteq> 0 then
        (if len < length buffer
         then vle_write_loop (drop_bit 7 x) (buffer[len := (ucast x) OR 0x80]) (len + 1) else None)
      else if len \<noteq> VLE_LEN_MAX then
        (if len < length buffer then Some (buffer[len := ucast x], len + 1) else None)
      else Some (buffer, len))"
  by pat_completeness auto
termination
  by (relation "measure (\<lambda>(x, buffer, len). unat x)") (auto intro: drop_bit_7_less)

declare vle_write_loop.simps [simp del]

definition vle_slot :: "u64 \<Rightarrow> slot_fn" where
  "vle_slot x buffer = vle_write_loop x buffer 0"

definition write_u64 :: "'w writer_ops \<Rightarrow> u64 \<Rightarrow> ('w, write_err, unit) op" where
  "write_u64 W x = andthen (w_with_slot W (w_len_u64 x) (vle_slot x)) (\<lambda>_. ok ())"

text \<open>
  The loop of \<open>read\<close>.  The shift \<open>i\<close> starts at 0 and grows by 7, so the test
  \<open>i \<noteq> 7 * (VLE_LEN_MAX - 1)\<close> lets it run \<open>VLE_LEN_MAX - 1\<close> times at most: the first
  argument counts these down.
\<close>

primrec vle_read_loop :: "nat \<Rightarrow> 'r reader_ops \<Rightarrow> u64 \<Rightarrow> nat \<Rightarrow> u8 \<Rightarrow> ('r, read_err, u64) op" where
  "vle_read_loop 0 R v i b = ok (v OR push_bit i (ucast b))"
| "vle_read_loop (Suc left) R v i b =
     (if b AND 0x80 \<noteq> 0
      then andthen (r_read_u8 R) (vle_read_loop left R (v OR push_bit i (ucast (b AND 0x7f))) (i + 7))
      else ok (v OR push_bit i (ucast b)))"

definition read_u64 :: "'r reader_ops \<Rightarrow> ('r, read_err, u64) op" where
  "read_u64 R = andthen (r_read_u8 R) (vle_read_loop (VLE_LEN_MAX - 1) R 0 0)"

definition write_u32 :: "'w writer_ops \<Rightarrow> u32 \<Rightarrow> ('w, write_err, unit) op" where
  "write_u32 W x = write_u64 W (ucast x)"

definition read_u32 :: "'r reader_ops \<Rightarrow> ('r, read_err, u32) op" where
  "read_u32 R = andthen (read_u64 R) (\<lambda>x. ok (ucast x))"

definition write_u16 :: "'w writer_ops \<Rightarrow> u16 \<Rightarrow> ('w, write_err, unit) op" where
  "write_u16 W x = write_u64 W (ucast x)"

definition read_u16 :: "'r reader_ops \<Rightarrow> ('r, read_err, u16) op" where
  "read_u16 R = andthen (read_u64 R) (\<lambda>x. ok (ucast x))"

definition write_usize :: "'w writer_ops \<Rightarrow> nat \<Rightarrow> ('w, write_err, unit) op" where
  "write_usize W x = write_u64 W (of_nat x)"

definition read_usize :: "'r reader_ops \<Rightarrow> ('r, read_err, nat) op" where
  "read_usize R = andthen (read_u64 R) (\<lambda>x. ok (unat x))"

section \<open>The encoding\<close>

text \<open>The specification: the bytes of an encoding with at most \<open>k\<close> continuation bytes.\<close>

primrec vle_enc :: "nat \<Rightarrow> u64 \<Rightarrow> u8 list" where
  "vle_enc 0 x = [ucast x]"
| "vle_enc (Suc k) x = (if drop_bit 7 x = 0 then [ucast x] else (ucast x OR 0x80) # vle_enc k (drop_bit 7 x))"

definition vle :: "u64 \<Rightarrow> u8 list" where
  "vle x = vle_enc 8 x"

lemma and_push_bit_minus: "(x :: u64) AND push_bit n (- 1) = 0 \<longleftrightarrow> drop_bit n x = 0"
proof -
  have *: "x AND push_bit n (- 1) = push_bit n (drop_bit n x)"
    by (rule bit_word_eqI) (auto simp: bit_simps)
  have "drop_bit n (push_bit n (drop_bit n x)) = drop_bit n x"
  proof (rule bit_word_eqI)
    fix m show "bit (drop_bit n (push_bit n (drop_bit n x))) m \<longleftrightarrow> bit (drop_bit n x) m"
      using bit_imp_le_length [of x "n + m"] by (auto simp: bit_drop_bit_eq bit_push_bit_iff)
  qed
  then show ?thesis using * by (metis drop_bit_of_0 push_bit_of_0)
qed

lemma vle_B_iff: "x AND vle_B n = 0 \<longleftrightarrow> drop_bit (7 * n) x = 0"
  unfolding vle_B_def by (rule and_push_bit_minus)

lemma not_7f: "NOT (0x7f :: u64) = push_bit 7 (- 1)"
  by (simp flip: minus_exp_eq_not_mask)

lemma continue_iff: "(x :: u64) AND NOT 0x7f = 0 \<longleftrightarrow> drop_bit 7 x = 0"
  unfolding not_7f by (rule and_push_bit_minus)

lemma continue_iff' [simp]: "(x :: u64) AND - 128 = 0 \<longleftrightarrow> drop_bit 7 x = 0"
  using continue_iff [of x] by simp

lemma drop_bit_64_0: "64 \<le> n \<Longrightarrow> drop_bit n (x :: u64) = 0"
proof (rule bit_word_eqI)
  fix m assume "64 \<le> n"
  then show "bit (drop_bit n x) m \<longleftrightarrow> bit (0 :: u64) m"
    using bit_imp_le_length [of x "n + m"] by (auto simp: bit_drop_bit_eq)
qed

lemma drop_bit_0_mono: "drop_bit m (x :: u64) = 0 \<Longrightarrow> m \<le> n \<Longrightarrow> drop_bit n x = 0"
proof -
  assume "drop_bit m x = 0" "m \<le> n"
  moreover have "drop_bit (n - m) (drop_bit m x) = drop_bit n x"
    using \<open>m \<le> n\<close> by (simp add: drop_bit_drop_bit)
  ultimately show ?thesis by simp
qed

lemma vle_enc_ne: "vle_enc k x \<noteq> []"
  by (cases k) simp_all

lemma vle_enc_numeral:
  "vle_enc (numeral n) x = (if drop_bit 7 x = 0 then [ucast x]
     else (ucast x OR 0x80) # vle_enc (pred_numeral n) (drop_bit 7 x))"
  by (simp add: numeral_eq_Suc)

lemma length_vle [simp]: "length (vle x) = vle_len x"
  by (simp add: vle_def vle_enc_numeral vle_len_def vle_B_iff drop_bit_drop_bit)

lemma vle_len_bounds: "1 \<le> vle_len x" "vle_len x \<le> 9"
  by (simp_all add: vle_len_def)

lemma VLE_LEN_MAX_9 [simp]: "VLE_LEN_MAX = 9"
proof -
  have "drop_bit n (- 1 :: u64) \<noteq> 0" if "n < 64" for n
  proof
    assume "drop_bit n (- 1 :: u64) = 0"
    then have "bit (drop_bit n (- 1 :: u64)) 0 = bit (0 :: u64) 0" by (rule arg_cong)
    then show False using that by (simp add: bit_drop_bit_eq bit_mask_iff)
  qed
  then have "vle_B n \<noteq> 0" if "n \<le> 8" for n
    using that vle_B_iff [of "- 1" n] by simp
  then show ?thesis by (simp add: VLE_LEN_MAX_def vle_len_def)
qed

lemma vle_ne [simp]: "vle x \<noteq> []"
  using vle_len_bounds(1) [of x] by (metis length_vle list.size(3) not_one_le_zero)

text \<open>The loop writes the encoding, inside the slot.\<close>

lemma ucast_or_80:
  fixes x :: u64
  assumes "drop_bit 8 x = 0" "drop_bit 7 x \<noteq> 0"
  shows "(ucast x :: u8) OR 0x80 = ucast x"
proof -
  have "bit x 7"
  proof (rule ccontr)
    assume "\<not> bit x 7"
    have "drop_bit 7 x = 0"
    proof (rule bit_word_eqI)
      fix n
      have "bit (drop_bit 8 x) (n - 1) = bit (0 :: u64) (n - 1)" using assms(1) by simp
      then show "bit (drop_bit 7 x) n \<longleftrightarrow> bit (0 :: u64) n"
        using \<open>\<not> bit x 7\<close> by (cases n) (auto simp: bit_drop_bit_eq)
    qed
    then show False using assms(2) by simp
  qed
  then show ?thesis
    by (intro bit_word_eqI) (auto simp: bit_simps)
qed

lemma vle_write_loop_enc:
  assumes "drop_bit (8 + 7 * k) x = 0" "len + k = 8" "len + length (vle_enc k x) \<le> length buf"
  shows "vle_write_loop x buf len =
    Some (take len buf @ vle_enc k x @ drop (len + length (vle_enc k x)) buf, len + length (vle_enc k x))"
  using assms
proof (induction k arbitrary: x len buf)
  case 0
  then have lt: "len < length buf" "len = 8" by simp_all
  show ?case
  proof (cases "drop_bit 7 x = 0")
    case True
    then show ?thesis
      using lt by (simp add: vle_write_loop.simps [of x] continue_iff upd_conv_take_nth_drop)
  next
    case False
    have "drop_bit 7 (drop_bit 7 x) = 0"
      using drop_bit_0_mono [of 8 x 14] 0 by (simp add: drop_bit_drop_bit)
    then have "vle_write_loop (drop_bit 7 x) (buf[len := ucast x OR 0x80]) (len + 1)
        = Some (buf[len := ucast x OR 0x80], 9)"
      using lt by (simp add: vle_write_loop.simps [of "drop_bit 7 x"] continue_iff)
    then show ?thesis
      using lt False ucast_or_80 [of x] 0(1)
      by (simp add: vle_write_loop.simps [of x] continue_iff upd_conv_take_nth_drop)
  qed
next
  case (Suc k)
  then have lt: "len < length buf" "len \<noteq> 9" by (simp_all split: if_splits)
  show ?case
  proof (cases "drop_bit 7 x = 0")
    case True
    then show ?thesis
      using lt by (simp add: vle_write_loop.simps [of x] continue_iff upd_conv_take_nth_drop)
  next
    case False
    let ?buf = "buf[len := ucast x OR 0x80]"
    have "vle_write_loop (drop_bit 7 x) ?buf (Suc len) = Some (take (Suc len) ?buf @ vle_enc k (drop_bit 7 x)
        @ drop (Suc len + length (vle_enc k (drop_bit 7 x))) ?buf, Suc len + length (vle_enc k (drop_bit 7 x)))"
      using Suc.prems False by (intro Suc.IH) (simp_all add: drop_bit_drop_bit algebra_simps)
    moreover have "take (Suc len) ?buf = take len buf @ [ucast x OR 0x80]"
      using lt by (simp add: take_Suc_conv_app_nth)
    ultimately show ?thesis
      using lt False by (simp add: vle_write_loop.simps [of x] continue_iff)
  qed
qed

lemma fills_vle: "fills (vle_slot x) (vle_len x) (vle x)"
  unfolding fills_def
proof (intro conjI allI impI)
  fix slot :: "u8 list" assume "length slot = vle_len x"
  then have l: "length (vle_enc 8 x) = length slot" using length_vle [of x] by (simp add: vle_def)
  have "vle_slot x slot = Some (vle_enc 8 x, length (vle_enc 8 x))"
    using vle_write_loop_enc [of 8 x 0 slot] l by (simp add: vle_slot_def drop_bit_64_0)
  then show "\<exists>slot'. vle_slot x slot = Some (slot', length (vle x)) \<and> length slot' = vle_len x
      \<and> take (length (vle x)) slot' = vle x"
    by (metis length_vle order_refl take_all vle_def)
qed simp

text \<open>The reading loop puts the value together again.\<close>

lemma vle_bits:
  fixes y :: u64
  shows "push_bit i (ucast ((ucast y OR 0x80 :: u8) AND 0x7f)) OR push_bit (i + 7) (drop_bit 7 y) = push_bit i y"
proof (rule bit_word_eqI)
  fix n :: nat assume n: "n < LENGTH(64)"
  have 7: "(0x7f :: u8) = mask 7" by (simp add: mask_eq_exp_minus_1)
  show "bit (push_bit i (ucast ((ucast y OR 0x80 :: u8) AND 0x7f)) OR push_bit (i + 7) (drop_bit 7 y)) n
      \<longleftrightarrow> bit (push_bit i y) n"
    using n unfolding 7
    by (cases "n < i + 7") (auto simp: bit_simps)
qed

lemma vle_last_bits:
  fixes y :: u64
  assumes "drop_bit 8 y = 0"
  shows "(ucast (ucast y :: u8) :: u64) = y"
proof (rule bit_word_eqI)
  fix n :: nat assume "n < LENGTH(64)"
  have "bit (drop_bit 8 y) (n - 8) = bit (0 :: u64) (n - 8)" using assms by simp
  then show "bit (ucast (ucast y :: u8) :: u64) n \<longleftrightarrow> bit y n"
    using \<open>n < LENGTH(64)\<close> by (cases "n < 8") (auto simp: bit_simps)
qed

lemma bit_7_ucast: "(ucast (y :: u64) :: u8) AND 0x80 \<noteq> 0 \<longleftrightarrow> bit y 7"
  using and_bit_nonzero_iff [of 7 "ucast y :: u8"] by (simp add: bit_simps)

lemma drop_bit_7_bit: "drop_bit 7 (y :: u64) = 0 \<Longrightarrow> \<not> bit y 7 \<and> drop_bit 8 y = 0"
proof
  assume a: "drop_bit 7 y = 0"
  then have "bit (drop_bit 7 y) 0 = bit (0 :: u64) 0" by simp
  then show "\<not> bit y 7" by (simp add: bit_drop_bit_eq)
  show "drop_bit 8 y = 0" by (rule drop_bit_0_mono [OF a]) simp
qed

lemma ucast_up_down_32: "(ucast (ucast (x :: u32) :: u64) :: u32) = x"
  and ucast_up_down_16: "(ucast (ucast (y :: u16) :: u64) :: u16) = y"
  by (rule bit_word_eqI; auto simp: bit_simps)+

context reader begin

lemma parses_vle_loop:
  assumes "drop_bit (8 + 7 * k) y = 0" "vle_enc k y = b # bs"
  shows "parses V (vle_read_loop k R v i b) ((=) (v OR push_bit i y)) bs"
    and "starves V (vle_read_loop k R v i b) bs"
proof -
  have "parses V (vle_read_loop k R v i b) ((=) (v OR push_bit i y)) bs \<and> starves V (vle_read_loop k R v i b) bs"
    using assms
  proof (induction k arbitrary: y b bs v i)
    case 0
    then show ?case by (auto intro!: parses_ok simp: vle_last_bits simp del: ok_apply)
  next
    case (Suc k)
    show ?case
    proof (cases "drop_bit 7 y = 0")
      case True
      then have b: "b = ucast y" "bs = []" "\<not> b AND 0x80 \<noteq> 0" "drop_bit 8 y = 0"
        using Suc.prems(2) drop_bit_7_bit [OF True] bit_7_ucast [of y] by auto
      then show ?thesis by (auto intro!: parses_ok simp: vle_last_bits simp del: ok_apply)
    next
      case False
      then have b: "b = ucast y OR 0x80" "bs = vle_enc k (drop_bit 7 y)"
        using Suc.prems(2) by auto
      obtain c cs where cs: "vle_enc k (drop_bit 7 y) = c # cs"
        by (metis list.exhaust vle_enc_ne)
      let ?v = "v OR push_bit i (ucast (b AND 0x7f))"
      have ih: "parses V (vle_read_loop k R ?v (i + 7) c) ((=) (?v OR push_bit (i + 7) (drop_bit 7 y))) cs
          \<and> starves V (vle_read_loop k R ?v (i + 7) c) cs"
        using Suc.prems(1) by (intro Suc.IH cs) (simp add: drop_bit_drop_bit algebra_simps)
      have val: "?v OR push_bit (i + 7) (drop_bit 7 y) = v OR push_bit i y"
        using vle_bits [of i y] by (simp add: b(1) or.assoc)
      have "b AND 0x80 \<noteq> 0"
      proof -
        have "bit (b AND 0x80) 7" by (simp add: b(1) bit_simps)
        then show ?thesis by auto
      qed
      then have unf: "vle_read_loop (Suc k) R v i b = andthen (r_read_u8 R) (vle_read_loop k R ?v (i + 7))"
        by (intro ext) simp
      have "parses V (andthen (r_read_u8 R) (vle_read_loop k R ?v (i + 7))) ((=) (v OR push_bit i y)) ([c] @ cs)"
        using ih val by (intro parses_andthen [OF parses_u8]) auto
      moreover have "starves V (andthen (r_read_u8 R) (vle_read_loop k R ?v (i + 7))) ([c] @ cs)"
        using ih by (intro starves_andthen [OF parses_u8 starves_u8]) auto
      ultimately show ?thesis unfolding unf by (simp add: b(2) cs)
    qed
  qed
  then show "parses V (vle_read_loop k R v i b) ((=) (v OR push_bit i y)) bs"
    and "starves V (vle_read_loop k R v i b) bs" by auto
qed

lemma parses_u64 [codec_intros]: "parses V (read_u64 R) ((=) x) (vle x)"
  and starves_u64 [codec_intros]: "starves V (read_u64 R) (vle x)"
proof -
  obtain b bs where bs: "vle_enc 8 x = b # bs" by (metis list.exhaust vle_def vle_ne)
  have loop: "parses V (vle_read_loop 8 R 0 0 b) ((=) x) bs" "starves V (vle_read_loop 8 R 0 0 b) bs"
    using parses_vle_loop [OF drop_bit_64_0 bs, of 0 0] by simp_all
  have "parses V (read_u64 R) ((=) x) ([b] @ bs)"
    unfolding read_u64_def by (rule parses_andthen [OF parses_u8]) (use loop in auto)
  moreover have "starves V (read_u64 R) ([b] @ bs)"
    unfolding read_u64_def by (rule starves_andthen [OF parses_u8 starves_u8]) (use loop in auto)
  ultimately show "parses V (read_u64 R) ((=) x) (vle x)" "starves V (read_u64 R) (vle x)"
    by (simp_all add: vle_def bs)
qed

lemma parses_u32: "parses V (read_u32 R) ((=) x) (vle (ucast x))"
  and starves_u32: "starves V (read_u32 R) (vle (ucast x))"
  unfolding read_u32_def
  by (auto intro: parses_map [OF parses_u64] starves_map [OF parses_u64 starves_u64] simp: ucast_up_down_32)

lemma parses_u16: "parses V (read_u16 R) ((=) x) (vle (ucast x))"
  and starves_u16: "starves V (read_u16 R) (vle (ucast x))"
  unfolding read_u16_def
  by (auto intro: parses_map [OF parses_u64] starves_map [OF parses_u64 starves_u64] simp: ucast_up_down_16)

lemma parses_usize: "n < 2 ^ 64 \<Longrightarrow> parses V (read_usize R) ((=) n) (vle (of_nat n))"
  and starves_usize: "starves V (read_usize R) (vle (of_nat n))"
  unfolding read_usize_def
  by (auto intro: parses_map [OF parses_u64] starves_map [OF parses_u64 starves_u64])

end

context writer begin

lemma emits_u64: "emits V (write_u64 W x) (vle x)"
  unfolding write_u64_def
  using emits_slot [OF vle_ne, of "vle_slot x" x] fills_vle [of x]
  by (intro emits_then_ok) (simp add: w_len_u64_def)

lemma emits_u32: "emits V (write_u32 W x) (vle (ucast x))"
  by (simp add: write_u32_def emits_u64)

lemma emits_u16: "emits V (write_u16 W x) (vle (ucast x))"
  by (simp add: write_u16_def emits_u64)

lemma emits_usize: "emits V (write_usize W n) (vle (of_nat n))"
  by (simp add: write_usize_def emits_u64)

lemma emits_byte: "emits V (write_u8 W b) [b]"
  by (simp add: write_u8_def emits_u8)

end

section \<open>Properties\<close>

text \<open>C33: any \<open>u64\<close> is written as \<open>w_len\<close> bytes, 1 to 9 of them, and read back from them
  whatever follows.\<close>

theorem vle_roundtrip:
  "write_u64 vec_writer_ops x v = (Inr (), v @ vle x) \<and> length (vle x) = w_len_u64 x
   \<and> 1 \<le> w_len_u64 x \<and> w_len_u64 x \<le> 9
   \<and> read_u64 slice_reader_ops (vle x @ rest) = (Inr x, rest)"
proof -
  obtain u w where "write_u64 vec_writer_ops x v = (Inr u, w)" "appends vec_writer_view v (vle x) w"
    using emits_fitsD [OF vec_w.emits_u64] by (auto simp: vec_writer_view_def)
  moreover obtain y r where "read_u64 slice_reader_ops (vle x @ rest) = (Inr y, r)" "x = y" "r = rest"
    using parsesD [OF slice_r.parses_u64, of "vle x @ rest" x rest] by (auto simp: slice_reader_view_def)
  ultimately show ?thesis
    using vle_len_bounds by (auto simp: w_len_u64_def appends_def vec_writer_view_def)
qed

text \<open>The length of an encoding is the least number of seven-bit groups that holds the
  value, and nine bytes hold every value.\<close>

theorem vle_len_least:
  assumes "1 \<le> n" "n \<le> 8"
  shows "w_len_u64 x \<le> n \<longleftrightarrow> unat x < 2 ^ (7 * n)"
proof -
  have *: "drop_bit k x = 0 \<longleftrightarrow> unat x < 2 ^ k" for k
  proof -
    have "drop_bit k x = 0 \<longleftrightarrow> unat x div 2 ^ k = 0"
      by (metis drop_bit_eq_div unat_0 unat_drop_bit_eq word_unat_eq_iff)
    then show ?thesis by (simp add: div_eq_0_iff)
  qed
  have mono: "unat x < 2 ^ (7 * n)" if a: "unat x < 2 ^ (7 * k)" and k: "k \<le> n" for k
  proof -
    have "(2 :: nat) ^ (7 * k) \<le> 2 ^ (7 * n)" by (rule power_increasing) (use k in simp_all)
    then show ?thesis by (rule less_le_trans [OF a])
  qed
  have "n \<in> {1, 2, 3, 4, 5, 6, 7, 8}" using assms by auto
  then show ?thesis
    using mono [of 1] mono [of 2] mono [of 3] mono [of 4] mono [of 5] mono [of 6] mono [of 7]
    by (auto simp: w_len_u64_def vle_len_def vle_B_iff * split: if_splits)
qed

theorem vle_len_least_witness: "w_len_u64 16383 \<le> 2 \<and> \<not> w_len_u64 16384 \<le> 2"
  using vle_len_least [of 2 16383] vle_len_least [of 2 16384] by simp

end
