(* ===== verification/Seq_Num.thy ===== *)
theory Seq_Num
  imports Qos
begin

text \<open>
  \<open>src/protocol/core/seq_num.rs\<close>: the 28-bit sequence number with wrap-around and its
  comparison by serial-number arithmetic.
\<close>

section \<open>The type and its operations\<close>

definition SN_MASK :: u32 where "SN_MASK = drop_bit 4 (- 1)"

datatype seq_num = SeqNum (sn_get: u32)

definition sn_new :: "u32 \<Rightarrow> seq_num" where
  "sn_new value = SeqNum (value AND SN_MASK)"

definition sn_set :: "seq_num \<Rightarrow> seq_num \<Rightarrow> seq_num" where
  "sn_set self sn = sn"

definition sn_next :: "seq_num \<Rightarrow> seq_num" where
  "sn_next self = SeqNum ((sn_get self + 1) AND SN_MASK)"

text \<open>\<open>increment\<close> returns the new value; the second component is the updated \<open>self\<close>.\<close>

definition sn_increment :: "seq_num \<Rightarrow> seq_num \<times> seq_num" where
  "sn_increment self = (let next = sn_next self in (next, sn_set self next))"

definition sn_cmp :: "seq_num \<Rightarrow> seq_num \<Rightarrow> ordering" where
  "sn_cmp self other =
     (if self = other then Equal
      else let gap = (sn_get other - sn_get self) AND SN_MASK in
        if gap \<noteq> 0 \<and> gap AND NOT (drop_bit 1 SN_MASK) = 0 then Less else Greater)"

definition sn_partial_cmp :: "seq_num \<Rightarrow> seq_num \<Rightarrow> ordering option" where
  "sn_partial_cmp self other = Some (sn_cmp self other)"

text \<open>The invariant of the type: every value a constructor makes fits the mask.\<close>

definition sn_wf :: "seq_num \<Rightarrow> bool" where
  "sn_wf s \<longleftrightarrow> sn_get s AND SN_MASK = sn_get s"

section \<open>Arithmetic modulo \<open>2 ^ 28\<close>\<close>

lemma SN_MASK_mask: "SN_MASK = mask 28"
  by (rule bit_word_eqI) (auto simp: SN_MASK_def bit_simps)

lemma unat_and_SN_MASK [simp]: "unat (v AND SN_MASK) = unat v mod 2 ^ 28"
  unfolding SN_MASK_mask take_bit_eq_mask [symmetric] unsigned_take_bit_eq
  by (rule take_bit_eq_mod)

lemma sn_wf_iff: "sn_wf s \<longleftrightarrow> unat (sn_get s) < 2 ^ 28"
proof -
  have "sn_wf s \<longleftrightarrow> unat (sn_get s AND SN_MASK) = unat (sn_get s)"
    by (simp only: sn_wf_def word_unat_eq_iff)
  also have "\<dots> \<longleftrightarrow> unat (sn_get s) mod 2 ^ 28 = unat (sn_get s)"
    by (simp only: unat_and_SN_MASK)
  also have "\<dots> \<longleftrightarrow> unat (sn_get s) < 2 ^ 28"
    using mod_less_divisor [of "2 ^ 28" "unat (sn_get s)"] by fastforce
  finally show ?thesis .
qed

lemma sn_wf_new [simp, intro]: "sn_wf (sn_new v)"
  by (simp add: sn_wf_iff sn_new_def)

lemma sn_wf_next [simp, intro]: "sn_wf (sn_next s)"
  by (simp add: sn_wf_iff sn_next_def)

lemma sn_increment_simp [simp]: "sn_increment s = (sn_next s, sn_next s)"
  by (simp add: sn_increment_def sn_set_def Let_def)

lemma unat_sn_next: "unat (sn_get (sn_next s)) = (unat (sn_get s) + 1) mod 2 ^ 28"
proof -
  have "unat (sn_get s + 1) mod 2 ^ 28 = ((unat (sn_get s) + 1) mod 2 ^ 32) mod 2 ^ 28"
    by (simp add: unat_word_ariths)
  also have "\<dots> = (unat (sn_get s) + 1) mod 2 ^ 28"
    by (rule mod_mod_cancel) simp
  finally show ?thesis by (simp add: sn_next_def)
qed

lemma unat_sn_next_pow:
  assumes "sn_wf s"
  shows "unat (sn_get ((sn_next ^^ k) s)) = (unat (sn_get s) + k) mod 2 ^ 28"
proof (induction k)
  case 0
  then show ?case using assms by (simp add: sn_wf_iff)
next
  case (Suc k)
  then show ?case by (simp add: unat_sn_next mod_simps)
qed

text \<open>The gap, as a number: how many times \<open>next\<close> leads from one to the other.\<close>

definition sn_dist :: "seq_num \<Rightarrow> seq_num \<Rightarrow> nat" where
  "sn_dist a b = (unat (sn_get b) + 2 ^ 28 - unat (sn_get a)) mod 2 ^ 28"

lemma unat_gap:
  assumes "sn_wf a"
  shows "unat ((sn_get b - sn_get a) AND SN_MASK) = sn_dist a b"
proof (cases "sn_get a \<le> sn_get b")
  case True
  then have "unat (sn_get b) + 2 ^ 28 - unat (sn_get a) = unat (sn_get b) - unat (sn_get a) + 2 ^ 28"
    by (simp add: word_le_nat_alt)
  then show ?thesis
    using True by (simp only: sn_dist_def unat_and_SN_MASK unat_diff_wrap if_True mod_add_self2)
next
  case False
  then have "unat (sn_get b) < unat (sn_get a)" by (simp add: word_le_nat_alt)
  moreover have "unat (sn_get a) < 2 ^ 28" using assms by (simp add: sn_wf_iff)
  ultimately have "unat (sn_get b) + 2 ^ 32 - unat (sn_get a)
      = (unat (sn_get b) + 2 ^ 28 - unat (sn_get a)) + 15 * 2 ^ 28"
    by simp
  then have "(unat (sn_get b) + 2 ^ 32 - unat (sn_get a)) mod 2 ^ 28 = sn_dist a b"
    unfolding sn_dist_def by (metis mod_mult_self1)
  then show ?thesis using False by (simp add: unat_diff_wrap)
qed

lemma half_mask_iff:
  fixes g :: u32
  shows "g AND NOT (drop_bit 1 SN_MASK) = 0 \<longleftrightarrow> unat g < 2 ^ 27"
proof -
  have m: "drop_bit 1 SN_MASK = mask 27"
    by (rule bit_word_eqI) (auto simp: SN_MASK_mask bit_simps)
  have "g AND NOT (mask 27) = 0 \<longleftrightarrow> g AND mask 27 = g"
  proof
    assume "g AND NOT (mask 27) = 0"
    then have "\<And>n. \<not> bit (g AND NOT (mask 27)) n" by simp
    then show "g AND mask 27 = g"
      by (intro bit_word_eqI) (auto simp: bit_simps)
  next
    assume "g AND mask 27 = g"
    then show "g AND NOT (mask 27) = 0"
      by (intro bit_word_eqI) (metis bit_0_eq bit_and_iff bit_not_iff bot_apply bot_bool_def)
  qed
  also have "\<dots> \<longleftrightarrow> take_bit 27 (unat g) = unat g"
    by (simp only: word_unat_eq_iff unsigned_take_bit_eq take_bit_eq_mask [symmetric])
  also have "\<dots> \<longleftrightarrow> unat g < 2 ^ 27"
    by (simp add: take_bit_nat_eq_self_iff)
  finally show ?thesis unfolding m .
qed

lemma sn_dist_zero_iff:
  assumes "sn_wf a" "sn_wf b"
  shows "sn_dist a b = 0 \<longleftrightarrow> a = b"
proof -
  have a: "unat (sn_get a) < 2 ^ 28" and b: "unat (sn_get b) < 2 ^ 28"
    using assms by (simp_all add: sn_wf_iff)
  have "sn_dist a b = 0 \<longleftrightarrow> unat (sn_get a) = unat (sn_get b)"
  proof (cases "unat (sn_get a) \<le> unat (sn_get b)")
    case True
    then have "unat (sn_get b) + 2 ^ 28 - unat (sn_get a) = unat (sn_get b) - unat (sn_get a) + 2 ^ 28"
      by simp
    then have "sn_dist a b = unat (sn_get b) - unat (sn_get a)"
      using b by (simp only: sn_dist_def mod_add_self2) simp
    then show ?thesis using True by linarith
  next
    case False
    then have "sn_dist a b = unat (sn_get b) + 2 ^ 28 - unat (sn_get a)"
      using a by (simp add: sn_dist_def)
    then show ?thesis using False a by simp
  qed
  then show ?thesis by (cases a; cases b) (simp add: word_unat_eq_iff)
qed

lemma sn_cmp_dist:
  assumes "sn_wf a" "sn_wf b"
  shows "sn_cmp a b = (if sn_dist a b = 0 then Equal
     else if sn_dist a b < 2 ^ 27 then Less else Greater)"
proof -
  define g where "g = (sn_get b - sn_get a) AND SN_MASK"
  have u: "unat g = sn_dist a b" unfolding g_def by (rule unat_gap [OF assms(1)])
  then have "g = 0 \<longleftrightarrow> a = b" using sn_dist_zero_iff [OF assms] by (metis unat_eq_zero)
  then show ?thesis
    using sn_dist_zero_iff [OF assms] unfolding sn_cmp_def Let_def g_def [symmetric] half_mask_iff u
    by simp
qed

lemma sn_dist_next_pow:
  assumes "sn_wf s" "k < 2 ^ 28"
  shows "sn_dist s ((sn_next ^^ k) s) = k"
proof -
  have s: "unat (sn_get s) < 2 ^ 28" using assms by (simp add: sn_wf_iff)
  have "sn_dist s ((sn_next ^^ k) s) = ((unat (sn_get s) + k) mod 2 ^ 28 + (2 ^ 28 - unat (sn_get s))) mod 2 ^ 28"
    using s assms(1) by (simp add: sn_dist_def unat_sn_next_pow)
  also have "\<dots> = (unat (sn_get s) + k + (2 ^ 28 - unat (sn_get s))) mod 2 ^ 28"
    by (rule mod_add_left_eq)
  also have "\<dots> = k" using s assms(2) by simp
  finally show ?thesis .
qed

lemma sn_wf_next_pow: "sn_wf s \<Longrightarrow> sn_wf ((sn_next ^^ k) s)"
  by (cases k) auto

lemma sn_next_pow_inject:
  assumes "sn_wf s" "j < 2 ^ 28" "k < 2 ^ 28" "(sn_next ^^ j) s = (sn_next ^^ k) s"
  shows "j = k"
  using assms by (metis sn_dist_next_pow)

lemma sn_dist_back:
  assumes "sn_wf a" "sn_wf b" "sn_dist a b \<noteq> 0"
  shows "sn_dist b a = 2 ^ 28 - sn_dist a b"
proof -
  have cases: "sn_dist x y = (if unat (sn_get x) \<le> unat (sn_get y) then unat (sn_get y) - unat (sn_get x)
      else unat (sn_get y) + 2 ^ 28 - unat (sn_get x))" if "sn_wf x" "sn_wf y" for x y
    using that by (auto simp: sn_dist_def sn_wf_iff mod_if)
  show ?thesis
    using assms by (auto simp: cases sn_wf_iff split: if_splits)
qed

section \<open>Properties\<close>

text \<open>C35: sequence numbers within half of the circle are ordered as they were handed out,
  also across the wrap-around.\<close>

theorem seq_num_order:
  assumes "sn_wf s" "j < 2 ^ 27" "k < 2 ^ 27"
  shows "sn_cmp ((sn_next ^^ j) s) ((sn_next ^^ k) s) = (if j < k then Less else if j = k then Equal else Greater)"
proof -
  have *: "sn_cmp ((sn_next ^^ a) s) ((sn_next ^^ b) s) = Less \<and> sn_cmp ((sn_next ^^ b) s) ((sn_next ^^ a) s) = Greater"
    if ab: "a < b" "b < 2 ^ 27" for a b
  proof -
    have wf: "sn_wf ((sn_next ^^ i) s)" for i by (rule sn_wf_next_pow [OF assms(1)])
    have "(sn_next ^^ b) s = (sn_next ^^ (b - a)) ((sn_next ^^ a) s)"
      using ab(1) by (metis comp_apply funpow_add le_add_diff_inverse2 less_imp_le)
    then have d: "sn_dist ((sn_next ^^ a) s) ((sn_next ^^ b) s) = b - a"
      using sn_dist_next_pow [OF wf, of "b - a" a] ab by simp
    then have "sn_dist ((sn_next ^^ b) s) ((sn_next ^^ a) s) = 2 ^ 28 - (b - a)"
      using sn_dist_back [OF wf wf, of a b] ab by simp
    then show ?thesis using d ab by (simp add: sn_cmp_dist wf) linarith
  qed
  then show ?thesis using assms by (cases j k rule: linorder_cases) (auto simp: sn_cmp_def)
qed

theorem seq_num_order_witness:
  "sn_cmp ((sn_next ^^ 3) (SeqNum 0xFFFFFFE)) ((sn_next ^^ 5) (SeqNum 0xFFFFFFE)) = Less"
  using seq_num_order [of "SeqNum 0xFFFFFFE" 3 5] by (simp add: sn_wf_iff)

text \<open>At a distance of exactly half of the circle the comparison says \<open>Greater\<close> in both
  directions: the order is not antisymmetric there.\<close>

theorem seq_num_half_circle:
  "sn_cmp (SeqNum 0) (SeqNum 0x8000000) = Greater \<and> sn_cmp (SeqNum 0x8000000) (SeqNum 0) = Greater"
  by (simp add: sn_cmp_dist sn_wf_iff sn_dist_def)

end
