(* ===== verification/Protocol.thy ===== *)
theory Protocol
  imports Qos Seq_Num
begin

text \<open>
  \<open>src/protocol/\<close>: the headers on the wire.  A message is the header byte with the QoS and
  the sequence number, followed by a frame header or a fragment header; the low
  \<open>BITS\<close> bits of the body's first byte are the message id and the fragment kind sits above.
\<close>

section \<open>Message ids\<close>

definition ID_BITS :: nat where "ID_BITS = 5"
definition ID_MASK :: u8 where "ID_MASK = NOT (push_bit ID_BITS (- 1))"
definition ID_FRAME :: u8 where "ID_FRAME = 0b0"
definition ID_FRAGMENT :: u8 where "ID_FRAGMENT = 0b1"

section \<open>Frames\<close>

record frame_header =
  fr_header :: u8

definition frame_new :: frame_header where
  "frame_new = \<lparr>fr_header = ID_FRAME\<rparr>"

definition frame_from_u8 :: "u8 \<Rightarrow> frame_header" where
  "frame_from_u8 header = \<lparr>fr_header = header\<rparr>"

section \<open>Fragments\<close>

definition KIND_SHIFT :: nat where "KIND_SHIFT = 5"
definition KIND_MASK :: u8 where "KIND_MASK = push_bit KIND_SHIFT 0b11"

datatype fragment_kind = First | More | Last

primrec kind_u8 :: "fragment_kind \<Rightarrow> u8" where
  "kind_u8 First = push_bit KIND_SHIFT 0b00"
| "kind_u8 More = push_bit KIND_SHIFT 0b01"
| "kind_u8 Last = push_bit KIND_SHIFT 0b10"

declare kind_u8.simps [simp del]

record fragment_header =
  fg_header :: u8
  fg_frag_id :: seq_num

definition fragment_new :: "fragment_kind \<Rightarrow> seq_num \<Rightarrow> fragment_header" where
  "fragment_new kind frag_id = \<lparr>fg_header = ID_FRAGMENT OR kind_u8 kind, fg_frag_id = frag_id\<rparr>"

definition fragment_from_parts :: "u8 \<Rightarrow> seq_num \<Rightarrow> fragment_header" where
  "fragment_from_parts header frag_id = \<lparr>fg_header = header, fg_frag_id = frag_id\<rparr>"

text \<open>
  \<open>kind\<close> transmutes the two kind bits into the enumeration: \<open>None\<close> is the bit pattern
  that no variant has, on which the transmute is undefined behaviour.
\<close>

definition fragment_kind_of :: "fragment_header \<Rightarrow> fragment_kind option" where
  "fragment_kind_of f = (let b = fg_header f AND KIND_MASK in
     if b = kind_u8 First then Some First else if b = kind_u8 More then Some More
     else if b = kind_u8 Last then Some Last else None)"

section \<open>Messages\<close>

datatype message_body = Frame frame_header | Fragment fragment_header

record message_header =
  mh_header :: u8
  mh_seq_num :: seq_num

definition message_header_new :: "qos \<Rightarrow> seq_num \<Rightarrow> message_header" where
  "message_header_new q sn = \<lparr>mh_header = qos_as_u8 q, mh_seq_num = sn\<rparr>"

definition message_header_from_parts :: "u8 \<Rightarrow> seq_num \<Rightarrow> message_header" where
  "message_header_from_parts header sn = \<lparr>mh_header = header, mh_seq_num = sn\<rparr>"

definition message_header_qos :: "message_header \<Rightarrow> qos" where
  "message_header_qos h = qos_from_u8 (mh_header h)"

record message =
  ms_header :: message_header
  ms_body :: message_body

definition message_new :: "message_header \<Rightarrow> message_body \<Rightarrow> message" where
  "message_new h b = \<lparr>ms_header = h, ms_body = b\<rparr>"

section \<open>Lemmas\<close>

lemma message_header_new_simps [simp]:
  "message_header_qos (message_header_new q sn) = q" "mh_seq_num (message_header_new q sn) = sn"
  by (cases q; simp add: message_header_qos_def message_header_new_def qos_from_u8_def)+

lemma ID_MASK_mask: "ID_MASK = mask 5"
  by (rule bit_word_eqI) (auto simp: ID_MASK_def ID_BITS_def bit_simps)

lemma kind_values: "kind_u8 First = 0" "kind_u8 More = 32" "kind_u8 Last = 64" "KIND_MASK = 96" "ID_MASK = 31"
  by (simp_all add: KIND_MASK_def KIND_SHIFT_def ID_MASK_mask mask_eq_exp_minus_1 kind_u8.simps)

text \<open>A header that \<open>new\<close> builds carries its kind and its id.\<close>

lemma fragment_new_kind [simp]: "fragment_kind_of (fragment_new k f) = Some k"
  by (cases k) (simp_all add: fragment_kind_of_def fragment_new_def kind_values ID_FRAGMENT_def Let_def)

lemma fragment_new_simps [simp]:
  "fg_frag_id (fragment_new k f) = f" "fg_header (fragment_new k f) AND ID_MASK = ID_FRAGMENT"
  by (cases k; simp add: fragment_new_def kind_values ID_FRAGMENT_def)+

lemma frame_new_id [simp]: "fr_header frame_new AND ID_MASK = ID_FRAME"
  by (simp add: frame_new_def ID_FRAME_def)

lemma ID_distinct: "ID_FRAME \<noteq> ID_FRAGMENT"
  by (simp add: ID_FRAME_def ID_FRAGMENT_def)

text \<open>The one kind pattern without a variant.\<close>

lemma fragment_kind_None_iff: "fragment_kind_of f = None \<longleftrightarrow> fg_header f AND KIND_MASK = KIND_MASK"
proof -
  define h where "h = fg_header f"
  have KM: "KIND_MASK = push_bit 5 (mask 2)"
    by (simp add: KIND_MASK_def KIND_SHIFT_def mask_eq_exp_minus_1)
  have M: "kind_u8 More = push_bit 5 1" "kind_u8 Last = push_bit 6 1"
    by (simp_all add: kind_values)
  have bits: "bit (h AND KIND_MASK) n \<longleftrightarrow> bit h n \<and> (n = 5 \<or> n = 6)" for n
    unfolding KM by (cases "n < 8") (auto simp: bit_and_iff bit_push_bit_iff bit_mask_iff
        dest: bit_imp_le_length)
  have "h AND KIND_MASK = (if bit h 5 then if bit h 6 then KIND_MASK else kind_u8 More
      else if bit h 6 then kind_u8 Last else kind_u8 First)"
  proof (rule bit_word_eqI)
    fix n :: nat assume "n < LENGTH(8)"
    moreover have "5 \<le> n \<and> n - 5 < 2 \<longleftrightarrow> n = 5 \<or> n = 6" by arith
    ultimately show "bit (h AND KIND_MASK) n \<longleftrightarrow> bit (if bit h 5 then if bit h 6 then KIND_MASK else kind_u8 More
      else if bit h 6 then kind_u8 Last else kind_u8 First) n"
      unfolding bits M kind_values(1) unfolding KM
      by (auto simp: bit_push_bit_iff bit_mask_iff bit_1_iff)
  qed
  then show ?thesis
    by (auto simp: fragment_kind_of_def kind_values Let_def h_def [symmetric] split: if_splits)
qed

section \<open>Properties\<close>

text \<open>The kind of a fragment header that \<open>new\<close> built is the kind it was given; on a header
  byte from the network the transmute behind \<open>kind\<close> has no variant to give exactly when both
  kind bits are set.\<close>

theorem fragment_kind_defined:
  "fragment_kind_of (fragment_new k f) = Some k
   \<and> (fragment_kind_of (fragment_from_parts h f) = None \<longleftrightarrow> h AND KIND_MASK = KIND_MASK)"
  by (simp add: fragment_kind_None_iff fragment_from_parts_def)

end
