(* ===== verification/Codec.thy ===== *)
theory Codec
  imports Vle Protocol
begin

text \<open>
  \<open>src/codec/\<close>: the codecs of byte arrays, slices, strings, chunks and \<open>Bytes\<close>
  (\<open>codec/core/\<close>), of sequence numbers, of the frame and fragment headers and of messages
  (\<open>codec/mod.rs\<close>, \<open>frame.rs\<close>, \<open>fragment.rs\<close>), over any writer and any reader.  What a
  value is on the wire is specified by the functions \<open>enc_*\<close>; writing emits that, reading
  parses it, and \<open>w_len\<close> is its length.
\<close>

section \<open>Byte arrays and slices\<close>

definition write_array :: "'w writer_ops \<Rightarrow> u8 list \<Rightarrow> ('w, write_err, unit) op" where
  "write_array W x = w_write_exact W x"

definition read_array :: "'r reader_ops \<Rightarrow> nat \<Rightarrow> ('r, read_err, u8 list) op" where
  "read_array R n = andthen (r_read_exact R n) (\<lambda>x. ok x)"

definition w_len_slice :: "u8 list \<Rightarrow> nat" where
  "w_len_slice x = w_len_usize (length x) + length x"

definition write_slice :: "'w writer_ops \<Rightarrow> u8 list \<Rightarrow> ('w, write_err, unit) op" where
  "write_slice W x = andthen (write_usize W (length x))
     (\<lambda>_. if x = [] then ok () else w_write_exact W x)"

definition write_vec :: "'w writer_ops \<Rightarrow> u8 list \<Rightarrow> ('w, write_err, unit) op" where
  "write_vec W x = write_slice W x"

definition read_vec :: "'r reader_ops \<Rightarrow> ('r, read_err, u8 list) op" where
  "read_vec R = andthen (read_usize R)
     (\<lambda>len. if len \<noteq> 0 then r_read_exact R len else ok (replicate len 0))"

section \<open>Strings\<close>

text \<open>The check of \<open>String::from_utf8\<close>: well-formed UTF-8.\<close>

definition utf8_cont :: "u8 \<Rightarrow> bool" where
  "utf8_cont b \<longleftrightarrow> 0x80 \<le> b \<and> b \<le> 0xBF"

fun utf8_valid :: "u8 list \<Rightarrow> bool" where
  "utf8_valid [] = True"
| "utf8_valid (a # s) =
     (if a \<le> 0x7F then utf8_valid s
      else if 0xC2 \<le> a \<and> a \<le> 0xDF then
        (case s of b # s' \<Rightarrow> utf8_cont b \<and> utf8_valid s' | _ \<Rightarrow> False)
      else if 0xE0 \<le> a \<and> a \<le> 0xEF then
        (case s of b # c # s' \<Rightarrow>
             (if a = 0xE0 then 0xA0 else 0x80) \<le> b \<and> b \<le> (if a = 0xED then 0x9F else 0xBF)
             \<and> utf8_cont c \<and> utf8_valid s'
         | _ \<Rightarrow> False)
      else if 0xF0 \<le> a \<and> a \<le> 0xF4 then
        (case s of b # c # d # s' \<Rightarrow>
             (if a = 0xF0 then 0x90 else 0x80) \<le> b \<and> b \<le> (if a = 0xF4 then 0x8F else 0xBF)
             \<and> utf8_cont c \<and> utf8_cont d \<and> utf8_valid s'
         | _ \<Rightarrow> False)
      else False)"

definition w_len_str :: "u8 list \<Rightarrow> nat" where
  "w_len_str x = w_len_slice x"

definition write_str :: "'w writer_ops \<Rightarrow> u8 list \<Rightarrow> ('w, write_err, unit) op" where
  "write_str W x = write_slice W x"

definition read_string :: "'r reader_ops \<Rightarrow> ('r, read_err, u8 list) op" where
  "read_string R = andthen (read_vec R) (\<lambda>vec. if utf8_valid vec then ok vec else err DidntRead)"

section \<open>Chunks and \<open>Bytes\<close>\<close>

definition w_len_chunk :: "chunk \<Rightarrow> nat" where
  "w_len_chunk c = w_len_slice (chunk_as_slice c)"

definition write_chunk :: "'w writer_ops \<Rightarrow> chunk \<Rightarrow> ('w, write_err, unit) op" where
  "write_chunk W x = andthen (write_usize W (chunk_len x))
     (\<lambda>_. andthen (w_write_chunk W x) (\<lambda>_. ok ()))"

definition read_chunk :: "'r reader_ops \<Rightarrow> ('r, read_err, chunk) op" where
  "read_chunk R = andthen (read_usize R) (\<lambda>len. andthen (r_read_chunk R len) (\<lambda>c. ok c))"

primrec write_chunk_list :: "'w writer_ops \<Rightarrow> chunk list \<Rightarrow> ('w, write_err, unit) op" where
  "write_chunk_list W [] = ok ()"
| "write_chunk_list W (s # ss) = andthen (w_write_chunk W s) (\<lambda>_. write_chunk_list W ss)"

definition write_bytes :: "'w writer_ops \<Rightarrow> bytes \<Rightarrow> ('w, write_err, unit) op" where
  "write_bytes W x = andthen (write_usize W (bytes_len x)) (\<lambda>_. write_chunk_list W (chunks_of x))"

definition read_bytes :: "'r reader_ops \<Rightarrow> ('r, read_err, bytes) op" where
  "read_bytes R = andthen (read_usize R)
     (\<lambda>len. if len = 0 then ok bytes_new
        else (\<lambda>r. case r_read_chunk_contiguous R len r of
            (Inr c, r') \<Rightarrow> (Inr (bytes_single c), r')
          | (Inl _, r') \<Rightarrow>
              andthen (r_read_chunks R len) (\<lambda>cs. ok (bytes_extend bytes_new cs)) r'))"

definition w_len_bytes :: "bytes \<Rightarrow> nat" where
  "w_len_bytes m = w_len_usize (bytes_len m) + bytes_len m"

section \<open>Sequence numbers and headers\<close>

definition w_len_seq_num :: "seq_num \<Rightarrow> nat" where
  "w_len_seq_num x = w_len_u32 (sn_get x)"

definition write_seq_num :: "'w writer_ops \<Rightarrow> seq_num \<Rightarrow> ('w, write_err, unit) op" where
  "write_seq_num W x = write_u32 W (sn_get x)"

definition read_seq_num :: "'r reader_ops \<Rightarrow> ('r, read_err, seq_num) op" where
  "read_seq_num R = andthen (read_u32 R) (\<lambda>x. ok (sn_new x))"

definition w_len_frame_header :: "frame_header \<Rightarrow> nat" where
  "w_len_frame_header x = 1"

definition write_frame_header :: "'w writer_ops \<Rightarrow> frame_header \<Rightarrow> ('w, write_err, unit) op" where
  "write_frame_header W x = andthen (write_u8 W (fr_header x)) (\<lambda>_. ok ())"

definition read_frame_header_with :: "u8 \<Rightarrow> ('r, read_err, frame_header) op" where
  "read_frame_header_with header = ok (frame_from_u8 header)"

definition read_frame_header :: "'r reader_ops \<Rightarrow> ('r, read_err, frame_header) op" where
  "read_frame_header R = andthen (read_u8 R)
     (\<lambda>header. if header AND ID_MASK \<noteq> ID_FRAME then err DidntRead else read_frame_header_with header)"

definition w_len_fragment_header :: "fragment_header \<Rightarrow> nat" where
  "w_len_fragment_header x = 1 + w_len_seq_num (fg_frag_id x)"

definition write_fragment_header :: "'w writer_ops \<Rightarrow> fragment_header \<Rightarrow> ('w, write_err, unit) op" where
  "write_fragment_header W x = andthen (write_u8 W (fg_header x))
     (\<lambda>_. andthen (write_seq_num W (fg_frag_id x)) (\<lambda>_. ok ()))"

definition read_fragment_header_with :: "u8 \<Rightarrow> 'r reader_ops \<Rightarrow> ('r, read_err, fragment_header) op" where
  "read_fragment_header_with header R =
     andthen (read_seq_num R) (\<lambda>frag_id. ok (fragment_from_parts header frag_id))"

definition read_fragment_header :: "'r reader_ops \<Rightarrow> ('r, read_err, fragment_header) op" where
  "read_fragment_header R = andthen (read_u8 R)
     (\<lambda>header. let f_id = header AND ID_MASK in
        if f_id \<noteq> ID_FRAGMENT then err DidntRead else read_fragment_header_with header R)"

section \<open>Messages\<close>

definition w_len_message_header :: "message_header \<Rightarrow> nat" where
  "w_len_message_header x = 1 + w_len_seq_num (mh_seq_num x)"

definition write_message_header :: "'w writer_ops \<Rightarrow> message_header \<Rightarrow> ('w, write_err, unit) op" where
  "write_message_header W x = andthen (write_u8 W (mh_header x))
     (\<lambda>_. andthen (write_seq_num W (mh_seq_num x)) (\<lambda>_. ok ()))"

definition read_message_header :: "'r reader_ops \<Rightarrow> ('r, read_err, message_header) op" where
  "read_message_header R = andthen (read_u8 R)
     (\<lambda>header. andthen (read_seq_num R) (\<lambda>sn. ok (message_header_from_parts header sn)))"

primrec w_len_message_body :: "message_body \<Rightarrow> nat" where
  "w_len_message_body (Frame f) = w_len_frame_header f"
| "w_len_message_body (Fragment f) = w_len_fragment_header f"

primrec write_message_body :: "'w writer_ops \<Rightarrow> message_body \<Rightarrow> ('w, write_err, unit) op" where
  "write_message_body W (Frame f) = write_frame_header W f"
| "write_message_body W (Fragment f) = write_fragment_header W f"

definition read_message_body :: "'r reader_ops \<Rightarrow> ('r, read_err, message_body) op" where
  "read_message_body R = andthen (read_u8 R) (\<lambda>header.
     if header AND ID_MASK = ID_FRAME then
       andthen (read_frame_header_with header) (\<lambda>frame. ok (Frame frame))
     else if header AND ID_MASK = ID_FRAGMENT then
       andthen (read_fragment_header_with header R) (\<lambda>fragment. ok (Fragment fragment))
     else err DidntRead)"

definition w_len_message :: "message \<Rightarrow> nat" where
  "w_len_message x = w_len_message_header (ms_header x) + w_len_message_body (ms_body x)"

definition write_message :: "'w writer_ops \<Rightarrow> message \<Rightarrow> ('w, write_err, unit) op" where
  "write_message W m = andthen (write_message_header W (ms_header m))
     (\<lambda>_. andthen (write_message_body W (ms_body m)) (\<lambda>_. ok ()))"

definition read_message :: "'r reader_ops \<Rightarrow> ('r, read_err, message) op" where
  "read_message R = andthen (read_message_header R)
     (\<lambda>header. andthen (read_message_body R) (\<lambda>body. ok \<lparr>ms_header = header, ms_body = body\<rparr>))"

section \<open>What is on the wire\<close>

definition enc_usize :: "nat \<Rightarrow> u8 list" where "enc_usize n = vle (of_nat n)"
definition enc_slice :: "u8 list \<Rightarrow> u8 list" where "enc_slice xs = enc_usize (length xs) @ xs"
definition enc_seq_num :: "seq_num \<Rightarrow> u8 list" where "enc_seq_num sn = vle (ucast (sn_get sn))"

primrec enc_body :: "message_body \<Rightarrow> u8 list" where
  "enc_body (Frame f) = [fr_header f]"
| "enc_body (Fragment f) = fg_header f # enc_seq_num (fg_frag_id f)"

definition enc_header :: "message_header \<Rightarrow> u8 list" where
  "enc_header h = mh_header h # enc_seq_num (mh_seq_num h)"

definition enc_message :: "message \<Rightarrow> u8 list" where
  "enc_message m = enc_header (ms_header m) @ enc_body (ms_body m)"

lemma length_enc_slice: "length (enc_slice xs) = w_len_slice xs"
  by (simp add: enc_slice_def enc_usize_def w_len_slice_def w_len_usize_def w_len_u64_def)

lemma length_enc_seq_num [simp]: "length (enc_seq_num sn) = w_len_seq_num sn"
  by (simp add: enc_seq_num_def w_len_seq_num_def w_len_u32_def w_len_u64_def)

lemma length_enc_body [simp]: "length (enc_body b) = w_len_message_body b"
  by (cases b) (simp_all add: w_len_frame_header_def w_len_fragment_header_def)

lemma length_enc_header [simp]: "length (enc_header h) = w_len_message_header h"
  by (simp add: enc_header_def w_len_message_header_def)

lemma length_enc_message [simp]: "length (enc_message m) = w_len_message m"
  by (simp add: enc_message_def w_len_message_def)

lemma enc_usize_ne [simp]: "enc_usize n \<noteq> []" and enc_seq_num_ne [simp]: "enc_seq_num sn \<noteq> []"
  by (simp_all add: enc_usize_def enc_seq_num_def)

text \<open>A sequence number takes at most four bytes.\<close>

lemma w_len_seq_num_le: "sn_wf sn \<Longrightarrow> w_len_seq_num sn \<le> 4"
proof -
  assume "sn_wf sn"
  then have "unat (sn_get sn) < 2 ^ 28" by (simp add: sn_wf_iff)
  then have "unat (ucast (sn_get sn) :: u64) div 2 ^ 28 = 0" by (simp add: unsigned_ucast_eq take_bit_nat_eq_self)
  then have "drop_bit 28 (ucast (sn_get sn) :: u64) = 0"
    by (simp add: drop_bit_eq_div unat_div word_unat_eq_iff)
  then show ?thesis
    by (simp add: w_len_seq_num_def w_len_u32_def w_len_u64_def vle_len_def vle_B_iff)
qed

section \<open>Writing\<close>

context writer begin

lemma emits_slice: "emits V (write_slice W xs) (enc_slice xs)"
  unfolding write_slice_def enc_slice_def enc_usize_def
  by (rule emits_andthen [OF emits_usize]) (auto simp: emits_exact simp del: ok_apply intro: emits_ok)

lemma emits_chunk_codec:
  "chunk_wf c \<Longrightarrow> chunk_len c \<noteq> 0 \<Longrightarrow> emits V (write_chunk W c) (enc_slice (chunk_as_slice c))"
  unfolding write_chunk_def enc_slice_def enc_usize_def
  by (simp, intro emits_andthen [OF emits_usize] emits_then_ok emits_chunk) simp_all

lemma emits_chunk_list:
  "chunks_wf cs \<Longrightarrow> chunks_dense cs \<Longrightarrow> emits V (write_chunk_list W cs) (content cs)"
  by (induction cs) (auto intro: emits_ok emits_andthen emits_chunk simp del: ok_apply)

lemma emits_bytes:
  "bytes_wf b \<Longrightarrow> bytes_dense b \<Longrightarrow> emits V (write_bytes W b) (enc_slice (bytes_content b))"
  unfolding write_bytes_def enc_slice_def enc_usize_def
  by (simp add: bytes_len_content)
    (intro emits_andthen [OF emits_usize], simp add: emits_chunk_list bytes_wf_def bytes_dense_def bytes_content_def)

lemma emits_seq_num: "emits V (write_seq_num W sn) (enc_seq_num sn)"
  by (simp add: write_seq_num_def enc_seq_num_def emits_u32)

lemma emits_byte_then: "(\<And>x. emits V (f x) bs) \<Longrightarrow> emits V (andthen (write_u8 W b) f) (b # bs)"
  using emits_andthen [OF emits_byte, of f bs b] by simp

lemma emits_frame_header: "emits V (write_frame_header W f) [fr_header f]"
  unfolding write_frame_header_def by (intro emits_byte_then emits_ok)

lemma emits_fragment_header:
  "emits V (write_fragment_header W f) (fg_header f # enc_seq_num (fg_frag_id f))"
  unfolding write_fragment_header_def by (intro emits_byte_then emits_then_ok emits_seq_num)

lemma emits_message_header: "emits V (write_message_header W h) (enc_header h)"
  unfolding write_message_header_def enc_header_def
  by (intro emits_byte_then emits_then_ok emits_seq_num)

lemma emits_message_body: "emits V (write_message_body W b) (enc_body b)"
  by (cases b) (simp_all add: emits_frame_header emits_fragment_header)

lemma emits_message: "emits V (write_message W m) (enc_message m)"
  unfolding write_message_def enc_message_def
  by (intro emits_andthen [OF emits_message_header] emits_then_ok emits_message_body)

end

context total_writer begin

lemma emits_total_chunk_list: "chunks_wf cs \<Longrightarrow> emits V (write_chunk_list W cs) (content cs)"
  by (induction cs) (auto intro: emits_ok emits_andthen emits_any_chunk simp del: ok_apply)

lemma emits_total_bytes: "bytes_wf b \<Longrightarrow> emits V (write_bytes W b) (enc_slice (bytes_content b))"
  unfolding write_bytes_def enc_slice_def enc_usize_def
  by (simp add: bytes_len_content)
    (intro emits_andthen [OF emits_usize], simp add: emits_total_chunk_list bytes_wf_def bytes_content_def)

end

section \<open>Reading\<close>

context reader begin

lemma parses_byte: "parses V (read_u8 R) ((=) b) [b]" and starves_byte: "starves V (read_u8 R) [b]"
  by (simp_all add: read_u8_def parses_u8 starves_u8)

lemma parses_byte_then: "parses V (f b) Q bs \<Longrightarrow> parses V (andthen (read_u8 R) f) Q (b # bs)"
  using parses_andthen [OF parses_byte, of b f Q bs] by auto

lemma starves_byte_then: "starves V (f b) bs \<Longrightarrow> starves V (andthen (read_u8 R) f) (b # bs)"
  using starves_andthen [OF parses_byte starves_byte, of b f bs] by auto

lemma parses_vec: "length xs < 2 ^ 64 \<Longrightarrow> parses V (read_vec R) ((=) xs) (enc_slice xs)"
  unfolding read_vec_def enc_slice_def enc_usize_def
  by (rule parses_andthen [OF parses_usize]) (auto simp: parses_exact simp del: ok_apply intro: parses_ok)

lemma starves_vec: "length xs < 2 ^ 64 \<Longrightarrow> starves V (read_vec R) (enc_slice xs)"
  unfolding read_vec_def enc_slice_def enc_usize_def
  by (rule starves_andthen [OF parses_usize starves_usize]) (auto simp: starves_exact)

lemma parses_string:
  "length xs < 2 ^ 64 \<Longrightarrow> utf8_valid xs \<Longrightarrow> parses V (read_string R) ((=) xs) (enc_slice xs)"
  unfolding read_string_def
  by (rule parses_andthen [OF parses_vec, of xs _ _ "[]", simplified]) (auto intro: parses_ok simp del: ok_apply)

lemma parses_chunk_codec:
  "length xs < 2 ^ 64 \<Longrightarrow> xs \<noteq> [] \<Longrightarrow>
     parses V (read_chunk R) (\<lambda>c. chunk_wf c \<and> chunk_as_slice c = xs) (enc_slice xs)"
  unfolding read_chunk_def enc_slice_def enc_usize_def
  by (rule parses_andthen [OF parses_usize]) (auto simp: parses_chunk simp flip: ok_def)

lemma parses_read_bytes:
  assumes "length xs < 2 ^ 64"
  shows "parses V (read_bytes R) (\<lambda>b. bytes_wf b \<and> bytes_dense b \<and> bytes_content b = xs) (enc_slice xs)"
  unfolding read_bytes_def enc_slice_def enc_usize_def
proof (rule parses_andthen [OF parses_usize [OF assms]])
  fix n assume n: "length xs = n"
  let ?P = "\<lambda>b. bytes_wf b \<and> bytes_dense b \<and> bytes_content b = xs"
  show "parses V (if n = 0 then ok bytes_new
        else (\<lambda>r. case r_read_chunk_contiguous R n r of
            (Inr c, r') \<Rightarrow> (Inr (bytes_single c), r')
          | (Inl _, r') \<Rightarrow>
              andthen (r_read_chunks R n) (\<lambda>cs. ok (bytes_extend bytes_new cs)) r')) ?P xs"
  proof (cases "n = 0")
    case True
    then show ?thesis using n by (auto intro: parses_ok simp del: ok_apply)
  next
    case False
    then have xs: "xs \<noteq> []" using n by auto
    have slow: "parses V (andthen (r_read_chunks R n) (\<lambda>cs. ok (bytes_extend bytes_new cs))) ?P xs"
      using parses_map [OF parses_chunks [OF xs], of ?P "bytes_extend bytes_new"] bytes_extend_laws [of bytes_new] n
      by (auto simp: chunks_hold_content)
    show ?thesis
      unfolding parses_def
    proof (intro allI impI)
      fix r rest assume r: "rv_inv V r" "rv_pending V r = xs @ rest"
      from contiguous [OF r(1) False]
      consider (fast) c r' where "r_read_chunk_contiguous R n r = (Inr c, r')" "chunk_wf c" "rv_inv V r'"
            "chunk_as_slice c = take n (rv_pending V r)" "rv_pending V r' = drop n (rv_pending V r)"
        | (slow) "r_read_chunk_contiguous R n r = (Inl DidntRead, r)" by blast
      then show "\<exists>x r'. (if n = 0 then ok bytes_new
          else (\<lambda>r. case r_read_chunk_contiguous R n r of
              (Inr c, r') \<Rightarrow> (Inr (bytes_single c), r')
            | (Inl _, r') \<Rightarrow>
                andthen (r_read_chunks R n) (\<lambda>cs. ok (bytes_extend bytes_new cs)) r')) r = (Inr x, r')
          \<and> ?P x \<and> rv_inv V r' \<and> rv_pending V r' = rest"
      proof cases
        case fast
        then have "chunk_as_slice c = xs" using n r(2) by simp
        moreover have "chunk_len c \<noteq> 0" using fast(2) calculation xs chunk_as_slice_nil_iff by auto
        ultimately show ?thesis
          using fast False n r(2) by (simp add: bytes_dense_def) (simp add: bytes_single_def)
      next
        case slow': slow
        then show ?thesis using parsesD [OF slow r] False by simp
      qed
    qed
  qed
qed

lemma parses_seq_num: "sn_wf sn \<Longrightarrow> parses V (read_seq_num R) ((=) sn) (enc_seq_num sn)"
  unfolding read_seq_num_def enc_seq_num_def
  by (rule parses_map [OF parses_u32]) (cases sn, simp add: sn_new_def sn_wf_def)

lemma starves_seq_num: "starves V (read_seq_num R) (enc_seq_num sn)"
  unfolding read_seq_num_def enc_seq_num_def
  by (rule starves_map [OF parses_u32 starves_u32])

lemma parses_message_header: "sn_wf (mh_seq_num h) \<Longrightarrow> parses V (read_message_header R) ((=) h) (enc_header h)"
  unfolding read_message_header_def enc_header_def
  by (intro parses_byte_then parses_map [OF parses_seq_num]) (auto simp: message_header_from_parts_def)

lemma starves_message_header: "sn_wf (mh_seq_num h) \<Longrightarrow> starves V (read_message_header R) (enc_header h)"
  unfolding read_message_header_def enc_header_def
  by (intro starves_byte_then starves_map [OF parses_seq_num starves_seq_num])

end

text \<open>The message bodies that the constructors \<open>FrameHeader::new\<close> and \<open>FragmentHeader::new\<close> build.\<close>

primrec body_wf :: "message_body \<Rightarrow> bool" where
  "body_wf (Frame f) \<longleftrightarrow> fr_header f AND ID_MASK = ID_FRAME"
| "body_wf (Fragment f) \<longleftrightarrow> fg_header f AND ID_MASK = ID_FRAGMENT \<and> sn_wf (fg_frag_id f)"

definition message_wf :: "message \<Rightarrow> bool" where
  "message_wf m \<longleftrightarrow> sn_wf (mh_seq_num (ms_header m)) \<and> body_wf (ms_body m)"

lemma body_wf_new [simp]: "body_wf (Frame frame_new)" "sn_wf f \<Longrightarrow> body_wf (Fragment (fragment_new k f))"
  by simp_all

context reader begin

lemma parses_message_body: "body_wf b \<Longrightarrow> parses V (read_message_body R) ((=) b) (enc_body b)"
proof (cases b)
  case (Frame f)
  assume "body_wf b"
  then show ?thesis
    using Frame unfolding read_message_body_def
    by (auto intro!: parses_byte_then parses_map [where P = "(=) f"] parses_ok
        simp: read_frame_header_with_def frame_from_u8_def simp del: ok_apply)
next
  case (Fragment f)
  assume b: "body_wf b"
  have "parses V (read_fragment_header_with (fg_header f) R) ((=) f) (enc_seq_num (fg_frag_id f))"
    unfolding read_fragment_header_with_def
    using b Fragment by (intro parses_map [OF parses_seq_num]) (auto simp: fragment_from_parts_def)
  then have "parses V (andthen (read_fragment_header_with (fg_header f) R) (\<lambda>fragment. ok (Fragment fragment)))
      ((=) b) (enc_seq_num (fg_frag_id f))"
    by (rule parses_map) (simp add: Fragment)
  then show ?thesis
    using b Fragment ID_distinct unfolding read_message_body_def by (auto intro!: parses_byte_then)
qed

lemma starves_message_body: "body_wf b \<Longrightarrow> starves V (read_message_body R) (enc_body b)"
proof (cases b)
  case (Frame f)
  then show ?thesis unfolding read_message_body_def by (auto intro!: starves_byte_then)
next
  case (Fragment f)
  assume b: "body_wf b"
  have p: "parses V (read_fragment_header_with (fg_header f) R) ((=) f) (enc_seq_num (fg_frag_id f))"
    unfolding read_fragment_header_with_def
    using b Fragment by (intro parses_map [OF parses_seq_num]) (auto simp: fragment_from_parts_def)
  have "starves V (read_fragment_header_with (fg_header f) R) (enc_seq_num (fg_frag_id f))"
    unfolding read_fragment_header_with_def
    using b Fragment by (intro starves_map [OF parses_seq_num starves_seq_num]) auto
  then show ?thesis
    using b Fragment ID_distinct unfolding read_message_body_def
    by (auto intro!: starves_byte_then starves_map [OF p])
qed

lemma parses_message: "message_wf m \<Longrightarrow> parses V (read_message R) ((=) m) (enc_message m)"
  unfolding read_message_def enc_message_def message_wf_def
  by (intro parses_andthen [OF parses_message_header] parses_map [OF parses_message_body]) auto

lemma starves_message: "message_wf m \<Longrightarrow> starves V (read_message R) (enc_message m)"
  unfolding read_message_def enc_message_def message_wf_def
  by (intro starves_andthen [OF parses_message_header starves_message_header]
      starves_map [OF parses_message_body starves_message_body]) auto

end

section \<open>Properties\<close>



text \<open>C36: input that stops inside a message is refused, wherever it stops.\<close>

theorem message_truncated:
  assumes "message_wf m" "bytes_wf src" "bytes_dense src" "strict_prefix (bytes_content src) (enc_message m)"
  shows "\<exists>r. read_message br_ops (bytes_reader src) = (Inl DidntRead, r)"
  using starvesD [OF bytes_r.starves_message [OF assms(1)], of src "bytes_reader src"] assms
  by (auto simp: br_view_inv)

theorem message_truncated_witness:
  "\<exists>r. read_message br_ops (bytes_reader bytes_new) = (Inl DidntRead, r)"
  by (rule message_truncated [of "message_new (message_header_new QOS_DEFAULT (sn_new 0)) (Frame frame_new)"])
    (simp_all add: message_wf_def message_new_def enc_message_def enc_header_def strict_prefix_def)

text \<open>A message that does not fit is refused; rewinding to the mark taken before gives the
  batch back as it was.\<close>

theorem message_refused_rewound:
  assumes "bb_wf b" "bb_capacity b < bb_len b + w_len_message m"
  shows "\<exists>b'. write_message bb_ops m b = (Inl DidntWrite, b')
    \<and> bb_as_slice (snd (bb_rewind (bb_mark b) b')) = bb_as_slice b
    \<and> bb_len (snd (bb_rewind (bb_mark b) b')) = bb_len b
    \<and> bb_capacity (snd (bb_rewind (bb_mark b) b')) = bb_capacity b"
proof -
  obtain k b' where "write_message bb_ops m b = (Inl DidntWrite, b')"
      "appends (bb_view (bb_capacity b)) b (take k (enc_message m)) b'"
    using emits_fullD [OF box_w.emits_message, of "bb_capacity b" b m] assms by auto
  then show ?thesis using bb_rewind_appends [OF assms(1)] by blast
qed

theorem message_refused_rewound_witness:
  "\<exists>b'. write_message bb_ops (message_new (message_header_new QOS_DEFAULT (sn_new 7)) (Frame frame_new))
      (bb_with_capacity 2) = (Inl DidntWrite, b') \<and> bb_as_slice (snd (bb_rewind 0 b')) = []"
proof -
  have "bb_capacity (bb_with_capacity 2) < bb_len (bb_with_capacity 2)
      + w_len_message (message_new (message_header_new QOS_DEFAULT (sn_new 7)) (Frame frame_new))"
    using vle_len_bounds(1) [of "ucast (sn_get (sn_new 7))"]
    by (simp add: bb_with_capacity_def bb_capacity_def message_new_def w_len_message_def
      w_len_message_header_def w_len_frame_header_def message_header_new_def
      w_len_seq_num_def w_len_u32_def w_len_u64_def)
  from message_refused_rewound [OF _ this] show ?thesis
    by (auto simp: bb_wf_def bb_with_capacity_def bb_mark_def bb_as_slice_def)
qed

text \<open>A payload that fits in the batch is read back with the same contents, however it
  was cut into chunks (empty chunks included) and whatever follows it.\<close>

theorem payload_roundtrip:
  assumes "bytes_wf p" "bytes_len p < 2 ^ 64" "bb_wf b" "bb_len b + w_len_bytes p \<le> bb_capacity b"
  shows "\<exists>b' bs. write_bytes bb_ops p b = (Inr (), b') \<and> bb_as_slice b' = bb_as_slice b @ bs
    \<and> length bs = w_len_bytes p
    \<and> (\<forall>src rest. bytes_wf src \<longrightarrow> bytes_dense src \<longrightarrow> bytes_content src = bs @ rest \<longrightarrow>
        (\<exists>q r. read_bytes br_ops (bytes_reader src) = (Inr q, r) \<and> bytes_wf q \<and> bytes_dense q
           \<and> bytes_content q = bytes_content p \<and> br_pending r = rest))"
proof -
  define bs where "bs = enc_slice (bytes_content p)"
  have len: "length bs = w_len_bytes p"
    using bytes_len_content [OF assms(1)] by (simp add: bs_def length_enc_slice w_len_bytes_def w_len_slice_def)
  obtain b' where b': "write_bytes bb_ops p b = (Inr (), b')" "appends (bb_view (bb_capacity b)) b bs b'"
    using emits_fitsD [OF box_w.emits_total_bytes [OF assms(1)], of "bb_capacity b" b] assms(3,4) len
    by (auto simp: bs_def)
  have "\<exists>q r. read_bytes br_ops (bytes_reader src) = (Inr q, r) \<and> bytes_wf q \<and> bytes_dense q
           \<and> bytes_content q = bytes_content p \<and> br_pending r = rest"
    if "bytes_wf src" "bytes_dense src" "bytes_content src = bs @ rest" for src rest
    using parsesD [OF bytes_r.parses_read_bytes, of "bytes_content p" src "bytes_reader src" rest] that assms(2)
      bytes_len_content [OF assms(1)]
    by (auto simp: br_view_inv bs_def)
  then show ?thesis using b' assms(3) len by (auto simp: bb_appends_iff)
qed

theorem payload_roundtrip_witness:
  "\<exists>b' bs. write_bytes bb_ops (bytes_from (DynVec [])) (bb_with_capacity 1) = (Inr (), b')
    \<and> bb_as_slice b' = bs \<and> length bs = 1"
proof -
  have "bytes_wf (bytes_from (DynVec []))" "bytes_len (bytes_from (DynVec [])) = 0"
    by (simp_all add: bytes_from_def bytes_len_content)
  then show ?thesis
    using payload_roundtrip [of "bytes_from (DynVec [])" "bb_with_capacity 1"]
    by (auto simp: bb_wf_def bb_with_capacity_def bb_capacity_def bb_as_slice_def w_len_bytes_def
        w_len_usize_def w_len_u64_def vle_len_def)
qed

end
