(* ===== verification/Pipeline_Tx.thy ===== *)
theory Pipeline_Tx
  imports Sync Codec Ringbuf
begin

text \<open>
  \<open>src/pipeline/tx.rs\<close>: the transmission pipeline.  A push serializes a message into the
  batch that is booked in the lane of its priority, or into fresh batches; the consumer
  pulls committed batches, most urgent first, and hands them back empty.

  Time and scheduling: an \<open>await\<close> is where other tasks run.  A push is handed the list of
  what the other tasks do to the pipeline at each poll of a suspended wait (\<open>env\<close>); when
  the list runs out it is still waiting, \<open>None\<close>.  The clock is part of the state and
  advances in these steps only.  Tasks are not interleaved between two awaits.
\<close>

section \<open>Batches\<close>

text \<open>The shared drop flag of the fragments of a message, an \<open>Arc<AtomicBool>\<close>, is an index.\<close>

record write_batch =
  wb_frame :: boxbuf
  wb_fragment :: bytes
  wb_qos :: qos
  wb_drop :: "nat option"

definition BATCH_LEN :: nat where "BATCH_LEN = 2"
definition BATCH_SIZE_MAX :: nat where "BATCH_SIZE_MAX = 65535"

definition u16_to_le_bytes :: "u16 \<Rightarrow> u8 list" where
  "u16_to_le_bytes v = [ucast v, ucast (drop_bit 8 v)]"

text \<open>\<open>clear\<close> reserves the room of the length; \<open>None\<close> is the panic of \<open>unwrap\<close>.\<close>

definition wb_clear :: "write_batch \<Rightarrow> write_batch option" where
  "wb_clear b = (case bb_write_exact (u16_to_le_bytes 0) (bb_clear (wb_frame b)) of
       (Inl _, _) \<Rightarrow> None
     | (Inr _, frame) \<Rightarrow> Some (b\<lparr>wb_frame := frame, wb_fragment := bytes_clear (wb_fragment b), wb_drop := None\<rparr>))"

definition wb_alloc :: "nat \<Rightarrow> write_batch option" where
  "wb_alloc capacity = wb_clear \<lparr>wb_frame = bb_with_capacity (BATCH_LEN + capacity), wb_fragment = bytes_new,
     wb_qos = QOS_DEFAULT, wb_drop = None\<rparr>"

definition wb_len :: "write_batch \<Rightarrow> u16" where
  "wb_len b = of_nat (usize_sub (bb_len (wb_frame b)) BATCH_LEN + bytes_len (wb_fragment b))"

definition wb_is_empty :: "write_batch \<Rightarrow> bool" where
  "wb_is_empty b \<longleftrightarrow> wb_len b = 0"

text \<open>\<open>write_len\<close> overwrites the reserved bytes through \<open>as_mut_slice\<close>.\<close>

definition wb_write_len :: "write_batch \<Rightarrow> write_batch option" where
  "wb_write_len b =
     (case slice_write_exact (u16_to_le_bytes (wb_len b)) (slice_writer_of (bb_as_slice (wb_frame b))) of
       (Inl _, _) \<Rightarrow> None
     | (Inr _, _) \<Rightarrow> Some (b\<lparr>wb_frame := bb_set (wb_frame b) 0 (u16_to_le_bytes (wb_len b))\<rparr>))"

section \<open>The state\<close>

datatype tx_error = Dropped | Timeout | EncodingFailed | Closed | Internal

text \<open>Besides the errors of the code, a failed \<open>unwrap\<close> and an undefined read.\<close>

datatype tx_fail = Fail tx_error | Panicked | UninitRead

record seq_num_pool =
  sn_reliable :: seq_num
  sn_best_effort :: seq_num
  sn_frag_id :: seq_num

definition seq_num_pool_new :: seq_num_pool where
  "seq_num_pool_new = \<lparr>sn_reliable = sn_new 0, sn_best_effort = sn_new 0, sn_frag_id = sn_new 0\<rparr>"

record stage_refill =
  sr_capacity :: nat
  sr_allocated :: nat
  sr_batch_size :: nat

definition stage_refill_new :: "nat \<Rightarrow> nat \<Rightarrow> stage_refill" where
  "stage_refill_new capacity batch_size = \<lparr>sr_capacity = capacity, sr_allocated = 0, sr_batch_size = batch_size\<rparr>"

record stage_in_prio =
  si_seq_num :: seq_num_pool
  si_refill :: stage_refill

record tx =
  tx_inout :: "write_batch mpsc"
  tx_outrefill :: "write_batch spmc"
  tx_prio :: "priority \<Rightarrow> stage_in_prio"
  tx_locked :: "priority \<Rightarrow> bool"
  tx_backoff :: "priority \<Rightarrow> u64"
  tx_can_pull :: u8
  tx_can_refill :: "priority \<Rightarrow> u8"
  tx_status :: u16
  tx_flags :: "bool list"
  tx_clock :: nat

record push_config =
  pc_qos :: qos
  pc_timeout :: nat
  pc_timeout_batch :: nat

definition next_power_of_two :: "nat \<Rightarrow> nat" where
  "next_power_of_two n = (case find (\<lambda>k. n \<le> 2 ^ k) [0..<64] of Some k \<Rightarrow> 2 ^ k | None \<Rightarrow> 0)"

text \<open>\<open>None\<close> is the assertion in \<open>RingBuffer::new\<close>.\<close>

definition pipeline_tx :: "nat \<Rightarrow> nat \<Rightarrow> tx option" where
  "pipeline_tx capacity batch_size =
     (let rb_capacity = (if power_of_two capacity then capacity else next_power_of_two capacity)
      in case (ringbuffer_mpsc rb_capacity, ringbuffer_spmc rb_capacity) of
         (Some inout, Some outrefill) \<Rightarrow> Some
           \<lparr>tx_inout = inout, tx_outrefill = outrefill,
            tx_prio = (\<lambda>_. \<lparr>si_seq_num = seq_num_pool_new, si_refill = stage_refill_new capacity batch_size\<rparr>),
            tx_locked = (\<lambda>_. False), tx_backoff = (\<lambda>_. backoff_new), tx_can_pull = event_new,
            tx_can_refill = (\<lambda>_. event_new), tx_status = status_new, tx_flags = [], tx_clock = 0\<rparr>
       | _ \<Rightarrow> None)"

section \<open>Refilling\<close>

definition set_refill :: "priority \<Rightarrow> stage_refill \<Rightarrow> tx \<Rightarrow> tx" where
  "set_refill p r s = s\<lparr>tx_prio := (tx_prio s)(p := (tx_prio s p)\<lparr>si_refill := r\<rparr>)\<rparr>"

text \<open>
  The argument of \<open>then_some\<close> is evaluated whether or not the limit is reached: a batch
  is allocated and counted, and then given away or dropped.
\<close>

definition stage_refill_pull :: "priority \<Rightarrow> tx \<Rightarrow> (tx_fail + write_batch option) \<times> tx" where
  "stage_refill_pull p s = (case spmc_pull p (tx_outrefill s) of
       (Inl Uninit, rb) \<Rightarrow> (Inl UninitRead, s\<lparr>tx_outrefill := rb\<rparr>)
     | (Inr (Some b), rb) \<Rightarrow> (Inr (Some b), s\<lparr>tx_outrefill := rb\<rparr>)
     | (Inr None, rb) \<Rightarrow>
         let r = si_refill (tx_prio s p);
             allowed = sr_allocated r < sr_capacity r;
             s' = set_refill p (r\<lparr>sr_allocated := sr_allocated r + 1\<rparr>) (s\<lparr>tx_outrefill := rb\<rparr>)
         in case wb_alloc (sr_batch_size r) of
             None \<Rightarrow> (Inl Panicked, s')
           | Some batch \<Rightarrow> (Inr (if allowed then Some batch else None), s'))"

text \<open>\<open>StageOut::refill\<close>; what the ring buffer refuses is dropped, and a notification too.\<close>

definition stage_out_refill :: "write_batch \<Rightarrow> tx \<Rightarrow> (tx_fail + unit) \<times> tx" where
  "stage_out_refill batch s =
     (let p = qos_priority (wb_qos batch) in
      case wb_clear batch of
        None \<Rightarrow> (Inl Panicked, s)
      | Some b \<Rightarrow> (Inr (), s\<lparr>tx_outrefill := snd (spmc_push p b (tx_outrefill s)),
          tx_can_refill := (tx_can_refill s)(p := snd (event_notify (tx_can_refill s p)))\<rparr>))"

section \<open>Waiting\<close>

text \<open>
  \<open>timeout(t, can_refill.wait())\<close>: every poll looks at the event first and at the timer
  then.
\<close>

primrec wait_refill :: "priority \<Rightarrow> nat \<Rightarrow> (tx \<Rightarrow> tx) list \<Rightarrow> tx \<Rightarrow> (wait_end \<times> tx \<times> (tx \<Rightarrow> tx) list) option" where
  "wait_refill p deadline [] s = (case event_check (tx_can_refill s p) of
       (CheckOk, f) \<Rightarrow> Some (WaitOk, s\<lparr>tx_can_refill := (tx_can_refill s)(p := f)\<rparr>, [])
     | (CheckErr, f) \<Rightarrow> Some (WaitGone, s\<lparr>tx_can_refill := (tx_can_refill s)(p := f)\<rparr>, [])
     | (CheckUnset, f) \<Rightarrow> if deadline \<le> tx_clock s then Some (WaitElapsed, s, []) else None)"
| "wait_refill p deadline (g # env) s = (case event_check (tx_can_refill s p) of
       (CheckOk, f) \<Rightarrow> Some (WaitOk, s\<lparr>tx_can_refill := (tx_can_refill s)(p := f)\<rparr>, g # env)
     | (CheckErr, f) \<Rightarrow> Some (WaitGone, s\<lparr>tx_can_refill := (tx_can_refill s)(p := f)\<rparr>, g # env)
     | (CheckUnset, f) \<Rightarrow> if deadline \<le> tx_clock s then Some (WaitElapsed, s, g # env)
         else wait_refill p deadline env (g s))"

text \<open>\<open>timeout(t, lock())\<close>: the mutex is taken at the first poll that finds it free.\<close>

primrec wait_lock :: "priority \<Rightarrow> nat \<Rightarrow> (tx \<Rightarrow> tx) list \<Rightarrow> tx \<Rightarrow> (bool \<times> tx \<times> (tx \<Rightarrow> tx) list) option" where
  "wait_lock p deadline [] s =
     (if \<not> tx_locked s p then Some (True, s\<lparr>tx_locked := (tx_locked s)(p := True)\<rparr>, [])
      else if deadline \<le> tx_clock s then Some (False, s, []) else None)"
| "wait_lock p deadline (g # env) s =
     (if \<not> tx_locked s p then Some (True, s\<lparr>tx_locked := (tx_locked s)(p := True)\<rparr>, g # env)
      else if deadline \<le> tx_clock s then Some (False, s, g # env)
      else wait_lock p deadline env (g s))"

section \<open>The pushing task\<close>

text \<open>
  What a push holds across its waits: the pipeline, the time of its first wait, and what
  the other tasks will do at the polls to come.
\<close>

record push_state =
  ps_tx :: tx
  ps_start :: "nat option"
  ps_env :: "(tx \<Rightarrow> tx) list"

type_synonym 'a tx_op = "push_state \<Rightarrow> ((tx_fail + 'a) \<times> push_state) option"

definition tx_ok :: "'a \<Rightarrow> 'a tx_op" where "tx_ok x \<sigma> = Some (Inr x, \<sigma>)"
definition tx_err :: "tx_fail \<Rightarrow> 'a tx_op" where "tx_err e \<sigma> = Some (Inl e, \<sigma>)"

definition tx_bind :: "'a tx_op \<Rightarrow> ('a \<Rightarrow> 'b tx_op) \<Rightarrow> 'b tx_op" where
  "tx_bind m f \<sigma> = Option.bind (m \<sigma>) (\<lambda>(r, \<sigma>'). case r of Inl e \<Rightarrow> Some (Inl e, \<sigma>') | Inr x \<Rightarrow> f x \<sigma>')"

definition tx_modify :: "(tx \<Rightarrow> tx) \<Rightarrow> unit tx_op" where
  "tx_modify f \<sigma> = Some (Inr (), \<sigma>\<lparr>ps_tx := f (ps_tx \<sigma>)\<rparr>)"

subsection \<open>Getting a batch\<close>

definition set_congested :: "nat option \<Rightarrow> tx \<Rightarrow> tx" where
  "set_congested df s = (case df of None \<Rightarrow> s | Some i \<Rightarrow> s\<lparr>tx_flags := (tx_flags s)[i := True]\<rparr>)"

text \<open>A notification that is pending lets one more turn of the loop go by without a suspension.\<close>

definition wait_turns :: "priority \<Rightarrow> push_state \<Rightarrow> nat" where
  "wait_turns p \<sigma> = 2 * length (ps_env \<sigma>) + (if tx_can_refill (ps_tx \<sigma>) p = EV_OK then 1 else 0)"

lemma wait_refill_turns:
  "wait_refill p deadline env s = Some (WaitOk, s', env') \<Longrightarrow>
     2 * length env' + (if tx_can_refill s' p = EV_OK then 1 else 0)
       < 2 * length env + (if tx_can_refill s p = EV_OK then 1 else 0)"
proof (induction env arbitrary: s)
  case Nil
  then show ?case
    by (auto simp: event_check_def event_values split: prod.splits event_check.splits if_splits)
next
  case (Cons g env)
  show ?case
  proof (cases "fst (event_check (tx_can_refill s p)) = CheckUnset \<and> \<not> deadline \<le> tx_clock s")
    case True
    then have "wait_refill p deadline env (g s) = Some (WaitOk, s', env')"
      using Cons.prems by (auto split: prod.splits)
    from Cons.IH [OF this] show ?thesis by (simp split: if_splits)
  next
    case False
    then show ?thesis using Cons.prems
      by (auto simp: event_check_def event_values split: prod.splits event_check.splits if_splits)
  qed
qed

lemma stage_refill_pull_keeps [simp]:
  "tx_can_refill (snd (stage_refill_pull p s)) = tx_can_refill s"
  "tx_clock (snd (stage_refill_pull p s)) = tx_clock s"
  "tx_inout (snd (stage_refill_pull p s)) = tx_inout s"
  by (simp_all add: stage_refill_pull_def set_refill_def Let_def split: prod.splits sum.splits option.splits ring_ub.splits)

lemma batch_or_return_turns:
  assumes "(z, s) = stage_refill_pull p (ps_tx \<sigma>)" "wait_refill p d (ps_env \<sigma>) s = Some (WaitOk, s', env)"
  shows "wait_turns p (\<sigma>\<lparr>ps_start := st, ps_tx := s', ps_env := env\<rparr>) < wait_turns p \<sigma>"
proof -
  have "tx_can_refill s = tx_can_refill (ps_tx \<sigma>)"
    using assms(1) by (metis snd_conv stage_refill_pull_keeps(1))
  then show ?thesis using wait_refill_turns [OF assms(2)] by (simp add: wait_turns_def)
qed

text \<open>The loop of \<open>batch_or_return!\<close>: afterwards a batch is booked in the lane.\<close>

function batch_or_return :: "priority \<Rightarrow> push_config \<Rightarrow> nat option \<Rightarrow> unit tx_op" where
  "batch_or_return p config drop_flag \<sigma> =
     (if mpsc_peek p (tx_inout (ps_tx \<sigma>)) then Some (Inr (), \<sigma>)
      else case stage_refill_pull p (ps_tx \<sigma>) of
          (Inl e, s) \<Rightarrow> Some (Inl e, \<sigma>\<lparr>ps_tx := s\<rparr>)
        | (Inr (Some batch), s) \<Rightarrow>
            let s' = s\<lparr>tx_backoff := (tx_backoff s)(p := backoff_start (tx_clock s) (tx_backoff s p))\<rparr>
            in (case mpsc_book p (batch\<lparr>wb_qos := pc_qos config, wb_drop := drop_flag\<rparr>) (tx_inout s') of
                  (Inl _, rb) \<Rightarrow> Some (Inl (Fail Internal), \<sigma>\<lparr>ps_tx := s'\<lparr>tx_inout := rb\<rparr>\<rparr>)
                | (Inr _, rb) \<Rightarrow> Some (Inr (), \<sigma>\<lparr>ps_tx := s'\<lparr>tx_inout := rb\<rparr>\<rparr>))
        | (Inr None, s) \<Rightarrow>
            let start = (case ps_start \<sigma> of Some t \<Rightarrow> t | None \<Rightarrow> tx_clock s);
                \<sigma>' = \<sigma>\<lparr>ps_tx := s, ps_start := Some start\<rparr>
            in (case Option.bind (checked_sub (tx_clock s) start) (checked_sub (pc_timeout config)) of
                  None \<Rightarrow> Some (Inl (Fail Timeout), \<sigma>'\<lparr>ps_tx := set_congested drop_flag s\<rparr>)
                | Some left \<Rightarrow>
                    (case wait_refill p (tx_clock s + min left (pc_timeout_batch config)) (ps_env \<sigma>') s of
                       None \<Rightarrow> None
                     | Some (WaitOk, s', env) \<Rightarrow>
                         batch_or_return p config drop_flag (\<sigma>'\<lparr>ps_tx := s', ps_env := env\<rparr>)
                     | Some (WaitElapsed, s', env) \<Rightarrow>
                         Some (Inl (Fail Timeout), \<sigma>'\<lparr>ps_tx := set_congested drop_flag s', ps_env := env\<rparr>)
                     | Some (WaitGone, s', env) \<Rightarrow>
                         Some (Inl (Fail Dropped), \<sigma>'\<lparr>ps_tx := set_congested drop_flag s', ps_env := env\<rparr>))))"
  by pat_completeness auto
termination
  by (relation "measure (\<lambda>(p, config, df, \<sigma>). wait_turns p \<sigma>)") (auto dest: batch_or_return_turns)

declare batch_or_return.simps [simp del]

subsection \<open>The booked batch\<close>

text \<open>Reading and writing through the \<open>WriterPeek\<close> of the lane.\<close>

definition on_batch :: "priority \<Rightarrow> (write_batch \<Rightarrow> 'a \<times> write_batch) \<Rightarrow> 'a tx_op" where
  "on_batch p f \<sigma> = (case mpsc_deref p (tx_inout (ps_tx \<sigma>)) of
       Inl Uninit \<Rightarrow> Some (Inl UninitRead, \<sigma>)
     | Inr b \<Rightarrow> (case f b of (r, b') \<Rightarrow>
         Some (Inr r, \<sigma>\<lparr>ps_tx := (ps_tx \<sigma>)\<lparr>tx_inout := mpsc_store p b' (tx_inout (ps_tx \<sigma>))\<rparr>\<rparr>)))"

definition the_batch :: "priority \<Rightarrow> write_batch tx_op" where
  "the_batch p \<sigma> = (case mpsc_deref p (tx_inout (ps_tx \<sigma>)) of
       Inl Uninit \<Rightarrow> Some (Inl UninitRead, \<sigma>) | Inr b \<Rightarrow> Some (Inr b, \<sigma>))"

text \<open>\<open>batch.frame.writer()\<close> around a write.\<close>

definition in_frame :: "(boxbuf, write_err, 'a) op \<Rightarrow> write_batch \<Rightarrow> (write_err + 'a) \<times> write_batch" where
  "in_frame m b = (case m (wb_frame b) of (r, frame) \<Rightarrow> (r, b\<lparr>wb_frame := frame\<rparr>))"

text \<open>``mark, write, rewind if it did not fit'': whether it fitted.\<close>

definition try_in_frame :: "(boxbuf, write_err, 'a) op \<Rightarrow> write_batch \<Rightarrow> bool \<times> write_batch" where
  "try_in_frame m b = (let mark = bb_mark (wb_frame b) in
     case in_frame m b of
       (Inr _, b') \<Rightarrow> (True, b')
     | (Inl _, b') \<Rightarrow> (False, b'\<lparr>wb_frame := snd (bb_rewind mark (wb_frame b'))\<rparr>))"

text \<open>A write whose failure is the error \<open>e\<close> of the push.\<close>

definition must_write :: "priority \<Rightarrow> tx_error \<Rightarrow> (boxbuf, write_err, 'a) op \<Rightarrow> unit tx_op" where
  "must_write p e m = tx_bind (on_batch p (in_frame m))
     (\<lambda>r. case r of Inl _ \<Rightarrow> tx_err (Fail e) | Inr _ \<Rightarrow> tx_ok ())"

text \<open>\<open>reader.read_chunks(n, |chunk| batch.fragment.push(chunk))\<close>; an access of the reader that
  is out of bounds panics.\<close>

definition must_read :: "priority \<Rightarrow> tx_error \<Rightarrow> nat \<Rightarrow> bytes_reader \<Rightarrow> bytes_reader tx_op" where
  "must_read p e n rd = (case br_read_chunks n rd of
       (Inl DidntRead, _) \<Rightarrow> tx_err (Fail e)
     | (Inl ReadOob, _) \<Rightarrow> tx_err Panicked
     | (Inr cs, rd') \<Rightarrow> tx_bind (on_batch p (\<lambda>b. ((), b\<lparr>wb_fragment := bytes_extend (wb_fragment b) cs\<rparr>)))
         (\<lambda>_. tx_ok rd'))"

subsection \<open>Notifying the consumer\<close>

text \<open>The closure \<open>notify\<close>: not while the consumer polls in backoff.\<close>

definition push_notify :: "unit tx_op" where
  "push_notify \<sigma> = (let s = ps_tx \<sigma> in
     if status_any (tx_status s) STATUS_BACKOFF then Some (Inr (), \<sigma>)
     else case event_notify (tx_can_pull s) of
         (True, f) \<Rightarrow> Some (Inr (), \<sigma>\<lparr>ps_tx := s\<lparr>tx_can_pull := f\<rparr>\<rparr>)
       | (False, f) \<Rightarrow> Some (Inl (Fail Closed), \<sigma>\<lparr>ps_tx := s\<lparr>tx_can_pull := f\<rparr>\<rparr>))"

text \<open>The closure \<open>flush\<close>: takes the request of the consumer to flush the lane.\<close>

definition push_flush :: "priority \<Rightarrow> bool tx_op" where
  "push_flush p \<sigma> = (let s = ps_tx \<sigma>; f = status_flush p in
     Some (Inr (status_any (tx_status s) f), \<sigma>\<lparr>ps_tx := s\<lparr>tx_status := status_unset f (tx_status s)\<rparr>\<rparr>))"

definition move_batch :: "priority \<Rightarrow> unit tx_op" where
  "move_batch p = tx_bind
     (tx_modify (\<lambda>s. s\<lparr>tx_backoff := (tx_backoff s)(p := backoff_clear (tx_backoff s p)),
        tx_inout := mpsc_commit p (tx_inout s)\<rparr>))
     (\<lambda>_. push_notify)"

definition note_length :: "priority \<Rightarrow> unit tx_op" where
  "note_length p = tx_bind (the_batch p) (\<lambda>b.
     tx_modify (\<lambda>s. s\<lparr>tx_backoff := (tx_backoff s)(p := backoff_update (wb_len b) (tx_backoff s p))\<rparr>))"

definition return_notify :: "priority \<Rightarrow> bool \<Rightarrow> bool tx_op" where
  "return_notify p express = tx_bind (if express then tx_ok True else push_flush p)
     (\<lambda>now. if now then tx_bind (move_batch p) (\<lambda>_. tx_ok False) else tx_bind (note_length p) (\<lambda>_. tx_ok True))"

subsection \<open>Sequence numbers\<close>

primrec sn_gen :: "congestion_control \<Rightarrow> seq_num_pool \<Rightarrow> seq_num" where
  "sn_gen Drop pool = sn_best_effort pool"
| "sn_gen Block pool = sn_reliable pool"

primrec sn_gen_set :: "congestion_control \<Rightarrow> seq_num \<Rightarrow> seq_num_pool \<Rightarrow> seq_num_pool" where
  "sn_gen_set Drop sn pool = pool\<lparr>sn_best_effort := sn_set (sn_best_effort pool) sn\<rparr>"
| "sn_gen_set Block sn pool = pool\<lparr>sn_reliable := sn_set (sn_reliable pool) sn\<rparr>"

definition tx_pool :: "priority \<Rightarrow> tx \<Rightarrow> seq_num_pool" where
  "tx_pool p s = si_seq_num (tx_prio s p)"

definition set_pool :: "priority \<Rightarrow> (seq_num_pool \<Rightarrow> seq_num_pool) \<Rightarrow> tx \<Rightarrow> tx" where
  "set_pool p f s = s\<lparr>tx_prio := (tx_prio s)(p := (tx_prio s p)\<lparr>si_seq_num := f (si_seq_num (tx_prio s p))\<rparr>)\<rparr>"

section \<open>Pushing a message\<close>

text \<open>Step 1: append to the frame in the booked batch, or send it and get a fresh one.  The
  result is that of the push when it is over.\<close>

definition push_append :: "priority \<Rightarrow> bytes \<Rightarrow> push_config \<Rightarrow> bool option tx_op" where
  "push_append p msg config = tx_bind (the_batch p) (\<lambda>batch.
     if wb_is_empty batch then tx_ok None
     else
       let next_batch = tx_bind (move_batch p) (\<lambda>_. tx_bind (batch_or_return p config None) (\<lambda>_. tx_ok None))
       in if qos_congestion_control (wb_qos batch) = qos_congestion_control (pc_qos config)
          then tx_bind (on_batch p (try_in_frame (write_bytes bb_ops msg))) (\<lambda>fits.
            if fits then tx_bind (return_notify p (qos_express (pc_qos config))) (\<lambda>b. tx_ok (Some b))
            else next_batch)
          else next_batch)"

text \<open>Step 2: a new frame with the message.\<close>

definition push_frame :: "priority \<Rightarrow> bytes \<Rightarrow> push_config \<Rightarrow> bool option tx_op" where
  "push_frame p msg config \<sigma> =
     (let cc = qos_congestion_control (pc_qos config);
          seq_num = sn_next (sn_gen cc (tx_pool p (ps_tx \<sigma>)));
          thubo = message_new (message_header_new (pc_qos config) seq_num) (Frame frame_new)
      in tx_bind (on_batch p (try_in_frame (andthen (write_message bb_ops thubo) (\<lambda>_. write_bytes bb_ops msg))))
          (\<lambda>fits. if fits
             then tx_bind (tx_modify (set_pool p (sn_gen_set cc seq_num)))
               (\<lambda>_. tx_bind (return_notify p (qos_express (pc_qos config))) (\<lambda>b. tx_ok (Some b)))
             else tx_ok None) \<sigma>)"

text \<open>Step 3: fragments.\<close>

definition fragment_message :: "push_config \<Rightarrow> seq_num \<Rightarrow> fragment_kind \<Rightarrow> seq_num \<Rightarrow> message" where
  "fragment_message config seq_num kind frag_id =
     message_new (message_header_new (pc_qos config) seq_num) (Fragment (fragment_new kind frag_id))"

definition new_drop_flag :: "priority \<Rightarrow> nat tx_op" where
  "new_drop_flag p \<sigma> = (let s = ps_tx \<sigma>; df = length (tx_flags s) in
     tx_bind (on_batch p (\<lambda>b. (df, b\<lparr>wb_drop := Some df\<rparr>))) tx_ok
       (\<sigma>\<lparr>ps_tx := s\<lparr>tx_flags := tx_flags s @ [False]\<rparr>\<rparr>))"

definition new_frag_id :: "priority \<Rightarrow> seq_num tx_op" where
  "new_frag_id p \<sigma> = (case sn_increment (sn_frag_id (tx_pool p (ps_tx \<sigma>))) of
     (frag_id, gen) \<Rightarrow> Some (Inr frag_id, \<sigma>\<lparr>ps_tx := set_pool p (\<lambda>pool. pool\<lparr>sn_frag_id := gen\<rparr>) (ps_tx \<sigma>)\<rparr>))"

definition next_seq_num :: "priority \<Rightarrow> push_config \<Rightarrow> seq_num tx_op" where
  "next_seq_num p config \<sigma> =
     tx_ok (sn_next (sn_gen (qos_congestion_control (pc_qos config)) (tx_pool p (ps_tx \<sigma>)))) \<sigma>"

text \<open>A fragment is done: its sequence number is used and the batch is sent.\<close>

definition send_batch :: "priority \<Rightarrow> push_config \<Rightarrow> seq_num \<Rightarrow> unit tx_op" where
  "send_batch p config seq_num = tx_bind
     (tx_modify (set_pool p (sn_gen_set (qos_congestion_control (pc_qos config)) seq_num)))
     (\<lambda>_. move_batch p)"

definition first_fragment :: "priority \<Rightarrow> bytes \<Rightarrow> push_config \<Rightarrow> seq_num \<Rightarrow> seq_num \<Rightarrow> bytes_reader tx_op" where
  "first_fragment p msg config seq_num frag_id =
     tx_bind (must_write p EncodingFailed (write_message bb_ops (fragment_message config seq_num First frag_id))) (\<lambda>_.
     tx_bind (must_write p EncodingFailed (write_usize bb_ops (bytes_len msg))) (\<lambda>_.
     tx_bind (the_batch p) (\<lambda>b.
     tx_bind (must_read p EncodingFailed (bb_remaining (wb_frame b)) (bytes_reader msg)) (\<lambda>rd.
     tx_bind (send_batch p config seq_num) (\<lambda>_. tx_ok rd)))))"

definition more_fragment ::
    "priority \<Rightarrow> push_config \<Rightarrow> nat \<Rightarrow> seq_num \<Rightarrow> seq_num \<Rightarrow> bytes_reader \<Rightarrow> bytes_reader tx_op" where
  "more_fragment p config df seq_num frag_id rd =
     tx_bind (batch_or_return p config (Some df)) (\<lambda>_.
     tx_bind (the_batch p) (\<lambda>b.
       let more = fragment_message config seq_num More frag_id;
           w_capacity = usize_sub (bb_remaining (wb_frame b)) (w_len_message more);
           r_capacity = br_remaining rd;
           thubo = (if r_capacity \<le> w_capacity then fragment_message config seq_num Last frag_id else more)
       in tx_bind (must_write p EncodingFailed (write_message bb_ops thubo)) (\<lambda>_.
          tx_bind (must_read p Internal (min r_capacity w_capacity) rd) (\<lambda>rd'.
          tx_bind (send_batch p config seq_num) (\<lambda>_. tx_ok rd')))))"

text \<open>The loop ends when the message has been read; \<open>None\<close> also stands for a loop that never
  ends.\<close>

partial_function (option) frag_loop ::
    "priority \<Rightarrow> push_config \<Rightarrow> nat \<Rightarrow> seq_num \<Rightarrow> bytes_reader \<Rightarrow> push_state \<Rightarrow> ((tx_fail + bool) \<times> push_state) option" where
  "frag_loop p config df frag_id rd \<sigma> =
     (if can_read br_ops rd
      then Option.bind (tx_bind (next_seq_num p config)
             (\<lambda>seq_num. more_fragment p config df seq_num frag_id rd) \<sigma>)
           (\<lambda>(r, \<sigma>'). case r of Inl e \<Rightarrow> Some (Inl e, \<sigma>') | Inr rd' \<Rightarrow> frag_loop p config df frag_id rd' \<sigma>')
      else Some (Inr False, \<sigma>))"

definition push_fragments :: "priority \<Rightarrow> bytes \<Rightarrow> push_config \<Rightarrow> bool tx_op" where
  "push_fragments p msg config =
     tx_bind (next_seq_num p config) (\<lambda>seq_num.
     tx_bind (new_drop_flag p) (\<lambda>df.
     tx_bind (new_frag_id p) (\<lambda>frag_id.
     tx_bind (first_fragment p msg config seq_num frag_id) (\<lambda>rd.
     frag_loop p config df frag_id rd))))"

text \<open>\<open>StageInPrio::push\<close>.\<close>

definition stage_in_prio_push :: "priority \<Rightarrow> bytes \<Rightarrow> push_config \<Rightarrow> bool tx_op" where
  "stage_in_prio_push p msg config =
     tx_bind (batch_or_return p config None) (\<lambda>_.
     tx_bind (push_append p msg config) (\<lambda>done1. case done1 of Some b \<Rightarrow> tx_ok b | None \<Rightarrow>
     tx_bind (push_frame p msg config) (\<lambda>done2. case done2 of Some b \<Rightarrow> tx_ok b | None \<Rightarrow>
     push_fragments p msg config)))"

text \<open>\<open>StageIn::push\<close>: the mutex of the lane is held to the end of the call above.\<close>

definition unlock :: "priority \<Rightarrow> tx \<Rightarrow> tx" where
  "unlock p s = s\<lparr>tx_locked := (tx_locked s)(p := False)\<rparr>"

definition lock_prio :: "priority \<Rightarrow> push_config \<Rightarrow> unit tx_op" where
  "lock_prio p config \<sigma> =
     (case wait_lock p (tx_clock (ps_tx \<sigma>) + pc_timeout config) (ps_env \<sigma>) (ps_tx \<sigma>) of
        None \<Rightarrow> None
      | Some (locked, s, env) \<Rightarrow>
          Some (if locked then Inr () else Inl (Fail Timeout), \<sigma>\<lparr>ps_tx := s, ps_env := env\<rparr>))"

definition stage_in_push :: "bytes \<Rightarrow> push_config \<Rightarrow> unit tx_op" where
  "stage_in_push msg config = (let p = qos_priority (pc_qos config) in
     tx_bind (lock_prio p config) (\<lambda>_.
     tx_bind (\<lambda>\<sigma>. map_option (\<lambda>(r, \<sigma>'). (r, \<sigma>'\<lparr>ps_tx := unlock p (ps_tx \<sigma>')\<rparr>))
         (stage_in_prio_push p msg config \<sigma>)) (\<lambda>to_notify.
     if to_notify then push_notify else tx_ok ())))"

text \<open>\<open>PipelineTxIn::push\<close>.\<close>

definition congests :: "tx_fail \<Rightarrow> bool" where
  "congests e \<longleftrightarrow> e = Fail Dropped \<or> e = Fail Timeout"

definition tx_push :: "bytes \<Rightarrow> push_config \<Rightarrow> (tx \<Rightarrow> tx) list \<Rightarrow> tx \<Rightarrow> ((tx_fail + unit) \<times> tx \<times> (tx \<Rightarrow> tx) list) option" where
  "tx_push msg config env s =
     (let congested = status_congested (qos_priority (pc_qos config))
      in if qos_congestion_control (pc_qos config) = Drop \<and> status_any (tx_status s) congested
         then Some (Inl (Fail Dropped), s, env)
         else map_option
           (\<lambda>(r, \<sigma>). (r, (case r of
                Inl e \<Rightarrow> if congests e then (ps_tx \<sigma>)\<lparr>tx_status := status_set congested (tx_status (ps_tx \<sigma>))\<rparr>
                  else ps_tx \<sigma>
              | Inr _ \<Rightarrow> ps_tx \<sigma>), ps_env \<sigma>))
           (stage_in_push msg config \<lparr>ps_tx = s, ps_start = None, ps_env = env\<rparr>))"

section \<open>The consumer\<close>

text \<open>\<open>StageInPrio::flush\<close>.\<close>

definition stage_flush :: "priority \<Rightarrow> tx \<Rightarrow> bool \<times> tx" where
  "stage_flush p s = (if mpsc_peek p (tx_inout s) then (True, s\<lparr>tx_inout := mpsc_commit p (tx_inout s)\<rparr>) else (False, s))"

text \<open>A pulled batch is handed out, or taken back when it is to be dropped.\<close>

datatype lane_result = Got write_batch | Again | AtBooked priority | Nothing

definition flag_raised :: "nat option \<Rightarrow> tx \<Rightarrow> bool" where
  "flag_raised df s = (case df of None \<Rightarrow> False | Some i \<Rightarrow> i < length (tx_flags s) \<and> tx_flags s ! i)"

definition take_batch :: "write_batch \<Rightarrow> tx \<Rightarrow> (tx_fail + lane_result) \<times> tx" where
  "take_batch batch s =
     (let cf = status_congested (qos_priority (wb_qos batch));
          is_congested = status_any (tx_status s) cf;
          s' = s\<lparr>tx_status := status_unset cf (tx_status s)\<rparr>
      in if (is_congested \<and> qos_congestion_control (wb_qos batch) = Drop) \<or> flag_raised (wb_drop batch) s'
         then (case stage_out_refill batch s' of (Inl e, s'') \<Rightarrow> (Inl e, s'') | (Inr _, s'') \<Rightarrow> (Inr Again, s''))
         else (case wb_write_len batch of None \<Rightarrow> (Inl Panicked, s') | Some b \<Rightarrow> (Inr (Got b), s')))"

text \<open>One turn of the \<open>for\<close> loop over the priorities.\<close>

primrec try_lanes :: "priority list \<Rightarrow> tx \<Rightarrow> (tx_fail + lane_result) \<times> tx" where
  "try_lanes [] s = (Inr Nothing, s)"
| "try_lanes (p # ps) s = (case mpsc_pull_priority p (tx_inout s) of
       (Inl Uninit, rb) \<Rightarrow> (Inl UninitRead, s\<lparr>tx_inout := rb\<rparr>)
     | (Inr (PullSome batch), rb) \<Rightarrow> take_batch batch (s\<lparr>tx_inout := rb\<rparr>)
     | (Inr PullBooked, rb) \<Rightarrow> (Inr (AtBooked p), s\<lparr>tx_inout := rb\<rparr>)
     | (Inr PullNone, rb) \<Rightarrow> try_lanes ps (s\<lparr>tx_inout := rb\<rparr>))"

text \<open>\<open>PipelineTxOut::try_pull\<close>.\<close>

partial_function (option) tx_try_pull :: "tx \<Rightarrow> ((tx_fail + write_batch option) \<times> tx) option" where
  "tx_try_pull s =
     (if status_any (tx_status s) STATUS_DISABLED then Some (Inr None, s)
      else case try_lanes PRIO_ALL s of
          (Inl e, s') \<Rightarrow> Some (Inl e, s')
        | (Inr r, s') \<Rightarrow> (case r of
              Got b \<Rightarrow> Some (Inr (Some b), s')
            | Again \<Rightarrow> tx_try_pull s'
            | AtBooked p \<Rightarrow> Some (Inr None, s')
            | Nothing \<Rightarrow> Some (Inr None, s')))"

text \<open>\<open>PipelineTxOut::pull\<close>: its local variables.\<close>

record pull_local =
  pl_booked_len :: "priority \<Rightarrow> u16"
  pl_backoff :: bool
  pl_backoff_num :: "priority \<Rightarrow> u16"

definition pull_local_new :: pull_local where
  "pull_local_new = \<lparr>pl_booked_len = (\<lambda>_. 0), pl_backoff = False, pl_backoff_num = (\<lambda>_. 0)\<rparr>"

text \<open>\<open>1 << backoff_num[p]\<close> is an \<open>i32\<close>, shifted by the number modulo 32.\<close>

definition yield_count :: "u16 \<Rightarrow> nat" where
  "yield_count n = (let k = unat n mod 32 in if k = 31 then 0 else 2 ^ k)"

text \<open>What \<open>pull\<close> does at a booked batch, after the yields: it asks for a flush of a batch that
  is too old, and sends a batch itself that nobody has written to since the last look.\<close>

definition at_booked :: "nat \<Rightarrow> priority \<Rightarrow> pull_local \<Rightarrow> tx \<Rightarrow> pull_local \<times> tx" where
  "at_booked max_batch_age p l s =
     (let l1 = l\<lparr>pl_backoff_num := (pl_backoff_num l)(p := pl_backoff_num l p + 1)\<rparr>;
          (len, first_write) = backoff_load (tx_backoff s p);
          old_len = pl_booked_len l1 p;
          l2 = l1\<lparr>pl_booked_len := (pl_booked_len l1)(p := len)\<rparr>
      in if len < old_len then (l2, s)
         else let too_old = tx_clock s - first_write > max_batch_age;
                  s1 = (if len \<noteq> old_len \<and> too_old
                        then s\<lparr>tx_status := status_set (status_flush p) (tx_status s)\<rparr> else s);
                  to_pull = (len = old_len \<or> too_old)
              in (l2, if to_pull \<and> \<not> tx_locked s1 p then snd (stage_flush p s1) else s1))"

text \<open>
  A future is a state machine.  Where a suspended \<open>pull\<close> will go on: at its start, after
  \<open>n\<close> more yields in front of the booked batch of a lane, or at the event.  A poll runs it to
  its next suspension or to its end; other tasks run between two polls.
\<close>

datatype pull_wait = PullStart | Yielding nat priority | AwaitEvent

datatype pull_result = PullReady "write_batch option" | PullPending pull_wait pull_local

partial_function (option) pull_loop :: "nat \<Rightarrow> pull_local \<Rightarrow> tx \<Rightarrow> ((tx_fail + pull_result) \<times> tx) option" where
  "pull_loop max_batch_age l s =
     (if status_any (tx_status s) STATUS_DISABLED then Some (Inr (PullReady None), s)
      else case try_lanes PRIO_ALL s of
          (Inl e, s') \<Rightarrow> Some (Inl e, s')
        | (Inr r, s') \<Rightarrow> (case r of
              Got b \<Rightarrow> Some (Inr (PullReady (Some b)), s')
            | Again \<Rightarrow> pull_loop max_batch_age l s'
            | AtBooked p \<Rightarrow>
                let l1 = l\<lparr>pl_backoff := True\<rparr>;
                    s1 = (if pl_backoff l then s' else s'\<lparr>tx_status := status_set STATUS_BACKOFF (tx_status s')\<rparr>);
                    n = yield_count (pl_backoff_num l p)
                in if 0 < n then Some (Inr (PullPending (Yielding (n - 1) p) l1), s1)
                   else (case at_booked max_batch_age p l1 s1 of (l2, s2) \<Rightarrow> pull_loop max_batch_age l2 s2)
            | Nothing \<Rightarrow>
                let s1 = s'\<lparr>tx_status := status_unset STATUS_BACKOFF (tx_status s')\<rparr>
                in case event_check (tx_can_pull s1) of (c, f) \<Rightarrow>
                     let s2 = s1\<lparr>tx_can_pull := f\<rparr>
                     in if c = CheckOk then pull_loop max_batch_age pull_local_new s2
                        else Some (Inr (if c = CheckErr then PullReady None else PullPending AwaitEvent pull_local_new), s2)))"

definition pull_poll :: "nat \<Rightarrow> pull_wait \<Rightarrow> pull_local \<Rightarrow> tx \<Rightarrow> ((tx_fail + pull_result) \<times> tx) option" where
  "pull_poll max_batch_age w l s = (case w of
       PullStart \<Rightarrow> pull_loop max_batch_age l s
     | Yielding n p \<Rightarrow> if 0 < n then Some (Inr (PullPending (Yielding (n - 1) p) l), s)
         else (case at_booked max_batch_age p l s of (l', s') \<Rightarrow> pull_loop max_batch_age l' s')
     | AwaitEvent \<Rightarrow> (case event_check (tx_can_pull s) of (c, f) \<Rightarrow>
           if c = CheckOk then pull_loop max_batch_age l (s\<lparr>tx_can_pull := f\<rparr>)
           else Some (Inr (if c = CheckErr then PullReady None else PullPending AwaitEvent l), s\<lparr>tx_can_pull := f\<rparr>)))"

text \<open>\<open>PipelineTxOut::refill\<close> is \<open>stage_out_refill\<close>.\<close>

section \<open>Closing\<close>

text \<open>The locks of all lanes in order, without a timeout.\<close>

primrec lock_now :: "priority \<Rightarrow> (tx \<Rightarrow> tx) list \<Rightarrow> tx \<Rightarrow> (tx \<times> (tx \<Rightarrow> tx) list) option" where
  "lock_now p [] s = (if tx_locked s p then None else Some (s\<lparr>tx_locked := (tx_locked s)(p := True)\<rparr>, []))"
| "lock_now p (g # env) s = (if tx_locked s p then lock_now p env (g s)
     else Some (s\<lparr>tx_locked := (tx_locked s)(p := True)\<rparr>, g # env))"

primrec lock_all :: "priority list \<Rightarrow> (tx \<Rightarrow> tx) list \<Rightarrow> tx \<Rightarrow> (tx \<times> (tx \<Rightarrow> tx) list) option" where
  "lock_all [] env s = Some (s, env)"
| "lock_all (p # ps) env s = Option.bind (lock_now p env s) (\<lambda>(s', env'). lock_all ps env' s')"

definition flush_all :: "tx \<Rightarrow> tx" where
  "flush_all s = fold (\<lambda>p s. snd (stage_flush p s)) PRIO_ALL s"

definition unlock_all :: "tx \<Rightarrow> tx" where
  "unlock_all s = fold unlock PRIO_ALL s"

definition tx_disable :: "(tx \<Rightarrow> tx) list \<Rightarrow> tx \<Rightarrow> (tx \<times> (tx \<Rightarrow> tx) list) option" where
  "tx_disable env s = map_option (\<lambda>(s', env'). (unlock_all (flush_all s'), env'))
     (lock_all PRIO_ALL env (s\<lparr>tx_status := status_set STATUS_DISABLED (tx_status s)\<rparr>))"

partial_function (option) drain_loop :: "write_batch list \<Rightarrow> tx \<Rightarrow> ((tx_fail + write_batch list) \<times> tx) option" where
  "drain_loop batches s = (case mpsc_pull (tx_inout s) of
       (Inl Uninit, rb) \<Rightarrow> Some (Inl UninitRead, s\<lparr>tx_inout := rb\<rparr>)
     | (Inr None, rb) \<Rightarrow> Some (Inr batches, s\<lparr>tx_inout := rb\<rparr>)
     | (Inr (Some batch), rb) \<Rightarrow> (case wb_write_len batch of
           None \<Rightarrow> Some (Inl Panicked, s\<lparr>tx_inout := rb\<rparr>)
         | Some b \<Rightarrow> drain_loop (batches @ [b]) (s\<lparr>tx_inout := rb\<rparr>)))"

definition tx_drain :: "(tx \<Rightarrow> tx) list \<Rightarrow> tx \<Rightarrow> ((tx_fail + write_batch list) \<times> tx \<times> (tx \<Rightarrow> tx) list) option" where
  "tx_drain env s = Option.bind (lock_all PRIO_ALL env s) (\<lambda>(s', env').
     map_option (\<lambda>(r, s''). (r, unlock_all s'', env')) (drain_loop [] (flush_all s')))"

end
