(* ===== verification/Packets.thy ===== *)
theory Packets
  imports Codec
begin

text \<open>
  What travels between the two pipelines, abstractly: a packet is the contents of one
  batch, a frame with whole messages or a fragment of a message.  The reassembly that the
  receiving side does is specified here on packets (\<open>feed\<close>), and what a push may do to the
  log of a lane (\<open>pushed\<close>), with the fact that ties the two: a log extended by a push
  carries one more message.
\<close>

section \<open>Packets\<close>

datatype packet =
    PkFrame qos seq_num "u8 list list"
  | PkFrag qos seq_num fragment_kind seq_num "u8 list"

primrec pk_qos :: "packet \<Rightarrow> qos" where
  "pk_qos (PkFrame q _ _) = q"
| "pk_qos (PkFrag q _ _ _ _) = q"

primrec pk_message :: "packet \<Rightarrow> message" where
  "pk_message (PkFrame q sn _) = message_new (message_header_new q sn) (Frame frame_new)"
| "pk_message (PkFrag q sn k i _) = message_new (message_header_new q sn) (Fragment (fragment_new k i))"

definition enc_slices :: "u8 list list \<Rightarrow> u8 list" where
  "enc_slices ms = concat (map enc_slice ms)"

primrec pk_body :: "packet \<Rightarrow> u8 list" where
  "pk_body (PkFrame _ _ ms) = enc_slices ms"
| "pk_body (PkFrag _ _ _ _ bs) = bs"

definition enc_packet :: "packet \<Rightarrow> u8 list" where
  "enc_packet pk = enc_message (pk_message pk) @ pk_body pk"

lemma enc_slices_simps [simp]:
  "enc_slices [] = []" "enc_slices (m # ms) = enc_slice m @ enc_slices ms"
  "enc_slices (ms @ ns) = enc_slices ms @ enc_slices ns"
  by (simp_all add: enc_slices_def)

lemma enc_slice_ne [simp]: "enc_slice m \<noteq> []"
  by (simp add: enc_slice_def)

lemma enc_slices_nil_iff [simp]: "enc_slices ms = [] \<longleftrightarrow> ms = []"
  by (cases ms) simp_all

text \<open>Packets whose headers are those that the constructors build.\<close>

definition pk_wf :: "packet \<Rightarrow> bool" where
  "pk_wf pk \<longleftrightarrow> message_wf (pk_message pk) \<and> (case pk of PkFrame _ _ ms \<Rightarrow> \<forall>m \<in> set ms. length m < 2 ^ 64 | _ \<Rightarrow> True)"

text \<open>The bytes of a packet say what it is.\<close>

lemma enc_message_prefix:
  assumes "enc_message m @ x = enc_message n @ y" "message_wf m" "message_wf n"
  shows "m = n \<and> x = y"
proof -
  have *: "\<exists>r. read_message slice_reader_ops (enc_message k @ z) = (Inr k, r) \<and> r = z" if "message_wf k" for k z
  proof -
    have "rv_inv slice_reader_view (enc_message k @ z)" "rv_pending slice_reader_view (enc_message k @ z) = enc_message k @ z"
      by (simp_all add: slice_reader_view_def)
    from parsesD [OF slice_r.parses_message [OF that] this]
    obtain r where "read_message slice_reader_ops (enc_message k @ z) = (Inr k, r)" "rv_pending slice_reader_view r = z" by blast
    then show ?thesis by (simp add: slice_reader_view_def)
  qed
  obtain r where "read_message slice_reader_ops (enc_message m @ x) = (Inr m, r)" "r = x" using * [OF assms(2)] by blast
  moreover obtain r' where "read_message slice_reader_ops (enc_message n @ y) = (Inr n, r')" "r' = y" using * [OF assms(3)] by blast
  ultimately show ?thesis using assms(1) by (metis Pair_inject sum.inject(2))
qed

section \<open>Reassembly\<close>

text \<open>The reassembly buffer of one lane and one kind of congestion control.\<close>

record defrag =
  df_seq_num :: seq_num
  df_frag_id :: seq_num
  df_buffer :: "u8 list"

type_synonym defrags = "congestion_control \<Rightarrow> defrag"

definition frag_fits :: "nat \<Rightarrow> defrag \<Rightarrow> seq_num \<Rightarrow> seq_num \<Rightarrow> u8 list \<Rightarrow> bool" where
  "frag_fits cap d sn i bs \<longleftrightarrow> sn = df_seq_num d \<and> i = df_frag_id d \<and> length (df_buffer d) + length bs \<le> cap"

text \<open>The new buffers, and the bytes that are handed on with their QoS: one message after the other.\<close>

primrec feed :: "nat \<Rightarrow> defrags \<Rightarrow> packet \<Rightarrow> (qos \<times> u8 list) option \<times> defrags" where
  "feed cap D (PkFrame q sn ms) = (Some (q, enc_slices ms), D)"
| "feed cap D (PkFrag q sn k i bs) = (let c = qos_congestion_control q; d = D c in case k of
       First \<Rightarrow> (None, D(c := if length bs \<le> cap then \<lparr>df_seq_num = sn_next sn, df_frag_id = i, df_buffer = bs\<rparr>
           else \<lparr>df_seq_num = sn, df_frag_id = i, df_buffer = []\<rparr>))
     | More \<Rightarrow> (None, D(c := if frag_fits cap d sn i bs
           then d\<lparr>df_seq_num := sn_next sn, df_buffer := df_buffer d @ bs\<rparr> else d\<lparr>df_buffer := []\<rparr>))
     | Last \<Rightarrow> if frag_fits cap d sn i bs
         then (Some (q, df_buffer d @ bs), D(c := d\<lparr>df_seq_num := sn_next sn, df_buffer := []\<rparr>)) else (None, D))"

primrec feed_all :: "nat \<Rightarrow> defrags \<Rightarrow> packet list \<Rightarrow> (qos \<times> u8 list) list \<times> defrags" where
  "feed_all cap D [] = ([], D)"
| "feed_all cap D (pk # pks) = (case feed cap D pk of (out, D') \<Rightarrow> case feed_all cap D' pks of (outs, D'') \<Rightarrow>
     ((case out of None \<Rightarrow> [] | Some x \<Rightarrow> [x]) @ outs, D''))"

lemma feed_all_append:
  "feed_all cap D (pks @ qks) = (fst (feed_all cap D pks) @ fst (feed_all cap (snd (feed_all cap D pks)) qks),
     snd (feed_all cap (snd (feed_all cap D pks)) qks))"
  by (induction pks arbitrary: D) (simp_all split: prod.splits)

definition defrags_new :: defrags where
  "defrags_new = (\<lambda>_. \<lparr>df_seq_num = sn_new 0, df_frag_id = sn_new 0, df_buffer = []\<rparr>)"

section \<open>The messages in a delivery\<close>

text \<open>What the receiver is told of the QoS that the sender chose: all but the express bit.\<close>

definition qos_class :: "qos \<Rightarrow> priority \<times> congestion_control" where
  "qos_class q = (qos_priority q, qos_congestion_control q)"

text \<open>Deliveries carry a list of messages if each is a whole number of them.\<close>

inductive carries :: "(qos \<times> u8 list) list \<Rightarrow> ((priority \<times> congestion_control) \<times> u8 list) list \<Rightarrow> bool" where
  carries_nil: "carries [] []"
| carries_cons: "carries out msgs \<Longrightarrow> \<forall>m \<in> set ms. length m < 2 ^ 64 \<Longrightarrow> carries ((q, enc_slices ms) # out) (map (Pair (qos_class q)) ms @ msgs)"

lemma carries_append: "carries as ms \<Longrightarrow> carries bs ns \<Longrightarrow> carries (as @ bs) (ms @ ns)"
  by (induction rule: carries.induct) (auto intro: carries_cons)

lemma carries_single:
  "\<forall>m \<in> set ms. length m < 2 ^ 64 \<Longrightarrow> carries [(q, enc_slices ms)] (map (Pair (qos_class q)) ms)"
  using carries_cons [OF carries_nil] by simp

lemma carries_one: "length m < 2 ^ 64 \<Longrightarrow> carries [(q, enc_slice m)] [(qos_class q, m)]"
  using carries_single [of "[m]" q] by simp

inductive_cases carries_nilE: "carries [] msgs"
inductive_cases carries_consE: "carries (x # xs) msgs"

text \<open>The encoding of a list of messages determines it.\<close>

lemma enc_slice_prefix:
  assumes "enc_slice m @ x = enc_slice n @ y" "length m < 2 ^ 64" "length n < 2 ^ 64"
  shows "m = n \<and> x = y"
proof -
  have *: "\<exists>r. read_vec slice_reader_ops (enc_slice k @ z) = (Inr k, r) \<and> r = z" if "length k < 2 ^ 64" for k z
  proof -
    have "rv_inv slice_reader_view (enc_slice k @ z)" "rv_pending slice_reader_view (enc_slice k @ z) = enc_slice k @ z"
      by (simp_all add: slice_reader_view_def)
    from parsesD [OF slice_r.parses_vec [OF that] this]
    obtain k' r where "read_vec slice_reader_ops (enc_slice k @ z) = (Inr k', r)" "k = k'" "rv_pending slice_reader_view r = z"
      by blast
    then show ?thesis by (simp add: slice_reader_view_def)
  qed
  obtain r where "read_vec slice_reader_ops (enc_slice m @ x) = (Inr m, r)" "r = x" using * [OF assms(2)] by blast
  moreover obtain r' where "read_vec slice_reader_ops (enc_slice n @ y) = (Inr n, r')" "r' = y" using * [OF assms(3)] by blast
  ultimately show ?thesis using assms(1) by (metis Pair_inject sum.inject(2))
qed

lemma enc_slices_inject:
  assumes "enc_slices ms = enc_slices ns" "\<forall>m \<in> set ms. length m < 2 ^ 64" "\<forall>m \<in> set ns. length m < 2 ^ 64"
  shows "ms = ns"
  using assms
proof (induction ms arbitrary: ns)
  case Nil
  then show ?case using enc_slices_nil_iff [of ns] by simp
next
  case (Cons m ms)
  then obtain n ns' where ns: "ns = n # ns'" using enc_slices_nil_iff [of ns] by (cases ns) auto
  have "enc_slice m @ enc_slices ms = enc_slice n @ enc_slices ns'" using Cons.prems(1) ns by simp
  then have *: "m = n" "enc_slices ms = enc_slices ns'"
    using enc_slice_prefix [of m "enc_slices ms" n "enc_slices ns'"] Cons.prems(2,3) ns by auto
  have "ms = ns'" using Cons.prems(2,3) ns by (intro Cons.IH [OF *(2)]) auto
  then show ?case using *(1) ns by simp
qed

text \<open>Splitting off the last delivery.\<close>

lemma carries_snocE:
  assumes "carries (out @ [(q, enc_slices ms)]) msgs" "\<forall>m \<in> set ms. length m < 2 ^ 64"
  obtains ns where "carries out ns" "msgs = ns @ map (Pair (qos_class q)) ms"
proof -
  have "\<exists>ns. carries out ns \<and> msgs = ns @ map (Pair (qos_class q)) ms"
    using assms(1)
  proof (induction out arbitrary: msgs)
    case Nil
    then obtain ms' where "msgs = map (Pair (qos_class q)) ms'" "enc_slices ms = enc_slices ms'"
        "\<forall>m \<in> set ms'. length m < 2 ^ 64"
      by (auto elim!: carries_consE carries_nilE)
    then show ?case using enc_slices_inject [OF _ assms(2), of ms'] by (auto intro: carries_nil)
  next
    case (Cons a out)
    then obtain q' ms' msgs' where a: "a = (q', enc_slices ms')" "msgs = map (Pair (qos_class q')) ms' @ msgs'"
        "\<forall>m \<in> set ms'. length m < 2 ^ 64" "carries (out @ [(q, enc_slices ms)]) msgs'"
      by (auto elim: carries_consE)
    then obtain ns where "carries out ns" "msgs' = ns @ map (Pair (qos_class q)) ms" using Cons.IH by blast
    then show ?case using a by (intro exI [of _ "map (Pair (qos_class q')) ms' @ ns"]) (auto intro: carries_cons)
  qed
  then show thesis using that by blast
qed

lemma enc_packet_inject:
  assumes "enc_packet pk = enc_packet pk'" "pk_wf pk" "pk_wf pk'"
  shows "pk = pk'"
proof -
  have h: "pk_message pk = pk_message pk'" "pk_body pk = pk_body pk'"
    using enc_message_prefix [of "pk_message pk" "pk_body pk" "pk_message pk'" "pk_body pk'"] assms
    by (auto simp: enc_packet_def pk_wf_def)
  have m: "q = q' \<and> sn = sn'" if "message_header_new q sn = message_header_new q' sn'" for q sn q' sn'
    using that by (metis message_header_new_simps)
  have f: "k = k' \<and> i = i'" if "fragment_new k i = fragment_new k' i'" for k i k' i'
    using that by (metis fragment_new_kind fragment_new_simps(1) option.inject)
  show ?thesis
  proof (cases pk; cases pk')
    fix q sn ms q' sn' ms' assume pk: "pk = PkFrame q sn ms" "pk' = PkFrame q' sn' ms'"
    then have "ms = ms'" using enc_slices_inject [of ms ms'] h(2) assms(2,3) by (simp add: pk_wf_def)
    moreover have "message_header_new q sn = message_header_new q' sn'" using pk h(1) by (simp add: message_new_def)
    ultimately show ?thesis using pk m by blast
  next
    fix q sn k i bs q' sn' k' i' bs'
    assume pk: "pk = PkFrag q sn k i bs" "pk' = PkFrag q' sn' k' i' bs'"
    then have "message_header_new q sn = message_header_new q' sn'" "fragment_new k i = fragment_new k' i'" "bs = bs'"
      using h by (simp_all add: message_new_def)
    then show ?thesis using m f pk by blast
  qed (use h in \<open>auto simp: message_new_def\<close>)
qed

text \<open>What a list of deliveries carries is determined, and splits along it.\<close>

lemma carries_fun: "carries out ms \<Longrightarrow> carries out ns \<Longrightarrow> ms = ns"
proof (induction arbitrary: ns rule: carries.induct)
  case carries_nil
  then show ?case by (auto elim: carries_nilE)
next
  case (carries_cons out msgs ms q)
  from carries_cons.prems obtain ms' msgs' where *: "enc_slices ms = enc_slices ms'" "\<forall>m \<in> set ms'. length m < 2 ^ 64"
      "carries out msgs'" "ns = map (Pair (qos_class q)) ms' @ msgs'"
    by (auto elim: carries_consE)
  moreover have "ms = ms'" using enc_slices_inject [OF *(1) carries_cons.hyps(2) *(2)] .
  ultimately show ?case using carries_cons.IH by blast
qed

lemma carries_appendE:
  assumes "carries (as @ bs) msgs"
  obtains ms ns where "msgs = ms @ ns" "carries as ms" "carries bs ns"
proof -
  have "\<exists>ms ns. msgs = ms @ ns \<and> carries as ms \<and> carries bs ns"
    using assms
  proof (induction as arbitrary: msgs)
    case Nil
    then show ?case by (intro exI [of _ "[]"] exI [of _ msgs]) (simp add: carries_nil)
  next
    case (Cons a as)
    then have "carries (a # (as @ bs)) msgs" by simp
    then obtain q ms' msgs' where a: "a = (q, enc_slices ms')" "msgs = map (Pair (qos_class q)) ms' @ msgs'"
        "\<forall>m \<in> set ms'. length m < 2 ^ 64" "carries (as @ bs) msgs'"
      by (auto elim: carries_consE)
    from Cons.IH [OF a(4)] obtain ms ns where "msgs' = ms @ ns" "carries as ms" "carries bs ns" by blast
    then show ?case
      using a by (intro exI [of _ "map (Pair (qos_class q)) ms' @ ms"] exI [of _ ns]) (auto intro: carries_cons)
  qed
  then show thesis using that by blast
qed

lemma carries_singleE:
  assumes "carries [(q, bs)] msgs"
  obtains ms where "bs = enc_slices ms" "\<forall>m \<in> set ms. length m < 2 ^ 64" "msgs = map (Pair (qos_class q)) ms"
  using assms by (elim carries_consE) (auto elim: carries_nilE)

section \<open>What a push does to the log of its lane\<close>

text \<open>The fragments of a message: the first carries \<open>d\<close>, the last is marked.\<close>

fun later_fragments :: "qos \<Rightarrow> seq_num \<Rightarrow> seq_num \<Rightarrow> u8 list list \<Rightarrow> packet list" where
  "later_fragments q sn i [] = []"
| "later_fragments q sn i [bs] = [PkFrag q sn Last i bs]"
| "later_fragments q sn i (bs # ds) = PkFrag q sn More i bs # later_fragments q (sn_next sn) i ds"

definition fragments :: "qos \<Rightarrow> seq_num \<Rightarrow> seq_num \<Rightarrow> u8 list \<Rightarrow> u8 list list \<Rightarrow> packet list" where
  "fragments q sn i d ds = PkFrag q sn First i d # later_fragments q (sn_next sn) i ds"

text \<open>A message is added to the last frame, sent in a frame of its own, or in fragments.\<close>

inductive pushed :: "qos \<Rightarrow> u8 list \<Rightarrow> packet list \<Rightarrow> packet list \<Rightarrow> bool" for q m P where
  pushed_append: "P = P0 @ [PkFrame q0 sn ms] \<Longrightarrow> qos_class q0 = qos_class q \<Longrightarrow> pushed q m P (P0 @ [PkFrame q0 sn (ms @ [m])])"
| pushed_frame: "pushed q m P (P @ [PkFrame q sn [m]])"
| pushed_fragments: "d @ concat ds = enc_slice m \<Longrightarrow> ds \<noteq> [] \<Longrightarrow> pushed q m P (P @ fragments q sn i d ds)"

text \<open>A push that fails on the way has sent some of the fragments, never the last.\<close>

inductive broken_off :: "qos \<Rightarrow> packet list \<Rightarrow> packet list \<Rightarrow> bool" for q P where
  broken_none: "broken_off q P P"
| broken_some: "broken_off q P (P @ PkFrag q sn First i d # map (\<lambda>(sn, bs). PkFrag q sn More i bs) ds)"

lemma feed_later:
  assumes "length (df_buffer (D (qos_congestion_control q))) + length (concat ds) \<le> cap" "ds \<noteq> []"
    "df_seq_num (D (qos_congestion_control q)) = sn" "df_frag_id (D (qos_congestion_control q)) = i"
  shows "fst (feed_all cap D (later_fragments q sn i ds)) = [(q, df_buffer (D (qos_congestion_control q)) @ concat ds)]"
  using assms
proof (induction q sn i ds arbitrary: D rule: later_fragments.induct)
  case (3 q sn i bs d ds)
  let ?c = "qos_congestion_control q"
  define D' where "D' = D(?c := (D ?c)\<lparr>df_seq_num := sn_next sn, df_buffer := df_buffer (D ?c) @ bs\<rparr>)"
  have "feed cap D (PkFrag q sn More i bs) = (None, D')"
    using "3.prems" by (simp add: frag_fits_def D'_def Let_def)
  moreover have "fst (feed_all cap D' (later_fragments q (sn_next sn) i (d # ds)))
      = [(q, df_buffer (D' ?c) @ concat (d # ds))]"
    using "3.prems" by (intro "3.IH") (simp_all add: D'_def)
  ultimately show ?case by (simp add: D'_def split: prod.splits)
qed (simp_all add: frag_fits_def Let_def)

lemma feed_fragments:
  assumes "d @ concat ds = bs" "length bs \<le> cap" "ds \<noteq> []"
  shows "fst (feed_all cap D (fragments q sn i d ds)) = [(q, bs)]"
proof -
  let ?c = "qos_congestion_control q"
  let ?D = "D(?c := \<lparr>df_seq_num = sn_next sn, df_frag_id = i, df_buffer = d\<rparr>)"
  have "length d \<le> cap" "length d + length (concat ds) \<le> cap" using assms(1,2) by auto
  then show ?thesis
    using feed_later [of ?D q ds cap "sn_next sn" i] assms by (simp add: fragments_def split: prod.splits)
qed

lemma feed_more: "fst (feed_all cap D (map (\<lambda>(sn, bs). PkFrag q sn More i bs) ds)) = []"
  by (induction ds arbitrary: D) (auto simp: Let_def split: prod.splits)

text \<open>The fact that ties pushing and reassembling.  The frames in a log hold messages that can
  be encoded.\<close>

definition log_wf :: "packet list \<Rightarrow> bool" where
  "log_wf P \<longleftrightarrow> (\<forall>q sn ms. PkFrame q sn ms \<in> set P \<longrightarrow> (\<forall>m \<in> set ms. length m < 2 ^ 64))"

lemma pushed_carries:
  assumes "pushed q m P P'" "carries (fst (feed_all cap D P)) msgs" "length (enc_slice m) \<le> cap"
    "log_wf P" "length m < 2 ^ 64"
  shows "carries (fst (feed_all cap D P')) (msgs @ [(qos_class q, m)])"
  using assms(1)
proof cases
  case (pushed_append P0 q0 sn ms)
  have wf: "\<forall>m \<in> set ms. length m < 2 ^ 64" proof -
    have "PkFrame q0 sn ms \<in> set P" using pushed_append(2) by simp
    then show ?thesis using assms(4) unfolding log_wf_def by blast
  qed
  have "carries (fst (feed_all cap D P0) @ [(q0, enc_slices ms)]) msgs"
    using assms(2) pushed_append(2) by (simp add: feed_all_append)
  then obtain ns where ns: "carries (fst (feed_all cap D P0)) ns" "msgs = ns @ map (Pair (qos_class q0)) ms"
    by (rule carries_snocE [OF _ wf])
  have "carries [(q0, enc_slices (ms @ [m]))] (map (Pair (qos_class q0)) (ms @ [m]))"
    using wf assms(5) by (intro carries_single) auto
  from carries_append [OF ns(1) this] show ?thesis
    using pushed_append(1,3) ns(2) by (simp add: feed_all_append)
next
  case (pushed_frame sn)
  from carries_append [OF assms(2) carries_one [OF assms(5)], of q] show ?thesis
    using pushed_frame by (simp add: feed_all_append)
next
  case (pushed_fragments d ds sn i)
  have "fst (feed_all cap D' (fragments q sn i d ds)) = [(q, enc_slice m)]" for D'
    using pushed_fragments assms(3) by (intro feed_fragments) auto
  with carries_append [OF assms(2) carries_one [OF assms(5)], of q] show ?thesis
    using pushed_fragments(1) by (simp add: feed_all_append)
qed

lemma broken_off_carries:
  assumes "broken_off q P P'" "carries (fst (feed_all cap D P)) msgs"
  shows "carries (fst (feed_all cap D P')) msgs"
  using assms(1)
proof cases
  case broken_none
  then show ?thesis using assms(2) by simp
next
  case (broken_some sn i d ds)
  have "fst (feed_all cap D' (PkFrag q sn First i d # map (\<lambda>(sn, bs). PkFrag q sn More i bs) ds)) = []" for D'
    using feed_more by (simp add: Let_def split: prod.splits)
  then show ?thesis using assms(2) broken_some by (simp add: feed_all_append)
qed

lemma log_wf_pushed: "pushed q m P P' \<Longrightarrow> log_wf P \<Longrightarrow> length m < 2 ^ 64 \<Longrightarrow> log_wf P'"
proof (induction rule: pushed.cases)
  case (pushed_append P0 q0 sn ms)
  then have "PkFrame q0 sn ms \<in> set P" by simp
  then have "\<forall>x \<in> set (ms @ [m]). length x < 2 ^ 64" using pushed_append unfolding log_wf_def by auto
  then show ?case using pushed_append unfolding log_wf_def by auto
next
  case (pushed_fragments d ds sn i)
  have "PkFrame q1 sn1 ms1 \<notin> set (later_fragments q sn i ds)" for q1 sn1 ms1 q sn i ds
    by (induction q sn i ds rule: later_fragments.induct) auto
  then show ?case using pushed_fragments unfolding log_wf_def fragments_def by auto
qed (auto simp: log_wf_def)

lemma log_wf_broken: "broken_off q P P' \<Longrightarrow> log_wf P \<Longrightarrow> log_wf P'"
  by (induction rule: broken_off.cases) (auto simp: log_wf_def)

end
