(* ===== verification/Tx_Laws.thy ===== *)
theory Tx_Laws
  imports Pipeline_Tx Packets Ringbuf_Channels
begin

text \<open>
  The state invariant of the transmission pipeline and the laws of its operations.  The
  invariant refines the two ring buffers to queues: per lane what is committed, what is
  booked, what is free, and how many batches the consumer holds.  All batches of a lane
  were allocated by it, so there are never more of them than the ring buffers have room
  for.
\<close>

section \<open>Batches\<close>

definition wb_payload :: "write_batch \<Rightarrow> u8 list" where
  "wb_payload b = drop BATCH_LEN (bb_as_slice (wb_frame b)) @ bytes_content (wb_fragment b)"

text \<open>A buffer that came from \<open>alloc\<close>, and the shape of a batch of lane \<open>p\<close>.\<close>

definition wb_buffer :: "nat \<Rightarrow> write_batch \<Rightarrow> bool" where
  "wb_buffer bsz b \<longleftrightarrow> bb_wf (wb_frame b) \<and> bb_capacity (wb_frame b) = BATCH_LEN + bsz
     \<and> BATCH_LEN \<le> bb_len (wb_frame b) \<and> bytes_wf (wb_fragment b)
     \<and> bb_len (wb_frame b) + length (bytes_content (wb_fragment b)) \<le> BATCH_LEN + bsz"

definition wb_shape :: "nat \<Rightarrow> priority \<Rightarrow> write_batch \<Rightarrow> bool" where
  "wb_shape bsz p b \<longleftrightarrow> wb_buffer bsz b \<and> qos_priority (wb_qos b) = p"

definition wb_fresh :: "nat \<Rightarrow> write_batch \<Rightarrow> bool" where
  "wb_fresh bsz b \<longleftrightarrow> wb_buffer bsz b \<and> wb_payload b = [] \<and> wb_drop b = None"

text \<open>A batch whose frame can still be written to.\<close>

definition wb_open :: "nat \<Rightarrow> write_batch \<Rightarrow> bool" where
  "wb_open bsz b \<longleftrightarrow> wb_buffer bsz b \<and> bytes_content (wb_fragment b) = []"

lemma BATCH_LEN_2 [simp]: "length (u16_to_le_bytes v) = BATCH_LEN"
  by (simp add: u16_to_le_bytes_def BATCH_LEN_def)

lemma length_wb_payload:
  "wb_buffer bsz b \<Longrightarrow> length (wb_payload b) = bb_len (wb_frame b) - BATCH_LEN + length (bytes_content (wb_fragment b))"
  by (simp add: wb_buffer_def wb_payload_def)

lemma wb_payload_le: "wb_buffer bsz b \<Longrightarrow> length (wb_payload b) \<le> bsz"
  unfolding length_wb_payload by (auto simp: wb_buffer_def)

lemma wb_len_payload: "wb_buffer bsz b \<Longrightarrow> wb_len b = of_nat (length (wb_payload b))"
  unfolding length_wb_payload by (simp add: wb_len_def wb_buffer_def bytes_len_content)

lemma wb_open_room:
  assumes "wb_open bsz b"
  shows "bb_len (wb_frame b) = BATCH_LEN + length (wb_payload b)"
    "bb_remaining (wb_frame b) = bsz - length (wb_payload b)"
proof -
  have "wb_buffer bsz b" "bytes_content (wb_fragment b) = []" using assms by (simp_all add: wb_open_def)
  then show "bb_len (wb_frame b) = BATCH_LEN + length (wb_payload b)"
    using length_wb_payload [of bsz b] by (simp add: wb_buffer_def)
  then show "bb_remaining (wb_frame b) = bsz - length (wb_payload b)"
    using \<open>wb_buffer bsz b\<close> by (simp add: bb_remaining_def wb_buffer_def)
qed

lemma unat_wb_len:
  assumes "wb_buffer bsz b" "bsz \<le> BATCH_SIZE_MAX"
  shows "unat (wb_len b) = length (wb_payload b)"
proof -
  have "length (wb_payload b) < 2 ^ 16"
    using wb_payload_le [OF assms(1)] assms(2) by (simp add: BATCH_SIZE_MAX_def)
  then show ?thesis by (simp add: wb_len_payload [OF assms(1)] unat_of_nat take_bit_nat_eq_self)
qed

lemma wb_is_empty_iff:
  "wb_buffer bsz b \<Longrightarrow> bsz \<le> BATCH_SIZE_MAX \<Longrightarrow> wb_is_empty b \<longleftrightarrow> wb_payload b = []"
  unfolding wb_is_empty_def using unat_wb_len by (metis length_0_conv unat_eq_zero)

lemma wb_clear_spec:
  assumes "bb_wf (wb_frame b)" "bb_capacity (wb_frame b) = BATCH_LEN + bsz"
  shows "\<exists>b'. wb_clear b = Some b' \<and> wb_fresh bsz b' \<and> wb_qos b' = wb_qos b"
proof -
  let ?f = "bb_clear (wb_frame b)"
  have f: "bb_wf ?f" "bb_capacity ?f = BATCH_LEN + bsz" "bb_len ?f = 0"
    using assms by (simp_all add: bb_clear_def bb_wf_def bb_capacity_def)
  obtain x f' where w: "bb_write_exact (u16_to_le_bytes 0) ?f = (Inr x, f')"
      "appends (bb_view (BATCH_LEN + bsz)) ?f (u16_to_le_bytes 0) f'"
    using emits_fitsD [OF emits_bb_write_exact, of "BATCH_LEN + bsz" ?f "u16_to_le_bytes 0"] f by auto
  then have "bb_wf f'" "bb_capacity f' = BATCH_LEN + bsz" "bb_len f' = BATCH_LEN"
    using bb_appends_iff [OF f(1,2)] f(3) by auto
  then show ?thesis
    using w(1) by (simp add: wb_clear_def wb_fresh_def wb_buffer_def wb_payload_def bytes_clear_laws)
qed

lemma wb_alloc_spec: "\<exists>b. wb_alloc bsz = Some b \<and> wb_fresh bsz b"
  using wb_clear_spec [of "\<lparr>wb_frame = bb_with_capacity (BATCH_LEN + bsz), wb_fragment = bytes_new,
     wb_qos = QOS_DEFAULT, wb_drop = None\<rparr>" bsz]
  by (auto simp: wb_alloc_def bb_with_capacity_def bb_wf_def bb_capacity_def)

text \<open>The length goes in front, the rest stays.\<close>

lemma wb_write_len_spec:
  assumes "wb_buffer bsz b"
  shows "\<exists>b'. wb_write_len b = Some b' \<and> wb_buffer bsz b' \<and> wb_qos b' = wb_qos b \<and> wb_payload b' = wb_payload b
    \<and> wb_fragment b' = wb_fragment b
    \<and> bb_as_slice (wb_frame b') = u16_to_le_bytes (wb_len b) @ drop BATCH_LEN (bb_as_slice (wb_frame b))"
proof -
  let ?f = "wb_frame b" and ?le = "u16_to_le_bytes (wb_len b)"
  have f: "bb_wf ?f" "BATCH_LEN \<le> bb_len ?f" using assms by (simp_all add: wb_buffer_def)
  have w: "\<exists>w. slice_write_exact ?le (slice_writer_of (bb_as_slice ?f)) = (Inr (), w)"
    using f by (auto simp: slice_write_exact_def slice_writer_of_def Let_def)
  have s: "bb_as_slice (bb_set ?f 0 ?le) = ?le @ drop BATCH_LEN (bb_as_slice ?f)"
    using f by (simp add: bb_set_def bb_as_slice_def drop_take take_append bb_wf_def bb_capacity_def)
  have "bb_wf (bb_set ?f 0 ?le)" "bb_len (bb_set ?f 0 ?le) = bb_len ?f" "bb_capacity (bb_set ?f 0 ?le) = bb_capacity ?f"
    using f by (simp_all add: bb_set_def bb_wf_def bb_capacity_def)
  then show ?thesis
    using w s assms by (auto simp: wb_write_len_def wb_buffer_def wb_payload_def)
qed

subsection \<open>Writing into the frame\<close>

lemma wb_fresh_open: "wb_fresh bsz b \<Longrightarrow> wb_open bsz b"
  by (simp add: wb_fresh_def wb_open_def wb_payload_def)

lemma in_frame_fits:
  assumes m: "emits (bb_view (BATCH_LEN + bsz)) m bs" and b: "wb_open bsz b"
    and room: "length (wb_payload b) + length bs \<le> bsz"
  shows "\<exists>x b'. in_frame m b = (Inr x, b') \<and> wb_open bsz b' \<and> wb_payload b' = wb_payload b @ bs
    \<and> wb_qos b' = wb_qos b \<and> wb_drop b' = wb_drop b"
proof -
  let ?f = "wb_frame b"
  have f: "bb_wf ?f" "bb_capacity ?f = BATCH_LEN + bsz" "BATCH_LEN \<le> bb_len ?f" and fr: "bytes_content (wb_fragment b) = []"
    using b by (simp_all add: wb_open_def wb_buffer_def)
  have "bb_len ?f + length bs \<le> BATCH_LEN + bsz"
    using room wb_open_room(1) [OF b] by simp
  then obtain x f' where "m ?f = (Inr x, f')" "appends (bb_view (BATCH_LEN + bsz)) ?f bs f'"
    using emits_fitsD [OF m, of ?f] f by auto
  moreover from this(2) have "bb_wf f'" "bb_capacity f' = BATCH_LEN + bsz" "bb_len f' = bb_len ?f + length bs"
      "bb_as_slice f' = bb_as_slice ?f @ bs"
    using bb_appends_iff [OF f(1,2)] by auto
  ultimately show ?thesis
    using f fr b room by (auto simp: in_frame_def wb_open_def wb_buffer_def wb_payload_def)
qed

lemma in_frame_full:
  assumes m: "emits (bb_view (BATCH_LEN + bsz)) m bs" and b: "wb_open bsz b"
    and full: "bsz < length (wb_payload b) + length bs"
  shows "\<exists>b'. in_frame m b = (Inl DidntWrite, b') \<and> wb_qos b' = wb_qos b \<and> wb_drop b' = wb_drop b
    \<and> wb_fragment b' = wb_fragment b
    \<and> (\<exists>k. appends (bb_view (BATCH_LEN + bsz)) (wb_frame b) (take k bs) (wb_frame b'))"
proof -
  let ?f = "wb_frame b"
  have f: "bb_wf ?f" "bb_capacity ?f = BATCH_LEN + bsz" "BATCH_LEN \<le> bb_len ?f"
    using b by (simp_all add: wb_open_def wb_buffer_def)
  have "\<not> bb_len ?f + length bs \<le> BATCH_LEN + bsz"
    using full wb_open_room(1) [OF b] by simp
  then obtain k f' where "m ?f = (Inl DidntWrite, f')" "appends (bb_view (BATCH_LEN + bsz)) ?f (take k bs) f'"
    using emits_fullD [OF m, of ?f] f by auto
  then show ?thesis by (auto simp: in_frame_def)
qed

lemma try_in_frame_fits:
  assumes "emits (bb_view (BATCH_LEN + bsz)) m bs" "wb_open bsz b" "length (wb_payload b) + length bs \<le> bsz"
  shows "\<exists>b'. try_in_frame m b = (True, b') \<and> wb_open bsz b' \<and> wb_payload b' = wb_payload b @ bs \<and> wb_qos b' = wb_qos b"
  using in_frame_fits [OF assms] by (auto simp: try_in_frame_def Let_def)

lemma try_in_frame_full:
  assumes "emits (bb_view (BATCH_LEN + bsz)) m bs" "wb_open bsz b" "bsz < length (wb_payload b) + length bs"
  shows "\<exists>b'. try_in_frame m b = (False, b') \<and> wb_open bsz b' \<and> wb_payload b' = wb_payload b \<and> wb_qos b' = wb_qos b"
proof -
  obtain b' k where b': "in_frame m b = (Inl DidntWrite, b')" "wb_qos b' = wb_qos b" "wb_fragment b' = wb_fragment b"
      "appends (bb_view (BATCH_LEN + bsz)) (wb_frame b) (take k bs) (wb_frame b')"
    using in_frame_full [OF assms] by blast
  let ?f = "snd (bb_rewind (bb_mark (wb_frame b)) (wb_frame b'))"
  have wf: "bb_wf (wb_frame b)" "bb_capacity (wb_frame b) = BATCH_LEN + bsz"
    using assms(2) by (simp_all add: wb_open_def wb_buffer_def)
  have "bb_as_slice ?f = bb_as_slice (wb_frame b)" "bb_wf ?f" "bb_capacity ?f = bb_capacity (wb_frame b)"
      "bb_len ?f = bb_len (wb_frame b)"
    using bb_rewind_appends [OF wf(1), of "take k bs" "wb_frame b'"] b'(4) wf(2) by simp_all
  then show ?thesis
    using b' assms(2) by (auto simp: try_in_frame_def Let_def wb_open_def wb_buffer_def wb_payload_def)
qed

lemma qos_kept_shape: "wb_buffer bsz b' \<Longrightarrow> wb_qos b' = wb_qos b \<Longrightarrow> wb_shape bsz p b \<Longrightarrow> wb_shape bsz p b'"
  by (simp add: wb_shape_def)

section \<open>The state invariant\<close>

text \<open>\<open>n\<close> is the number of batches that a lane has out of its allocation.\<close>

definition refill_inv :: "nat \<Rightarrow> nat \<Rightarrow> stage_refill \<Rightarrow> nat \<Rightarrow> bool" where
  "refill_inv cap bsz r n \<longleftrightarrow> sr_capacity r = cap \<and> sr_batch_size r = bsz \<and> n \<le> cap \<and> n \<le> sr_allocated r"

definition lane_count :: "write_batch queues \<Rightarrow> (priority \<Rightarrow> write_batch option) \<Rightarrow> write_batch queues \<Rightarrow>
    (priority \<Rightarrow> nat) \<Rightarrow> priority \<Rightarrow> nat" where
  "lane_count Q B R held p = length (Q p) + (if B p = None then 0 else 1) + length (R p) + held p"

definition tx_inv :: "nat \<Rightarrow> nat \<Rightarrow> nat \<Rightarrow> tx \<Rightarrow> write_batch queues \<Rightarrow> (priority \<Rightarrow> write_batch option) \<Rightarrow>
    write_batch queues \<Rightarrow> (priority \<Rightarrow> nat) \<Rightarrow> bool" where
  "tx_inv k cap bsz s Q B R held \<longleftrightarrow> cap \<le> 2 ^ k \<and> bsz \<le> BATCH_SIZE_MAX
     \<and> mpsc_inv k (tx_inout s) Q B \<and> spmc_inv k (tx_outrefill s) R
     \<and> (\<forall>p. refill_inv cap bsz (si_refill (tx_prio s p)) (lane_count Q B R held p))
     \<and> (\<forall>p. (\<forall>b \<in> set (Q p). wb_shape bsz p b) \<and> (\<forall>b. B p = Some b \<longrightarrow> wb_shape bsz p b)
          \<and> (\<forall>b \<in> set (R p). wb_fresh bsz b))"

text \<open>The parts of the state that the invariant depends on.\<close>

lemma tx_inv_frame:
  assumes "tx_inv k cap bsz s Q B R held" "tx_inout s' = tx_inout s" "tx_outrefill s' = tx_outrefill s"
    "\<And>p. si_refill (tx_prio s' p) = si_refill (tx_prio s p)"
  shows "tx_inv k cap bsz s' Q B R held"
  using assms by (simp add: tx_inv_def)

lemma le_next_power_of_two: "next_power_of_two n = 0 \<or> n \<le> next_power_of_two n"
  by (auto simp: next_power_of_two_def find_Some_iff split: option.splits)

lemma tx_inv_new:
  assumes "pipeline_tx cap bsz = Some s" "bsz \<le> BATCH_SIZE_MAX"
  shows "\<exists>k. tx_inv k cap bsz s (\<lambda>_. []) (\<lambda>_. None) (\<lambda>_. []) (\<lambda>_. 0)"
proof -
  define c where "c = (if power_of_two cap then cap else next_power_of_two cap)"
  obtain inout outrefill where rings: "ringbuffer_mpsc c = Some inout" "ringbuffer_spmc c = Some outrefill"
      and s: "tx_inout s = inout" "tx_outrefill s = outrefill"
      "\<And>p. si_refill (tx_prio s p) = stage_refill_new cap bsz"
    using assms(1) by (auto simp: pipeline_tx_def c_def [symmetric] split: option.splits)
  then have "\<exists>rb. (ring_new c :: write_batch ring option) = Some rb" by (auto simp: ringbuffer_mpsc_def)
  then obtain k where k: "k \<le> 7" "c = 2 ^ k" unfolding ring_new_Some_iff by blast
  then have "c \<noteq> 0" by simp
  then have "cap \<le> c" using le_next_power_of_two [of cap] by (auto simp: c_def split: if_splits)
  then show ?thesis
    using mpsc_inv_new [of k inout] spmc_inv_new [of k outrefill] k rings s assms(2)
    by (intro exI [of _ k]) (simp add: tx_inv_def refill_inv_def lane_count_def stage_refill_new_def)
qed

subsection \<open>The producer's operations\<close>

lemma tx_inv_peek: "tx_inv k cap bsz s Q B R held \<Longrightarrow> mpsc_peek p (tx_inout s) \<longleftrightarrow> B p \<noteq> None"
  using mpsc.peek_law [of k "tx_inout s" Q B p] by (simp add: tx_inv_def)

lemma tx_inv_deref: "tx_inv k cap bsz s Q B R held \<Longrightarrow> B p = Some b \<Longrightarrow> mpsc_deref p (tx_inout s) = Inr b"
  using mpsc.deref_law [of k "tx_inout s" Q B p b] by (simp add: tx_inv_def)

lemma tx_inv_store:
  assumes "tx_inv k cap bsz s Q B R held" "B p = Some b" "wb_shape bsz p b'"
  shows "tx_inv k cap bsz (s\<lparr>tx_inout := mpsc_store p b' (tx_inout s)\<rparr>) Q (B(p := Some b')) R held"
proof -
  have "mpsc_inv k (mpsc_store p b' (tx_inout s)) Q (B(p := Some b'))"
    using assms by (intro mpsc.store_law) (auto simp: tx_inv_def)
  moreover have "lane_count Q (B(p := Some b')) R held = lane_count Q B R held"
    using assms(2) by (auto simp: lane_count_def)
  ultimately show ?thesis using assms by (auto simp: tx_inv_def)
qed

lemma tx_inv_commit:
  assumes "tx_inv k cap bsz s Q B R held" "B p = Some b"
  shows "tx_inv k cap bsz (s\<lparr>tx_inout := mpsc_commit p (tx_inout s)\<rparr>) (Q(p := Q p @ [b])) (B(p := None)) R held"
proof -
  have "mpsc_inv k (mpsc_commit p (tx_inout s)) (Q(p := Q p @ [b])) (B(p := None))"
    using assms by (intro mpsc.commit_law) (auto simp: tx_inv_def)
  moreover have "lane_count (Q(p := Q p @ [b])) (B(p := None)) R held = lane_count Q B R held"
    using assms(2) by (auto simp: lane_count_def)
  ultimately show ?thesis using assms by (auto simp: tx_inv_def)
qed

text \<open>A pulled empty batch can be booked: the lane is not full.\<close>

lemma tx_inv_book:
  assumes inv: "tx_inv k cap bsz s Q B R held" and B: "B p = None" and b: "wb_shape bsz p b"
    and n: "refill_inv cap bsz (si_refill (tx_prio s p)) (Suc (lane_count Q B R held p))"
  shows "\<exists>rb. mpsc_book p b (tx_inout s) = (Inr (), rb)
    \<and> tx_inv k cap bsz (s\<lparr>tx_inout := rb\<rparr>) Q (B(p := Some b)) R held"
proof -
  have "length (Q p) < 2 ^ k" using inv n by (simp add: tx_inv_def refill_inv_def lane_count_def)
  then obtain rb where rb: "mpsc_book p b (tx_inout s) = (Inr (), rb)" "mpsc_inv k rb Q (B(p := Some b))"
    using mpsc.book_law [of k "tx_inout s" Q B p b] inv B by (auto simp: tx_inv_def)
  moreover have "lane_count Q (B(p := Some b)) R held q = (if q = p then Suc (lane_count Q B R held p) else lane_count Q B R held q)" for q
    using B by (simp add: lane_count_def)
  ultimately show ?thesis using inv n b by (auto simp: tx_inv_def)
qed

lemma refill_inv_alloc:
  assumes "refill_inv cap bsz r n"
  shows "refill_inv cap bsz (r\<lparr>sr_allocated := Suc (sr_allocated r)\<rparr>) n"
    "sr_allocated r < cap \<Longrightarrow> refill_inv cap bsz (r\<lparr>sr_allocated := Suc (sr_allocated r)\<rparr>) (Suc n)"
  using assms by (simp_all add: refill_inv_def)

lemma refill_inv_less: "refill_inv cap bsz r n \<Longrightarrow> m \<le> n \<Longrightarrow> refill_inv cap bsz r m"
  by (simp add: refill_inv_def)

lemma tx_inv_refill_pull:
  assumes inv: "tx_inv k cap bsz s Q B R held" and B: "B p = None"
  shows "\<exists>r s'. stage_refill_pull p s = (Inr r, s') \<and> tx_inv k cap bsz s' Q B (R(p := tl (R p))) held
    \<and> (\<forall>q. tx_pool q s' = tx_pool q s) \<and> tx_locked s' = tx_locked s \<and> tx_can_pull s' = tx_can_pull s
    \<and> (case r of None \<Rightarrow> R p = [] | Some b \<Rightarrow> wb_fresh bsz b
        \<and> refill_inv cap bsz (si_refill (tx_prio s' p)) (Suc (lane_count Q B (R(p := tl (R p))) held p)))"
proof -
  have sp: "spmc_inv k (tx_outrefill s) R" using inv by (simp add: tx_inv_def)
  obtain rb where rb: "spmc_pull p (tx_outrefill s) = (Inr (case R p of [] \<Rightarrow> None | x # _ \<Rightarrow> Some x), rb)"
      "spmc_inv k rb (R(p := tl (R p)))"
    using spmc.pull_law [OF sp] by blast
  let ?r = "si_refill (tx_prio s p)"
  have ri: "refill_inv cap bsz ?r (lane_count Q B R held p)" using inv by (simp add: tx_inv_def)
  show ?thesis
  proof (cases "R p")
    case Nil
    then have R: "R(p := tl (R p)) = R" by auto
    obtain b where b: "wb_alloc bsz = Some b" "wb_fresh bsz b" using wb_alloc_spec by blast
    let ?s = "set_refill p (?r\<lparr>sr_allocated := sr_allocated ?r + 1\<rparr>) (s\<lparr>tx_outrefill := rb\<rparr>)"
    have "sr_batch_size ?r = bsz" "sr_capacity ?r = cap" using ri by (simp_all add: refill_inv_def)
    then have "stage_refill_pull p s = (Inr (if sr_allocated ?r < cap then Some b else None), ?s)"
      using rb(1) Nil b(1) by (simp add: stage_refill_pull_def Let_def)
    moreover have "tx_inv k cap bsz ?s Q B R held"
      using inv rb(2) refill_inv_alloc(1) [OF ri] unfolding R by (simp add: tx_inv_def set_refill_def)
    moreover have "\<forall>q. tx_pool q ?s = tx_pool q s" "tx_locked ?s = tx_locked s" "tx_can_pull ?s = tx_can_pull s"
        "si_refill (tx_prio ?s p) = ?r\<lparr>sr_allocated := Suc (sr_allocated ?r)\<rparr>"
      by (simp_all add: set_refill_def tx_pool_def)
    ultimately show ?thesis using b(2) Nil refill_inv_alloc(2) [OF ri] unfolding R by simp
  next
    case (Cons b bs)
    have lc: "lane_count Q B (R(p := bs)) held q = (if q = p then lane_count Q B R held p - 1 else lane_count Q B R held q)" for q
      using Cons by (simp add: lane_count_def)
    have "Suc (lane_count Q B R held p - 1) = lane_count Q B R held p" using Cons by (simp add: lane_count_def)
    moreover have "\<forall>x \<in> set (R p). wb_fresh bsz x" using inv by (simp add: tx_inv_def)
    then have "wb_fresh bsz b" "\<forall>x \<in> set bs. wb_fresh bsz x" using Cons by simp_all
    ultimately show ?thesis
      using inv rb ri Cons refill_inv_less [OF ri, of "lane_count Q B R held p - 1"]
      by (auto simp: stage_refill_pull_def tx_inv_def lc tx_pool_def)
  qed
qed

subsection \<open>The consumer's operations\<close>

lemma tx_inv_pull_priority:
  assumes inv: "tx_inv k cap bsz s Q B R held"
  shows "\<exists>rb. mpsc_pull_priority p (tx_inout s) = (Inr (abs_pull_priority p Q B), rb)
    \<and> tx_inv k cap bsz (s\<lparr>tx_inout := rb\<rparr>) (Q(p := tl (Q p))) B R
        (if Q p = [] then held else held(p := Suc (held p)))"
proof -
  obtain rb where rb: "mpsc_pull_priority p (tx_inout s) = (Inr (abs_pull_priority p Q B), rb)"
      "mpsc_inv k rb (Q(p := tl (Q p))) B"
    using mpsc.pull_priority_law [of k "tx_inout s" Q B p] inv by (auto simp: tx_inv_def)
  have "lane_count (Q(p := tl (Q p))) B R (if Q p = [] then held else held(p := Suc (held p))) = lane_count Q B R held"
    by (cases "Q p") (auto simp: lane_count_def)
  moreover have "set (tl (Q p)) \<subseteq> set (Q p)" by (cases "Q p") auto
  ultimately show ?thesis using rb inv by (auto simp: tx_inv_def)
qed

lemma tx_inv_refill:
  assumes inv: "tx_inv k cap bsz s Q B R held" and b: "wb_shape bsz p b" and h: "0 < held p"
  shows "\<exists>b' s'. stage_out_refill b s = (Inr (), s') \<and> wb_fresh bsz b'
    \<and> tx_inv k cap bsz s' Q B (R(p := R p @ [b'])) (held(p := held p - 1))
    \<and> tx_inout s' = tx_inout s \<and> tx_status s' = tx_status s \<and> tx_flags s' = tx_flags s
    \<and> tx_prio s' = tx_prio s \<and> tx_locked s' = tx_locked s"
proof -
  obtain b' where b': "wb_clear b = Some b'" "wb_fresh bsz b'"
    using wb_clear_spec b by (metis wb_buffer_def wb_shape_def)
  have sp: "spmc_inv k (tx_outrefill s) R" using inv by (simp add: tx_inv_def)
  have "length (R p) < 2 ^ k"
  proof -
    have "lane_count Q B R held p \<le> cap" "cap \<le> 2 ^ k" using inv by (simp_all add: tx_inv_def refill_inv_def)
    then show ?thesis using h by (simp add: lane_count_def)
  qed
  then obtain rb where rb: "spmc_push p b' (tx_outrefill s) = (None, rb)" "spmc_inv k rb (R(p := R p @ [b']))"
    using spmc.push_law [OF sp, of p b'] by auto
  have "lane_count Q B (R(p := R p @ [b'])) (held(p := held p - 1)) = lane_count Q B R held"
    using h by (auto simp: lane_count_def)
  then show ?thesis
    using b' rb inv b by (auto simp: stage_out_refill_def Let_def tx_inv_def wb_shape_def)
qed

end
