(* ===== verification/Tx_Push.thy ===== *)
theory Tx_Push
  imports Tx_Laws
begin

text \<open>
  What a push does to the log of its lane.  The log \<open>P\<close> are the packets committed to the
  lane so far.  What the consumer has taken of it meanwhile, and the state of the other
  lanes, is described by a predicate that a push keeps, whatever it is (\<open>ls_ctx\<close>).
  Other tasks run at the waits of the push: they may take batches and bring empty ones,
  but keep to their side (\<open>env_ok\<close>), as the mutex of the lane makes them.
\<close>

section \<open>Postconditions of the pushing task\<close>

text \<open>When \<open>m\<close> gives a result, it satisfies \<open>Post\<close>.\<close>

definition tx_post :: "'a tx_op \<Rightarrow> push_state \<Rightarrow> (tx_fail + 'a \<Rightarrow> push_state \<Rightarrow> bool) \<Rightarrow> bool" where
  "tx_post m \<sigma> Post \<longleftrightarrow> (\<forall>r \<sigma>'. m \<sigma> = Some (r, \<sigma>') \<longrightarrow> Post r \<sigma>')"

lemma tx_postI: "(\<And>r \<sigma>'. m \<sigma> = Some (r, \<sigma>') \<Longrightarrow> Post r \<sigma>') \<Longrightarrow> tx_post m \<sigma> Post"
  by (simp add: tx_post_def)

lemma tx_postD: "tx_post m \<sigma> Post \<Longrightarrow> m \<sigma> = Some (r, \<sigma>') \<Longrightarrow> Post r \<sigma>'"
  by (simp add: tx_post_def)

lemma tx_post_mono:
  "tx_post m \<sigma> Post \<Longrightarrow> (\<And>r \<sigma>'. Post r \<sigma>' \<Longrightarrow> Post' r \<sigma>') \<Longrightarrow> tx_post m \<sigma> Post'"
  by (simp add: tx_post_def)

lemma tx_post_bind:
  "tx_post m \<sigma> (\<lambda>r \<sigma>'. case r of Inl e \<Rightarrow> Post (Inl e) \<sigma>' | Inr x \<Rightarrow> tx_post (f x) \<sigma>' Post) \<Longrightarrow>
     tx_post (tx_bind m f) \<sigma> Post"
proof (rule tx_postI)
  fix r \<sigma>' assume m: "tx_post m \<sigma> (\<lambda>r \<sigma>'. case r of Inl e \<Rightarrow> Post (Inl e) \<sigma>' | Inr x \<Rightarrow> tx_post (f x) \<sigma>' Post)"
    and b: "tx_bind m f \<sigma> = Some (r, \<sigma>')"
  from b obtain y \<sigma>1 where y: "m \<sigma> = Some (y, \<sigma>1)" by (auto simp: tx_bind_def bind_eq_Some_conv)
  show "Post r \<sigma>'" using tx_postD [OF m y] y b by (cases y) (auto simp: tx_bind_def dest: tx_postD)
qed

lemma tx_post_ok [simp]: "tx_post (tx_ok x) \<sigma> Post \<longleftrightarrow> Post (Inr x) \<sigma>"
  by (simp add: tx_post_def tx_ok_def)

lemma tx_post_err [simp]: "tx_post (tx_err e) \<sigma> Post \<longleftrightarrow> Post (Inl e) \<sigma>"
  by (simp add: tx_post_def tx_err_def)

lemma tx_post_modify [simp]: "tx_post (tx_modify f) \<sigma> Post \<longleftrightarrow> Post (Inr ()) (\<sigma>\<lparr>ps_tx := f (ps_tx \<sigma>)\<rparr>)"
  by (simp add: tx_post_def tx_modify_def)

lemma tx_post_bind_det: "m \<sigma> = Some (Inr x, \<sigma>') \<Longrightarrow> tx_post (f x) \<sigma>' Post \<Longrightarrow> tx_post (tx_bind m f) \<sigma> Post"
  by (simp add: tx_post_def tx_bind_def)

text \<open>A step that cannot end without a result of the push.\<close>

lemma tx_bind_some: "tx_bind m (\<lambda>b. tx_ok (Some b)) \<sigma> = Some (r, \<sigma>') \<Longrightarrow> r \<noteq> Inr None"
  by (cases "m \<sigma>") (auto simp: tx_bind_def tx_ok_def split: prod.splits sum.splits)

lemma tx_post_done:
  "tx_post m \<sigma> Post \<Longrightarrow> (\<And>r \<sigma>'. m \<sigma> = Some (r, \<sigma>') \<Longrightarrow> r \<noteq> Inr None) \<Longrightarrow>
     tx_post m \<sigma> (\<lambda>r \<sigma>'. case r of Inr None \<Rightarrow> Post' \<sigma>' | _ \<Rightarrow> Post r \<sigma>')"
  by (auto simp: tx_post_def split: sum.splits option.splits)

section \<open>The log of a lane\<close>

lemma tx_pool_upd [simp]:
  "tx_pool q (s\<lparr>tx_inout := rb\<rparr>) = tx_pool q s" "tx_pool q (s\<lparr>tx_backoff := ba\<rparr>) = tx_pool q s"
  "tx_pool q (s\<lparr>tx_can_refill := cr\<rparr>) = tx_pool q s" "tx_pool q (s\<lparr>tx_locked := lo\<rparr>) = tx_pool q s"
  "tx_pool q (s\<lparr>tx_status := st\<rparr>) = tx_pool q s" "tx_pool q (s\<lparr>tx_can_pull := cp\<rparr>) = tx_pool q s"
  "tx_pool q (s\<lparr>tx_flags := fl\<rparr>) = tx_pool q s" "tx_pool q (s\<lparr>tx_clock := cl\<rparr>) = tx_pool q s"
  by (simp_all add: tx_pool_def)

record lane_spec =
  ls_k :: nat
  ls_cap :: nat
  ls_bsz :: nat
  ls_prio :: priority
  ls_ctx :: "packet list \<Rightarrow> (priority \<Rightarrow> nat) \<Rightarrow> write_batch queues \<Rightarrow> (priority \<Rightarrow> write_batch option) \<Rightarrow>
    (priority \<Rightarrow> seq_num_pool) \<Rightarrow> bool"

definition batch_holds :: "write_batch \<Rightarrow> packet \<Rightarrow> bool" where
  "batch_holds b pk \<longleftrightarrow> wb_payload b = enc_packet pk \<and> qos_class (wb_qos b) = qos_class (pk_qos pk) \<and> pk_wf pk"

definition in_ctx :: "lane_spec \<Rightarrow> packet list \<Rightarrow> (priority \<Rightarrow> nat) \<Rightarrow> write_batch queues \<Rightarrow>
    (priority \<Rightarrow> write_batch option) \<Rightarrow> tx \<Rightarrow> bool" where
  "in_ctx L H held Q B s \<longleftrightarrow> ls_ctx L H held (Q(ls_prio L := [])) (B(ls_prio L := None))
     ((\<lambda>q. tx_pool q s)(ls_prio L := seq_num_pool_new))"

lemma in_ctx_upd [simp]:
  "in_ctx L H held (Q(ls_prio L := x)) B s = in_ctx L H held Q B s"
  "in_ctx L H held Q (B(ls_prio L := b)) s = in_ctx L H held Q B s"
  by (simp_all add: in_ctx_def)

lemma in_ctx_frame:
  assumes "\<And>q. q \<noteq> ls_prio L \<Longrightarrow> tx_pool q s' = tx_pool q s"
  shows "in_ctx L H held Q B s' = in_ctx L H held Q B s"
proof -
  have "(\<lambda>q. tx_pool q s')(ls_prio L := seq_num_pool_new) = (\<lambda>q. tx_pool q s)(ls_prio L := seq_num_pool_new)"
    using assms by auto
  then show ?thesis by (simp add: in_ctx_def)
qed

lemma in_ctx_inout [simp]: "in_ctx L H held Q B (s\<lparr>tx_inout := rb\<rparr>) = in_ctx L H held Q B s"
  by (rule in_ctx_frame) simp

definition tx_log :: "lane_spec \<Rightarrow> tx \<Rightarrow> packet list \<Rightarrow> write_batch option \<Rightarrow> bool" where
  "tx_log L s P b \<longleftrightarrow> (\<exists>Q B R held H pks. tx_inv (ls_k L) (ls_cap L) (ls_bsz L) s Q B R held
     \<and> B (ls_prio L) = b \<and> in_ctx L H held Q B s \<and> list_all2 batch_holds (Q (ls_prio L)) pks \<and> P = H @ pks)"

definition env_ok :: "lane_spec \<Rightarrow> (tx \<Rightarrow> tx) \<Rightarrow> bool" where
  "env_ok L g \<longleftrightarrow> (\<forall>s P b. tx_log L s P b \<longrightarrow> tx_log L (g s) P b \<and> tx_pool (ls_prio L) (g s) = tx_pool (ls_prio L) s)"

definition pool_wf :: "seq_num_pool \<Rightarrow> bool" where
  "pool_wf pool \<longleftrightarrow> sn_wf (sn_reliable pool) \<and> sn_wf (sn_best_effort pool) \<and> sn_wf (sn_frag_id pool)"

definition push_ok :: "lane_spec \<Rightarrow> push_state \<Rightarrow> packet list \<Rightarrow> write_batch option \<Rightarrow> seq_num_pool \<Rightarrow> bool" where
  "push_ok L \<sigma> P b pool \<longleftrightarrow> tx_log L (ps_tx \<sigma>) P b \<and> tx_pool (ls_prio L) (ps_tx \<sigma>) = pool \<and> pool_wf pool
     \<and> (\<forall>g \<in> set (ps_env \<sigma>). env_ok L g)"

lemma tx_log_frame:
  assumes "tx_log L s P b" "tx_inout s' = tx_inout s" "tx_outrefill s' = tx_outrefill s"
    "\<And>p. si_refill (tx_prio s' p) = si_refill (tx_prio s p)"
    "\<And>q. q \<noteq> ls_prio L \<Longrightarrow> tx_pool q s' = tx_pool q s"
  shows "tx_log L s' P b"
  using assms(1) tx_inv_frame [OF _ assms(2-4)] in_ctx_frame [OF assms(5)] unfolding tx_log_def by blast

lemma push_ok_frame:
  assumes "push_ok L \<sigma> P b pool" "tx_inout s' = tx_inout (ps_tx \<sigma>)" "tx_outrefill s' = tx_outrefill (ps_tx \<sigma>)"
    "tx_prio s' = tx_prio (ps_tx \<sigma>)"
  shows "push_ok L (\<sigma>\<lparr>ps_tx := s'\<rparr>) P b pool"
  using assms tx_log_frame [of L "ps_tx \<sigma>" P b s'] by (simp add: push_ok_def tx_pool_def)

lemma push_ok_pool:
  assumes "push_ok L \<sigma> P b pool" "pool_wf (f pool)"
  shows "push_ok L (\<sigma>\<lparr>ps_tx := set_pool (ls_prio L) f (ps_tx \<sigma>)\<rparr>) P b (f pool)"
  using assms tx_log_frame [of L "ps_tx \<sigma>" P b "set_pool (ls_prio L) f (ps_tx \<sigma>)"]
  by (auto simp: push_ok_def set_pool_def tx_pool_def)

subsection \<open>The operations on the log\<close>

lemma push_ok_peek: "push_ok L \<sigma> P b pool \<Longrightarrow> mpsc_peek (ls_prio L) (tx_inout (ps_tx \<sigma>)) \<longleftrightarrow> b \<noteq> None"
  using tx_inv_peek by (fastforce simp: push_ok_def tx_log_def)

lemma push_ok_deref: "push_ok L \<sigma> P (Some b) pool \<Longrightarrow> mpsc_deref (ls_prio L) (tx_inout (ps_tx \<sigma>)) = Inr b"
  using tx_inv_deref by (fastforce simp: push_ok_def tx_log_def)

lemma push_ok_shape: "push_ok L \<sigma> P (Some b) pool \<Longrightarrow> wb_shape (ls_bsz L) (ls_prio L) b"
  by (auto simp: push_ok_def tx_log_def tx_inv_def)

lemma push_ok_bsz: "push_ok L \<sigma> P b pool \<Longrightarrow> ls_bsz L \<le> BATCH_SIZE_MAX"
  by (auto simp: push_ok_def tx_log_def tx_inv_def)

lemma tx_log_store:
  assumes "tx_log L s P (Some b)" "wb_shape (ls_bsz L) (ls_prio L) b'"
  shows "tx_log L (s\<lparr>tx_inout := mpsc_store (ls_prio L) b' (tx_inout s)\<rparr>) P (Some b')"
proof -
  obtain Q B R held H pks where *: "tx_inv (ls_k L) (ls_cap L) (ls_bsz L) s Q B R held" "B (ls_prio L) = Some b"
      "in_ctx L H held Q B s" "list_all2 batch_holds (Q (ls_prio L)) pks" "P = H @ pks"
    using assms(1) unfolding tx_log_def by blast
  show ?thesis
    unfolding tx_log_def
    using tx_inv_store [OF *(1,2) assms(2)] *(3-5)
    by (intro exI [of _ Q] exI [of _ "B(ls_prio L := Some b')"] exI [of _ R] exI [of _ held] exI [of _ H] exI [of _ pks])
      simp
qed

lemma tx_log_commit:
  assumes "tx_log L s P (Some b)" "batch_holds b pk"
  shows "tx_log L (s\<lparr>tx_inout := mpsc_commit (ls_prio L) (tx_inout s)\<rparr>) (P @ [pk]) None"
proof -
  obtain Q B R held H pks where *: "tx_inv (ls_k L) (ls_cap L) (ls_bsz L) s Q B R held" "B (ls_prio L) = Some b"
      "in_ctx L H held Q B s" "list_all2 batch_holds (Q (ls_prio L)) pks" "P = H @ pks"
    using assms(1) unfolding tx_log_def by blast
  show ?thesis
    unfolding tx_log_def
    using tx_inv_commit [OF *(1,2)] *(3-5) assms(2)
    by (intro exI [of _ "Q(ls_prio L := Q (ls_prio L) @ [b])"] exI [of _ "B(ls_prio L := None)"] exI [of _ R]
        exI [of _ held] exI [of _ H] exI [of _ "pks @ [pk]"]) (simp add: list_all2_appendI)
qed

lemma push_ok_store:
  assumes "push_ok L \<sigma> P (Some b) pool" "wb_buffer (ls_bsz L) b'" "wb_qos b' = wb_qos b"
  shows "push_ok L (\<sigma>\<lparr>ps_tx := (ps_tx \<sigma>)\<lparr>tx_inout := mpsc_store (ls_prio L) b' (tx_inout (ps_tx \<sigma>))\<rparr>\<rparr>) P (Some b') pool"
  using assms(1) tx_log_store [where s = "ps_tx \<sigma>" and P = P and b = b, OF _ qos_kept_shape [OF assms(2,3) push_ok_shape [OF assms(1)]]]
  by (simp add: push_ok_def tx_pool_def)

lemma wait_refill_keeps:
  "wait_refill (ls_prio L) d env s = Some (w, s', env') \<Longrightarrow> tx_log L s P b \<Longrightarrow> \<forall>g \<in> set env. env_ok L g \<Longrightarrow>
     tx_log L s' P b \<and> tx_pool (ls_prio L) s' = tx_pool (ls_prio L) s \<and> set env' \<subseteq> set env"
proof (induction env arbitrary: s)
  case Nil
  then show ?case
    by (auto simp: tx_pool_def elim!: tx_log_frame split: prod.splits event_check.splits if_splits)
next
  case (Cons g env)
  consider "wait_refill (ls_prio L) d env (g s) = Some (w, s', env')"
    | "s' = s \<or> (\<exists>f. s' = s\<lparr>tx_can_refill := (tx_can_refill s)(ls_prio L := f)\<rparr>)" "env' = g # env"
    using Cons.prems(1) by (auto split: prod.splits event_check.splits if_splits)
  then show ?case
  proof cases
    case 1
    then show ?thesis using Cons.IH [OF 1] Cons.prems(2,3) by (auto simp: env_ok_def)
  next
    case 2
    then show ?thesis using Cons.prems(2) by (auto simp: tx_pool_def elim!: tx_log_frame)
  qed
qed

section \<open>Getting a batch\<close>

lemma tx_log_refill_pull:
  assumes "tx_log L s P None"
  shows "\<exists>r s'. stage_refill_pull (ls_prio L) s = (Inr r, s') \<and> tx_log L s' P None
    \<and> tx_pool (ls_prio L) s' = tx_pool (ls_prio L) s
    \<and> (\<forall>b q df. r = Some b \<longrightarrow> qos_priority q = ls_prio L \<longrightarrow> (\<exists>rb.
         mpsc_book (ls_prio L) (b\<lparr>wb_qos := q, wb_drop := df\<rparr>) (tx_inout s') = (Inr (), rb)
         \<and> tx_log L (s'\<lparr>tx_inout := rb\<rparr>) P (Some (b\<lparr>wb_qos := q, wb_drop := df\<rparr>)) \<and> wb_fresh (ls_bsz L) b))"
proof -
  let ?p = "ls_prio L"
  obtain Q B R held H pks where *: "tx_inv (ls_k L) (ls_cap L) (ls_bsz L) s Q B R held" "B ?p = None"
      "in_ctx L H held Q B s" "list_all2 batch_holds (Q ?p) pks" "P = H @ pks"
    using assms unfolding tx_log_def by blast
  let ?R = "R(?p := tl (R ?p))"
  obtain r s' where r: "stage_refill_pull ?p s = (Inr r, s')"
      "tx_inv (ls_k L) (ls_cap L) (ls_bsz L) s' Q B ?R held"
      "\<forall>q. tx_pool q s' = tx_pool q s"
      "case r of None \<Rightarrow> R ?p = [] | Some b \<Rightarrow> wb_fresh (ls_bsz L) b
        \<and> refill_inv (ls_cap L) (ls_bsz L) (si_refill (tx_prio s' ?p)) (Suc (lane_count Q B ?R held ?p))"
    using tx_inv_refill_pull [OF *(1,2)] by blast
  have ctx: "in_ctx L H held Q B s'" using *(3) r(3) in_ctx_frame [of L s' s] by simp
  have book: "\<exists>rb. mpsc_book ?p (b\<lparr>wb_qos := q, wb_drop := df\<rparr>) (tx_inout s') = (Inr (), rb)
         \<and> tx_log L (s'\<lparr>tx_inout := rb\<rparr>) P (Some (b\<lparr>wb_qos := q, wb_drop := df\<rparr>)) \<and> wb_fresh (ls_bsz L) b"
    if b: "r = Some b" "qos_priority q = ?p" for b q df
  proof -
    let ?b = "b\<lparr>wb_qos := q, wb_drop := df\<rparr>"
    have "wb_shape (ls_bsz L) ?p ?b" using r(4) b by (simp add: wb_shape_def wb_fresh_def wb_buffer_def)
    then obtain rb where rb: "mpsc_book ?p ?b (tx_inout s') = (Inr (), rb)"
        "tx_inv (ls_k L) (ls_cap L) (ls_bsz L) (s'\<lparr>tx_inout := rb\<rparr>) Q (B(?p := Some ?b)) ?R held"
      using tx_inv_book [OF r(2) *(2), of ?b] r(4) b(1) by auto
    have "tx_log L (s'\<lparr>tx_inout := rb\<rparr>) P (Some ?b)"
      unfolding tx_log_def
      using rb(2) ctx *(4,5) by (intro exI [of _ Q] exI [of _ "B(?p := Some ?b)"] exI [of _ ?R] exI [of _ held]
          exI [of _ H] exI [of _ pks]) simp
    then show ?thesis using rb(1) r(4) b(1) by simp
  qed
  have "tx_log L s' P None" unfolding tx_log_def using r(2) *(2,4,5) ctx by blast
  then show ?thesis using r(1,3) book by blast
qed

lemma set_congested_keeps [simp]:
  "tx_inout (set_congested df s) = tx_inout s" "tx_outrefill (set_congested df s) = tx_outrefill s"
  "tx_prio (set_congested df s) = tx_prio s"
  by (simp_all add: set_congested_def split: option.splits)

text \<open>The batch that \<open>batch_or_return!\<close> finds or books, or the error of a wait.\<close>

definition got_batch :: "lane_spec \<Rightarrow> push_config \<Rightarrow> packet list \<Rightarrow> write_batch option \<Rightarrow> seq_num_pool \<Rightarrow>
    (tx_fail + unit) \<Rightarrow> push_state \<Rightarrow> bool" where
  "got_batch L config P b pool r \<sigma> \<longleftrightarrow> (case r of
       Inl e \<Rightarrow> congests e \<and> b = None \<and> push_ok L \<sigma> P None pool
     | Inr _ \<Rightarrow> (\<exists>b'. push_ok L \<sigma> P (Some b') pool \<and> (case b of Some b0 \<Rightarrow> b' = b0
         | None \<Rightarrow> wb_open (ls_bsz L) b' \<and> wb_payload b' = [] \<and> wb_qos b' = pc_qos config)))"

lemma post_batch_or_return:
  assumes "push_ok L \<sigma> P b pool" "qos_priority (pc_qos config) = ls_prio L"
  shows "tx_post (batch_or_return (ls_prio L) config df) \<sigma> (got_batch L config P b pool)"
  using assms
proof (induction "ls_prio L" config df \<sigma> rule: batch_or_return.induct)
  case (1 config df \<sigma>)
  let ?p = "ls_prio L" and ?s = "ps_tx \<sigma>"
  have ok: "push_ok L \<sigma> P b pool" by (rule "1.prems")
  show ?case
  proof (cases "mpsc_peek ?p (tx_inout ?s)")
    case True
    then obtain b0 where "b = Some b0" using push_ok_peek [OF ok] by blast
    then show ?thesis using ok True
      by (simp add: tx_post_def got_batch_def batch_or_return.simps [of "ls_prio L" config df \<sigma>])
  next
    case False
    then have b: "b = None" using push_ok_peek [OF ok] by simp
    have log: "tx_log L ?s P None" using ok b by (simp add: push_ok_def)
    obtain r s' where r: "stage_refill_pull ?p ?s = (Inr r, s')" "tx_log L s' P None"
        "tx_pool ?p s' = tx_pool ?p ?s"
        and book: "\<And>w q df. r = Some w \<Longrightarrow> qos_priority q = ?p \<Longrightarrow> (\<exists>rb.
         mpsc_book ?p (w\<lparr>wb_qos := q, wb_drop := df\<rparr>) (tx_inout s') = (Inr (), rb)
         \<and> tx_log L (s'\<lparr>tx_inout := rb\<rparr>) P (Some (w\<lparr>wb_qos := q, wb_drop := df\<rparr>)) \<and> wb_fresh (ls_bsz L) w)"
      using tx_log_refill_pull [OF log] by metis
    show ?thesis
    proof (cases r)
      case (Some w)
      let ?w = "w\<lparr>wb_qos := pc_qos config, wb_drop := df\<rparr>"
      obtain rb where rb: "mpsc_book ?p ?w (tx_inout s') = (Inr (), rb)"
          "tx_log L (s'\<lparr>tx_inout := rb\<rparr>) P (Some ?w)" "wb_fresh (ls_bsz L) w"
        using book [OF Some "1.prems"(2)] by blast
      let ?s1 = "s'\<lparr>tx_backoff := (tx_backoff s')(?p := backoff_start (tx_clock s') (tx_backoff s' ?p)), tx_inout := rb\<rparr>"
      have "tx_log L ?s1 P (Some ?w)" by (rule tx_log_frame [OF rb(2)]) simp_all
      then have "push_ok L (\<sigma>\<lparr>ps_tx := ?s1\<rparr>) P (Some ?w) pool"
        using ok r(3) by (simp add: push_ok_def tx_pool_def)
      moreover have "wb_open (ls_bsz L) ?w" "wb_payload ?w = []"
        using wb_fresh_open [OF rb(3)] rb(3) by (simp_all add: wb_open_def wb_buffer_def wb_fresh_def wb_payload_def)
      ultimately have "got_batch L config P b pool (Inr ()) (\<sigma>\<lparr>ps_tx := ?s1\<rparr>)"
        using b by (auto simp: got_batch_def)
      moreover have "batch_or_return ?p config df \<sigma> = Some (Inr (), \<sigma>\<lparr>ps_tx := ?s1\<rparr>)"
        using False r(1) Some rb(1) by (simp add: batch_or_return.simps [of ?p config df \<sigma>] Let_def)
      ultimately show ?thesis by (simp add: tx_post_def)
    next
      case None
      define start where "start = (case ps_start \<sigma> of Some t \<Rightarrow> t | None \<Rightarrow> tx_clock s')"
      define \<sigma>1 where "\<sigma>1 = \<sigma>\<lparr>ps_tx := s', ps_start := Some start\<rparr>"
      have fails: "got_batch L config P b pool (Inl (Fail e)) (\<sigma>1\<lparr>ps_tx := set_congested df s2, ps_env := env2\<rparr>)"
        if "tx_log L s2 P None" "tx_pool ?p s2 = pool" "set env2 \<subseteq> set (ps_env \<sigma>)" "e = Timeout \<or> e = Dropped" for s2 env2 e
        using that ok b tx_log_frame [OF that(1), of "set_congested df s2"]
        by (auto simp: got_batch_def push_ok_def congests_def tx_pool_def)
      have pool: "tx_pool ?p s' = pool" using ok r(3) by (simp add: push_ok_def)
      note unfold = batch_or_return.simps [of ?p config df \<sigma>] if_not_P [OF False] r(1) None prod.case sum.case option.case
        Let_def start_def [symmetric] \<sigma>1_def [symmetric]
      show ?thesis
      proof (cases "Option.bind (checked_sub (tx_clock s') start) (checked_sub (pc_timeout config))")
        case None: None
        have "batch_or_return ?p config df \<sigma> = Some (Inl (Fail Timeout), \<sigma>1\<lparr>ps_tx := set_congested df s'\<rparr>)"
          by (simp only: unfold None option.case)
        then show ?thesis using fails [OF r(2) pool, of "ps_env \<sigma>" Timeout] by (simp add: tx_post_def \<sigma>1_def)
      next
        case left: (Some left)
        show ?thesis
        proof (cases "wait_refill ?p (tx_clock s' + min left (pc_timeout_batch config)) (ps_env \<sigma>1) s'")
          case None: None
          have "batch_or_return ?p config df \<sigma> = None"
            by (simp only: unfold left None option.case)
          then show ?thesis by (simp add: tx_post_def)
        next
          case w: (Some z)
          obtain we s2 env2 where z: "z = (we, s2, env2)" by (cases z)
          have env: "\<forall>g \<in> set (ps_env \<sigma>1). env_ok L g" using ok by (simp add: push_ok_def \<sigma>1_def)
          have kept: "tx_log L s2 P None" "tx_pool ?p s2 = pool" "set env2 \<subseteq> set (ps_env \<sigma>)"
            using wait_refill_keeps [OF w [unfolded z] r(2) env] pool by (simp_all add: \<sigma>1_def)
          show ?thesis
          proof (cases we)
            case WaitOk
            have "batch_or_return ?p config df \<sigma> = batch_or_return ?p config df (\<sigma>1\<lparr>ps_tx := s2, ps_env := env2\<rparr>)"
              by (simp only: unfold left w z WaitOk option.case wait_end.case prod.case)
            moreover have "push_ok L (\<sigma>1\<lparr>ps_tx := s2, ps_env := env2\<rparr>) P b pool"
              using kept ok b by (auto simp: push_ok_def)
            then have "tx_post (batch_or_return ?p config df) (\<sigma>1\<lparr>ps_tx := s2, ps_env := env2\<rparr>) (got_batch L config P b pool)"
              by (rule "1.hyps" [OF False r(1) [symmetric] refl None start_def \<sigma>1_def left w z [symmetric] WaitOk refl _ "1.prems"(2)])
            ultimately show ?thesis by (simp add: tx_post_def)
          next
            case WaitGone
            have "batch_or_return ?p config df \<sigma> = Some (Inl (Fail Dropped), \<sigma>1\<lparr>ps_tx := set_congested df s2, ps_env := env2\<rparr>)"
              by (simp only: unfold left w z WaitGone option.case wait_end.case prod.case)
            then show ?thesis using fails [OF kept] by (simp add: tx_post_def)
          next
            case WaitElapsed
            have "batch_or_return ?p config df \<sigma> = Some (Inl (Fail Timeout), \<sigma>1\<lparr>ps_tx := set_congested df s2, ps_env := env2\<rparr>)"
              by (simp only: unfold left w z WaitElapsed option.case wait_end.case prod.case)
            then show ?thesis using fails [OF kept] by (simp add: tx_post_def)
          qed
        qed
      qed
    qed
  qed
qed

section \<open>The steps on the booked batch\<close>

lemma the_batch_eq: "push_ok L \<sigma> P (Some b) pool \<Longrightarrow> the_batch (ls_prio L) \<sigma> = Some (Inr b, \<sigma>)"
  by (simp add: the_batch_def push_ok_deref)

lemma on_batch_eq:
  assumes "push_ok L \<sigma> P (Some b) pool" "f b = (r, b')" "wb_buffer (ls_bsz L) b'" "wb_qos b' = wb_qos b"
  shows "\<exists>\<sigma>'. on_batch (ls_prio L) f \<sigma> = Some (Inr r, \<sigma>') \<and> push_ok L \<sigma>' P (Some b') pool"
  using push_ok_store [OF assms(1,3,4)] push_ok_deref [OF assms(1)] assms(2)
  by (simp add: on_batch_def)

lemma must_write_fits:
  assumes "push_ok L \<sigma> P (Some b) pool" "emits (bb_view (BATCH_LEN + ls_bsz L)) m bs" "wb_open (ls_bsz L) b"
    "length (wb_payload b) + length bs \<le> ls_bsz L"
  shows "\<exists>\<sigma>' b'. must_write (ls_prio L) e m \<sigma> = Some (Inr (), \<sigma>') \<and> push_ok L \<sigma>' P (Some b') pool
    \<and> wb_open (ls_bsz L) b' \<and> wb_payload b' = wb_payload b @ bs \<and> wb_qos b' = wb_qos b"
proof -
  obtain x b' where b': "in_frame m b = (Inr x, b')" "wb_open (ls_bsz L) b'" "wb_payload b' = wb_payload b @ bs"
      "wb_qos b' = wb_qos b"
    using in_frame_fits [OF assms(2-4)] by blast
  moreover obtain \<sigma>' where "on_batch (ls_prio L) (in_frame m) \<sigma> = Some (Inr (Inr x), \<sigma>')" "push_ok L \<sigma>' P (Some b') pool"
    using on_batch_eq [where f = "in_frame m", OF assms(1) b'(1) _ b'(4)] b'(2) by (auto simp: wb_open_def)
  ultimately show ?thesis by (auto simp: must_write_def tx_bind_def tx_ok_def)
qed

text \<open>Chunks of the message go behind the frame.\<close>

lemma must_read_fits:
  assumes "push_ok L \<sigma> P (Some b) pool" "wb_open (ls_bsz L) b" "br_ok rd" "n \<le> length (br_pending rd)"
    "length (wb_payload b) + n \<le> ls_bsz L"
  shows "\<exists>rd' \<sigma>' b'. must_read (ls_prio L) e n rd \<sigma> = Some (Inr rd', \<sigma>') \<and> push_ok L \<sigma>' P (Some b') pool
    \<and> wb_payload b' = wb_payload b @ take n (br_pending rd) \<and> wb_qos b' = wb_qos b
    \<and> br_ok rd' \<and> br_pending rd' = drop n (br_pending rd)"
proof -
  obtain cs rd' where cs: "br_read_chunks n rd = (Inr cs, rd')" "chunks_hold (take n (br_pending rd)) cs" "br_steps rd n rd'"
    using br_read_chunks_spec(1) [OF assms(3,4)] by blast
  let ?b = "b\<lparr>wb_fragment := bytes_extend (wb_fragment b) cs\<rparr>"
  have wf: "bytes_wf (wb_fragment b)" "bytes_content (wb_fragment b) = []" "wb_buffer (ls_bsz L) b"
    using assms(2) by (simp_all add: wb_open_def wb_buffer_def)
  have ext: "bytes_wf (bytes_extend (wb_fragment b) cs)"
      "bytes_content (bytes_extend (wb_fragment b) cs) = take n (br_pending rd)"
    using bytes_extend_laws [OF wf(1), of cs] cs(2) wf(2) by (auto simp: chunks_hold_content)
  have "wb_buffer (ls_bsz L) ?b"
    using wf(3) ext assms(5) wb_open_room(1) [OF assms(2)] by (auto simp: wb_buffer_def)
  moreover have "wb_payload ?b = wb_payload b @ take n (br_pending rd)" using ext(2) wf(2) by (simp add: wb_payload_def)
  ultimately obtain \<sigma>' where "on_batch (ls_prio L) (\<lambda>b. ((), b\<lparr>wb_fragment := bytes_extend (wb_fragment b) cs\<rparr>)) \<sigma>
      = Some (Inr (), \<sigma>')" "push_ok L \<sigma>' P (Some ?b) pool" "wb_payload ?b = wb_payload b @ take n (br_pending rd)"
    using on_batch_eq [where f = "\<lambda>b. ((), b\<lparr>wb_fragment := bytes_extend (wb_fragment b) cs\<rparr>)", OF assms(1) refl] by auto
  moreover have "br_ok rd'" "br_pending rd' = drop n (br_pending rd)"
    using cs(3) br_steps_pending [OF cs(3)] by (simp_all add: br_steps_def)
  ultimately show ?thesis
    using cs(1) by (auto simp: must_read_def tx_bind_def tx_ok_def)
qed

subsection \<open>Sending it\<close>

definition closed_or :: "bool \<Rightarrow> (tx_fail + 'a) \<Rightarrow> bool" where
  "closed_or c r \<longleftrightarrow> (case r of Inl e \<Rightarrow> e = Fail Closed \<or> (c \<and> congests e) | Inr _ \<Rightarrow> True)"

lemma post_push_notify:
  assumes "push_ok L \<sigma> P b pool"
  shows "tx_post push_notify \<sigma> (\<lambda>r \<sigma>'. push_ok L \<sigma>' P b pool \<and> closed_or False r)"
  using assms push_ok_frame [OF assms]
  by (auto simp: tx_post_def push_notify_def Let_def closed_or_def split: if_splits prod.splits bool.splits)

lemma post_move_batch:
  assumes "push_ok L \<sigma> P (Some b) pool" "batch_holds b pk"
  shows "tx_post (move_batch (ls_prio L)) \<sigma> (\<lambda>r \<sigma>'. push_ok L \<sigma>' (P @ [pk]) None pool \<and> closed_or False r)"
proof -
  let ?p = "ls_prio L" and ?s = "ps_tx \<sigma>"
  have "tx_log L (?s\<lparr>tx_inout := mpsc_commit ?p (tx_inout ?s)\<rparr>) (P @ [pk]) None"
    using assms tx_log_commit by (auto simp: push_ok_def)
  then have "tx_log L (?s\<lparr>tx_backoff := (tx_backoff ?s)(?p := backoff_clear (tx_backoff ?s ?p)),
      tx_inout := mpsc_commit ?p (tx_inout ?s)\<rparr>) (P @ [pk]) None"
    by (rule tx_log_frame) simp_all
  then have "push_ok L (\<sigma>\<lparr>ps_tx := ?s\<lparr>tx_backoff := (tx_backoff ?s)(?p := backoff_clear (tx_backoff ?s ?p)),
      tx_inout := mpsc_commit ?p (tx_inout ?s)\<rparr>\<rparr>) (P @ [pk]) None pool"
    using assms(1) by (simp add: push_ok_def tx_pool_def)
  from post_push_notify [OF this] show ?thesis
    unfolding move_batch_def by (intro tx_post_bind) simp
qed

text \<open>The log of the lane, its booked frame included.\<close>

definition lane_log :: "lane_spec \<Rightarrow> push_state \<Rightarrow> packet list \<Rightarrow> seq_num_pool \<Rightarrow> bool" where
  "lane_log L \<sigma> F pool \<longleftrightarrow> push_ok L \<sigma> F None pool \<or>
     (\<exists>P b q sn ms. push_ok L \<sigma> P (Some b) pool \<and> wb_open (ls_bsz L) b \<and> batch_holds b (PkFrame q sn ms)
        \<and> F = P @ [PkFrame q sn ms])"

lemma post_return_notify:
  assumes "push_ok L \<sigma> P (Some b) pool" "wb_open (ls_bsz L) b" "batch_holds b (PkFrame q sn ms)"
  shows "tx_post (return_notify (ls_prio L) express) \<sigma>
    (\<lambda>r \<sigma>'. lane_log L \<sigma>' (P @ [PkFrame q sn ms]) pool \<and> closed_or False r)"
proof -
  let ?Post = "\<lambda>r \<sigma>'. lane_log L \<sigma>' (P @ [PkFrame q sn ms]) pool \<and> closed_or False r"
  have move: "tx_post (tx_bind (move_batch (ls_prio L)) (\<lambda>_. tx_ok False)) \<sigma>1 ?Post"
    if "push_ok L \<sigma>1 P (Some b) pool" for \<sigma>1
    using post_move_batch [OF that assms(3)]
    by (intro tx_post_bind) (auto elim!: tx_post_mono simp: lane_log_def closed_or_def split: sum.splits)
  have stay: "tx_post (tx_bind (note_length (ls_prio L)) (\<lambda>_. tx_ok True)) \<sigma>1 ?Post"
    if "push_ok L \<sigma>1 P (Some b) pool" for \<sigma>1
    unfolding note_length_def
    using push_ok_frame [OF that] assms(2,3) the_batch_eq [OF that]
    by (auto simp: tx_post_def tx_bind_def tx_modify_def tx_ok_def lane_log_def closed_or_def)
  have "\<exists>x \<sigma>1. (if express then tx_ok True else push_flush (ls_prio L)) \<sigma> = Some (Inr x, \<sigma>1) \<and> push_ok L \<sigma>1 P (Some b) pool"
    using assms(1) push_ok_frame [OF assms(1)] by (auto simp: push_flush_def Let_def tx_ok_def)
  then obtain x \<sigma>1 where "(if express then tx_ok True else push_flush (ls_prio L)) \<sigma> = Some (Inr x, \<sigma>1)"
      "push_ok L \<sigma>1 P (Some b) pool" by blast
  then show ?thesis
    unfolding return_notify_def using move stay by (cases x) (auto simp: tx_post_def tx_bind_def)
qed

section \<open>The three ways to push\<close>

lemma enc_packet_append:
  "enc_packet (PkFrame q sn (ms @ [m])) = enc_packet (PkFrame q sn ms) @ enc_slice m"
  by (simp add: enc_packet_def)

lemma enc_packet_ne [simp]: "enc_packet pk \<noteq> []"
  by (simp add: enc_packet_def enc_message_def enc_header_def)

text \<open>A batch is empty, or holds a frame that can still grow.\<close>

definition batch_state :: "lane_spec \<Rightarrow> packet list \<Rightarrow> write_batch \<Rightarrow> packet list \<Rightarrow> bool" where
  "batch_state L P b F \<longleftrightarrow> wb_open (ls_bsz L) b \<and> (wb_payload b = [] \<and> F = P
     \<or> (\<exists>q sn ms. batch_holds b (PkFrame q sn ms) \<and> F = P @ [PkFrame q sn ms]))"

definition pushed_or_broken :: "qos \<Rightarrow> u8 list \<Rightarrow> packet list \<Rightarrow> packet list \<Rightarrow> (tx_fail + 'a) \<Rightarrow> bool" where
  "pushed_or_broken q m F F' r \<longleftrightarrow> (case r of
       Inr _ \<Rightarrow> pushed q m F F'
     | Inl e \<Rightarrow> (e = Fail Closed \<or> congests e) \<and> (broken_off q F F' \<or> e = Fail Closed \<and> pushed q m F F'))"

definition push_end :: "lane_spec \<Rightarrow> qos \<Rightarrow> u8 list \<Rightarrow> packet list \<Rightarrow> (tx_fail + 'a) \<Rightarrow> push_state \<Rightarrow> bool" where
  "push_end L q m F r \<sigma> \<longleftrightarrow> (\<exists>F' pool. lane_log L \<sigma> F' pool \<and> pushed_or_broken q m F F' r)"

text \<open>A step ends the push, or leaves an empty batch to go on with.\<close>

definition step_end :: "lane_spec \<Rightarrow> qos \<Rightarrow> u8 list \<Rightarrow> packet list \<Rightarrow> (tx_fail + 'a option) \<Rightarrow> push_state \<Rightarrow> bool" where
  "step_end L q m F r \<sigma> \<longleftrightarrow> (case r of
       Inl e \<Rightarrow> push_end L q m F (Inl e :: tx_fail + 'a) \<sigma>
     | Inr (Some x) \<Rightarrow> push_end L q m F (Inr x) \<sigma>
     | Inr None \<Rightarrow> \<exists>b pool. push_ok L \<sigma> F (Some b) pool \<and> wb_open (ls_bsz L) b \<and> wb_payload b = [] \<and> wb_qos b = q)"

lemma step_end_simps [simp]:
  "step_end L q m F (Inl e :: tx_fail + 'a option) \<sigma> = push_end L q m F (Inl e :: tx_fail + 'a) \<sigma>"
  "step_end L q m F (Inr (Some x)) \<sigma> = push_end L q m F (Inr x) \<sigma>"
  by (simp_all add: step_end_def)

lemma step_end_None:
  "push_ok L \<sigma> F (Some b) pool \<Longrightarrow> wb_open (ls_bsz L) b \<Longrightarrow> wb_payload b = [] \<Longrightarrow> wb_qos b = q \<Longrightarrow>
     step_end L q m F (Inr None) \<sigma>"
  unfolding step_end_def by auto

lemma post_frame_written:
  assumes "push_ok L \<sigma> P (Some b) pool" "wb_open (ls_bsz L) b" "batch_holds b (PkFrame q0 sn ms)"
    "pushed q m F (P @ [PkFrame q0 sn ms])"
  shows "tx_post (tx_bind (return_notify (ls_prio L) express) (\<lambda>b. tx_ok (Some b))) \<sigma> (step_end L q m F)"
  using assms(4)
  by (intro tx_post_bind tx_post_mono [OF post_return_notify [OF assms(1-3)]])
    (auto simp: push_end_def pushed_or_broken_def closed_or_def split: sum.splits)

text \<open>Sending the batch that is there and getting a fresh one.\<close>

lemma post_next_batch:
  assumes "push_ok L \<sigma> P (Some b) pool" "batch_holds b pk" "qos_priority (pc_qos config) = ls_prio L" "F = P @ [pk]"
  shows "tx_post (tx_bind (move_batch (ls_prio L)) (\<lambda>_. tx_bind (batch_or_return (ls_prio L) config None) (\<lambda>_. tx_ok None)))
    \<sigma> (step_end L (pc_qos config) m F)"
proof (rule tx_post_bind, rule tx_post_mono [OF post_move_batch [OF assms(1,2)]])
  fix r :: "tx_fail + unit" and \<sigma>1
  assume r: "push_ok L \<sigma>1 (P @ [pk]) None pool \<and> closed_or False r"
  have ends: "push_end L (pc_qos config) m F (Inl e) \<sigma>2" if "push_ok L \<sigma>2 F None pool" "e = Fail Closed \<or> congests e" for e \<sigma>2
    using that unfolding push_end_def pushed_or_broken_def lane_log_def by (auto intro: broken_none)
  show "case r of Inl e \<Rightarrow> step_end L (pc_qos config) m F (Inl e) \<sigma>1
    | Inr x \<Rightarrow> tx_post (tx_bind (batch_or_return (ls_prio L) config None) (\<lambda>_. tx_ok None)) \<sigma>1
        (step_end L (pc_qos config) m F)"
  proof (cases r)
    case (Inl e)
    then show ?thesis using r ends [of \<sigma>1 e] assms(4) by (simp add: closed_or_def)
  next
    case (Inr x)
    have "tx_post (batch_or_return (ls_prio L) config None) \<sigma>1 (got_batch L config F None pool)"
      using r assms(3,4) by (intro post_batch_or_return) simp_all
    then have "tx_post (tx_bind (batch_or_return (ls_prio L) config None) (\<lambda>_. tx_ok None)) \<sigma>1
        (step_end L (pc_qos config) m F)"
      by (intro tx_post_bind) (auto elim!: tx_post_mono simp: got_batch_def ends intro: step_end_None split: sum.splits)
    then show ?thesis using Inr by simp
  qed
qed

lemma post_push_append:
  assumes ok: "push_ok L \<sigma> P (Some b) pool" and st: "batch_state L P b F" and q: "qos_priority (pc_qos config) = ls_prio L"
    and fresh: "wb_payload b = [] \<Longrightarrow> wb_qos b = pc_qos config"
    and msg: "bytes_wf msg" "bytes_len msg < 2 ^ 64"
  shows "tx_post (push_append (ls_prio L) msg config) \<sigma> (step_end L (pc_qos config) (bytes_content msg) F)"
proof -
  let ?p = "ls_prio L" and ?m = "bytes_content msg"
  have op: "wb_open (ls_bsz L) b" using st by (simp add: batch_state_def)
  have empty: "wb_is_empty b \<longleftrightarrow> wb_payload b = []"
    using wb_is_empty_iff [OF _ push_ok_bsz [OF ok]] op by (simp add: wb_open_def)
  show ?thesis
  proof (cases "wb_payload b = []")
    case True
    then have "F = P" using st enc_packet_ne [symmetric] by (auto simp: batch_state_def batch_holds_def simp del: enc_packet_ne)
    then have "step_end L (pc_qos config) ?m F (Inr None) \<sigma>"
      using ok op True fresh by (auto intro: step_end_None)
    then show ?thesis
      unfolding push_append_def using empty True by (intro tx_post_bind_det [where m = "the_batch ?p", OF the_batch_eq [OF ok]]) simp
  next
    case False
    then obtain q0 sn ms where h: "batch_holds b (PkFrame q0 sn ms)" and F: "F = P @ [PkFrame q0 sn ms]"
      using st by (auto simp: batch_state_def)
    let ?next = "tx_bind (move_batch ?p) (\<lambda>_. tx_bind (batch_or_return ?p config None) (\<lambda>_. tx_ok None)) :: bool option tx_op"
    have nx: "tx_post ?next \<sigma>1 (step_end L (pc_qos config) ?m F)"
      if "push_ok L \<sigma>1 P (Some b1) pool" "batch_holds b1 (PkFrame q0 sn ms)" for \<sigma>1 b1
      by (rule post_next_batch [OF that q F])
    have em: "emits (bb_view (BATCH_LEN + ls_bsz L)) (write_bytes bb_ops msg) (enc_slice ?m)"
      by (rule box_w.emits_total_bytes [OF msg(1)])
    have "tx_post (tx_bind (on_batch ?p (try_in_frame (write_bytes bb_ops msg))) (\<lambda>fits.
        if fits then tx_bind (return_notify ?p (qos_express (pc_qos config))) (\<lambda>b. tx_ok (Some b)) else ?next)) \<sigma>
        (step_end L (pc_qos config) ?m F)"
      if cc: "qos_congestion_control (wb_qos b) = qos_congestion_control (pc_qos config)"
    proof (cases "length (wb_payload b) + length (enc_slice ?m) \<le> ls_bsz L")
      case True
      obtain b' where b': "try_in_frame (write_bytes bb_ops msg) b = (True, b')" "wb_open (ls_bsz L) b'"
          "wb_payload b' = wb_payload b @ enc_slice ?m" "wb_qos b' = wb_qos b"
        using try_in_frame_fits [OF em op True] by blast
      obtain \<sigma>' where s: "on_batch ?p (try_in_frame (write_bytes bb_ops msg)) \<sigma> = Some (Inr True, \<sigma>')"
          "push_ok L \<sigma>' P (Some b') pool"
        using on_batch_eq [where f = "try_in_frame (write_bytes bb_ops msg)", OF ok b'(1) _ b'(4)] b'(2) by (auto simp: wb_open_def)
      have "batch_holds b' (PkFrame q0 sn (ms @ [?m]))"
        using h b'(3,4) msg bytes_len_content [OF msg(1)] by (auto simp: batch_holds_def enc_packet_append pk_wf_def)
      moreover have "qos_class q0 = qos_class (pc_qos config)"
        using h cc q push_ok_shape [OF ok] by (simp add: batch_holds_def qos_class_def wb_shape_def)
      ultimately show ?thesis
        using post_frame_written [OF s(2) b'(2)] pushed_append [OF F] s(1)
        by (intro tx_post_bind_det [where \<sigma>' = \<sigma>' and x = True]) auto
    next
      case False
      obtain b' where b': "try_in_frame (write_bytes bb_ops msg) b = (False, b')" "wb_open (ls_bsz L) b'"
          "wb_payload b' = wb_payload b" "wb_qos b' = wb_qos b"
        using try_in_frame_full [OF em op] False by force
      obtain \<sigma>' where s: "on_batch ?p (try_in_frame (write_bytes bb_ops msg)) \<sigma> = Some (Inr False, \<sigma>')"
          "push_ok L \<sigma>' P (Some b') pool"
        using on_batch_eq [where f = "try_in_frame (write_bytes bb_ops msg)", OF ok b'(1) _ b'(4)] b'(2) by (auto simp: wb_open_def)
      have "batch_holds b' (PkFrame q0 sn ms)" using h b' by (simp add: batch_holds_def)
      then show ?thesis using nx [OF s(2)] s(1) by (intro tx_post_bind_det [where \<sigma>' = \<sigma>' and x = False]) auto
    qed
    then show ?thesis
      unfolding push_append_def using empty False nx [OF ok h]
      by (intro tx_post_bind_det [where m = "the_batch ?p", OF the_batch_eq [OF ok]]) (auto simp: Let_def)
  qed
qed

lemma sn_gen_wf: "pool_wf pool \<Longrightarrow> sn_wf (sn_gen cc pool)"
  by (cases cc) (simp_all add: pool_wf_def)

lemma sn_gen_set_laws:
  "pool_wf pool \<Longrightarrow> sn_wf sn \<Longrightarrow> pool_wf (sn_gen_set cc sn pool)" "sn_gen cc (sn_gen_set cc sn pool) = sn"
  "sn_frag_id (sn_gen_set cc sn pool) = sn_frag_id pool"
  by (cases cc; simp add: pool_wf_def sn_set_def)+

definition frame_message :: "qos \<Rightarrow> seq_num \<Rightarrow> message" where
  "frame_message q sn = message_new (message_header_new q sn) (Frame frame_new)"

lemma frame_message_wf: "sn_wf sn \<Longrightarrow> message_wf (frame_message q sn)"
  by (simp add: frame_message_def message_wf_def message_new_def)

lemma post_push_frame:
  assumes ok: "push_ok L \<sigma> F (Some b) pool" and b: "wb_open (ls_bsz L) b" "wb_payload b = []" "wb_qos b = pc_qos config"
    and msg: "bytes_wf msg" "bytes_len msg < 2 ^ 64"
  shows "tx_post (push_frame (ls_prio L) msg config) \<sigma> (\<lambda>r \<sigma>'. case r of
      Inr None \<Rightarrow> (\<exists>b'. push_ok L \<sigma>' F (Some b') pool \<and> wb_open (ls_bsz L) b' \<and> wb_payload b' = []
        \<and> wb_qos b' = pc_qos config
        \<and> ls_bsz L < w_len_message (frame_message (pc_qos config)
             (sn_next (sn_gen (qos_congestion_control (pc_qos config)) pool))) + length (enc_slice (bytes_content msg)))
    | _ \<Rightarrow> step_end L (pc_qos config) (bytes_content msg) F r \<sigma>')"
proof -
  let ?p = "ls_prio L" and ?m = "bytes_content msg" and ?q = "pc_qos config"
  let ?cc = "qos_congestion_control ?q"
  define sn where "sn = sn_next (sn_gen ?cc pool)"
  define m where "m = andthen (write_message bb_ops (frame_message ?q sn)) (\<lambda>_. write_bytes bb_ops msg)"
  have pool: "tx_pool ?p (ps_tx \<sigma>) = pool" "pool_wf pool" using ok by (simp_all add: push_ok_def)
  have em: "emits (bb_view (BATCH_LEN + ls_bsz L)) m (enc_message (frame_message ?q sn) @ enc_slice ?m)"
    unfolding m_def by (rule box_w.emits_andthen [OF box_w.emits_message box_w.emits_total_bytes [OF msg(1)]])
  let ?M = "tx_bind (on_batch ?p (try_in_frame m)) (\<lambda>fits. if fits
      then tx_bind (tx_modify (set_pool ?p (sn_gen_set ?cc sn)))
        (\<lambda>_. tx_bind (return_notify ?p (qos_express ?q)) (\<lambda>b. tx_ok (Some b)))
      else tx_ok None)"
  have "push_frame ?p msg config \<sigma> = ?M \<sigma>"
    by (simp only: push_frame_def Let_def pool(1) sn_def [symmetric] frame_message_def [symmetric] m_def [symmetric])
  then have unfold: "tx_post (push_frame ?p msg config) \<sigma> Post = tx_post ?M \<sigma> Post" for Post
    by (simp only: tx_post_def)
  show ?thesis
  proof (cases "w_len_message (frame_message ?q sn) + length (enc_slice ?m) \<le> ls_bsz L")
    case True
    obtain b' where b': "try_in_frame m b = (True, b')" "wb_open (ls_bsz L) b'"
        "wb_payload b' = enc_message (frame_message ?q sn) @ enc_slice ?m" "wb_qos b' = wb_qos b"
      using try_in_frame_fits [OF em b(1)] True b(2) by auto
    obtain \<sigma>1 where s1: "on_batch ?p (try_in_frame m) \<sigma> = Some (Inr True, \<sigma>1)" "push_ok L \<sigma>1 F (Some b') pool"
      using on_batch_eq [where f = "try_in_frame m", OF ok b'(1) _ b'(4)] b'(2) by (auto simp: wb_open_def)
    have snwf: "sn_wf sn" by (simp add: sn_def)
    have s2: "push_ok L (\<sigma>1\<lparr>ps_tx := set_pool ?p (sn_gen_set ?cc sn) (ps_tx \<sigma>1)\<rparr>) F (Some b') (sn_gen_set ?cc sn pool)"
      by (rule push_ok_pool [where f = "sn_gen_set ?cc sn", OF s1(2) sn_gen_set_laws(1) [OF pool(2) snwf]])
    have h: "batch_holds b' (PkFrame ?q sn [?m])"
      using b'(3,4) b(3) msg bytes_len_content [OF msg(1)] frame_message_wf [OF snwf, of ?q]
      by (simp add: batch_holds_def enc_packet_def frame_message_def pk_wf_def)
    have "tx_post (tx_bind (return_notify ?p (qos_express ?q)) (\<lambda>b. tx_ok (Some b)))
        (\<sigma>1\<lparr>ps_tx := set_pool ?p (sn_gen_set ?cc sn) (ps_tx \<sigma>1)\<rparr>) (step_end L ?q ?m F)"
      by (rule post_frame_written [OF s2 b'(2) h pushed_frame])
    moreover have eq: "?M \<sigma> = tx_bind (return_notify ?p (qos_express ?q)) (\<lambda>b. tx_ok (Some b))
        (\<sigma>1\<lparr>ps_tx := set_pool ?p (sn_gen_set ?cc sn) (ps_tx \<sigma>1)\<rparr>)"
      using s1(1) by (simp add: tx_bind_def [of "on_batch _ _"] tx_bind_def [of "tx_modify _"] tx_modify_def)
    ultimately have "tx_post ?M \<sigma> (step_end L ?q ?m F)" by (simp only: tx_post_def)
    moreover have "r \<noteq> Inr None" if "?M \<sigma> = Some (r, \<sigma>')" for r \<sigma>'
      using that [unfolded eq] by (rule tx_bind_some)
    ultimately show ?thesis unfolding unfold sn_def [symmetric] by (rule tx_post_done)
  next
    case False
    obtain b' where b': "try_in_frame m b = (False, b')" "wb_open (ls_bsz L) b'" "wb_payload b' = []" "wb_qos b' = wb_qos b"
      using try_in_frame_full [OF em b(1)] False b(2) by force
    obtain \<sigma>1 where "on_batch ?p (try_in_frame m) \<sigma> = Some (Inr False, \<sigma>1)" "push_ok L \<sigma>1 F (Some b') pool"
      using on_batch_eq [where f = "try_in_frame m", OF ok b'(1) _ b'(4)] b'(2) by (auto simp: wb_open_def)
    then show ?thesis
      unfolding unfold sn_def [symmetric] using b' b(3) False by (auto simp: tx_post_def tx_bind_def tx_ok_def)
  qed
qed

end
