(* ===== verification/Tx_Fragments.thy ===== *)
theory Tx_Fragments
  imports Tx_Push
begin

text \<open>
  The third way to push: a message that no batch can hold is sent in fragments.  Every
  fragment but the last is marked so, none is empty but perhaps the first, and together they
  are the message (\<open>post_push_fragments\<close>); a push that gives up leaves an incomplete series.
\<close>

section \<open>Fragments\<close>

primrec more_fragments :: "qos \<Rightarrow> seq_num \<Rightarrow> seq_num \<Rightarrow> u8 list list \<Rightarrow> packet list" where
  "more_fragments q sn i [] = []"
| "more_fragments q sn i (d # ds) = PkFrag q sn More i d # more_fragments q (sn_next sn) i ds"

lemma more_fragments_snoc:
  "more_fragments q sn i (ds @ [d]) = more_fragments q sn i ds @ [PkFrag q ((sn_next ^^ length ds) sn) More i d]"
  by (induction ds arbitrary: sn) (simp_all add: funpow_swap1)

lemma later_fragments_snoc:
  "later_fragments q sn i (ds @ [d]) = more_fragments q sn i ds @ [PkFrag q ((sn_next ^^ length ds) sn) Last i d]"
proof (induction ds arbitrary: sn)
  case (Cons x xs)
  have "xs @ [d] \<noteq> []" by simp
  then obtain y ys where "xs @ [d] = y # ys" by (cases "xs @ [d]") auto
  then show ?case using Cons.IH [of "sn_next sn"] by (simp add: funpow_swap1)
qed simp

lemma more_fragments_map: "\<exists>es. more_fragments q sn i ds = map (\<lambda>(sn, bs). PkFrag q sn More i bs) es"
proof (induction ds arbitrary: sn)
  case (Cons d ds)
  obtain es where "more_fragments q (sn_next sn) i ds = map (\<lambda>(sn, bs). PkFrag q sn More i bs) es" using Cons.IH by blast
  then show ?case by (intro exI [of _ "(sn, d) # es"]) simp
qed simp

lemma w_len_fragment_le: "sn_wf sn \<Longrightarrow> sn_wf i \<Longrightarrow> w_len_message (fragment_message config sn k i) \<le> 10"
  using w_len_seq_num_le [of sn] w_len_seq_num_le [of i]
  by (simp add: fragment_message_def message_new_def w_len_message_def w_len_message_header_def
      w_len_fragment_header_def)

lemma w_len_fragment_frame:
  "w_len_message (frame_message (pc_qos config) sn) < w_len_message (fragment_message config sn k i)"
proof -
  have "0 < w_len_seq_num i"
    using less_le_trans [OF zero_less_one vle_len_bounds(1)] by (simp add: w_len_seq_num_def w_len_u32_def w_len_u64_def)
  then show ?thesis
    by (simp add: fragment_message_def frame_message_def message_new_def w_len_message_def w_len_message_header_def
        w_len_fragment_header_def w_len_frame_header_def)
qed

lemma w_len_fragment_kind: "w_len_message (fragment_message config sn k i) = w_len_message (fragment_message config sn k' i)"
  by (simp add: fragment_message_def message_new_def w_len_message_def w_len_fragment_header_def)


subsection \<open>Sending one fragment\<close>

lemma post_send_batch:
  assumes "push_ok L \<sigma> P (Some b) pool" "batch_holds b pk" "sn_wf sn"
  shows "tx_post (send_batch (ls_prio L) config sn) \<sigma> (\<lambda>r \<sigma>'.
    push_ok L \<sigma>' (P @ [pk]) None (sn_gen_set (qos_congestion_control (pc_qos config)) sn pool) \<and> closed_or False r)"
proof -
  let ?f = "sn_gen_set (qos_congestion_control (pc_qos config)) sn"
  have "pool_wf (?f pool)" using assms(1,3) sn_gen_set_laws(1) by (simp add: push_ok_def)
  from push_ok_pool [where f = ?f, OF assms(1) this] show ?thesis
    unfolding send_batch_def by (intro tx_post_bind) (simp add: post_move_batch [OF _ assms(2)])
qed

text \<open>A batch that holds a fragment.\<close>

lemma batch_holds_fragment:
  assumes "wb_payload b = enc_message (fragment_message config sn k i) @ d" "wb_qos b = pc_qos config" "sn_wf sn" "sn_wf i"
  shows "batch_holds b (PkFrag (pc_qos config) sn k i d)"
  using assms by (simp add: batch_holds_def enc_packet_def fragment_message_def pk_wf_def message_wf_def message_new_def)

text \<open>How the fragments of a push are ended or broken off.\<close>

definition frags_sent :: "lane_spec \<Rightarrow> push_config \<Rightarrow> packet list \<Rightarrow> seq_num \<Rightarrow> seq_num \<Rightarrow> u8 list \<Rightarrow> u8 list list \<Rightarrow> push_state \<Rightarrow> bool" where
  "frags_sent L config F sn i d ds \<sigma> \<longleftrightarrow> (\<exists>pool.
     push_ok L \<sigma> (F @ PkFrag (pc_qos config) sn First i d # more_fragments (pc_qos config) (sn_next sn) i ds) None pool
     \<and> sn_gen (qos_congestion_control (pc_qos config)) pool = (sn_next ^^ length ds) sn)"

lemma frags_broken:
  assumes "frags_sent L config F sn i d ds \<sigma>" "e = Fail Closed \<or> congests e"
  shows "push_end L (pc_qos config) m F (Inl e) \<sigma>"
proof -
  obtain es where "more_fragments (pc_qos config) (sn_next sn) i ds = map (\<lambda>(sn, bs). PkFrag (pc_qos config) sn More i bs) es"
    using more_fragments_map by blast
  then have "broken_off (pc_qos config) F (F @ PkFrag (pc_qos config) sn First i d # more_fragments (pc_qos config) (sn_next sn) i ds)"
    by (simp add: broken_some)
  then show ?thesis
    using assms unfolding frags_sent_def push_end_def pushed_or_broken_def lane_log_def by auto
qed

lemma frags_done:
  assumes "push_ok L \<sigma> (F @ PkFrag (pc_qos config) sn First i d # more_fragments (pc_qos config) (sn_next sn) i ds
      @ [PkFrag (pc_qos config) ((sn_next ^^ length ds) (sn_next sn)) Last i x]) None pool"
    "d @ concat ds @ x = enc_slice m" "case r of Inl e \<Rightarrow> e = Fail Closed | Inr _ \<Rightarrow> True"
  shows "push_end L (pc_qos config) m F r \<sigma>"
proof -
  have "pushed (pc_qos config) m F (F @ fragments (pc_qos config) sn i d (ds @ [x]))"
    using assms(2) by (intro pushed_fragments) simp_all
  then show ?thesis
    using assms(1,3) unfolding push_end_def pushed_or_broken_def lane_log_def fragments_def later_fragments_snoc
    by (auto split: sum.splits)
qed


text \<open>The first fragment holds the length of the message, and never all of it: the message
  did not fit in a frame, whose header is shorter.\<close>

lemma post_first_fragment:
  assumes ok: "push_ok L \<sigma> F (Some b) pool" and b: "wb_open (ls_bsz L) b" "wb_payload b = []" "wb_qos b = pc_qos config"
    and sn: "sn_wf sn" "sn_wf i" and msg: "bytes_wf msg" and room: "19 \<le> ls_bsz L"
    and big: "ls_bsz L < w_len_message (frame_message (pc_qos config) sn) + length (enc_slice (bytes_content msg))"
  shows "tx_post (first_fragment (ls_prio L) msg config sn i) \<sigma> (\<lambda>r \<sigma>'. case r of
      Inl e \<Rightarrow> push_end L (pc_qos config) m F (Inl e :: tx_fail + bool) \<sigma>'
    | Inr rd \<Rightarrow> br_ok rd \<and> br_pending rd \<noteq> [] \<and> (\<exists>d. frags_sent L config F sn i d [] \<sigma>'
        \<and> d @ br_pending rd = enc_slice (bytes_content msg)))"
proof -
  let ?p = "ls_prio L" and ?m = "bytes_content msg"
  define h where "h = fragment_message config sn First i"
  define n where "n = ls_bsz L - w_len_message h - length (enc_usize (length ?m))"
  have hl: "w_len_message h \<le> 10" "w_len_message (frame_message (pc_qos config) sn) < w_len_message h"
    unfolding h_def by (rule w_len_fragment_le [OF sn], rule w_len_fragment_frame)
  have ul: "length (enc_usize (length ?m)) \<le> 9" by (simp add: enc_usize_def vle_len_bounds(2))
  have n: "n < length ?m" using big hl ul room by (simp add: n_def enc_slice_def)
  obtain \<sigma>1 b1 where 1: "must_write ?p EncodingFailed (write_message bb_ops h) \<sigma> = Some (Inr (), \<sigma>1)"
      "push_ok L \<sigma>1 F (Some b1) pool" "wb_open (ls_bsz L) b1" "wb_payload b1 = enc_message h" "wb_qos b1 = wb_qos b"
    using must_write_fits [where m = "write_message bb_ops h" and bs = "enc_message h" and e = EncodingFailed,
        OF ok box_w.emits_message b(1)] b(2) hl room by auto
  have "emits (bb_view (BATCH_LEN + ls_bsz L)) (write_usize bb_ops (bytes_len msg)) (enc_usize (length ?m))"
    using box_w.emits_usize by (simp add: enc_usize_def bytes_len_content [OF msg])
  moreover have "length (wb_payload b1) + length (enc_usize (length ?m)) \<le> ls_bsz L" using 1(4) hl ul room by simp
  ultimately obtain \<sigma>2 b2 where 2: "must_write ?p EncodingFailed (write_usize bb_ops (bytes_len msg)) \<sigma>1 = Some (Inr (), \<sigma>2)"
      "push_ok L \<sigma>2 F (Some b2) pool" "wb_open (ls_bsz L) b2" "wb_payload b2 = enc_message h @ enc_usize (length ?m)" "wb_qos b2 = wb_qos b"
    using must_write_fits [OF 1(2) _ 1(3), where e = EncodingFailed] 1(4,5) by metis
  have rem: "bb_remaining (wb_frame b2) = n" using wb_open_room(2) [OF 2(3)] 2(4) by (simp add: n_def)
  have "length (wb_payload b2) + n \<le> ls_bsz L" using 2(4) hl ul room by (simp add: n_def)
  then obtain rd \<sigma>3 b3 where 3: "must_read ?p EncodingFailed n (bytes_reader msg) \<sigma>2 = Some (Inr rd, \<sigma>3)"
      "push_ok L \<sigma>3 F (Some b3) pool" "wb_payload b3 = wb_payload b2 @ take n ?m" "wb_qos b3 = wb_qos b2"
      "br_ok rd" "br_pending rd = drop n ?m"
    using must_read_fits [OF 2(2,3) br_ok_reader [OF msg], of n EncodingFailed] n by auto
  define d where "d = enc_usize (length ?m) @ take n ?m"
  have hold: "batch_holds b3 (PkFrag (pc_qos config) sn First i d)"
    using 3(3,4) 2(4,5) b(3) by (intro batch_holds_fragment [OF _ _ sn]) (simp_all add: d_def h_def)
  have sent: "frags_sent L config F sn i d [] \<sigma>'"
    if "push_ok L \<sigma>' (F @ [PkFrag (pc_qos config) sn First i d]) None
      (sn_gen_set (qos_congestion_control (pc_qos config)) sn pool)" for \<sigma>'
    using that sn_gen_set_laws(2) by (auto simp: frags_sent_def)
  have whole: "d @ drop n ?m = enc_slice ?m" by (simp add: d_def enc_slice_def)
  have "tx_post (tx_bind (send_batch ?p config sn) (\<lambda>_. tx_ok rd)) \<sigma>3 (\<lambda>r \<sigma>'. case r of
      Inl e \<Rightarrow> push_end L (pc_qos config) m F (Inl e :: tx_fail + bool) \<sigma>'
    | Inr rd \<Rightarrow> br_ok rd \<and> br_pending rd \<noteq> [] \<and> (\<exists>d. frags_sent L config F sn i d [] \<sigma>' \<and> d @ br_pending rd = enc_slice ?m))"
    using n 3(5,6) frags_broken [OF sent, of _ "Fail Closed"] sent whole
    by (intro tx_post_bind tx_post_mono [OF post_send_batch [OF 3(2) hold sn(1), of config]])
      (fastforce simp: closed_or_def split: sum.splits)
  then show ?thesis
    unfolding first_fragment_def h_def [symmetric]
    by (intro tx_post_bind_det [where m = "must_write _ _ _", OF 1(1)] tx_post_bind_det [where m = "must_write _ _ _", OF 2(1)]
        tx_post_bind_det [where m = "the_batch _", OF the_batch_eq [OF 2(2)]])
      (simp add: rem tx_post_bind_det [where m = "must_read _ _ _ _", OF 3(1)])
qed


text \<open>A later fragment, marked as the last when the rest of the message fits.\<close>

definition frag_step :: "lane_spec \<Rightarrow> push_config \<Rightarrow> u8 list \<Rightarrow> packet list \<Rightarrow> seq_num \<Rightarrow> seq_num \<Rightarrow> u8 list \<Rightarrow> u8 list list \<Rightarrow>
    bytes_reader \<Rightarrow> (tx_fail + bytes_reader) \<Rightarrow> push_state \<Rightarrow> bool" where
  "frag_step L config m F sn i d ds rd r \<sigma> \<longleftrightarrow> (case r of
       Inl e \<Rightarrow> push_end L (pc_qos config) m F (Inl e :: tx_fail + bool) \<sigma>
     | Inr rd' \<Rightarrow> br_ok rd' \<and> length (br_pending rd') < length (br_pending rd) \<and>
         (if br_pending rd' = [] then push_end L (pc_qos config) m F (Inr False) \<sigma>
          else \<exists>x. x @ br_pending rd' = br_pending rd \<and> frags_sent L config F sn i d (ds @ [x]) \<sigma>))"

lemma post_more_fragment:
  assumes sent: "frags_sent L config F sn i d ds \<sigma>" and sn: "sn_wf sn" "sn_wf i" and room: "19 \<le> ls_bsz L"
    and q: "qos_priority (pc_qos config) = ls_prio L" and rd: "br_ok rd" "br_pending rd \<noteq> []"
    and whole: "d @ concat ds @ br_pending rd = enc_slice m"
  shows "tx_post (more_fragment (ls_prio L) config df ((sn_next ^^ length ds) (sn_next sn)) i rd) \<sigma>
    (frag_step L config m F sn i d ds rd)"
proof -
  let ?p = "ls_prio L" and ?q = "pc_qos config" and ?sn = "(sn_next ^^ length ds) (sn_next sn)"
  let ?P = "F @ PkFrag ?q sn First i d # more_fragments ?q (sn_next sn) i ds"
  obtain pool where ok: "push_ok L \<sigma> ?P None pool"
      and gen: "sn_gen (qos_congestion_control ?q) pool = (sn_next ^^ length ds) sn"
    using sent by (auto simp: frags_sent_def)
  have snwf: "sn_wf ?sn" by (simp add: sn_wf_next_pow)
  define h where "h = (\<lambda>k. fragment_message config ?sn k i)"
  have h_app: "fragment_message config ?sn k i = h k" for k by (simp add: h_def)
  define w where "w = ls_bsz L - w_len_message (h More)"
  define n where "n = min (length (br_pending rd)) w"
  define k where "k = (if length (br_pending rd) \<le> w then Last else More)"
  have hl: "w_len_message (h k) \<le> 10" "w_len_message (h k) = w_len_message (h More)"
    unfolding h_def by (rule w_len_fragment_le [OF snwf sn(2)], rule w_len_fragment_kind)
  have n: "0 < n" "n \<le> length (br_pending rd)" "w_len_message (h k) + n \<le> ls_bsz L"
    using hl room rd(2) by (simp_all add: n_def w_def)
  let ?rest = "\<lambda>b. tx_bind (must_write ?p EncodingFailed (write_message bb_ops (h k))) (\<lambda>_.
      tx_bind (must_read ?p Internal n rd) (\<lambda>rd'. tx_bind (send_batch ?p config ?sn) (\<lambda>_. tx_ok rd')))"
  have filled: "tx_post (?rest b) \<sigma>0 (frag_step L config m F sn i d ds rd)"
    if b: "push_ok L \<sigma>0 ?P (Some b) pool" "wb_open (ls_bsz L) b" "wb_payload b = []" "wb_qos b = ?q" for b \<sigma>0
  proof -
    obtain \<sigma>1 b1 where 1: "must_write ?p EncodingFailed (write_message bb_ops (h k)) \<sigma>0 = Some (Inr (), \<sigma>1)"
        "push_ok L \<sigma>1 ?P (Some b1) pool" "wb_open (ls_bsz L) b1" "wb_payload b1 = enc_message (h k)" "wb_qos b1 = ?q"
      using must_write_fits [where m = "write_message bb_ops (h k)" and bs = "enc_message (h k)" and e = EncodingFailed,
          OF b(1) box_w.emits_message b(2)] b(3,4) n(3) by auto
    obtain rd' \<sigma>2 b2 where 2: "must_read ?p Internal n rd \<sigma>1 = Some (Inr rd', \<sigma>2)" "push_ok L \<sigma>2 ?P (Some b2) pool"
        "wb_payload b2 = enc_message (h k) @ take n (br_pending rd)" "wb_qos b2 = ?q" "br_ok rd'"
        "br_pending rd' = drop n (br_pending rd)"
      using must_read_fits [OF 1(2,3) rd(1) n(2), of Internal] 1(4,5) n(3) by auto
    let ?x = "take n (br_pending rd)"
    have hold: "batch_holds b2 (PkFrag ?q ?sn k i ?x)"
      using 2(3,4) by (intro batch_holds_fragment [OF _ _ snwf sn(2)]) (simp_all add: h_def)
    have done_: "frag_step L config m F sn i d ds rd (case r of Inl e \<Rightarrow> Inl e | Inr _ \<Rightarrow> Inr rd') \<sigma>'"
      if r: "push_ok L \<sigma>' (?P @ [PkFrag ?q ?sn k i ?x]) None (sn_gen_set (qos_congestion_control ?q) ?sn pool)"
        "closed_or False r" for r :: "tx_fail + unit" and \<sigma>'
    proof (cases "length (br_pending rd) \<le> w")
      case True
      then have x: "k = Last" "?x = br_pending rd" "br_pending rd' = []" using 2(6) by (simp_all add: k_def n_def)
      have e: "push_end L ?q m F r' \<sigma>'" if "case r' of Inl e \<Rightarrow> e = Fail Closed | Inr _ \<Rightarrow> True" for r' :: "tx_fail + bool"
        using r(1) x whole by (intro frags_done [OF _ _ that, of L \<sigma>' F config sn i d ds "br_pending rd"]) simp_all
      show ?thesis
        using e [of "Inr False"] e [of "Inl (Fail Closed)"] r(2) x(3) 2(5) rd(2)
        by (auto simp: frag_step_def closed_or_def split: sum.splits)
    next
      case False
      then have x: "k = More" "br_pending rd' \<noteq> []" "?x @ br_pending rd' = br_pending rd"
          "length (br_pending rd') < length (br_pending rd)"
        using 2(6) n by (simp_all add: k_def n_def)
      have "frags_sent L config F sn i d (ds @ [?x]) \<sigma>'"
        using r(1) x(1) sn_gen_set_laws(2) by (auto simp: frags_sent_def more_fragments_snoc funpow_swap1)
      then show ?thesis
        using frags_broken [of L config F sn i d "ds @ [?x]" \<sigma>' "Fail Closed" m] r(2) x 2(5)
        by (auto simp: frag_step_def closed_or_def simp del: append_take_drop_id split: sum.splits)
    qed
    have "tx_post (tx_bind (send_batch ?p config ?sn) (\<lambda>_. tx_ok rd')) \<sigma>2 (frag_step L config m F sn i d ds rd)"
      using done_ by (intro tx_post_bind tx_post_mono [OF post_send_batch [OF 2(2) hold snwf, of config]])
        (fastforce split: sum.splits)
    then show ?thesis
      by (intro tx_post_bind_det [where m = "must_write _ _ _", OF 1(1)] tx_post_bind_det [where m = "must_read _ _ _ _", OF 2(1)])
  qed
  have "tx_post (batch_or_return ?p config (Some df)) \<sigma> (got_batch L config ?P None pool)"
    by (rule post_batch_or_return [OF ok q])
  then show ?thesis
    unfolding more_fragment_def Let_def h_app
  proof (intro tx_post_bind, elim tx_post_mono)
    fix r :: "tx_fail + unit" and \<sigma>1
    assume r: "got_batch L config ?P None pool r \<sigma>1"
    show "case r of Inl e \<Rightarrow> frag_step L config m F sn i d ds rd (Inl e) \<sigma>1
      | Inr x \<Rightarrow> tx_post (tx_bind (the_batch ?p) (\<lambda>b.
          tx_bind (must_write ?p EncodingFailed (write_message bb_ops
             (if br_remaining rd \<le> usize_sub (bb_remaining (wb_frame b)) (w_len_message (h More)) then h Last else h More))) (\<lambda>_.
          tx_bind (must_read ?p Internal (min (br_remaining rd) (usize_sub (bb_remaining (wb_frame b)) (w_len_message (h More)))) rd) (\<lambda>rd'.
          tx_bind (send_batch ?p config ?sn) (\<lambda>_. tx_ok rd'))))) \<sigma>1 (frag_step L config m F sn i d ds rd)"
    proof (cases r)
      case (Inl e)
      then have "frags_sent L config F sn i d ds \<sigma>1" "congests e"
        using r gen by (auto simp: got_batch_def frags_sent_def)
      then show ?thesis using Inl frags_broken [of L config F sn i d ds \<sigma>1 e m] by (simp add: frag_step_def)
    next
      case (Inr x)
      then obtain b where b: "push_ok L \<sigma>1 ?P (Some b) pool" "wb_open (ls_bsz L) b" "wb_payload b = []" "wb_qos b = ?q"
        using r by (auto simp: got_batch_def)
      have "bb_remaining (wb_frame b) = ls_bsz L" using wb_open_room(2) [OF b(2)] b(3) by simp
      then have "usize_sub (bb_remaining (wb_frame b)) (w_len_message (h More)) = w"
        using hl room by (simp add: w_def)
      moreover have "(if length (br_pending rd) \<le> w then h Last else h More) = h k" by (simp add: k_def)
      ultimately show ?thesis
        using filled [OF b] Inr
        by (simp add: tx_post_bind_det [where m = "the_batch _", OF the_batch_eq [OF b(1)]] br_remaining_pending [OF rd(1)] n_def)
    qed
  qed
qed


subsection \<open>All fragments\<close>

lemma br_can_read: "br_ok rd \<Longrightarrow> can_read br_ops rd \<longleftrightarrow> br_pending rd \<noteq> []"
  by (simp add: can_read_def br_ops_def br_remaining_pending)

lemma frag_loop_step:
  "frag_loop p config df i rd \<sigma> = (if can_read br_ops rd
     then tx_bind (tx_bind (next_seq_num p config) (\<lambda>sn. more_fragment p config df sn i rd)) (frag_loop p config df i) \<sigma>
     else Some (Inr False, \<sigma>))"
  by (subst frag_loop.simps) (simp add: tx_bind_def [of "tx_bind _ _"])

lemma next_seq_num_eq:
  "push_ok L \<sigma> P b pool \<Longrightarrow>
     next_seq_num (ls_prio L) config \<sigma> = Some (Inr (sn_next (sn_gen (qos_congestion_control (pc_qos config)) pool)), \<sigma>)"
  by (simp add: next_seq_num_def tx_ok_def push_ok_def)

lemma post_frag_loop:
  assumes "frags_sent L config F sn i d ds \<sigma>" "sn_wf sn" "sn_wf i" "19 \<le> ls_bsz L" "qos_priority (pc_qos config) = ls_prio L"
    "br_ok rd" "br_pending rd \<noteq> []" "d @ concat ds @ br_pending rd = enc_slice m"
  shows "tx_post (frag_loop (ls_prio L) config df i rd) \<sigma> (push_end L (pc_qos config) m F)"
  using assms
proof (induction "length (br_pending rd)" arbitrary: rd ds \<sigma> rule: less_induct)
  case less
  let ?q = "pc_qos config" and ?sn = "(sn_next ^^ length ds) (sn_next sn)"
  obtain pool P where ok: "push_ok L \<sigma> P None pool"
      and gen: "sn_gen (qos_congestion_control ?q) pool = (sn_next ^^ length ds) sn"
    using less.prems(1) by (auto simp: frags_sent_def)
  have sn: "next_seq_num (ls_prio L) config \<sigma> = Some (Inr ?sn, \<sigma>)"
    using next_seq_num_eq [OF ok, of config] gen by (simp add: funpow_swap1)
  have loop: "frag_loop (ls_prio L) config df i rd \<sigma>
      = tx_bind (more_fragment (ls_prio L) config df ?sn i rd) (frag_loop (ls_prio L) config df i) \<sigma>"
    using br_can_read [OF less.prems(6)] less.prems(7) sn
    by (subst frag_loop_step) (simp add: tx_bind_def split: option.splits)
  have "tx_post (tx_bind (more_fragment (ls_prio L) config df ?sn i rd) (frag_loop (ls_prio L) config df i)) \<sigma> (push_end L ?q m F)"
  proof (rule tx_post_bind, rule tx_post_mono [OF post_more_fragment [OF less.prems]])
    fix r \<sigma>' assume r: "frag_step L config m F sn i d ds rd r \<sigma>'"
    show "case r of Inl e \<Rightarrow> push_end L ?q m F (Inl e :: tx_fail + bool) \<sigma>' | Inr rd' \<Rightarrow> tx_post (frag_loop (ls_prio L) config df i rd') \<sigma>' (push_end L ?q m F)"
    proof (cases r)
      case (Inl e)
      then show ?thesis using r by (simp add: frag_step_def)
    next
      case (Inr rd')
      have rd': "br_ok rd'" "length (br_pending rd') < length (br_pending rd)"
        using r Inr by (simp_all add: frag_step_def)
      show ?thesis
      proof (cases "br_pending rd' = []")
        case True
        then show ?thesis
          using r Inr br_can_read [OF rd'(1)] by (simp add: frag_step_def tx_post_def frag_loop_step [of _ _ _ _ rd'])
      next
        case False
        then obtain x where "x @ br_pending rd' = br_pending rd" "frags_sent L config F sn i d (ds @ [x]) \<sigma>'"
          using r Inr by (auto simp: frag_step_def)
        then show ?thesis
          using less.hyps [OF rd'(2) _ less.prems(2-5) rd'(1) False, of "ds @ [x]" \<sigma>'] less.prems(8) Inr by simp
      qed
    qed
  qed
  then show ?case by (simp add: tx_post_def loop)
qed

text \<open>The first fragment of a message gets a drop flag and an identifier of its own.\<close>

lemma new_drop_flag_eq:
  assumes ok: "push_ok L \<sigma> F (Some b) pool" and b: "wb_buffer (ls_bsz L) b"
  shows "\<exists>df \<sigma>'. new_drop_flag (ls_prio L) \<sigma> = Some (Inr df, \<sigma>') \<and> push_ok L \<sigma>' F (Some (b\<lparr>wb_drop := Some df\<rparr>)) pool"
proof -
  define df where "df = length (tx_flags (ps_tx \<sigma>))"
  have flagged: "push_ok L (\<sigma>\<lparr>ps_tx := (ps_tx \<sigma>)\<lparr>tx_flags := tx_flags (ps_tx \<sigma>) @ [False]\<rparr>\<rparr>) F (Some b) pool"
    by (rule push_ok_frame [OF ok]) simp_all
  have "wb_buffer (ls_bsz L) (b\<lparr>wb_drop := Some df\<rparr>)" using b by (simp add: wb_buffer_def)
  then show ?thesis
    using on_batch_eq [where f = "\<lambda>b. (df, b\<lparr>wb_drop := Some df\<rparr>)" and r = df and b' = "b\<lparr>wb_drop := Some df\<rparr>", OF flagged]
    by (auto simp: new_drop_flag_def Let_def df_def tx_bind_def tx_ok_def)
qed

lemma new_frag_id_eq:
  assumes ok: "push_ok L \<sigma> F b pool"
  shows "\<exists>i \<sigma>' pool'. new_frag_id (ls_prio L) \<sigma> = Some (Inr i, \<sigma>') \<and> push_ok L \<sigma>' F b pool' \<and> sn_wf i"
proof -
  let ?f = "\<lambda>pool. pool\<lparr>sn_frag_id := sn_next (sn_frag_id pool)\<rparr>"
  have "pool_wf (?f pool)" "tx_pool (ls_prio L) (ps_tx \<sigma>) = pool" "sn_wf (sn_frag_id pool)"
    using ok by (simp_all add: push_ok_def pool_wf_def)
  moreover from this(2) have "set_pool (ls_prio L) (\<lambda>pool. pool\<lparr>sn_frag_id := sn_next (sn_frag_id (tx_pool (ls_prio L) (ps_tx \<sigma>)))\<rparr>) (ps_tx \<sigma>)
      = set_pool (ls_prio L) ?f (ps_tx \<sigma>)"
    by (simp add: set_pool_def tx_pool_def)
  ultimately show ?thesis
    using push_ok_pool [where f = ?f, OF ok] by (auto simp: new_frag_id_def)
qed

lemma post_push_fragments:
  assumes ok: "push_ok L \<sigma> F (Some b) pool" and b: "wb_open (ls_bsz L) b" "wb_payload b = []" "wb_qos b = pc_qos config"
    and room: "19 \<le> ls_bsz L" and q: "qos_priority (pc_qos config) = ls_prio L" and msg: "bytes_wf msg"
    and big: "ls_bsz L < w_len_message (frame_message (pc_qos config)
        (sn_next (sn_gen (qos_congestion_control (pc_qos config)) pool))) + length (enc_slice (bytes_content msg))"
  shows "tx_post (push_fragments (ls_prio L) msg config) \<sigma> (push_end L (pc_qos config) (bytes_content msg) F)"
proof -
  let ?p = "ls_prio L" and ?q = "pc_qos config" and ?m = "bytes_content msg"
  define sn where "sn = sn_next (sn_gen (qos_congestion_control ?q) pool)"
  have snwf: "sn_wf sn" using ok by (simp add: sn_def)
  obtain df \<sigma>1 where 1: "new_drop_flag ?p \<sigma> = Some (Inr df, \<sigma>1)" "push_ok L \<sigma>1 F (Some (b\<lparr>wb_drop := Some df\<rparr>)) pool"
    using new_drop_flag_eq [OF ok] b(1) by (auto simp: wb_open_def)
  obtain i \<sigma>2 pool2 where 2: "new_frag_id ?p \<sigma>1 = Some (Inr i, \<sigma>2)"
      "push_ok L \<sigma>2 F (Some (b\<lparr>wb_drop := Some df\<rparr>)) pool2" "sn_wf i"
    using new_frag_id_eq [OF 1(2)] by blast
  have b': "wb_open (ls_bsz L) (b\<lparr>wb_drop := Some df\<rparr>)" "wb_payload (b\<lparr>wb_drop := Some df\<rparr>) = []"
      "wb_qos (b\<lparr>wb_drop := Some df\<rparr>) = ?q"
    using b by (simp_all add: wb_open_def wb_buffer_def wb_payload_def)
  have "tx_post (tx_bind (first_fragment ?p msg config sn i) (frag_loop ?p config df i)) \<sigma>2 (push_end L ?q ?m F)"
    using post_frag_loop [OF _ snwf 2(3) room q]
    by (intro tx_post_bind tx_post_mono [OF post_first_fragment [OF 2(2) b' snwf 2(3) msg room big [folded sn_def], of ?m]])
      (fastforce split: sum.splits)
  then show ?thesis
    unfolding push_fragments_def
    by (intro tx_post_bind_det [where m = "next_seq_num _ _", OF next_seq_num_eq [OF ok]]
        tx_post_bind_det [where m = "new_drop_flag _", OF 1(1)] tx_post_bind_det [where m = "new_frag_id _", OF 2(1)])
      (simp add: sn_def)
qed

section \<open>A push\<close>

text \<open>The whole call inside the lock.\<close>

lemma post_stage_in_prio_push:
  assumes lane: "lane_log L \<sigma> F pool" and q: "qos_priority (pc_qos config) = ls_prio L" and room: "19 \<le> ls_bsz L"
    and msg: "bytes_wf msg" "bytes_len msg < 2 ^ 64"
  shows "tx_post (stage_in_prio_push (ls_prio L) msg config) \<sigma> (push_end L (pc_qos config) (bytes_content msg) F)"
proof -
  let ?p = "ls_prio L" and ?q = "pc_qos config" and ?m = "bytes_content msg"
  have fragments: "tx_post (push_fragments ?p msg config) \<sigma>1 (push_end L ?q ?m F)"
    if "\<exists>b'. push_ok L \<sigma>1 F (Some b') pool1 \<and> wb_open (ls_bsz L) b' \<and> wb_payload b' = [] \<and> wb_qos b' = ?q
        \<and> ls_bsz L < w_len_message (frame_message ?q (sn_next (sn_gen (qos_congestion_control ?q) pool1))) + length (enc_slice ?m)"
    for \<sigma>1 pool1
    using that post_push_fragments [OF _ _ _ _ room q msg(1)] by blast
  have frame: "tx_post (tx_bind (push_frame ?p msg config) (\<lambda>done2. case done2 of Some b \<Rightarrow> tx_ok b | None \<Rightarrow>
      push_fragments ?p msg config)) \<sigma>1 (push_end L ?q ?m F)"
    if b: "push_ok L \<sigma>1 F (Some b) pool1" "wb_open (ls_bsz L) b" "wb_payload b = []" "wb_qos b = ?q" for \<sigma>1 b pool1
    by (intro tx_post_bind tx_post_mono [OF post_push_frame [OF b msg]])
      (auto simp: fragments split: sum.splits option.splits)
  have append: "tx_post (tx_bind (push_append ?p msg config) (\<lambda>done1. case done1 of Some b \<Rightarrow> tx_ok b | None \<Rightarrow>
      tx_bind (push_frame ?p msg config) (\<lambda>done2. case done2 of Some b \<Rightarrow> tx_ok b | None \<Rightarrow>
      push_fragments ?p msg config))) \<sigma>1 (push_end L ?q ?m F)"
    if b: "push_ok L \<sigma>1 P (Some b) pool" "batch_state L P b F" "wb_payload b = [] \<Longrightarrow> wb_qos b = ?q" for \<sigma>1 b P
    by (intro tx_post_bind tx_post_mono [OF post_push_append [OF b(1,2) q b(3) msg]])
      (auto simp: step_end_def intro: frame split: sum.splits option.splits)
  obtain P b where *: "push_ok L \<sigma> P b pool" "b = None \<and> F = P \<or> (\<exists>b0 q sn ms. b = Some b0 \<and> wb_open (ls_bsz L) b0
      \<and> batch_holds b0 (PkFrame q sn ms) \<and> F = P @ [PkFrame q sn ms])"
    using lane unfolding lane_log_def by blast
  have *: "tx_post (batch_or_return ?p config None) \<sigma> (got_batch L config P b pool)"
      "b = None \<Longrightarrow> F = P" "\<And>b0. b = Some b0 \<Longrightarrow> batch_state L P b0 F \<and> wb_payload b0 \<noteq> []"
    using *(2) post_batch_or_return [OF *(1) q] by (auto simp: batch_state_def batch_holds_def enc_packet_ne [symmetric] simp del: enc_packet_ne)
  have "case r of Inl e \<Rightarrow> push_end L ?q ?m F (Inl e :: tx_fail + bool) \<sigma>1
      | Inr _ \<Rightarrow> \<exists>b1. push_ok L \<sigma>1 P (Some b1) pool \<and> batch_state L P b1 F \<and> (wb_payload b1 = [] \<longrightarrow> wb_qos b1 = ?q)"
    if "got_batch L config P b pool r \<sigma>1" for r :: "tx_fail + unit" and \<sigma>1
    using that *(2,3) unfolding got_batch_def
    by (fastforce simp: push_end_def lane_log_def pushed_or_broken_def batch_state_def
        intro: broken_none split: sum.splits option.splits)
  then show ?thesis
    unfolding stage_in_prio_push_def
    by (intro tx_post_bind tx_post_mono [OF *(1)]) (fastforce intro: append split: sum.splits)
qed


text \<open>Around the lock, which is free: tasks that push to the same lane come one after the other.\<close>

lemma lane_log_frame:
  assumes "lane_log L \<sigma> F pool" "tx_inout s' = tx_inout (ps_tx \<sigma>)" "tx_outrefill s' = tx_outrefill (ps_tx \<sigma>)"
    "tx_prio s' = tx_prio (ps_tx \<sigma>)"
  shows "lane_log L (\<sigma>\<lparr>ps_tx := s'\<rparr>) F pool"
  using assms(1) push_ok_frame [OF _ assms(2-4)] unfolding lane_log_def by blast

lemma lane_log_env:
  assumes "lane_log L \<sigma> F pool" "ps_tx \<sigma>' = ps_tx \<sigma>" "\<forall>g \<in> set (ps_env \<sigma>'). env_ok L g"
  shows "lane_log L \<sigma>' F pool"
  using assms unfolding lane_log_def push_ok_def by auto

lemma push_end_frame:
  assumes "push_end L q m F r \<sigma>" "tx_inout s' = tx_inout (ps_tx \<sigma>)" "tx_outrefill s' = tx_outrefill (ps_tx \<sigma>)"
    "tx_prio s' = tx_prio (ps_tx \<sigma>)"
  shows "push_end L q m F r (\<sigma>\<lparr>ps_tx := s'\<rparr>)"
  using assms(1) lane_log_frame [OF _ assms(2-4)] unfolding push_end_def by blast

lemma push_endI: "lane_log L \<sigma> F' pool \<Longrightarrow> pushed_or_broken q m F F' r \<Longrightarrow> push_end L q m F r \<sigma>"
  by (auto simp: push_end_def)

lemma push_end_notify:
  assumes "push_end L q m F (Inr x :: tx_fail + 'a) \<sigma>"
  shows "tx_post push_notify \<sigma> (push_end L q m F)"
proof -
  obtain F' pool where *: "lane_log L \<sigma> F' pool" "pushed q m F F'"
    using assms by (auto simp: push_end_def pushed_or_broken_def)
  show ?thesis
    using * by (auto simp: tx_post_def push_notify_def Let_def pushed_or_broken_def
        intro!: push_endI lane_log_frame [OF *(1)] split: if_splits prod.splits bool.splits)
qed

lemma post_stage_in_push:
  assumes lane: "lane_log L \<sigma> F pool" and q: "qos_priority (pc_qos config) = ls_prio L" and room: "19 \<le> ls_bsz L"
    and msg: "bytes_wf msg" "bytes_len msg < 2 ^ 64" and free: "\<not> tx_locked (ps_tx \<sigma>) (ls_prio L)"
  shows "tx_post (stage_in_push msg config) \<sigma> (push_end L (pc_qos config) (bytes_content msg) F)"
proof -
  let ?p = "ls_prio L" and ?q = "pc_qos config" and ?m = "bytes_content msg"
  let ?s = "(ps_tx \<sigma>)\<lparr>tx_locked := (tx_locked (ps_tx \<sigma>))(?p := True)\<rparr>"
  let ?inner = "\<lambda>\<sigma>. map_option (\<lambda>(r, \<sigma>'). (r, \<sigma>'\<lparr>ps_tx := unlock ?p (ps_tx \<sigma>')\<rparr>)) (stage_in_prio_push ?p msg config \<sigma>)"
  have lock: "lock_prio ?p config \<sigma> = Some (Inr (), \<sigma>\<lparr>ps_tx := ?s\<rparr>)"
    using free by (cases "ps_env \<sigma>") (simp_all add: lock_prio_def)
  have "lane_log L (\<sigma>\<lparr>ps_tx := ?s\<rparr>) F pool" by (rule lane_log_frame [OF lane]) simp_all
  from post_stage_in_prio_push [OF this q room msg]
  have inner: "tx_post ?inner (\<sigma>\<lparr>ps_tx := ?s\<rparr>) (push_end L ?q ?m F)"
    by (auto simp: tx_post_def unlock_def intro!: push_end_frame)
  have "tx_post (tx_bind ?inner (\<lambda>to_notify. if to_notify then push_notify else tx_ok ())) (\<sigma>\<lparr>ps_tx := ?s\<rparr>)
      (push_end L ?q ?m F)"
  proof (rule tx_post_bind, rule tx_post_mono [OF inner])
    fix r :: "tx_fail + bool" and \<sigma>1 assume r: "push_end L ?q ?m F r \<sigma>1"
    have "push_end L ?q ?m F (Inr () :: tx_fail + unit) \<sigma>1" if "r = Inr b" for b
      using r that by (auto simp: push_end_def pushed_or_broken_def)
    moreover have "push_end L ?q ?m F (Inl e :: tx_fail + unit) \<sigma>1" if "r = Inl e" for e
      using r that by (auto simp: push_end_def pushed_or_broken_def)
    ultimately show "case r of Inl e \<Rightarrow> push_end L ?q ?m F (Inl e :: tx_fail + unit) \<sigma>1
      | Inr b \<Rightarrow> tx_post (if b then push_notify else tx_ok ()) \<sigma>1 (push_end L ?q ?m F)"
      using r push_end_notify by (auto split: sum.splits)
  qed
  then show ?thesis
    unfolding stage_in_push_def Let_def q by (intro tx_post_bind_det [where m = "lock_prio _ _", OF lock])
qed

text \<open>The log of the lane of a pipeline that no push is at work on.\<close>

definition lane_at_rest :: "lane_spec \<Rightarrow> tx \<Rightarrow> packet list \<Rightarrow> bool" where
  "lane_at_rest L s F \<longleftrightarrow> (\<exists>pool. lane_log L \<lparr>ps_tx = s, ps_start = None, ps_env = []\<rparr> F pool)"

lemma tx_push_log:
  assumes run: "tx_push msg config env s = Some (r, s', env')"
    and lane: "lane_at_rest L s F" "\<forall>g \<in> set env. env_ok L g" "\<not> tx_locked s (ls_prio L)"
    and q: "qos_priority (pc_qos config) = ls_prio L" and room: "19 \<le> ls_bsz L"
    and msg: "bytes_wf msg" "bytes_len msg < 2 ^ 64"
  shows "\<exists>F'. lane_at_rest L s' F' \<and> pushed_or_broken (pc_qos config) (bytes_content msg) F F' r"
proof -
  let ?q = "pc_qos config" and ?m = "bytes_content msg" and ?\<sigma> = "\<lparr>ps_tx = s, ps_start = None, ps_env = env\<rparr>"
  obtain pool where pool: "lane_log L \<lparr>ps_tx = s, ps_start = None, ps_env = []\<rparr> F pool"
    using lane(1) by (auto simp: lane_at_rest_def)
  have l: "lane_log L ?\<sigma> F pool" using lane(2) by (intro lane_log_env [OF pool]) simp_all
  let ?fast = "qos_congestion_control ?q = Drop \<and> status_any (tx_status s) (status_congested (qos_priority ?q))"
  have "\<exists>\<sigma>'. stage_in_push msg config ?\<sigma> = Some (r, \<sigma>') \<and> tx_inout s' = tx_inout (ps_tx \<sigma>')
      \<and> tx_outrefill s' = tx_outrefill (ps_tx \<sigma>') \<and> tx_prio s' = tx_prio (ps_tx \<sigma>')" if "\<not> ?fast"
    using run unfolding tx_push_def Let_def if_not_P [OF that] by (cases r) (auto split: sum.splits if_splits)
  then consider "?fast" | \<sigma>' where "stage_in_push msg config ?\<sigma> = Some (r, \<sigma>')" "tx_inout s' = tx_inout (ps_tx \<sigma>')"
      "tx_outrefill s' = tx_outrefill (ps_tx \<sigma>')" "tx_prio s' = tx_prio (ps_tx \<sigma>')" by blast
  then show ?thesis
  proof cases
    case 1
    then have "r = Inl (Fail Dropped)" "s' = s" using run by (simp_all add: tx_push_def)
    then show ?thesis
      using lane(1) by (intro exI [of _ F]) (auto simp: pushed_or_broken_def congests_def intro: broken_none)
  next
    case 2
    have "push_end L ?q ?m F r \<sigma>'"
      using tx_postD [OF post_stage_in_push [OF l q room msg] 2(1)] lane(3) by simp
    then have "push_end L ?q ?m F r (\<sigma>'\<lparr>ps_tx := s'\<rparr>)" using 2(2-4) by (rule push_end_frame)
    then obtain F' pool' where F': "lane_log L (\<sigma>'\<lparr>ps_tx := s'\<rparr>) F' pool'" "pushed_or_broken ?q ?m F F' r"
      by (auto simp: push_end_def)
    have "lane_log L \<lparr>ps_tx = s', ps_start = None, ps_env = []\<rparr> F' pool'" by (rule lane_log_env [OF F'(1)]) simp_all
    then show ?thesis using F'(2) unfolding lane_at_rest_def by blast
  qed
qed

end
