(* ===== verification/Tx_Pull.thy ===== *)
theory Tx_Pull
  imports Tx_Fragments
begin

text \<open>
  The consumer's \<open>try_pull\<close>: it always returns, with a batch of the most urgent lane that has
  one (\<open>tx_try_pull_spec\<close>).  The batches that it drops on the way were marked by the
  congestion flags or by the drop flag of a message that was given up.
\<close>

section \<open>Pulling\<close>

lemma try_lanes_spec:
  assumes "tx_inv k cap bsz s Q B R held"
  shows "\<exists>rb. (case find (\<lambda>p. Q p \<noteq> [] \<or> B p \<noteq> None) ps of
      None \<Rightarrow> try_lanes ps s = (Inr Nothing, s\<lparr>tx_inout := rb\<rparr>) \<and> tx_inv k cap bsz (s\<lparr>tx_inout := rb\<rparr>) Q B R held
    | Some p \<Rightarrow> (case Q p of
        [] \<Rightarrow> try_lanes ps s = (Inr (AtBooked p), s\<lparr>tx_inout := rb\<rparr>) \<and> tx_inv k cap bsz (s\<lparr>tx_inout := rb\<rparr>) Q B R held
      | b # bs \<Rightarrow> try_lanes ps s = take_batch b (s\<lparr>tx_inout := rb\<rparr>)
          \<and> tx_inv k cap bsz (s\<lparr>tx_inout := rb\<rparr>) (Q(p := bs)) B R (held(p := Suc (held p)))))"
  using assms
proof (induction ps arbitrary: s)
  case Nil
  then show ?case by (intro exI [of _ "tx_inout s"]) simp
next
  case (Cons p ps)
  obtain rb where rb: "mpsc_pull_priority p (tx_inout s) = (Inr (abs_pull_priority p Q B), rb)"
      "tx_inv k cap bsz (s\<lparr>tx_inout := rb\<rparr>) (Q(p := tl (Q p))) B R (if Q p = [] then held else held(p := Suc (held p)))"
    using tx_inv_pull_priority [OF Cons.prems] by blast
  show ?case
  proof (cases "Q p = [] \<and> B p = None")
    case True
    then have "Q(p := tl (Q p)) = Q" by auto
    then have inv: "tx_inv k cap bsz (s\<lparr>tx_inout := rb\<rparr>) Q B R held" using rb(2) True by simp
    have "try_lanes (p # ps) s = try_lanes ps (s\<lparr>tx_inout := rb\<rparr>)"
      using rb(1) True by (simp add: abs_pull_priority_def)
    moreover have "find (\<lambda>p. Q p \<noteq> [] \<or> B p \<noteq> None) (p # ps) = find (\<lambda>p. Q p \<noteq> [] \<or> B p \<noteq> None) ps" using True by simp
    moreover have "s\<lparr>tx_inout := rb, tx_inout := rb'\<rparr> = s\<lparr>tx_inout := rb'\<rparr>" for rb' by simp
    ultimately show ?thesis using Cons.IH [OF inv] by (simp only:)
  next
    case False
    then show ?thesis
      using rb by (intro exI [of _ rb]) (cases "Q p", auto simp: abs_pull_priority_def fun_upd_idem)
  qed
qed

text \<open>What a pull leaves as it is, and when it drops nothing.\<close>

definition pull_frame :: "tx \<Rightarrow> tx \<Rightarrow> bool" where
  "pull_frame s s' \<longleftrightarrow> tx_prio s' = tx_prio s \<and> tx_locked s' = tx_locked s \<and> tx_flags s' = tx_flags s
     \<and> (status_any (tx_status s') STATUS_DISABLED \<longleftrightarrow> status_any (tx_status s) STATUS_DISABLED)
     \<and> (\<forall>p. status_any (tx_status s') (status_congested p) \<longrightarrow> status_any (tx_status s) (status_congested p))"

definition calm :: "tx \<Rightarrow> bool" where
  "calm s \<longleftrightarrow> (\<forall>p. \<not> status_any (tx_status s) (status_congested p))
     \<and> \<not> status_any (tx_status s) STATUS_DISABLED \<and> True \<notin> set (tx_flags s)"

lemma pull_frame_calm: "pull_frame s s' \<Longrightarrow> calm s \<Longrightarrow> calm s'"
  by (auto simp: pull_frame_def calm_def)

lemma pull_frame_trans: "pull_frame s s' \<Longrightarrow> pull_frame s' s'' \<Longrightarrow> pull_frame s s''"
  by (auto simp: pull_frame_def)

lemma status_unset_congested:
  "status_any (status_unset (status_congested p) v) STATUS_DISABLED \<longleftrightarrow> status_any v STATUS_DISABLED"
  "status_any (status_unset (status_congested p) v) (status_congested q) \<longleftrightarrow> q \<noteq> p \<and> status_any v (status_congested q)"
  using status_any_laws(2) [of "Congested p" v Disabled] status_any_laws(2) [of "Congested p" v "Congested q"] by simp_all

text \<open>A batch is handed out with its length written, or emptied and given back to its lane.\<close>

definition wb_framed :: "write_batch \<Rightarrow> bool" where
  "wb_framed b \<longleftrightarrow> bb_as_slice (wb_frame b) =
     u16_to_le_bytes (of_nat (length (wb_payload b))) @ drop BATCH_LEN (bb_as_slice (wb_frame b))"

lemma take_batch_spec:
  assumes inv: "tx_inv k cap bsz s Q B R held" and b: "wb_shape bsz p b" and h: "0 < held p"
  shows "\<exists>s'. pull_frame s s' \<and>
    ((\<exists>b'. take_batch b s = (Inr (Got b'), s') \<and> wb_shape bsz p b' \<and> wb_payload b' = wb_payload b \<and> wb_qos b' = wb_qos b
        \<and> wb_framed b' \<and> tx_inv k cap bsz s' Q B R held)
     \<or> (\<not> calm s \<and> (\<exists>b'. take_batch b s = (Inr Again, s') \<and> tx_inv k cap bsz s' Q B (R(p := R p @ [b'])) (held(p := held p - 1)))))"
proof -
  let ?cf = "status_congested (qos_priority (wb_qos b))"
  let ?s = "s\<lparr>tx_status := status_unset ?cf (tx_status s)\<rparr>"
  let ?drop = "status_any (tx_status s) ?cf \<and> qos_congestion_control (wb_qos b) = Drop \<or> flag_raised (wb_drop b) ?s"
  have fr: "pull_frame s ?s" by (simp add: pull_frame_def status_unset_congested)
  have inv': "tx_inv k cap bsz ?s Q B R held" by (rule tx_inv_frame [OF inv]) simp_all
  show ?thesis
  proof (cases ?drop)
    case True
    obtain b' s' where r: "stage_out_refill b ?s = (Inr (), s')"
        "tx_inv k cap bsz s' Q B (R(p := R p @ [b'])) (held(p := held p - 1))" "tx_status s' = tx_status ?s"
        "tx_flags s' = tx_flags ?s" "tx_prio s' = tx_prio ?s" "tx_locked s' = tx_locked ?s"
      using tx_inv_refill [OF inv' b h] by blast
    have "pull_frame s s'" using fr r(3-6) by (simp add: pull_frame_def)
    moreover have "\<not> calm s" using True nth_mem by (fastforce simp: calm_def flag_raised_def split: option.splits)
    moreover have "take_batch b s = (Inr Again, s')" using True r(1) by (auto simp: take_batch_def Let_def)
    ultimately show ?thesis using r(2) by blast
  next
    case False
    have buf: "wb_buffer bsz b" using b by (simp add: wb_shape_def)
    obtain b' where b': "wb_write_len b = Some b'" "wb_buffer bsz b'" "wb_qos b' = wb_qos b" "wb_payload b' = wb_payload b"
        "bb_as_slice (wb_frame b') = u16_to_le_bytes (wb_len b) @ drop BATCH_LEN (bb_as_slice (wb_frame b))"
      using wb_write_len_spec [OF buf] by blast
    have "wb_framed b'" using b'(4,5) wb_len_payload [OF buf] by (simp add: wb_framed_def)
    have "take_batch b s = (Inr (Got b'), ?s)" using False b'(1) by (auto simp: take_batch_def Let_def)
    then show ?thesis using fr inv' b' b \<open>wb_framed b'\<close> by (auto simp: wb_shape_def)
  qed
qed


text \<open>One turn of the loop over the lanes, by its result.\<close>

definition first_lane :: "priority \<Rightarrow> write_batch queues \<Rightarrow> (priority \<Rightarrow> write_batch option) \<Rightarrow> bool" where
  "first_lane p Q B \<longleftrightarrow> (Q p \<noteq> [] \<or> B p \<noteq> None) \<and> (\<forall>q. p < q \<longrightarrow> Q q = [] \<and> B q = None)"

definition lanes_left :: "nat \<Rightarrow> nat \<Rightarrow> nat \<Rightarrow> write_batch queues \<Rightarrow> (priority \<Rightarrow> write_batch option) \<Rightarrow>
    write_batch queues \<Rightarrow> (priority \<Rightarrow> nat) \<Rightarrow> tx \<Rightarrow> lane_result \<Rightarrow> tx \<Rightarrow> bool" where
  "lanes_left k cap bsz Q B R held s x s' \<longleftrightarrow> (case x of
      Nothing \<Rightarrow> Q = (\<lambda>_. []) \<and> B = (\<lambda>_. None) \<and> tx_inv k cap bsz s' Q B R held
    | AtBooked p \<Rightarrow> first_lane p Q B \<and> Q p = [] \<and> B p \<noteq> None \<and> tx_inv k cap bsz s' Q B R held
    | Again \<Rightarrow> \<not> calm s \<and> (\<exists>p b bs b'. Q p = b # bs \<and> tx_inv k cap bsz s' (Q(p := bs)) B (R(p := R p @ [b'])) held)
    | Got b' \<Rightarrow> (\<exists>p b bs. first_lane p Q B \<and> Q p = b # bs \<and> wb_payload b' = wb_payload b \<and> wb_qos b' = wb_qos b
        \<and> wb_framed b' \<and> wb_shape bsz p b' \<and> tx_inv k cap bsz s' (Q(p := bs)) B R (held(p := Suc (held p)))))"

lemma try_lanes_outcome:
  assumes inv: "tx_inv k cap bsz s Q B R held"
  shows "\<exists>x s'. try_lanes PRIO_ALL s = (Inr x, s') \<and> pull_frame s s' \<and> tx_can_pull s' = tx_can_pull s
    \<and> lanes_left k cap bsz Q B R held s x s'"
proof -
  define P where "P = (\<lambda>p. Q p \<noteq> [] \<or> B p \<noteq> None)"
  obtain rb where rb: "case find P PRIO_ALL of
      None \<Rightarrow> try_lanes PRIO_ALL s = (Inr Nothing, s\<lparr>tx_inout := rb\<rparr>) \<and> tx_inv k cap bsz (s\<lparr>tx_inout := rb\<rparr>) Q B R held
    | Some p \<Rightarrow> (case Q p of
        [] \<Rightarrow> try_lanes PRIO_ALL s = (Inr (AtBooked p), s\<lparr>tx_inout := rb\<rparr>) \<and> tx_inv k cap bsz (s\<lparr>tx_inout := rb\<rparr>) Q B R held
      | b # bs \<Rightarrow> try_lanes PRIO_ALL s = take_batch b (s\<lparr>tx_inout := rb\<rparr>)
          \<and> tx_inv k cap bsz (s\<lparr>tx_inout := rb\<rparr>) (Q(p := bs)) B R (held(p := Suc (held p))))"
    using try_lanes_spec [OF inv, of PRIO_ALL] unfolding P_def by blast
  let ?s = "s\<lparr>tx_inout := rb\<rparr>"
  have fr: "pull_frame s ?s" "calm ?s = calm s" by (simp_all add: pull_frame_def calm_def)
  show ?thesis
  proof (cases "find P PRIO_ALL")
    case None
    then have "Q = (\<lambda>_. [])" "B = (\<lambda>_. None)" using find_PRIO_ALL_None [of P] by (auto simp: P_def)
    then show ?thesis using rb None fr by (intro exI [of _ Nothing] exI [of _ ?s]) (simp add: lanes_left_def)
  next
    case p: (Some p)
    then have urgent: "\<forall>q. p < q \<longrightarrow> Q q = [] \<and> B q = None" and P: "P p"
      using find_PRIO_ALL [of P p] by (auto simp: P_def)
    show ?thesis
    proof (cases "Q p")
      case Nil
      then show ?thesis using rb p P fr urgent by (intro exI [of _ "AtBooked p"] exI [of _ ?s]) (simp add: P_def lanes_left_def first_lane_def)
    next
      case (Cons b bs)
      have tl: "try_lanes PRIO_ALL s = take_batch b ?s"
          "tx_inv k cap bsz ?s (Q(p := bs)) B R (held(p := Suc (held p)))"
        using rb p Cons by simp_all
      have b: "wb_shape bsz p b" using inv Cons by (simp add: tx_inv_def)
      have ev: "tx_can_pull (snd (take_batch b ?s)) = tx_can_pull s"
        by (auto simp: take_batch_def stage_out_refill_def Let_def split: option.splits prod.splits sum.splits)
      obtain s' where fr': "pull_frame ?s s'" and r: "(\<exists>b'. take_batch b ?s = (Inr (Got b'), s') \<and> wb_shape bsz p b'
          \<and> wb_payload b' = wb_payload b \<and> wb_qos b' = wb_qos b \<and> wb_framed b' \<and> tx_inv k cap bsz s' (Q(p := bs)) B R (held(p := Suc (held p))))
        \<or> (\<not> calm ?s \<and> (\<exists>b'. take_batch b ?s = (Inr Again, s')
            \<and> tx_inv k cap bsz s' (Q(p := bs)) B (R(p := R p @ [b'])) held))"
        using take_batch_spec [OF tl(2) b] by auto
      have frs: "pull_frame s s'" by (rule pull_frame_trans [OF fr(1) fr'])
      from r show ?thesis
      proof (elim disjE exE conjE)
        fix b' assume "take_batch b ?s = (Inr (Got b'), s')" "wb_shape bsz p b'" "wb_payload b' = wb_payload b"
          "wb_qos b' = wb_qos b" "wb_framed b'" "tx_inv k cap bsz s' (Q(p := bs)) B R (held(p := Suc (held p)))"
        moreover from this have "lanes_left k cap bsz Q B R held s (Got b') s'"
          unfolding lanes_left_def lane_result.case first_lane_def using Cons urgent
          by (intro exI [of _ p] exI [of _ b] exI [of _ bs]) simp
        ultimately show ?thesis using tl(1) frs ev by (intro exI [of _ "Got b'"] exI [of _ s']) auto
      next
        fix b' assume "\<not> calm ?s" "take_batch b ?s = (Inr Again, s')"
          "tx_inv k cap bsz s' (Q(p := bs)) B (R(p := R p @ [b'])) held"
        then show ?thesis using tl(1) frs ev Cons fr(2)
          by (intro exI [of _ Again] exI [of _ s']) (auto simp: lanes_left_def)
      qed
    qed
  qed
qed

text \<open>The batches that a pull hands out, by lane; one that was dropped went back to its lane.\<close>

definition handed :: "nat \<Rightarrow> write_batch option \<Rightarrow> write_batch queues \<Rightarrow> bool" where
  "handed bsz r got \<longleftrightarrow> (case r of None \<Rightarrow> got = (\<lambda>_. [])
     | Some b \<Rightarrow> wb_buffer bsz b \<and> wb_framed b \<and> (\<exists>b0. wb_payload b = wb_payload b0 \<and> wb_qos b = wb_qos b0
         \<and> got = (\<lambda>_. [])(qos_priority (wb_qos b) := [b0])))"

lemma tx_try_pull_spec:
  assumes "tx_inv k cap bsz s Q B R held"
  shows "\<exists>r s' dropped got Q' R'. tx_try_pull s = Some (Inr r, s') \<and> pull_frame s s'
    \<and> tx_inv k cap bsz s' Q' B R' (\<lambda>p. held p + length (got p)) \<and> handed bsz r got
    \<and> Q = (\<lambda>p. dropped p @ got p @ Q' p) \<and> (calm s \<longrightarrow> dropped = (\<lambda>_. []))
    \<and> (\<forall>b q. r = Some b \<longrightarrow> qos_priority (wb_qos b) < q \<longrightarrow> Q' q = [] \<and> B q = None)
    \<and> (r = None \<longrightarrow> status_any (tx_status s) STATUS_DISABLED \<or> (\<exists>p. B p \<noteq> None) \<or> Q' = (\<lambda>_. []))"
  using assms
proof (induction "total Q" arbitrary: s Q R held rule: less_induct)
  case less
  note inv = less.prems
  show ?case
  proof (cases "status_any (tx_status s) STATUS_DISABLED")
    case True
    then have "tx_try_pull s = Some (Inr None, s)" by (subst tx_try_pull.simps) simp
    then show ?thesis
      using inv True by (intro exI [of _ None] exI [of _ s] exI [of _ "\<lambda>_. []"] exI [of _ Q] exI [of _ R])
        (simp add: pull_frame_def handed_def)
  next
    case on: False
    obtain x s' where x: "try_lanes PRIO_ALL s = (Inr x, s')" and fr: "pull_frame s s'"
        and out: "lanes_left k cap bsz Q B R held s x s'"
      using try_lanes_outcome [OF inv] by blast
    have stop: ?thesis if "tx_try_pull s = Some (Inr None, s')" "(\<exists>p. B p \<noteq> None) \<or> Q = (\<lambda>_. [])" "tx_inv k cap bsz s' Q B R held"
      using that fr by (intro exI [of _ None] exI [of _ s'] exI [of _ "\<lambda>_. []"] exI [of _ Q] exI [of _ R]) (auto simp: handed_def)
    show ?thesis
    proof (cases x)
      case Nothing
      then have t: "tx_try_pull s = Some (Inr None, s')" using x on by (subst tx_try_pull.simps) simp
      have "Q = (\<lambda>_. []) \<and> tx_inv k cap bsz s' Q B R held" using out unfolding lanes_left_def Nothing lane_result.case by blast
      then show ?thesis using stop [OF t] by blast
    next
      case (AtBooked p)
      then have t: "tx_try_pull s = Some (Inr None, s')" using x on by (subst tx_try_pull.simps) simp
      show ?thesis by (rule stop [OF t]) (use out AtBooked in \<open>auto simp: lanes_left_def\<close>)
    next
      case (Got b')
      then obtain p b bs where g: "Q p = b # bs" "wb_payload b' = wb_payload b" "wb_qos b' = wb_qos b" "wb_framed b'"
          "wb_shape bsz p b'" "tx_inv k cap bsz s' (Q(p := bs)) B R (held(p := Suc (held p)))"
          "\<forall>q. p < q \<longrightarrow> Q q = [] \<and> B q = None"
        using out by (auto simp: lanes_left_def first_lane_def)
      let ?got = "(\<lambda>_. [])(p := [b])"
      have prio: "qos_priority (wb_qos b') = p" "wb_buffer bsz b'" using g(5) by (simp_all add: wb_shape_def)
      have "tx_try_pull s = Some (Inr (Some b'), s')" using on x Got by (subst tx_try_pull.simps) simp
      moreover have "handed bsz (Some b') ?got" using g(2-4) prio by (auto simp: handed_def)
      moreover have "held(p := Suc (held p)) = (\<lambda>q. held q + length (?got q))" by auto
      moreover have "Q = (\<lambda>q. [] @ ?got q @ (Q(p := bs)) q)" using g(1) by auto
      ultimately show ?thesis
        using fr g(6,7) prio(1)
        by (intro exI [of _ "Some b'"] exI [of _ s'] exI [of _ "\<lambda>_. []"] exI [of _ ?got] exI [of _ "Q(p := bs)"] exI [of _ R]) auto
    next
      case Again
      then obtain p b bs b' where g: "\<not> calm s" "Q p = b # bs" "tx_inv k cap bsz s' (Q(p := bs)) B (R(p := R p @ [b'])) held"
        using out by (auto simp: lanes_left_def)
      obtain r s'' dropped got Q' R' where ih: "tx_try_pull s' = Some (Inr r, s'')" "pull_frame s' s''"
          "tx_inv k cap bsz s'' Q' B R' (\<lambda>p. held p + length (got p))" "handed bsz r got"
          "Q(p := bs) = (\<lambda>p. dropped p @ got p @ Q' p)"
          "\<forall>b q. r = Some b \<longrightarrow> qos_priority (wb_qos b) < q \<longrightarrow> Q' q = [] \<and> B q = None"
          "r = None \<longrightarrow> status_any (tx_status s') STATUS_DISABLED \<or> (\<exists>p. B p \<noteq> None) \<or> Q' = (\<lambda>_. [])"
        using less.hyps [OF total_less [of Q, OF g(2)] g(3)] by (elim exE conjE) (rule that)
      have "tx_try_pull s = tx_try_pull s'" using on x Again by (subst tx_try_pull.simps) simp
      moreover have "Q = (\<lambda>q. (dropped(p := b # dropped p)) q @ got q @ Q' q)"
      proof
        fix q show "Q q = (dropped(p := b # dropped p)) q @ got q @ Q' q"
          using fun_cong [OF ih(5), of q] g(2) by (auto split: if_splits)
      qed
      moreover have "status_any (tx_status s') STATUS_DISABLED = status_any (tx_status s) STATUS_DISABLED"
        using fr by (simp add: pull_frame_def)
      ultimately show ?thesis
        using ih pull_frame_trans [OF fr ih(2)] g(1)
        by (intro exI [of _ r] exI [of _ s''] exI [of _ "dropped(p := b # dropped p)"] exI [of _ got] exI [of _ Q'] exI [of _ R'])
          simp
    qed
  qed
qed

end
