(* ===== verification/Tx_System.thy ===== *)
theory Tx_System
  imports Tx_Pull "HOL-Library.Sublist"
begin

text \<open>
  The transmission pipeline as a whole: runs of pushes, pulls, flushes and refills in any
  order, with the messages that were accepted and the batches that were handed out, and the
  invariant that ties the two.  The operations of a run follow one another; a push that
  waits while others act is the subject of \<open>Tx_Fragments\<close>.
\<close>

section \<open>Pushing does not disturb\<close>

text \<open>A push leaves the locks as it found them, and raises a flag only when it fails.\<close>

definition quiet :: "'a tx_op \<Rightarrow> bool" where
  "quiet m \<longleftrightarrow> (\<forall>\<sigma> r \<sigma>'. m \<sigma> = Some (r, \<sigma>') \<longrightarrow> ps_env \<sigma> = [] \<longrightarrow>
     ps_env \<sigma>' = [] \<and> tx_locked (ps_tx \<sigma>') = tx_locked (ps_tx \<sigma>)
     \<and> ((\<exists>x. r = Inr x) \<longrightarrow> calm (ps_tx \<sigma>) \<longrightarrow> calm (ps_tx \<sigma>')))"

named_theorems quiet_intros

lemma quietI:
  "(\<And>\<sigma> r \<sigma>'. m \<sigma> = Some (r, \<sigma>') \<Longrightarrow> ps_env \<sigma> = [] \<Longrightarrow> ps_env \<sigma>' = [] \<and> tx_locked (ps_tx \<sigma>') = tx_locked (ps_tx \<sigma>)
     \<and> ((\<exists>x. r = Inr x) \<longrightarrow> calm (ps_tx \<sigma>) \<longrightarrow> calm (ps_tx \<sigma>'))) \<Longrightarrow> quiet m"
  by (simp add: quiet_def)

lemma quietD:
  "quiet m \<Longrightarrow> m \<sigma> = Some (r, \<sigma>') \<Longrightarrow> ps_env \<sigma> = [] \<Longrightarrow> ps_env \<sigma>' = [] \<and> tx_locked (ps_tx \<sigma>') = tx_locked (ps_tx \<sigma>)
     \<and> ((\<exists>x. r = Inr x) \<longrightarrow> calm (ps_tx \<sigma>) \<longrightarrow> calm (ps_tx \<sigma>'))"
  by (simp add: quiet_def)

lemma quiet_bind [quiet_intros]: "quiet m \<Longrightarrow> (\<And>x. quiet (f x)) \<Longrightarrow> quiet (tx_bind m f)"
proof (rule quietI)
  fix \<sigma> r \<sigma>' assume m: "quiet m" and f: "\<And>x. quiet (f x)" and b: "tx_bind m f \<sigma> = Some (r, \<sigma>')" and e: "ps_env \<sigma> = []"
  from b obtain y \<sigma>1 where y: "m \<sigma> = Some (y, \<sigma>1)" by (auto simp: tx_bind_def bind_eq_Some_conv)
  show "ps_env \<sigma>' = [] \<and> tx_locked (ps_tx \<sigma>') = tx_locked (ps_tx \<sigma>)
      \<and> ((\<exists>x. r = Inr x) \<longrightarrow> calm (ps_tx \<sigma>) \<longrightarrow> calm (ps_tx \<sigma>'))"
  proof (cases y)
    case (Inl a)
    then show ?thesis using b y quietD [OF m y e] by (auto simp: tx_bind_def)
  next
    case (Inr x)
    then have "f x \<sigma>1 = Some (r, \<sigma>')" using b y by (simp add: tx_bind_def)
    then show ?thesis using quietD [OF m y e] quietD [OF f] Inr by metis
  qed
qed

lemma quiet_ok [quiet_intros]: "quiet (tx_ok x)" and quiet_err [quiet_intros]: "quiet (tx_err e)"
  by (simp_all add: quiet_def tx_ok_def tx_err_def)

lemma quiet_if [quiet_intros]: "quiet m \<Longrightarrow> quiet n \<Longrightarrow> quiet (if b then m else n)"
  by simp

lemma calm_upd [simp]:
  "calm (s\<lparr>tx_inout := rb\<rparr>) = calm s" "calm (s\<lparr>tx_backoff := ba\<rparr>) = calm s" "calm (s\<lparr>tx_can_pull := f\<rparr>) = calm s"
  "calm (s\<lparr>tx_can_refill := g\<rparr>) = calm s" "calm (s\<lparr>tx_prio := pr\<rparr>) = calm s" "calm (s\<lparr>tx_outrefill := ri\<rparr>) = calm s"
  "calm (s\<lparr>tx_locked := l\<rparr>) = calm s" "calm (s\<lparr>tx_clock := c\<rparr>) = calm s"
  by (simp_all add: calm_def)

lemma calm_unset_flush: "calm s \<Longrightarrow> calm (s\<lparr>tx_status := status_unset (status_flush p) (tx_status s)\<rparr>)"
  using status_any_laws(2) [of "Flush p" "tx_status s" Disabled] status_any_laws(2) [of "Flush p" "tx_status s" "Congested _"]
  by (simp add: calm_def)

lemma quiet_modify [quiet_intros]:
  "(\<And>s. tx_locked (f s) = tx_locked s \<and> (calm s \<longrightarrow> calm (f s))) \<Longrightarrow> quiet (tx_modify f)"
  by (simp add: quiet_def tx_modify_def)

lemma quiet_on_batch [quiet_intros]: "quiet (on_batch p f)"
  by (rule quietI) (auto simp: on_batch_def split: sum.splits ring_ub.splits prod.splits)

lemma quiet_the_batch [quiet_intros]: "quiet (the_batch p)"
  by (rule quietI) (auto simp: the_batch_def split: sum.splits ring_ub.splits)

lemma stage_refill_pull_quiet:
  "stage_refill_pull p s = (r, s') \<Longrightarrow> tx_locked s' = tx_locked s \<and> calm s' = calm s"
  by (auto simp: stage_refill_pull_def set_refill_def Let_def split: prod.splits sum.splits option.splits ring_ub.splits)

lemma wait_refill_quiet:
  "wait_refill p d [] s = Some (w, s', env') \<Longrightarrow> env' = [] \<and> tx_locked s' = tx_locked s \<and> calm s' = calm s"
  by (auto split: prod.splits event_check.splits if_splits)

lemma quiet_batch_or_return [quiet_intros]: "quiet (batch_or_return p config df)"
proof (rule quietI)
  fix \<sigma> r \<sigma>' assume "batch_or_return p config df \<sigma> = Some (r, \<sigma>')" "ps_env \<sigma> = []"
  then show "ps_env \<sigma>' = [] \<and> tx_locked (ps_tx \<sigma>') = tx_locked (ps_tx \<sigma>)
      \<and> ((\<exists>x. r = Inr x) \<longrightarrow> calm (ps_tx \<sigma>) \<longrightarrow> calm (ps_tx \<sigma>'))"
  proof (induction p config df \<sigma> rule: batch_or_return.induct)
    case (1 p config df \<sigma>)
    let ?s = "ps_tx \<sigma>"
    note ih = "1.IH" and env = "1.prems"(2)
    have run: "batch_or_return p config df \<sigma> = Some (r, \<sigma>')" by (rule "1.prems")
    show ?case
    proof (cases "mpsc_peek p (tx_inout ?s)")
      case True
      then show ?thesis using run env by (subst (asm) batch_or_return.simps) simp
    next
      case False
      obtain z s where z: "stage_refill_pull p ?s = (z, s)" by force
      have s: "tx_locked s = tx_locked ?s" "calm s = calm ?s" using stage_refill_pull_quiet [OF z] by simp_all
      show ?thesis
      proof (cases z)
        case (Inl e)
        then show ?thesis using run env False z s by (subst (asm) batch_or_return.simps) auto
      next
        case (Inr ob)
        show ?thesis
        proof (cases ob)
          case (Some batch)
          then show ?thesis
            using run env False z s Inr
            by (subst (asm) batch_or_return.simps) (auto simp: Let_def split: prod.splits sum.splits)
        next
          case None
          define start where "start = (case ps_start \<sigma> of Some t \<Rightarrow> t | None \<Rightarrow> tx_clock s)"
          define \<sigma>1 where "\<sigma>1 = \<sigma>\<lparr>ps_tx := s, ps_start := Some start\<rparr>"
          note unfold = batch_or_return.simps [of p config df \<sigma>] if_not_P [OF False] z Inr None prod.case sum.case option.case
            Let_def start_def [symmetric] \<sigma>1_def [symmetric]
          have fl: "tx_locked (set_congested df x) = tx_locked x" for x by (simp add: set_congested_def split: option.splits)
          show ?thesis
          proof (cases "Option.bind (checked_sub (tx_clock s) start) (checked_sub (pc_timeout config))")
            case n: None
            then show ?thesis using run env s fl unfolding unfold n option.case by (auto simp: \<sigma>1_def)
          next
            case left: (Some left)
            show ?thesis
            proof (cases "wait_refill p (tx_clock s + min left (pc_timeout_batch config)) (ps_env \<sigma>1) s")
              case n: None
              then show ?thesis using run unfolding unfold left n option.case by simp
            next
              case w: (Some y)
              obtain we s2 env2 where y: "y = (we, s2, env2)" by (cases y)
              have env1: "ps_env \<sigma>1 = []" using env by (simp add: \<sigma>1_def)
              have q: "env2 = []" "tx_locked s2 = tx_locked ?s" "calm s2 = calm ?s"
                using wait_refill_quiet w y env1 s by metis+
              show ?thesis
              proof (cases we)
                case WaitOk
                have "batch_or_return p config df \<sigma> = batch_or_return p config df (\<sigma>1\<lparr>ps_tx := s2, ps_env := env2\<rparr>)"
                  by (simp only: unfold left w y WaitOk option.case wait_end.case prod.case)
                then have r2: "batch_or_return p config df (\<sigma>1\<lparr>ps_tx := s2, ps_env := env2\<rparr>) = Some (r, \<sigma>')" using run by simp
                show ?thesis
                  using ih [OF False z [symmetric] Inr None start_def \<sigma>1_def left w y [symmetric] WaitOk refl r2] q by simp
              next
                case WaitGone
                then show ?thesis using run q fl unfolding unfold left w y option.case prod.case wait_end.case by auto
              next
                case WaitElapsed
                then show ?thesis using run q fl unfolding unfold left w y option.case prod.case wait_end.case by auto
              qed
            qed
          qed
        qed
      qed
    qed
  qed
qed


lemma quiet_notify [quiet_intros]: "quiet push_notify" and quiet_flush [quiet_intros]: "quiet (push_flush p)"
  by (rule quietI; auto simp: push_notify_def push_flush_def Let_def calm_unset_flush split: if_splits prod.splits bool.splits)+

lemma quiet_new_drop_flag [quiet_intros]: "quiet (new_drop_flag p)"
proof (rule quietI)
  fix \<sigma> r \<sigma>' assume n: "new_drop_flag p \<sigma> = Some (r, \<sigma>')" and e: "ps_env \<sigma> = []"
  let ?\<sigma> = "\<sigma>\<lparr>ps_tx := (ps_tx \<sigma>)\<lparr>tx_flags := tx_flags (ps_tx \<sigma>) @ [False]\<rparr>\<rparr>"
  have "quiet (tx_bind (on_batch p (\<lambda>b. (length (tx_flags (ps_tx \<sigma>)), b\<lparr>wb_drop := Some (length (tx_flags (ps_tx \<sigma>)))\<rparr>))) tx_ok)"
    by (intro quiet_intros)
  moreover have "calm (ps_tx ?\<sigma>) = calm (ps_tx \<sigma>)" by (simp add: calm_def)
  ultimately show "ps_env \<sigma>' = [] \<and> tx_locked (ps_tx \<sigma>') = tx_locked (ps_tx \<sigma>)
      \<and> ((\<exists>x. r = Inr x) \<longrightarrow> calm (ps_tx \<sigma>) \<longrightarrow> calm (ps_tx \<sigma>'))"
    using n e quietD [of _ ?\<sigma> r \<sigma>'] by (simp add: new_drop_flag_def Let_def)
qed

lemma set_pool_quiet: "tx_locked (set_pool p f s) = tx_locked s \<and> (calm s \<longrightarrow> calm (set_pool p f s))"
  by (simp add: set_pool_def)

lemma quiet_new_frag_id [quiet_intros]: "quiet (new_frag_id p)"
  by (rule quietI) (auto simp: new_frag_id_def set_pool_quiet split: prod.splits)

lemma quiet_next_seq_num [quiet_intros]: "quiet (next_seq_num p config)"
  by (rule quietI) (auto simp: next_seq_num_def tx_ok_def)

lemma quiet_must_write [quiet_intros]: "quiet (must_write p e m)"
  unfolding must_write_def by (intro quiet_intros) (auto intro: quiet_intros split: sum.splits)

lemma quiet_must_read [quiet_intros]: "quiet (must_read p e n rd)"
  unfolding must_read_def by (auto intro!: quiet_intros split: prod.splits sum.splits read_err.splits)

lemma quiet_move_batch [quiet_intros]: "quiet (move_batch p)" and quiet_return_notify [quiet_intros]: "quiet (return_notify p x)"
  unfolding return_notify_def move_batch_def note_length_def by (intro quiet_intros; simp)+

lemma quiet_send_batch [quiet_intros]: "quiet (send_batch p config sn)"
  unfolding send_batch_def by (intro quiet_intros set_pool_quiet)

lemma quiet_push_append [quiet_intros]: "quiet (push_append p msg config)"
  unfolding push_append_def Let_def by (intro quiet_intros)

lemma quiet_push_frame [quiet_intros]: "quiet (push_frame p msg config)"
proof (rule quietI)
  fix \<sigma> r \<sigma>' assume n: "push_frame p msg config \<sigma> = Some (r, \<sigma>')" and e: "ps_env \<sigma> = []"
  let ?cc = "qos_congestion_control (pc_qos config)"
  let ?sn = "sn_next (sn_gen ?cc (tx_pool p (ps_tx \<sigma>)))"
  let ?t = "message_new (message_header_new (pc_qos config) ?sn) (Frame frame_new)"
  have "quiet (tx_bind (on_batch p (try_in_frame (andthen (write_message bb_ops ?t) (\<lambda>_. write_bytes bb_ops msg))))
      (\<lambda>fits. if fits then tx_bind (tx_modify (set_pool p (sn_gen_set ?cc ?sn)))
          (\<lambda>_. tx_bind (return_notify p (qos_express (pc_qos config))) (\<lambda>b. tx_ok (Some b)))
        else tx_ok None))"
    by (intro quiet_intros set_pool_quiet)
  then show "ps_env \<sigma>' = [] \<and> tx_locked (ps_tx \<sigma>') = tx_locked (ps_tx \<sigma>)
      \<and> ((\<exists>x. r = Inr x) \<longrightarrow> calm (ps_tx \<sigma>) \<longrightarrow> calm (ps_tx \<sigma>'))"
    using n e unfolding push_frame_def Let_def by (rule quietD)
qed

lemma quiet_frag_loop [quiet_intros]: "quiet (frag_loop p config df i rd)"
proof (rule quietI)
  have more: "quiet (tx_bind (next_seq_num p config) (\<lambda>sn. more_fragment p config df sn i rd))" for p config df i rd
    unfolding more_fragment_def Let_def by (intro quiet_intros)
  let ?P = "\<lambda>p config df i rd \<sigma> y. ps_env \<sigma> = [] \<longrightarrow> (case y of (r, \<sigma>') \<Rightarrow>
      ps_env \<sigma>' = [] \<and> tx_locked (ps_tx \<sigma>') = tx_locked (ps_tx \<sigma>)
      \<and> ((\<exists>x. r = Inr x) \<longrightarrow> calm (ps_tx \<sigma>) \<longrightarrow> calm (ps_tx \<sigma>')))"
  have "?P p config df i rd \<sigma> y" if "frag_loop p config df i rd \<sigma> = Some y" for \<sigma> y
  proof (rule frag_loop.raw_induct [of ?P, OF _ that], intro impI)
    fix loop p config df i rd \<sigma> z
    assume ih: "\<And>p config df i rd \<sigma> y. loop p config df i rd \<sigma> = Some y \<Longrightarrow> ?P p config df i rd \<sigma> y"
      and step: "(if can_read br_ops rd
        then Option.bind (tx_bind (next_seq_num p config) (\<lambda>sn. more_fragment p config df sn i rd) \<sigma>)
             (\<lambda>(r, \<sigma>'). case r of Inl e \<Rightarrow> Some (Inl e, \<sigma>') | Inr rd' \<Rightarrow> loop p config df i rd' \<sigma>')
        else Some (Inr False, \<sigma>)) = Some z" and e: "ps_env \<sigma> = []"
    show "case z of (r, \<sigma>') \<Rightarrow> ps_env \<sigma>' = [] \<and> tx_locked (ps_tx \<sigma>') = tx_locked (ps_tx \<sigma>)
      \<and> ((\<exists>x. r = Inr x) \<longrightarrow> calm (ps_tx \<sigma>) \<longrightarrow> calm (ps_tx \<sigma>'))"
    proof (cases "can_read br_ops rd")
      case True
      let ?m = "tx_bind (next_seq_num p config) (\<lambda>sn. more_fragment p config df sn i rd)"
      obtain y \<sigma>1 where y: "?m \<sigma> = Some (y, \<sigma>1)" using step True by (auto simp: bind_eq_Some_conv)
      show ?thesis
      proof (cases y)
        case (Inl a)
        then show ?thesis using step True y quietD [OF more y e] by auto
      next
        case (Inr rd')
        then have "loop p config df i rd' \<sigma>1 = Some z" using step True y by simp
        from ih [OF this] show ?thesis using quietD [OF more y e] Inr by (auto split: prod.splits)
      qed
    next
      case False
      then show ?thesis using step e by auto
    qed
  qed
  then show "ps_env \<sigma>' = [] \<and> tx_locked (ps_tx \<sigma>') = tx_locked (ps_tx \<sigma>)
      \<and> ((\<exists>x. r = Inr x) \<longrightarrow> calm (ps_tx \<sigma>) \<longrightarrow> calm (ps_tx \<sigma>'))"
    if "frag_loop p config df i rd \<sigma> = Some (r, \<sigma>')" "ps_env \<sigma> = []" for \<sigma> r \<sigma>'
    using that by blast
qed

lemma quiet_push_fragments [quiet_intros]: "quiet (push_fragments p msg config)"
  unfolding push_fragments_def first_fragment_def by (intro quiet_intros)

lemma quiet_stage_in_prio_push: "quiet (stage_in_prio_push p msg config)"
  unfolding stage_in_prio_push_def by (intro quiet_intros; simp split: option.splits; intro allI impI conjI quiet_intros;
      simp split: option.splits; intro allI impI conjI quiet_intros)


lemma stage_in_push_quiet:
  assumes "stage_in_push msg config \<sigma> = Some (r, \<sigma>')" "ps_env \<sigma> = []"
    "\<not> tx_locked (ps_tx \<sigma>) (qos_priority (pc_qos config))"
  shows "ps_env \<sigma>' = [] \<and> tx_locked (ps_tx \<sigma>') = tx_locked (ps_tx \<sigma>)
    \<and> ((\<exists>x. r = Inr x) \<longrightarrow> calm (ps_tx \<sigma>) \<longrightarrow> calm (ps_tx \<sigma>'))"
proof -
  let ?p = "qos_priority (pc_qos config)"
  let ?\<sigma> = "\<sigma>\<lparr>ps_tx := (ps_tx \<sigma>)\<lparr>tx_locked := (tx_locked (ps_tx \<sigma>))(?p := True)\<rparr>, ps_env := []\<rparr>"
  have lock: "lock_prio ?p config \<sigma> = Some (Inr (), ?\<sigma>)" using assms(2,3) by (simp add: lock_prio_def)
  obtain r1 \<sigma>1 where 1: "stage_in_prio_push ?p msg config ?\<sigma> = Some (r1, \<sigma>1)"
    using assms(1) lock by (auto simp: stage_in_push_def Let_def tx_bind_def bind_eq_Some_conv)
  let ?\<sigma>2 = "\<sigma>1\<lparr>ps_tx := unlock ?p (ps_tx \<sigma>1)\<rparr>"
  have q: "ps_env \<sigma>1 = []" "tx_locked (ps_tx \<sigma>1) = (tx_locked (ps_tx \<sigma>))(?p := True)"
      "(\<exists>x. r1 = Inr x) \<longrightarrow> calm (ps_tx \<sigma>) \<longrightarrow> calm (ps_tx \<sigma>1)"
    using quietD [OF quiet_stage_in_prio_push 1] by simp_all
  have l: "tx_locked (ps_tx ?\<sigma>2) = tx_locked (ps_tx \<sigma>)" "calm (ps_tx ?\<sigma>2) = calm (ps_tx \<sigma>1)"
    using q(2) assms(3) by (simp_all add: unlock_def fun_upd_idem)
  have run: "(case r1 of Inl e \<Rightarrow> Some (Inl e, ?\<sigma>2) | Inr b \<Rightarrow> (if b then push_notify else tx_ok ()) ?\<sigma>2) = Some (r, \<sigma>')"
    using assms(1) lock 1 by (simp add: stage_in_push_def Let_def tx_bind_def)
  have n: "quiet (if b then push_notify else tx_ok ())" for b by (intro quiet_intros)
  show ?thesis
  proof (cases r1)
    case (Inl e)
    then show ?thesis using run l q by auto
  next
    case (Inr b)
    then have "(if b then push_notify else tx_ok ()) ?\<sigma>2 = Some (r, \<sigma>')" using run by simp
    from quietD [OF n this] show ?thesis using l q Inr by auto
  qed
qed

lemma tx_push_quiet:
  assumes "tx_push msg config [] s = Some (r, s', env')" "\<not> tx_locked s (qos_priority (pc_qos config))"
  shows "env' = [] \<and> tx_locked s' = tx_locked s \<and> (r = Inr () \<longrightarrow> calm s \<longrightarrow> calm s')"
proof (cases "qos_congestion_control (pc_qos config) = Drop
    \<and> status_any (tx_status s) (status_congested (qos_priority (pc_qos config)))")
  case True
  then show ?thesis using assms(1) by (auto simp: tx_push_def)
next
  case False
  then obtain \<sigma>' where 1: "stage_in_push msg config \<lparr>ps_tx = s, ps_start = None, ps_env = []\<rparr> = Some (r, \<sigma>')"
      and 2: "env' = ps_env \<sigma>'" "tx_locked s' = tx_locked (ps_tx \<sigma>')" "r = Inr () \<longrightarrow> s' = ps_tx \<sigma>'"
    using assms(1) by (cases r) (auto simp: tx_push_def Let_def split: sum.splits if_splits)
  show ?thesis using stage_in_push_quiet [OF 1] assms(2) 2 by auto
qed


section \<open>Runs\<close>

text \<open>
  The history of a run: the messages that were accepted, by lane, the batches that were
  handed out, those that the consumer has not given back, and whether a push failed.
\<close>

record history =
  hs_sent :: "priority \<Rightarrow> ((priority \<times> congestion_control) \<times> u8 list) list"
  hs_out :: "write_batch list"
  hs_held :: "write_batch list"
  hs_failed :: bool

definition history_new :: history where
  "history_new = \<lparr>hs_sent = (\<lambda>_. []), hs_out = [], hs_held = [], hs_failed = False\<rparr>"

definition note_push :: "qos \<Rightarrow> u8 list \<Rightarrow> (tx_fail + unit) \<Rightarrow> history \<Rightarrow> history" where
  "note_push q m r h = (case r of
       Inl _ \<Rightarrow> h\<lparr>hs_failed := True\<rparr>
     | Inr _ \<Rightarrow> h\<lparr>hs_sent := (hs_sent h)(qos_priority q := hs_sent h (qos_priority q) @ [(qos_class q, m)])\<rparr>)"

text \<open>The consumer is alive in a run: no push fails with \<open>Closed\<close>.  Messages are no longer
  than the receiver takes (\<open>lim\<close>).  The consumer may set and unset its own flags, take
  its notification, and give a batch back that was to be dropped.\<close>

definition consumer_flags :: "tx \<Rightarrow> tx \<Rightarrow> bool" where
  "consumer_flags s s' \<longleftrightarrow> (\<exists>v f. s' = s\<lparr>tx_status := v, tx_can_pull := f\<rparr>) \<and> pull_frame s s'"

inductive tx_run :: "nat \<Rightarrow> nat \<Rightarrow> nat \<Rightarrow> tx \<Rightarrow> history \<Rightarrow> bool" for cap bsz lim where
  run_new: "pipeline_tx cap bsz = Some s \<Longrightarrow> tx_run cap bsz lim s history_new"
| run_push: "tx_run cap bsz lim s h \<Longrightarrow> tx_push msg config [] s = Some (r, s', env) \<Longrightarrow> r \<noteq> Inl (Fail Closed) \<Longrightarrow>
     bytes_wf msg \<Longrightarrow> bytes_len msg < 2 ^ 64 \<Longrightarrow> length (enc_slice (bytes_content msg)) \<le> lim \<Longrightarrow>
     tx_run cap bsz lim s' (note_push (pc_qos config) (bytes_content msg) r h)"
| run_pull: "tx_run cap bsz lim s h \<Longrightarrow> tx_try_pull s = Some (Inr (Some b), s') \<Longrightarrow>
     tx_run cap bsz lim s' (h\<lparr>hs_out := hs_out h @ [b], hs_held := b # hs_held h\<rparr>)"
| run_idle: "tx_run cap bsz lim s h \<Longrightarrow> tx_try_pull s = Some (Inr None, s') \<Longrightarrow> tx_run cap bsz lim s' h"
| run_drop: "tx_run cap bsz lim s h \<Longrightarrow> try_lanes PRIO_ALL s = (Inr Again, s') \<Longrightarrow> tx_run cap bsz lim s' h"
| run_look: "tx_run cap bsz lim s h \<Longrightarrow> consumer_flags s s' \<Longrightarrow> tx_run cap bsz lim s' h"
| run_flush: "tx_run cap bsz lim s h \<Longrightarrow> tx_run cap bsz lim (snd (stage_flush p s)) h"
| run_refill: "tx_run cap bsz lim s h \<Longrightarrow> b \<in> set (hs_held h) \<Longrightarrow> stage_out_refill b s = (Inr (), s') \<Longrightarrow>
     tx_run cap bsz lim s' (h\<lparr>hs_held := remove1 b (hs_held h)\<rparr>)"
| run_tick: "tx_run cap bsz lim s h \<Longrightarrow> tx_run cap bsz lim (s\<lparr>tx_clock := tx_clock s + d\<rparr>) h"

subsection \<open>The invariant\<close>

definition lane_batches :: "priority \<Rightarrow> write_batch list \<Rightarrow> write_batch list" where
  "lane_batches p bs = filter (\<lambda>b. qos_priority (wb_qos b) = p) bs"

lemma lane_batches_simps [simp]:
  "lane_batches p [] = []"
  "lane_batches p (b # bs) = (if qos_priority (wb_qos b) = p then b # lane_batches p bs else lane_batches p bs)"
  "lane_batches p (bs @ cs) = lane_batches p bs @ lane_batches p cs"
  by (simp_all add: lane_batches_def)

text \<open>The log of a lane: what was taken, what is committed, and the frame that is booked.\<close>

definition lane_view :: "nat \<Rightarrow> write_batch list \<Rightarrow> write_batch option \<Rightarrow> packet list \<Rightarrow> packet list \<Rightarrow> bool" where
  "lane_view bsz qs b T F \<longleftrightarrow> (\<exists>pks. list_all2 batch_holds qs pks \<and> (case b of None \<Rightarrow> F = T @ pks
     | Some w \<Rightarrow> wb_open bsz w \<and> (\<exists>q sn ms. batch_holds w (PkFrame q sn ms) \<and> F = T @ pks @ [PkFrame q sn ms])))"

definition sys_lane :: "nat \<Rightarrow> nat \<Rightarrow> write_batch list \<Rightarrow> write_batch option \<Rightarrow>
    ((priority \<times> congestion_control) \<times> u8 list) list \<Rightarrow> write_batch list \<Rightarrow> bool \<Rightarrow> bool" where
  "sys_lane bsz lim qs b sent out failed \<longleftrightarrow> (\<exists>T F pks. lane_view bsz qs b T F \<and> log_wf F
     \<and> carries (fst (feed_all lim defrags_new F)) sent \<and> list_all2 batch_holds out pks \<and> subseq pks T \<and> (\<not> failed \<longrightarrow> pks = T))"

text \<open>What ties the pipeline to the history, also when it has been disabled.\<close>

definition sys_core :: "nat \<Rightarrow> nat \<Rightarrow> nat \<Rightarrow> nat \<Rightarrow> tx \<Rightarrow> history \<Rightarrow> bool" where
  "sys_core k cap bsz lim s h \<longleftrightarrow> (\<exists>Q B R.
       tx_inv k cap bsz s Q B R (\<lambda>p. length (lane_batches p (hs_held h)))
     \<and> (\<forall>p. sys_lane bsz lim (Q p) (B p) (hs_sent h p) (lane_batches p (hs_out h)) (hs_failed h)))
     \<and> (\<forall>p. \<not> tx_locked s p) \<and> (\<forall>b \<in> set (hs_held h). wb_buffer bsz b)"

definition sys_inv :: "nat \<Rightarrow> nat \<Rightarrow> nat \<Rightarrow> nat \<Rightarrow> tx \<Rightarrow> history \<Rightarrow> bool" where
  "sys_inv k cap bsz lim s h \<longleftrightarrow> (\<exists>Q B R.
       tx_inv k cap bsz s Q B R (\<lambda>p. length (lane_batches p (hs_held h)))
     \<and> (\<forall>p. sys_lane bsz lim (Q p) (B p) (hs_sent h p) (lane_batches p (hs_out h)) (hs_failed h)))
     \<and> (\<forall>p. \<not> tx_locked s p \<and> pool_wf (tx_pool p s)) \<and> (\<forall>b \<in> set (hs_held h). wb_buffer bsz b)
     \<and> (\<not> hs_failed h \<longrightarrow> calm s)"

lemma sys_inv_iff:
  "sys_inv k cap bsz lim s h \<longleftrightarrow> sys_core k cap bsz lim s h \<and> (\<forall>p. pool_wf (tx_pool p s)) \<and> (\<not> hs_failed h \<longrightarrow> calm s)"
  unfolding sys_inv_def sys_core_def by blast

lemma lane_at_rest_iff:
  "lane_at_rest L s F \<longleftrightarrow> (\<exists>Q B R held T. tx_inv (ls_k L) (ls_cap L) (ls_bsz L) s Q B R held
     \<and> lane_view (ls_bsz L) (Q (ls_prio L)) (B (ls_prio L)) T F \<and> in_ctx L T held Q B s \<and> pool_wf (tx_pool (ls_prio L) s))"
proof -
  have "lane_at_rest L s F \<longleftrightarrow> (tx_log L s F None \<or> (\<exists>P b q sn ms. tx_log L s P (Some b) \<and> wb_open (ls_bsz L) b
      \<and> batch_holds b (PkFrame q sn ms) \<and> F = P @ [PkFrame q sn ms])) \<and> pool_wf (tx_pool (ls_prio L) s)"
    by (simp add: lane_at_rest_def lane_log_def push_ok_def) blast
  also have "\<dots> \<longleftrightarrow> (\<exists>Q B R held T. tx_inv (ls_k L) (ls_cap L) (ls_bsz L) s Q B R held
     \<and> lane_view (ls_bsz L) (Q (ls_prio L)) (B (ls_prio L)) T F \<and> in_ctx L T held Q B s) \<and> pool_wf (tx_pool (ls_prio L) s)"
    (is "?A \<and> _ \<longleftrightarrow> ?B \<and> _")
  proof -
    have "?A \<Longrightarrow> ?B"
    proof (elim disjE exE conjE)
      assume "tx_log L s F None"
      then show ?B unfolding tx_log_def lane_view_def by (elim exE conjE) (intro exI conjI, assumption, auto)
    next
      fix P b q sn ms
      assume "tx_log L s P (Some b)" "wb_open (ls_bsz L) b" "batch_holds b (PkFrame q sn ms)" "F = P @ [PkFrame q sn ms]"
      then show ?B unfolding tx_log_def lane_view_def by (elim exE conjE) (intro exI conjI, assumption, auto)
    qed
    moreover have "?B \<Longrightarrow> ?A"
    proof (elim exE conjE)
      fix Q B R held T
      assume a: "tx_inv (ls_k L) (ls_cap L) (ls_bsz L) s Q B R held"
        "lane_view (ls_bsz L) (Q (ls_prio L)) (B (ls_prio L)) T F" "in_ctx L T held Q B s"
      then obtain pks where pks: "list_all2 batch_holds (Q (ls_prio L)) pks"
          "case B (ls_prio L) of None \<Rightarrow> F = T @ pks
             | Some w \<Rightarrow> wb_open (ls_bsz L) w \<and> (\<exists>q sn ms. batch_holds w (PkFrame q sn ms) \<and> F = T @ pks @ [PkFrame q sn ms])"
        by (auto simp: lane_view_def)
      then have "tx_log L s (T @ pks) (B (ls_prio L))"
        using a unfolding tx_log_def by blast
      then show ?A using pks(2) by (cases "B (ls_prio L)") auto
    qed
    ultimately show ?thesis by blast
  qed
  finally show ?thesis by (simp only: conj_assoc [symmetric] ex_simps)
qed


subsection \<open>Every step keeps it\<close>

lemma sys_inv_push:
  assumes inv: "sys_inv k cap bsz lim s h" and run: "tx_push msg config [] s = Some (r, s', env)"
    and alive: "r \<noteq> Inl (Fail Closed)" and bsz: "19 \<le> bsz"
    and msg: "bytes_wf msg" "bytes_len msg < 2 ^ 64" "length (enc_slice (bytes_content msg)) \<le> lim"
  shows "sys_inv k cap bsz lim s' (note_push (pc_qos config) (bytes_content msg) r h)"
proof -
  let ?q = "pc_qos config" and ?m = "bytes_content msg" and ?held = "\<lambda>p. length (lane_batches p (hs_held h))"
  let ?h = "note_push ?q ?m r h"
  define p where "p = qos_priority ?q"
  obtain Q B R where Q: "tx_inv k cap bsz s Q B R ?held"
      and lanes: "\<And>p. sys_lane bsz lim (Q p) (B p) (hs_sent h p) (lane_batches p (hs_out h)) (hs_failed h)"
      and rest: "\<And>p. \<not> tx_locked s p" "\<And>p. pool_wf (tx_pool p s)" "\<forall>b \<in> set (hs_held h). wb_buffer bsz b"
        "\<not> hs_failed h \<longrightarrow> calm s"
    using inv unfolding sys_inv_def by blast
  obtain T F pks where l: "lane_view bsz (Q p) (B p) T F" "log_wf F" "carries (fst (feed_all lim defrags_new F)) (hs_sent h p)"
      "list_all2 batch_holds (lane_batches p (hs_out h)) pks" "subseq pks T" "\<not> hs_failed h \<longrightarrow> pks = T"
    using lanes [of p] unfolding sys_lane_def by blast
  define L where "L = \<lparr>ls_k = k, ls_cap = cap, ls_bsz = bsz, ls_prio = p, ls_ctx = (\<lambda>H held Q' B' P'. H = T \<and> held = ?held
      \<and> Q' = Q(p := []) \<and> B' = B(p := None) \<and> P' = (\<lambda>q. tx_pool q s)(p := seq_num_pool_new))\<rparr>"
  have L: "ls_k L = k" "ls_cap L = cap" "ls_bsz L = bsz" "ls_prio L = p" by (simp_all add: L_def)
  have "lane_at_rest L s F"
    unfolding lane_at_rest_iff L
  proof (intro exI conjI)
    show "tx_inv k cap bsz s Q B R ?held" "lane_view bsz (Q p) (B p) T F" "pool_wf (tx_pool p s)"
      by (fact Q l(1) rest(2))+
    show "in_ctx L T ?held Q B s" by (simp add: in_ctx_def L_def)
  qed
  then have "\<exists>F'. lane_at_rest L s' F' \<and> pushed_or_broken ?q ?m F F' r"
  proof (rule tx_push_log [OF run])
    show "\<not> tx_locked s (ls_prio L)" by (rule rest(1))
    show "qos_priority ?q = ls_prio L" "19 \<le> ls_bsz L" unfolding L using bsz by (simp_all only: p_def)
  qed (use msg in simp_all)
  then obtain F' where F': "lane_at_rest L s' F'" "pushed_or_broken ?q ?m F F' r" by blast
  obtain Q1 B1 R1 held1 T1 where 1: "tx_inv k cap bsz s' Q1 B1 R1 held1" "lane_view bsz (Q1 p) (B1 p) T1 F'"
      "in_ctx L T1 held1 Q1 B1 s'" "pool_wf (tx_pool p s')"
    using F'(1) unfolding lane_at_rest_iff L by blast
  have ctx: "T1 = T" "held1 = ?held" "Q1(p := []) = Q(p := [])" "B1(p := None) = B(p := None)"
      "(\<lambda>q. tx_pool q s')(p := seq_num_pool_new) = (\<lambda>q. tx_pool q s)(p := seq_num_pool_new)"
    using 1(3) by (simp_all add: in_ctx_def L_def)
  have other: "Q1 q = Q q" "B1 q = B q" "tx_pool q s' = tx_pool q s" if "q \<noteq> p" for q
    using fun_cong [OF ctx(3), of q] fun_cong [OF ctx(4), of q] fun_cong [OF ctx(5), of q] that by simp_all
  have quiet: "tx_locked s' = tx_locked s" "r = Inr () \<longrightarrow> calm s \<longrightarrow> calm s'"
    using tx_push_quiet [OF run] rest(1) by simp_all
  have len: "length ?m < 2 ^ 64" using msg(2) by (simp add: bytes_len_content [OF msg(1)])
  have here: "sys_lane bsz lim (Q1 p) (B1 p) (hs_sent ?h p) (lane_batches p (hs_out ?h)) (hs_failed ?h)"
  proof (cases r)
    case (Inl e)
    then have b: "broken_off ?q F F'" using F'(2) alive by (auto simp: pushed_or_broken_def)
    show ?thesis
      unfolding sys_lane_def
      using 1(2) ctx(1) l log_wf_broken [OF b l(2)] broken_off_carries [OF b l(3)] Inl
      by (intro exI [of _ T] exI [of _ F'] exI [of _ pks]) (simp add: note_push_def)
  next
    case (Inr u)
    then have b: "pushed ?q ?m F F'" using F'(2) by (simp add: pushed_or_broken_def)
    show ?thesis
      unfolding sys_lane_def
      using 1(2) ctx(1) l log_wf_pushed [OF b l(2) len] pushed_carries [OF b l(3) msg(3) l(2) len] Inr
      by (intro exI [of _ T] exI [of _ F'] exI [of _ pks]) (simp add: note_push_def p_def)
  qed
  have h: "hs_out ?h = hs_out h" "hs_held ?h = hs_held h" "hs_failed h \<longrightarrow> hs_failed ?h"
      "\<And>q. q \<noteq> p \<Longrightarrow> hs_sent ?h q = hs_sent h q" "\<not> hs_failed ?h \<longrightarrow> r = Inr ()"
    by (cases r; simp add: note_push_def p_def)+
  have "sys_lane bsz lim (Q1 q) (B1 q) (hs_sent ?h q) (lane_batches q (hs_out ?h)) (hs_failed ?h)" for q
  proof (cases "q = p")
    case False
    then show ?thesis using lanes [of q] other h unfolding sys_lane_def by (metis (no_types, lifting))
  qed (simp add: here)
  moreover have "pool_wf (tx_pool q s')" for q using other(3) [of q] rest(2) 1(4) by (cases "q = p") simp_all
  ultimately show ?thesis
    unfolding sys_inv_def using 1(1) ctx(2) quiet rest h by auto
qed


text \<open>Batches that leave the front of a lane, some of them dropped.\<close>

lemma lane_view_take:
  assumes "lane_view bsz (xs @ qs) b T F"
  shows "\<exists>pks. list_all2 batch_holds xs pks \<and> lane_view bsz qs b (T @ pks) F"
proof -
  obtain all where all: "list_all2 batch_holds (xs @ qs) all" "case b of None \<Rightarrow> F = T @ all
     | Some w \<Rightarrow> wb_open bsz w \<and> (\<exists>q sn ms. batch_holds w (PkFrame q sn ms) \<and> F = T @ all @ [PkFrame q sn ms])"
    using assms by (auto simp: lane_view_def)
  then obtain pks pks' where "all = pks @ pks'" "list_all2 batch_holds xs pks" "list_all2 batch_holds qs pks'"
    by (auto simp: list_all2_append1)
  then have "lane_view bsz qs b (T @ pks) F"
    using all(2) unfolding lane_view_def by (intro exI [of _ pks']) (cases b, auto)
  then show ?thesis using \<open>list_all2 batch_holds xs pks\<close> by blast
qed

lemma lane_view_commit:
  assumes "lane_view bsz qs (Some b) T F" shows "lane_view bsz (qs @ [b]) None T F"
  using assms unfolding lane_view_def by (fastforce intro: list_all2_appendI)

lemma batch_holds_cong: "wb_payload b = wb_payload b0 \<Longrightarrow> wb_qos b = wb_qos b0 \<Longrightarrow> batch_holds b = batch_holds b0"
  by (simp add: batch_holds_def fun_eq_iff)

lemma sys_lane_taken:
  assumes "sys_lane bsz lim (dropped @ got @ qs) b sent out failed" "list_all2 (\<lambda>x y. batch_holds x = batch_holds y) new got"
    "\<not> failed \<longrightarrow> dropped = []"
  shows "sys_lane bsz lim qs b sent (out @ new) failed"
proof -
  obtain T F pks where l: "lane_view bsz (dropped @ got @ qs) b T F" "log_wf F"
      "carries (fst (feed_all lim defrags_new F)) sent" "list_all2 batch_holds out pks" "subseq pks T" "\<not> failed \<longrightarrow> pks = T"
    using assms(1) unfolding sys_lane_def by blast
  obtain ds where ds: "list_all2 batch_holds dropped ds" "lane_view bsz (got @ qs) b (T @ ds) F"
    using lane_view_take [OF l(1)] by blast
  obtain gs where gs: "list_all2 batch_holds got gs" "lane_view bsz qs b ((T @ ds) @ gs) F"
    using lane_view_take [OF ds(2)] by blast
  have "list_all2 batch_holds new gs"
    using list_all2_trans [OF _ assms(2) gs(1), of batch_holds] by simp
  then have "list_all2 batch_holds (out @ new) (pks @ gs)" using l(4) by (intro list_all2_appendI)
  moreover have "subseq (pks @ gs) ((T @ ds) @ gs)" using l(5) by (intro list_emb_append_mono) auto
  moreover have "\<not> failed \<longrightarrow> pks @ gs = (T @ ds) @ gs" using l(6) assms(3) ds(1) by auto
  ultimately show ?thesis unfolding sys_lane_def using gs(2) l(2,3) by blast
qed

lemma sys_inv_pull:
  assumes inv: "sys_inv k cap bsz lim s h" and run: "tx_try_pull s = Some (Inr r, s')"
  shows "sys_inv k cap bsz lim s' (case r of None \<Rightarrow> h | Some b \<Rightarrow> h\<lparr>hs_out := hs_out h @ [b], hs_held := b # hs_held h\<rparr>)"
proof -
  let ?held = "\<lambda>p. length (lane_batches p (hs_held h))"
  obtain Q B R where Q: "tx_inv k cap bsz s Q B R ?held"
      and lanes: "\<And>p. sys_lane bsz lim (Q p) (B p) (hs_sent h p) (lane_batches p (hs_out h)) (hs_failed h)"
      and rest: "\<And>p. \<not> tx_locked s p" "\<And>p. pool_wf (tx_pool p s)" "\<forall>b \<in> set (hs_held h). wb_buffer bsz b"
        "\<not> hs_failed h \<longrightarrow> calm s"
    using inv unfolding sys_inv_def by blast
  obtain r1 s1 dropped got Q' R' where run1: "tx_try_pull s = Some (Inr r1, s1)" and fr1: "pull_frame s s1"
      and inv1: "tx_inv k cap bsz s1 Q' B R' (\<lambda>p. ?held p + length (got p))"
      and g1: "handed bsz r1 got" and QQ: "Q = (\<lambda>p. dropped p @ got p @ Q' p)" and dr: "calm s \<longrightarrow> dropped = (\<lambda>_. [])"
    using tx_try_pull_spec [OF Q] by (elim exE conjE) (rule that)
  have "r1 = r" "s1 = s'" using run run1 by simp_all
  then have fr: "pull_frame s s'" and inv': "tx_inv k cap bsz s' Q' B R' (\<lambda>p. ?held p + length (got p))"
      and g: "handed bsz r got" using fr1 inv1 g1 by simp_all
  define new where "new = (\<lambda>p. case r of None \<Rightarrow> [] | Some b \<Rightarrow> lane_batches p [b])"
  have new: "list_all2 (\<lambda>x y. batch_holds x = batch_holds y) (new p) (got p)" for p
  proof (cases r)
    case None
    then show ?thesis using g by (simp add: handed_def new_def)
  next
    case (Some b)
    then obtain b0 where b0: "wb_payload b = wb_payload b0" "wb_qos b = wb_qos b0"
        "got = (\<lambda>_. [])(qos_priority (wb_qos b) := [b0])"
      using g by (auto simp: handed_def)
    have "batch_holds b = batch_holds b0" by (rule batch_holds_cong [OF b0(1,2)])
    then show ?thesis using Some b0(3) by (simp add: new_def)
  qed
  have "sys_lane bsz lim (Q' p) (B p) (hs_sent h p) (lane_batches p (hs_out h) @ new p) (hs_failed h)" for p
  proof (rule sys_lane_taken [OF _ new])
    show "sys_lane bsz lim (dropped p @ got p @ Q' p) (B p) (hs_sent h p) (lane_batches p (hs_out h)) (hs_failed h)"
      using lanes [of p] unfolding QQ .
    show "\<not> hs_failed h \<longrightarrow> dropped p = []" using dr rest(4) by simp
  qed
  moreover have "length (got p) = length (new p)" for p using list_all2_lengthD [OF new [of p]] by simp
  moreover define h' where "h' = (case r of None \<Rightarrow> h | Some b \<Rightarrow> h\<lparr>hs_out := hs_out h @ [b], hs_held := b # hs_held h\<rparr>)"
  have "lane_batches p (hs_out h') = lane_batches p (hs_out h) @ new p"
      "length (lane_batches p (hs_held h')) = ?held p + length (new p)"
      "hs_sent h' = hs_sent h" "hs_failed h' = hs_failed h" "\<forall>b \<in> set (hs_held h'). wb_buffer bsz b" for p
    using g rest(3) by (cases r; simp add: h'_def new_def handed_def)+
  moreover have "tx_locked s' = tx_locked s" "tx_pool p s' = tx_pool p s" for p
    using fr by (simp_all add: pull_frame_def tx_pool_def)
  ultimately show ?thesis
    using inv' rest pull_frame_calm [OF fr] unfolding sys_inv_def h'_def [symmetric]
    by (intro conjI exI [of _ Q'] exI [of _ B] exI [of _ R']) simp_all
qed

text \<open>A pull drops a batch only where something has failed.\<close>

lemma sys_inv_drop:
  assumes inv: "sys_inv k cap bsz lim s h" and run: "try_lanes PRIO_ALL s = (Inr Again, s')"
  shows "sys_inv k cap bsz lim s' h"
proof -
  let ?held = "\<lambda>p. length (lane_batches p (hs_held h))"
  obtain Q B R where Q: "tx_inv k cap bsz s Q B R ?held"
      and lanes: "\<And>p. sys_lane bsz lim (Q p) (B p) (hs_sent h p) (lane_batches p (hs_out h)) (hs_failed h)"
      and rest: "\<And>p. \<not> tx_locked s p" "\<And>p. pool_wf (tx_pool p s)" "\<forall>b \<in> set (hs_held h). wb_buffer bsz b"
        "\<not> hs_failed h \<longrightarrow> calm s"
    using inv unfolding sys_inv_def by blast
  obtain p b bs b' where fr: "pull_frame s s'" and nc: "\<not> calm s"
      and q: "Q p = b # bs" "tx_inv k cap bsz s' (Q(p := bs)) B (R(p := R p @ [b'])) ?held"
    using try_lanes_outcome [OF Q] run by (auto simp: lanes_left_def)
  have failed: "hs_failed h" using rest(4) nc by blast
  have "sys_lane bsz lim ((Q(p := bs)) q) (B q) (hs_sent h q) (lane_batches q (hs_out h)) (hs_failed h)" for q
  proof (cases "q = p")
    case True
    have "sys_lane bsz lim ([b] @ [] @ bs) (B p) (hs_sent h p) (lane_batches p (hs_out h)) (hs_failed h)"
      using lanes [of p] q(1) by simp
    from sys_lane_taken [OF this, of "[]"] show ?thesis using True failed by simp
  qed (use lanes in simp)
  moreover have "tx_locked s' = tx_locked s" "tx_pool q s' = tx_pool q s" for q
    using fr by (simp_all add: pull_frame_def tx_pool_def)
  ultimately show ?thesis
    using q(2) rest failed unfolding sys_inv_def
    by (intro conjI exI [of _ "Q(p := bs)"] exI [of _ B] exI [of _ "R(p := R p @ [b'])"]) simp_all
qed

lemma sys_inv_look:
  assumes inv: "sys_inv k cap bsz lim s h" and look: "consumer_flags s s'"
  shows "sys_inv k cap bsz lim s' h"
proof -
  obtain v f where s': "s' = s\<lparr>tx_status := v, tx_can_pull := f\<rparr>" and fr: "pull_frame s s'"
    using look unfolding consumer_flags_def by blast
  have "tx_inv k cap bsz s Q B R held \<Longrightarrow> tx_inv k cap bsz s' Q B R held" for Q B R held
    by (rule tx_inv_frame) (simp_all add: s')
  moreover have "tx_locked s' = tx_locked s" "tx_pool p s' = tx_pool p s" for p by (simp_all add: s' tx_pool_def)
  ultimately show ?thesis using inv pull_frame_calm [OF fr] unfolding sys_inv_def by metis
qed

definition booked_list :: "write_batch option \<Rightarrow> write_batch list" where
  "booked_list b = (case b of None \<Rightarrow> [] | Some x \<Rightarrow> [x])"

lemma stage_flush_inv:
  assumes "tx_inv k cap bsz s Q B R held"
  shows "tx_inv k cap bsz (snd (stage_flush p s)) (Q(p := Q p @ booked_list (B p))) (B(p := None)) R held"
proof (cases "B p")
  case None
  moreover from None have "Q(p := Q p @ booked_list (B p)) = Q" "B(p := None) = B" by (auto simp: booked_list_def)
  ultimately show ?thesis using assms tx_inv_peek [OF assms, of p] by (simp add: stage_flush_def)
next
  case (Some b)
  then show ?thesis
    using tx_inv_commit [OF assms Some] tx_inv_peek [OF assms, of p] by (simp add: stage_flush_def booked_list_def)
qed

lemma sys_lane_flushed: "sys_lane bsz lim qs b sent out failed \<Longrightarrow> sys_lane bsz lim (qs @ booked_list b) None sent out failed"
proof (cases b)
  case (Some x)
  assume "sys_lane bsz lim qs b sent out failed"
  then show ?thesis using Some lane_view_commit [of bsz qs x] unfolding sys_lane_def booked_list_def by fastforce
qed (simp add: booked_list_def)

lemma stage_flush_keeps [simp]:
  "tx_can_pull (snd (stage_flush p s)) = tx_can_pull s" "tx_locked (snd (stage_flush p s)) = tx_locked s"
  "tx_prio (snd (stage_flush p s)) = tx_prio s" "calm (snd (stage_flush p s)) = calm s"
  by (simp_all add: stage_flush_def)

lemma sys_core_flush:
  assumes core: "sys_core k cap bsz lim s h"
  shows "sys_core k cap bsz lim (snd (stage_flush p s)) h"
proof -
  obtain Q B R where Q: "tx_inv k cap bsz s Q B R (\<lambda>p. length (lane_batches p (hs_held h)))"
      and lanes: "\<And>p. sys_lane bsz lim (Q p) (B p) (hs_sent h p) (lane_batches p (hs_out h)) (hs_failed h)"
    using core unfolding sys_core_def by blast
  have "sys_lane bsz lim ((Q(p := Q p @ booked_list (B p))) q) ((B(p := None)) q) (hs_sent h q) (lane_batches q (hs_out h)) (hs_failed h)" for q
    using lanes [of q] sys_lane_flushed [OF lanes [of p]] by simp
  then show ?thesis
    using stage_flush_inv [OF Q, of p] core unfolding sys_core_def stage_flush_keeps by blast
qed

lemma sys_inv_flush: "sys_inv k cap bsz lim s h \<Longrightarrow> sys_inv k cap bsz lim (snd (stage_flush p s)) h"
  using sys_core_flush unfolding sys_inv_iff by (simp add: tx_pool_def)

text \<open>A change that none of the parts sees.\<close>

lemma sys_core_frame:
  assumes "sys_core k cap bsz lim s h" "tx_inout s' = tx_inout s" "tx_outrefill s' = tx_outrefill s" "tx_prio s' = tx_prio s"
    "tx_locked s' = tx_locked s"
  shows "sys_core k cap bsz lim s' h"
proof -
  have "tx_inv k cap bsz s Q B R held \<Longrightarrow> tx_inv k cap bsz s' Q B R held" for Q B R held
    by (rule tx_inv_frame) (simp_all add: assms)
  then show ?thesis using assms(1) unfolding sys_core_def assms(5) by blast
qed

lemma sys_core_refill:
  assumes core: "sys_core k cap bsz lim s h" and b: "b \<in> set (hs_held h)"
  shows "\<exists>s'. stage_out_refill b s = (Inr (), s') \<and> sys_core k cap bsz lim s' (h\<lparr>hs_held := remove1 b (hs_held h)\<rparr>)
    \<and> tx_prio s' = tx_prio s \<and> calm s' = calm s"
proof -
  let ?held = "\<lambda>p. length (lane_batches p (hs_held h))" and ?p = "qos_priority (wb_qos b)"
  obtain Q B R where Q: "tx_inv k cap bsz s Q B R ?held"
      and lanes: "\<And>p. sys_lane bsz lim (Q p) (B p) (hs_sent h p) (lane_batches p (hs_out h)) (hs_failed h)"
      and rest: "\<And>p. \<not> tx_locked s p" "\<forall>b \<in> set (hs_held h). wb_buffer bsz b"
    using core unfolding sys_core_def by blast
  have shape: "wb_shape bsz ?p b" using rest(2) b by (simp add: wb_shape_def)
  have in_lane: "b \<in> set (lane_batches ?p (hs_held h))" using b by (simp add: lane_batches_def)
  then have pos: "0 < ?held ?p" by (rule length_pos_if_in_set)
  have count: "(\<lambda>p. length (lane_batches p (remove1 b (hs_held h)))) = ?held(?p := ?held ?p - 1)"
  proof
    fix p show "length (lane_batches p (remove1 b (hs_held h))) = (?held(?p := ?held ?p - 1)) p"
      using in_lane by (auto simp: lane_batches_def filter_remove1 length_remove1 remove1_idem)
  qed
  obtain b' s' where s': "stage_out_refill b s = (Inr (), s')" "tx_inv k cap bsz s' Q B (R(?p := R ?p @ [b'])) (?held(?p := ?held ?p - 1))"
      "tx_status s' = tx_status s" "tx_flags s' = tx_flags s" "tx_prio s' = tx_prio s" "tx_locked s' = tx_locked s"
    using tx_inv_refill [OF Q shape pos] by blast
  have "calm s' = calm s" using s'(3,4) by (simp add: calm_def)
  moreover have "sys_core k cap bsz lim s' (h\<lparr>hs_held := remove1 b (hs_held h)\<rparr>)"
    using s' lanes rest set_remove1_subset [of b "hs_held h"] unfolding sys_core_def
    by (intro conjI exI [of _ Q] exI [of _ B] exI [of _ "R(?p := R ?p @ [b'])"]) (auto simp: count)
  ultimately show ?thesis using s'(1,5) by blast
qed

lemma sys_inv_refill:
  assumes "sys_inv k cap bsz lim s h" "stage_out_refill b s = (Inr (), s')" "b \<in> set (hs_held h)"
  shows "sys_inv k cap bsz lim s' (h\<lparr>hs_held := remove1 b (hs_held h)\<rparr>)"
  using sys_core_refill [of k cap bsz lim s h b] assms unfolding sys_inv_iff by (auto simp: tx_pool_def)

lemma sys_inv_new:
  assumes "pipeline_tx cap bsz = Some s" "bsz \<le> BATCH_SIZE_MAX"
  shows "\<exists>k. sys_inv k cap bsz lim s history_new"
proof -
  obtain k where "tx_inv k cap bsz s (\<lambda>_. []) (\<lambda>_. None) (\<lambda>_. []) (\<lambda>_. 0)"
    using tx_inv_new [OF assms] by blast
  moreover have "sys_lane bsz lim [] None [] [] False"
    unfolding sys_lane_def lane_view_def
    by (rule exI [of _ "[]"], rule exI [of _ "[]"], rule exI [of _ "[]"]) (simp add: log_wf_def carries_nil)
  moreover have "\<not> tx_locked s p" "pool_wf (tx_pool p s)" "calm s" for p
    using assms(1) status_any_laws(3) [of Disabled] status_any_laws(3) [of "Congested _"]
    by (auto simp: pipeline_tx_def Let_def pool_wf_def tx_pool_def seq_num_pool_new_def calm_def split: option.splits)
  ultimately show ?thesis unfolding sys_inv_def history_new_def by (intro exI [of _ k]) auto
qed

lemma tx_run_inv:
  assumes "tx_run cap bsz lim s h" "19 \<le> bsz" "bsz \<le> BATCH_SIZE_MAX"
  shows "\<exists>k. sys_inv k cap bsz lim s h"
  using assms(1)
proof induction
  case (run_new s)
  then show ?case using sys_inv_new assms(3) by blast
next
  case (run_push s h msg config r s' env)
  then show ?case using sys_inv_push assms(2) by blast
next
  case (run_pull s h b s')
  then obtain k where "sys_inv k cap bsz lim s h" by blast
  from sys_inv_pull [OF this run_pull(2)] show ?case by auto
next
  case (run_idle s h s')
  then obtain k where "sys_inv k cap bsz lim s h" by blast
  from sys_inv_pull [OF this run_idle(2)] show ?case by auto
next
  case (run_drop s h s')
  then show ?case using sys_inv_drop by blast
next
  case (run_look s h s')
  then show ?case using sys_inv_look by blast
next
  case (run_flush s h p)
  then show ?case using sys_inv_flush by blast
next
  case (run_refill s h b s')
  then show ?case using sys_inv_refill by blast
next
  case (run_tick s h d)
  then obtain k where inv: "sys_inv k cap bsz lim s h" by blast
  then have "sys_core k cap bsz lim s h" by (simp add: sys_inv_iff)
  then have "sys_core k cap bsz lim (s\<lparr>tx_clock := tx_clock s + d\<rparr>) h" by (rule sys_core_frame) simp_all
  then have "sys_inv k cap bsz lim (s\<lparr>tx_clock := tx_clock s + d\<rparr>) h"
    using inv unfolding sys_inv_iff by (simp add: tx_pool_def)
  then show ?case ..
qed


section \<open>A run to look at\<close>

text \<open>A message is pushed, its batch flushed and pulled.\<close>

definition demo_msg :: bytes where "demo_msg = bytes_from (DynVec [7, 8, 9])"
definition demo_config :: push_config where
  "demo_config = \<lparr>pc_qos = QOS_DEFAULT, pc_timeout = 5, pc_timeout_batch = 5\<rparr>"
definition demo_new :: tx where "demo_new = the (pipeline_tx 1 32)"
definition demo_pushed :: tx where "demo_pushed = fst (snd (the (tx_push demo_msg demo_config [] demo_new)))"
definition demo_flushed :: tx where "demo_flushed = snd (stage_flush Medium demo_pushed)"

lemma demo_new_run: "tx_run 1 32 64 demo_new history_new" "pipeline_tx 1 32 = Some demo_new"
proof -
  have "pipeline_tx 1 32 \<noteq> None" by code_simp
  then show "pipeline_tx 1 32 = Some demo_new" by (auto simp: demo_new_def)
  then show "tx_run 1 32 64 demo_new history_new" by (rule run_new)
qed

lemma demo_msg_laws [simp]: "bytes_content demo_msg = [7, 8, 9]" "bytes_wf demo_msg" "bytes_len demo_msg = 3"
  "length (enc_slice [7, 8, 9]) = 4"
  by code_simp+

lemma demo_push: "\<exists>env. tx_push demo_msg demo_config [] demo_new = Some (Inr (), demo_pushed, env)"
proof -
  have "case tx_push demo_msg demo_config [] demo_new of None \<Rightarrow> False | Some (r, _) \<Rightarrow> r = Inr ()" by code_simp
  then show ?thesis by (auto simp: demo_pushed_def split: option.splits)
qed

definition demo_history :: history where
  "demo_history = note_push QOS_DEFAULT [7, 8, 9] (Inr ()) history_new"

lemma demo_pushed_run: "tx_run 1 32 64 demo_pushed demo_history"
proof -
  obtain env where "tx_push demo_msg demo_config [] demo_new = Some (Inr (), demo_pushed, env)" using demo_push by blast
  from run_push [OF demo_new_run(1) this] show ?thesis by (simp add: demo_history_def demo_config_def)
qed

lemma demo_flushed_run: "tx_run 1 32 64 demo_flushed demo_history"
  unfolding demo_flushed_def by (rule run_flush [OF demo_pushed_run])

section \<open>Properties\<close>

text \<open>A lane of a pipeline that some run has led to, with nothing said of the other lanes.\<close>

lemma run_lane_at_rest:
  assumes "tx_run cap bsz lim s h" "19 \<le> bsz" "bsz \<le> BATCH_SIZE_MAX"
  shows "\<exists>L F. lane_at_rest L s F \<and> ls_bsz L = bsz \<and> ls_prio L = p \<and> ls_ctx L = (\<lambda>_ _ _ _ _. True) \<and> \<not> tx_locked s p
    \<and> log_wf F \<and> carries (fst (feed_all lim defrags_new F)) (hs_sent h p)"
proof -
  obtain k where inv: "sys_inv k cap bsz lim s h" using tx_run_inv [OF assms] by blast
  then obtain Q B R where Q: "tx_inv k cap bsz s Q B R (\<lambda>p. length (lane_batches p (hs_held h)))"
      "sys_lane bsz lim (Q p) (B p) (hs_sent h p) (lane_batches p (hs_out h)) (hs_failed h)"
    unfolding sys_inv_def by blast
  define L where "L = \<lparr>ls_k = k, ls_cap = cap, ls_bsz = bsz, ls_prio = p, ls_ctx = (\<lambda>_ _ _ _ _. True)\<rparr>"
  have L: "ls_k L = k" "ls_cap L = cap" "ls_bsz L = bsz" "ls_prio L = p" "ls_ctx L = (\<lambda>_ _ _ _ _. True)" by (simp_all add: L_def)
  have free: "\<not> tx_locked s p" "pool_wf (tx_pool p s)" using inv unfolding sys_inv_def by blast+
  obtain T F where F: "lane_view bsz (Q p) (B p) T F" "log_wf F" "carries (fst (feed_all lim defrags_new F)) (hs_sent h p)"
    using Q(2) unfolding sys_lane_def by blast
  have "lane_at_rest L s F"
    unfolding lane_at_rest_iff L using Q(1) F(1) free(2)
    by (intro exI [of _ Q] exI [of _ B] exI [of _ R] exI [of _ "\<lambda>p. length (lane_batches p (hs_held h))"] exI [of _ T])
      (simp add: in_ctx_def L)
  then show ?thesis using L free(1) F(2,3) by blast
qed

text \<open>What a run without failures has handed out, once nothing is left in the pipeline.\<close>

lemma drained_lane:
  assumes inv: "sys_inv k cap bsz lim s h" and ok: "\<not> hs_failed h"
    and none: "tx_try_pull s = Some (Inr None, s')" and unbooked: "\<forall>p. \<not> mpsc_peek p (tx_inout s)"
  shows "\<exists>pks. list_all2 batch_holds (lane_batches p (hs_out h)) pks \<and> carries (fst (feed_all lim defrags_new pks)) (hs_sent h p)"
proof -
  obtain Q B R where Q: "tx_inv k cap bsz s Q B R (\<lambda>p. length (lane_batches p (hs_held h)))"
      and lanes: "sys_lane bsz lim (Q p) (B p) (hs_sent h p) (lane_batches p (hs_out h)) (hs_failed h)"
      and calm: "calm s"
    using inv ok unfolding sys_inv_def by blast
  have B: "B q = None" for q using unbooked tx_inv_peek [OF Q, of q] by simp
  obtain r s1 dropped got Q' where r: "tx_try_pull s = Some (Inr r, s1)" "handed bsz r got"
      "Q = (\<lambda>p. dropped p @ got p @ Q' p)" "calm s \<longrightarrow> dropped = (\<lambda>_. [])"
      "r = None \<longrightarrow> status_any (tx_status s) STATUS_DISABLED \<or> (\<exists>p. B p \<noteq> None) \<or> Q' = (\<lambda>_. [])"
    using tx_try_pull_spec [OF Q] by (elim exE conjE) (rule that)
  have "r = None" using r(1) none by simp
  then have "Q p = []" using r(2-5) calm B by (simp add: handed_def calm_def)
  then obtain T F pks where "lane_view bsz [] None T F" "carries (fst (feed_all lim defrags_new F)) (hs_sent h p)"
      "list_all2 batch_holds (lane_batches p (hs_out h)) pks" "pks = T"
    using lanes B [of p] ok unfolding sys_lane_def by auto
  then show ?thesis by (auto simp: lane_view_def)
qed

text \<open>C4: in a run in which every push succeeds, once the pipeline is drained, the batches of
  each lane, as they were handed out, reassemble to exactly the messages that were pushed to
  the lane, in order, whatever was batched, appended to a frame or sent in fragments.\<close>

theorem run_delivers:
  assumes "tx_run cap bsz lim s h" "19 \<le> bsz" "bsz \<le> BATCH_SIZE_MAX" "\<not> hs_failed h"
    and "tx_try_pull s = Some (Inr None, s')" "\<forall>p. \<not> mpsc_peek p (tx_inout s)"
  shows "\<exists>pks. list_all2 batch_holds (lane_batches p (hs_out h)) pks
    \<and> carries (fst (feed_all lim defrags_new pks)) (hs_sent h p)"
  using tx_run_inv [OF assms(1-3)] drained_lane [OF _ assms(4-6)] by blast

lemma demo_pull:
  "\<exists>b s. tx_try_pull demo_flushed = Some (Inr (Some b), s) \<and> (\<exists>s'. tx_try_pull s = Some (Inr None, s'))
     \<and> (\<forall>p. \<not> mpsc_peek p (tx_inout s))"
proof -
  have on: "\<not> status_any (tx_status demo_flushed) STATUS_DISABLED" by code_simp
  have 1: "case try_lanes PRIO_ALL demo_flushed of (Inr (Got b), s) \<Rightarrow> list_all (\<lambda>p. \<not> mpsc_peek p (tx_inout s)) PRIO_ALL
      \<and> fst (try_lanes PRIO_ALL s) = Inr Nothing | _ \<Rightarrow> False" by code_simp
  then obtain b s where got: "try_lanes PRIO_ALL demo_flushed = (Inr (Got b), s)" "\<forall>p. \<not> mpsc_peek p (tx_inout s)"
      "fst (try_lanes PRIO_ALL s) = Inr Nothing"
    by (auto simp: list_all_iff set_PRIO_ALL split: prod.splits sum.splits lane_result.splits)
  then obtain s' where "try_lanes PRIO_ALL s = (Inr Nothing, s')" by (metis prod.collapse)
  moreover have "tx_try_pull demo_flushed = Some (Inr (Some b), s)"
    by (subst tx_try_pull.simps) (simp add: got(1) on)
  ultimately show ?thesis
    using got(2) by (intro exI [of _ b] exI [of _ s]) (auto simp: tx_try_pull.simps [of s])
qed

theorem run_delivers_witness:
  "\<exists>s h. tx_run 1 32 64 s h \<and> hs_sent h Medium = [((Medium, Block), [7, 8, 9])]
    \<and> (\<exists>pks. list_all2 batch_holds (lane_batches Medium (hs_out h)) pks
        \<and> carries (fst (feed_all 64 defrags_new pks)) [((Medium, Block), [7, 8, 9])])"
proof -
  obtain b s s' where p: "tx_try_pull demo_flushed = Some (Inr (Some b), s)" "tx_try_pull s = Some (Inr None, s')"
      "\<forall>p. \<not> mpsc_peek p (tx_inout s)"
    using demo_pull by blast
  let ?h = "demo_history\<lparr>hs_out := hs_out demo_history @ [b], hs_held := b # hs_held demo_history\<rparr>"
  have run: "tx_run 1 32 64 s ?h" by (rule run_pull [OF demo_flushed_run p(1)])
  have h: "hs_sent ?h Medium = [((Medium, Block), [7, 8, 9])]" "\<not> hs_failed ?h"
    by (simp_all add: demo_history_def note_push_def history_new_def qos_default qos_class_def)
  show ?thesis
    using run_delivers [OF run _ _ h(2) p(2,3), of Medium] run h(1) by (fastforce simp: BATCH_SIZE_MAX_def)
qed



text \<open>In every reachable state a pull without waiting returns.  When it returns a batch,
  the lanes that are more urgent are empty, and when it returns none, either a batch is booked
  or every lane is empty.\<close>

theorem try_pull_returns:
  assumes "tx_run cap bsz lim s h" "19 \<le> bsz" "bsz \<le> BATCH_SIZE_MAX"
  shows "\<exists>r s'. tx_try_pull s = Some (Inr r, s') \<and> (case r of
      Some b \<Rightarrow> \<forall>q. qos_priority (wb_qos b) < q \<longrightarrow> fst (mpsc_pull_priority q (tx_inout s')) = Inr PullNone
    | None \<Rightarrow> status_any (tx_status s) STATUS_DISABLED \<or> (\<exists>p. mpsc_peek p (tx_inout s))
        \<or> (\<forall>q. fst (mpsc_pull_priority q (tx_inout s')) = Inr PullNone))"
proof -
  obtain k Q B R held where Q: "tx_inv k cap bsz s Q B R held"
    using tx_run_inv [OF assms] unfolding sys_inv_def by blast
  obtain r s' dropped got Q' R' where r: "tx_try_pull s = Some (Inr r, s')" "pull_frame s s'"
      "tx_inv k cap bsz s' Q' B R' (\<lambda>p. held p + length (got p))" "handed bsz r got"
      "Q = (\<lambda>p. dropped p @ got p @ Q' p)" "calm s \<longrightarrow> dropped = (\<lambda>_. [])"
      "\<forall>b q. r = Some b \<longrightarrow> qos_priority (wb_qos b) < q \<longrightarrow> Q' q = [] \<and> B q = None"
      "r = None \<longrightarrow> status_any (tx_status s) STATUS_DISABLED \<or> (\<exists>p. B p \<noteq> None) \<or> Q' = (\<lambda>_. [])"
    using tx_try_pull_spec [OF Q] by (elim exE conjE) (rule that)
  have none: "fst (mpsc_pull_priority q (tx_inout s')) = Inr PullNone" if "Q' q = []" "B q = None" for q
    using tx_inv_pull_priority [OF r(3), of q] that by (auto simp: abs_pull_priority_def)
  show ?thesis
    using r(1,7,8) none tx_inv_peek [OF Q] by (intro exI [of _ r] exI [of _ s']) (auto split: option.splits)
qed

theorem try_pull_returns_witness:
  "\<exists>r s'. tx_try_pull demo_flushed = Some (Inr r, s')"
  using try_pull_returns [OF demo_flushed_run] by (auto simp: BATCH_SIZE_MAX_def)





end
