(* ===== verification/Tx_Live.thy ===== *)
theory Tx_Live
  imports Tx_System
begin

text \<open>
  A push returns.  It waits for empty batches only, every wait has a deadline, and the
  deadlines of one push add up to its timeout: when every poll finds the clock advanced, a
  push whose environment takes one step more than the timeout has returned.  With the log
  of \<open>Tx_Fragments\<close> the loop over the fragments ends, because every fragment takes bytes.
\<close>

section \<open>Steps that do not wait\<close>

definition instant :: "'a tx_op \<Rightarrow> bool" where
  "instant m \<longleftrightarrow> (\<forall>\<sigma>. \<exists>r \<sigma>'. m \<sigma> = Some (r, \<sigma>') \<and> ps_env \<sigma>' = ps_env \<sigma> \<and> ps_start \<sigma>' = ps_start \<sigma>
     \<and> tx_clock (ps_tx \<sigma>') = tx_clock (ps_tx \<sigma>))"

named_theorems instant_intros

lemma instantI:
  "(\<And>\<sigma>. \<exists>r \<sigma>'. m \<sigma> = Some (r, \<sigma>') \<and> ps_env \<sigma>' = ps_env \<sigma> \<and> ps_start \<sigma>' = ps_start \<sigma>
     \<and> tx_clock (ps_tx \<sigma>') = tx_clock (ps_tx \<sigma>)) \<Longrightarrow> instant m"
  by (simp add: instant_def)

lemma instant_bind [instant_intros]:
  assumes "instant m" "\<And>x. instant (f x)" shows "instant (tx_bind m f)"
proof (rule instantI)
  fix \<sigma>
  obtain r \<sigma>1 where r: "m \<sigma> = Some (r, \<sigma>1)" "ps_env \<sigma>1 = ps_env \<sigma>" "ps_start \<sigma>1 = ps_start \<sigma>"
      "tx_clock (ps_tx \<sigma>1) = tx_clock (ps_tx \<sigma>)"
    using assms(1) unfolding instant_def by blast
  show "\<exists>r \<sigma>'. tx_bind m f \<sigma> = Some (r, \<sigma>') \<and> ps_env \<sigma>' = ps_env \<sigma> \<and> ps_start \<sigma>' = ps_start \<sigma>
     \<and> tx_clock (ps_tx \<sigma>') = tx_clock (ps_tx \<sigma>)"
  proof (cases r)
    case (Inl e)
    then show ?thesis using r by (simp add: tx_bind_def)
  next
    case (Inr x)
    obtain r2 \<sigma>2 where "f x \<sigma>1 = Some (r2, \<sigma>2)" "ps_env \<sigma>2 = ps_env \<sigma>1" "ps_start \<sigma>2 = ps_start \<sigma>1"
        "tx_clock (ps_tx \<sigma>2) = tx_clock (ps_tx \<sigma>1)"
      using assms(2) [of x] unfolding instant_def by blast
    then show ?thesis using r Inr by (simp add: tx_bind_def)
  qed
qed

lemma instant_ok [instant_intros]: "instant (tx_ok x)" and instant_err [instant_intros]: "instant (tx_err e)"
  by (simp_all add: instant_def tx_ok_def tx_err_def)

lemma instant_if [instant_intros]: "instant m \<Longrightarrow> instant n \<Longrightarrow> instant (if b then m else n)"
  by simp

lemma instant_modify [instant_intros]: "(\<And>s. tx_clock (f s) = tx_clock s) \<Longrightarrow> instant (tx_modify f)"
  by (simp add: instant_def tx_modify_def)

lemma instant_on_batch [instant_intros]: "instant (on_batch p f)"
  by (rule instantI) (auto simp: on_batch_def split: sum.splits ring_ub.splits prod.splits)

lemma instant_the_batch [instant_intros]: "instant (the_batch p)"
  by (rule instantI) (auto simp: the_batch_def split: sum.splits ring_ub.splits)

lemma instant_notify [instant_intros]: "instant push_notify" and instant_flush [instant_intros]: "instant (push_flush p)"
  by (rule instantI; auto simp: push_notify_def push_flush_def Let_def split: prod.splits bool.splits)+

lemma instant_next_seq_num [instant_intros]: "instant (next_seq_num p config)"
  by (rule instantI) (auto simp: next_seq_num_def tx_ok_def)

lemma instant_new_frag_id [instant_intros]: "instant (new_frag_id p)"
  by (rule instantI) (auto simp: new_frag_id_def set_pool_def split: prod.splits)

lemma instant_new_drop_flag [instant_intros]: "instant (new_drop_flag p)"
  by (rule instantI) (auto simp: new_drop_flag_def Let_def on_batch_def tx_bind_def tx_ok_def split: sum.splits ring_ub.splits)

lemma instant_must_write [instant_intros]: "instant (must_write p e m)"
  unfolding must_write_def by (intro instant_intros) (auto intro: instant_intros split: sum.splits)

lemma instant_must_read [instant_intros]: "instant (must_read p e n rd)"
  unfolding must_read_def by (auto intro!: instant_intros split: prod.splits sum.splits read_err.splits)

lemma instant_set_pool [simp]: "tx_clock (set_pool p f s) = tx_clock s"
  by (simp add: set_pool_def)

lemma instant_move_batch [instant_intros]: "instant (move_batch p)"
  and instant_return_notify [instant_intros]: "instant (return_notify p x)"
  and instant_send_batch [instant_intros]: "instant (send_batch p config sn)"
  unfolding return_notify_def send_batch_def move_batch_def note_length_def by (intro instant_intros; simp)+

lemma instant_first_fragment [instant_intros]: "instant (first_fragment p msg config sn i)"
  unfolding first_fragment_def by (intro instant_intros)

lemma instant_push_frame [instant_intros]: "instant (push_frame p msg config)"
proof (rule instantI)
  fix \<sigma> :: push_state
  let ?cc = "qos_congestion_control (pc_qos config)"
  let ?sn = "sn_next (sn_gen ?cc (tx_pool p (ps_tx \<sigma>)))"
  let ?t = "message_new (message_header_new (pc_qos config) ?sn) (Frame frame_new)"
  have "instant (tx_bind (on_batch p (try_in_frame (andthen (write_message bb_ops ?t) (\<lambda>_. write_bytes bb_ops msg))))
      (\<lambda>fits. if fits then tx_bind (tx_modify (set_pool p (sn_gen_set ?cc ?sn)))
          (\<lambda>_. tx_bind (return_notify p (qos_express (pc_qos config))) (\<lambda>b. tx_ok (Some b)))
        else tx_ok None))"
    by (intro instant_intros) simp
  then show "\<exists>r \<sigma>'. push_frame p msg config \<sigma> = Some (r, \<sigma>') \<and> ps_env \<sigma>' = ps_env \<sigma> \<and> ps_start \<sigma>' = ps_start \<sigma>
     \<and> tx_clock (ps_tx \<sigma>') = tx_clock (ps_tx \<sigma>)"
    unfolding push_frame_def Let_def instant_def by blast
qed

section \<open>Steps that wait\<close>

text \<open>The environment advances the clock at every poll, and has steps for the rest of the timeout.\<close>

definition fuelled :: "nat \<Rightarrow> push_state \<Rightarrow> bool" where
  "fuelled T \<sigma> \<longleftrightarrow> (\<forall>g \<in> set (ps_env \<sigma>). \<forall>s. tx_clock s < tx_clock (g s)) \<and> (case ps_start \<sigma> of
       None \<Rightarrow> T < length (ps_env \<sigma>)
     | Some t \<Rightarrow> t \<le> tx_clock (ps_tx \<sigma>) \<and> t + T < tx_clock (ps_tx \<sigma>) + length (ps_env \<sigma>))"

definition lives :: "nat \<Rightarrow> 'a tx_op \<Rightarrow> bool" where
  "lives T m \<longleftrightarrow> (\<forall>\<sigma>. fuelled T \<sigma> \<longrightarrow> (\<exists>r \<sigma>'. m \<sigma> = Some (r, \<sigma>') \<and> fuelled T \<sigma>'))"

named_theorems lives_intros

lemma lives_instant: "instant m \<Longrightarrow> lives T m"
  unfolding lives_def
proof (intro allI impI)
  fix \<sigma> assume "instant m" "fuelled T \<sigma>"
  then obtain r \<sigma>' where "m \<sigma> = Some (r, \<sigma>')" "ps_env \<sigma>' = ps_env \<sigma>" "ps_start \<sigma>' = ps_start \<sigma>"
      "tx_clock (ps_tx \<sigma>') = tx_clock (ps_tx \<sigma>)"
    unfolding instant_def by blast
  then show "\<exists>r \<sigma>'. m \<sigma> = Some (r, \<sigma>') \<and> fuelled T \<sigma>'" using \<open>fuelled T \<sigma>\<close> by (auto simp: fuelled_def split: option.splits)
qed

lemma lives_bind [lives_intros]:
  assumes "lives T m" "\<And>x. lives T (f x)" shows "lives T (tx_bind m f)"
  unfolding lives_def
proof (intro allI impI)
  fix \<sigma> assume "fuelled T \<sigma>"
  then obtain r \<sigma>1 where r: "m \<sigma> = Some (r, \<sigma>1)" "fuelled T \<sigma>1" using assms(1) unfolding lives_def by blast
  show "\<exists>r \<sigma>'. tx_bind m f \<sigma> = Some (r, \<sigma>') \<and> fuelled T \<sigma>'"
  proof (cases r)
    case (Inl e)
    then show ?thesis using r by (simp add: tx_bind_def)
  next
    case (Inr x)
    obtain r2 \<sigma>2 where "f x \<sigma>1 = Some (r2, \<sigma>2)" "fuelled T \<sigma>2" using assms(2) [of x] r(2) unfolding lives_def by blast
    then show ?thesis using r Inr by (simp add: tx_bind_def)
  qed
qed

lemma lives_if [lives_intros]: "lives T m \<Longrightarrow> lives T n \<Longrightarrow> lives T (if b then m else n)"
  by simp

lemma wait_refill_returns:
  assumes "\<forall>g \<in> set env. \<forall>s. tx_clock s < tx_clock (g s)" "d \<le> tx_clock s + length env"
  shows "\<exists>w s' env'. wait_refill p d env s = Some (w, s', env') \<and> tx_clock s \<le> tx_clock s'
    \<and> tx_clock s + length env \<le> tx_clock s' + length env' \<and> set env' \<subseteq> set env"
  using assms
proof (induction env arbitrary: s)
  case Nil
  then show ?case by (auto split: prod.splits event_check.splits)
next
  case (Cons g env)
  have g: "tx_clock s < tx_clock (g s)" using Cons.prems(1) by simp
  then have "d \<le> tx_clock (g s) + length env" using Cons.prems(2) by simp
  then obtain w s' env' where "wait_refill p d env (g s) = Some (w, s', env')" "tx_clock (g s) \<le> tx_clock s'"
      "tx_clock (g s) + length env \<le> tx_clock s' + length env'" "set env' \<subseteq> set env"
    using Cons.IH [of "g s"] Cons.prems(1) by auto
  then show ?case using g by (auto split: prod.splits event_check.splits)
qed

lemma checked_sub_Some: "checked_sub a b = Some c \<longleftrightarrow> b \<le> a \<and> c = a - b"
  by (auto simp: checked_sub_def)

lemma set_congested_clock [simp]: "tx_clock (set_congested df s) = tx_clock s"
  by (simp add: set_congested_def split: option.splits)

lemma lives_batch_or_return [lives_intros]: "lives (pc_timeout config) (batch_or_return p config df)"
  unfolding lives_def
proof (intro allI impI)
  fix \<sigma> assume "fuelled (pc_timeout config) \<sigma>"
  then show "\<exists>r \<sigma>'. batch_or_return p config df \<sigma> = Some (r, \<sigma>') \<and> fuelled (pc_timeout config) \<sigma>'"
  proof (induction p config df \<sigma> rule: batch_or_return.induct)
    case (1 p config df \<sigma>)
    let ?s = "ps_tx \<sigma>"
    note ih = "1.IH" and fuel = "1.prems"
    have keep: "fuelled (pc_timeout config) (\<sigma>\<lparr>ps_tx := s'\<rparr>)" if "tx_clock s' = tx_clock ?s" for s'
      using fuel that by (simp add: fuelled_def split: option.splits)
    show ?case
    proof (cases "mpsc_peek p (tx_inout ?s)")
      case True
      then show ?thesis using fuel by (subst batch_or_return.simps) simp
    next
      case False
      obtain z s where z: "stage_refill_pull p ?s = (z, s)" by force
      have s: "tx_clock s = tx_clock ?s" using stage_refill_pull_keeps(2) [of p ?s] z by simp
      note unfold0 = batch_or_return.simps [of p config df \<sigma>] if_not_P [OF False] z prod.case
      show ?thesis
      proof (cases z)
        case (Inl e)
        then show ?thesis using keep [OF s] unfolding unfold0 by simp
      next
        case x: (Inr x)
        show ?thesis
        proof (cases x)
        case (Some batch)
        let ?s = "s\<lparr>tx_backoff := (tx_backoff s)(p := backoff_start (tx_clock s) (tx_backoff s p))\<rparr>"
        obtain y rb where book: "mpsc_book p (batch\<lparr>wb_qos := pc_qos config, wb_drop := df\<rparr>) (tx_inout ?s) = (y, rb)"
          by force
        have "batch_or_return p config df \<sigma> = Some (case y of Inl _ \<Rightarrow> Inl (Fail Internal) | Inr _ \<Rightarrow> Inr (),
            \<sigma>\<lparr>ps_tx := ?s\<lparr>tx_inout := rb\<rparr>\<rparr>)"
          by (cases y) (simp_all only: unfold0 x Some sum.case option.case prod.case Let_def book)
        moreover have "fuelled (pc_timeout config) (\<sigma>\<lparr>ps_tx := ?s\<lparr>tx_inout := rb\<rparr>\<rparr>)" by (rule keep) (simp add: s)
        ultimately show ?thesis by blast
      next
        case None
        then have n: "z = Inr None" using x by simp
        define start where "start = (case ps_start \<sigma> of Some t \<Rightarrow> t | None \<Rightarrow> tx_clock s)"
        define \<sigma>1 where "\<sigma>1 = \<sigma>\<lparr>ps_tx := s, ps_start := Some start\<rparr>"
        note unfold = batch_or_return.simps [of p config df \<sigma>] if_not_P [OF False] z n prod.case sum.case option.case
          Let_def start_def [symmetric] \<sigma>1_def [symmetric]
        have env1: "ps_env \<sigma>1 = ps_env \<sigma>" by (simp add: \<sigma>1_def)
        have adv: "\<forall>g \<in> set (ps_env \<sigma>). \<forall>s. tx_clock s < tx_clock (g s)" using fuel by (simp add: fuelled_def)
        have st: "start \<le> tx_clock s" "start + pc_timeout config < tx_clock s + length (ps_env \<sigma>)"
          using fuel s by (simp_all add: start_def fuelled_def split: option.splits)
        have fuel1: "fuelled (pc_timeout config) (\<sigma>1\<lparr>ps_tx := s2, ps_env := env2\<rparr>)"
          if "tx_clock s \<le> tx_clock s2" "tx_clock s + length (ps_env \<sigma>) \<le> tx_clock s2 + length env2" "set env2 \<subseteq> set (ps_env \<sigma>)" for s2 env2
          using that adv st by (auto simp: fuelled_def \<sigma>1_def)
        show ?thesis
        proof (cases "Option.bind (checked_sub (tx_clock s) start) (checked_sub (pc_timeout config))")
          case None
          have "batch_or_return p config df \<sigma> = Some (Inl (Fail Timeout), \<sigma>1\<lparr>ps_tx := set_congested df s\<rparr>)"
            by (simp only: unfold None option.case)
          then show ?thesis using fuel1 [of "set_congested df s" "ps_env \<sigma>"] by (auto simp: \<sigma>1_def)
        next
          case left: (Some left)
          have "left = pc_timeout config - (tx_clock s - start)" "tx_clock s - start \<le> pc_timeout config"
            using left by (auto simp: bind_eq_Some_conv checked_sub_Some)
          then have "tx_clock s + min left (pc_timeout_batch config) \<le> tx_clock s + length (ps_env \<sigma>)"
            using st by simp
          from wait_refill_returns [OF adv this, of p] obtain we s2 env2 where w: "wait_refill p (tx_clock s + min left (pc_timeout_batch config)) (ps_env \<sigma>1) s = Some (we, s2, env2)"
              "tx_clock s \<le> tx_clock s2" "tx_clock s + length (ps_env \<sigma>) \<le> tx_clock s2 + length env2" "set env2 \<subseteq> set (ps_env \<sigma>)"
            unfolding env1 by blast
          show ?thesis
          proof (cases we)
            case WaitOk
            have "batch_or_return p config df \<sigma> = batch_or_return p config df (\<sigma>1\<lparr>ps_tx := s2, ps_env := env2\<rparr>)"
              by (simp only: unfold left w(1) WaitOk option.case wait_end.case prod.case)
            then show ?thesis
              using ih [OF False z [symmetric] n refl start_def \<sigma>1_def left w(1) refl WaitOk refl fuel1 [OF w(2-4)]] by simp
          next
            case WaitGone
            have "batch_or_return p config df \<sigma> = Some (Inl (Fail Dropped), \<sigma>1\<lparr>ps_tx := set_congested df s2, ps_env := env2\<rparr>)"
              by (simp only: unfold left w(1) WaitGone option.case wait_end.case prod.case)
            then show ?thesis using fuel1 [of "set_congested df s2" env2] w(2-4) by auto
          next
            case WaitElapsed
            have "batch_or_return p config df \<sigma> = Some (Inl (Fail Timeout), \<sigma>1\<lparr>ps_tx := set_congested df s2, ps_env := env2\<rparr>)"
              by (simp only: unfold left w(1) WaitElapsed option.case wait_end.case prod.case)
            then show ?thesis using fuel1 [of "set_congested df s2" env2] w(2-4) by auto
          qed
        qed
        qed
      qed
    qed
  qed
qed


section \<open>The push returns\<close>

definition returns :: "nat \<Rightarrow> 'a tx_op \<Rightarrow> push_state \<Rightarrow> bool" where
  "returns T m \<sigma> \<longleftrightarrow> (\<exists>r \<sigma>'. m \<sigma> = Some (r, \<sigma>') \<and> fuelled T \<sigma>')"

lemma returns_lives: "lives T m \<Longrightarrow> fuelled T \<sigma> \<Longrightarrow> returns T m \<sigma>"
  by (simp add: lives_def returns_def)

lemma returns_bind:
  assumes "lives T m" "fuelled T \<sigma>"
    and "tx_post m \<sigma> (\<lambda>r \<sigma>'. case r of Inl _ \<Rightarrow> True | Inr x \<Rightarrow> fuelled T \<sigma>' \<longrightarrow> returns T (f x) \<sigma>')"
  shows "returns T (tx_bind m f) \<sigma>"
proof -
  obtain r \<sigma>1 where r: "m \<sigma> = Some (r, \<sigma>1)" "fuelled T \<sigma>1" using assms(1,2) by (auto simp: lives_def)
  then show ?thesis using tx_postD [OF assms(3) r(1)] by (cases r) (auto simp: returns_def tx_bind_def)
qed

lemma lives_more_fragment: "lives (pc_timeout config) (more_fragment p config df sn i rd)"
  unfolding more_fragment_def Let_def by (intro lives_intros; (rule lives_instant, intro instant_intros)?)

lemma returns_frag_loop:
  assumes "frags_sent L config F sn i d ds \<sigma>" "sn_wf sn" "sn_wf i" "19 \<le> ls_bsz L" "qos_priority (pc_qos config) = ls_prio L"
    "br_ok rd" "br_pending rd \<noteq> []" "d @ concat ds @ br_pending rd = enc_slice m" "fuelled (pc_timeout config) \<sigma>"
  shows "returns (pc_timeout config) (frag_loop (ls_prio L) config df i rd) \<sigma>"
  using assms
proof (induction "length (br_pending rd)" arbitrary: rd ds \<sigma> rule: less_induct)
  case less
  let ?q = "pc_qos config" and ?sn = "(sn_next ^^ length ds) (sn_next sn)"
  obtain pool P where ok: "push_ok L \<sigma> P None pool"
      and gen: "sn_gen (qos_congestion_control ?q) pool = (sn_next ^^ length ds) sn"
    using less.prems(1) by (auto simp: frags_sent_def)
  have sn: "next_seq_num (ls_prio L) config \<sigma> = Some (Inr ?sn, \<sigma>)"
    using next_seq_num_eq [OF ok, of config] gen by (simp add: funpow_swap1)
  have loop: "frag_loop (ls_prio L) config df i rd \<sigma>
      = tx_bind (more_fragment (ls_prio L) config df ?sn i rd) (frag_loop (ls_prio L) config df i) \<sigma>"
    using br_can_read [OF less.prems(6)] less.prems(7) sn
    by (subst frag_loop_step) (simp add: tx_bind_def split: option.splits)
  have "returns (pc_timeout config) (tx_bind (more_fragment (ls_prio L) config df ?sn i rd) (frag_loop (ls_prio L) config df i)) \<sigma>"
  proof (rule returns_bind [OF lives_more_fragment less.prems(9)], rule tx_post_mono [OF post_more_fragment [OF less.prems(1-8)]])
    fix r \<sigma>' assume r: "frag_step L config m F sn i d ds rd r \<sigma>'"
    show "case r of Inl _ \<Rightarrow> True | Inr rd' \<Rightarrow> fuelled (pc_timeout config) \<sigma>' \<longrightarrow>
      returns (pc_timeout config) (frag_loop (ls_prio L) config df i rd') \<sigma>'"
    proof (cases r)
      case (Inr rd')
      have rd': "br_ok rd'" "length (br_pending rd') < length (br_pending rd)"
        using r Inr by (simp_all add: frag_step_def)
      show ?thesis
      proof (cases "br_pending rd' = []")
        case True
        then show ?thesis
          using Inr br_can_read [OF rd'(1)] by (simp add: returns_def frag_loop_step [of _ _ _ _ rd'])
      next
        case False
        then obtain x where "x @ br_pending rd' = br_pending rd" "frags_sent L config F sn i d (ds @ [x]) \<sigma>'"
          using r Inr by (auto simp: frag_step_def)
        then show ?thesis
          using less.hyps [OF rd'(2) _ less.prems(2-5) rd'(1) False, of "ds @ [x]" \<sigma>'] less.prems(8) Inr by simp
      qed
    qed simp
  qed
  then show ?case by (simp add: returns_def loop)
qed


lemma returns_det:
  assumes "instant m" "m \<sigma> = Some (Inr x, \<sigma>')" "fuelled T \<sigma>" "fuelled T \<sigma>' \<Longrightarrow> returns T (f x) \<sigma>'"
  shows "returns T (tx_bind m f) \<sigma>"
  using assms by (intro returns_bind [OF lives_instant]) (simp_all add: tx_post_def)

lemma returns_push_fragments:
  assumes ok: "push_ok L \<sigma> F (Some b) pool" and b: "wb_open (ls_bsz L) b" "wb_payload b = []" "wb_qos b = pc_qos config"
    and room: "19 \<le> ls_bsz L" and q: "qos_priority (pc_qos config) = ls_prio L" and msg: "bytes_wf msg"
    and big: "ls_bsz L < w_len_message (frame_message (pc_qos config)
        (sn_next (sn_gen (qos_congestion_control (pc_qos config)) pool))) + length (enc_slice (bytes_content msg))"
    and fuel: "fuelled (pc_timeout config) \<sigma>"
  shows "returns (pc_timeout config) (push_fragments (ls_prio L) msg config) \<sigma>"
proof -
  let ?p = "ls_prio L" and ?q = "pc_qos config" and ?T = "pc_timeout config"
  define sn where "sn = sn_next (sn_gen (qos_congestion_control ?q) pool)"
  have snwf: "sn_wf sn" using ok by (simp add: sn_def)
  obtain df \<sigma>1 where 1: "new_drop_flag ?p \<sigma> = Some (Inr df, \<sigma>1)" "push_ok L \<sigma>1 F (Some (b\<lparr>wb_drop := Some df\<rparr>)) pool"
    using new_drop_flag_eq [OF ok] b(1) by (auto simp: wb_open_def)
  obtain i \<sigma>2 pool2 where 2: "new_frag_id ?p \<sigma>1 = Some (Inr i, \<sigma>2)"
      "push_ok L \<sigma>2 F (Some (b\<lparr>wb_drop := Some df\<rparr>)) pool2" "sn_wf i"
    using new_frag_id_eq [OF 1(2)] by blast
  have b': "wb_open (ls_bsz L) (b\<lparr>wb_drop := Some df\<rparr>)" "wb_payload (b\<lparr>wb_drop := Some df\<rparr>) = []"
      "wb_qos (b\<lparr>wb_drop := Some df\<rparr>) = ?q"
    using b by (simp_all add: wb_open_def wb_buffer_def wb_payload_def)
  have "returns ?T (tx_bind (first_fragment ?p msg config sn i) (frag_loop ?p config df i)) \<sigma>2" if "fuelled ?T \<sigma>2"
    using returns_frag_loop [OF _ snwf 2(3) room q]
    by (intro returns_bind [OF lives_instant [OF instant_first_fragment] that]
        tx_post_mono [OF post_first_fragment [OF 2(2) b' snwf 2(3) msg room big [folded sn_def], of "bytes_content msg"]])
      (fastforce split: sum.splits)
  then show ?thesis
    unfolding push_fragments_def
    by (intro returns_det [OF instant_next_seq_num next_seq_num_eq [OF ok, of config, folded sn_def] fuel]
        returns_det [OF instant_new_drop_flag 1(1)] returns_det [OF instant_new_frag_id 2(1)])
qed

lemma lives_push_append: "lives (pc_timeout config) (push_append p msg config)"
  unfolding push_append_def Let_def
  by (intro lives_bind lives_if lives_batch_or_return; rule lives_instant; intro instant_intros)

lemma returns_stage_in_prio_push:
  assumes lane: "lane_log L \<sigma> F pool" and q: "qos_priority (pc_qos config) = ls_prio L" and room: "19 \<le> ls_bsz L"
    and msg: "bytes_wf msg" "bytes_len msg < 2 ^ 64" and fuel: "fuelled (pc_timeout config) \<sigma>"
  shows "returns (pc_timeout config) (stage_in_prio_push (ls_prio L) msg config) \<sigma>"
proof -
  let ?p = "ls_prio L" and ?q = "pc_qos config" and ?m = "bytes_content msg" and ?T = "pc_timeout config"
  have ok: "returns ?T (tx_ok b) \<sigma>1" if "fuelled ?T \<sigma>1" for b :: bool and \<sigma>1
    using that by (simp add: returns_def tx_ok_def)
  have frame: "returns ?T (tx_bind (push_frame ?p msg config) (\<lambda>done2. case done2 of Some b \<Rightarrow> tx_ok b | None \<Rightarrow>
      push_fragments ?p msg config)) \<sigma>1"
    if b: "push_ok L \<sigma>1 F (Some b) pool1" "wb_open (ls_bsz L) b" "wb_payload b = []" "wb_qos b = ?q" and f: "fuelled ?T \<sigma>1" for \<sigma>1 b pool1
    by (rule returns_bind [OF lives_instant [OF instant_push_frame] f], rule tx_post_mono [OF post_push_frame [OF b msg]])
      (auto simp: ok intro: returns_push_fragments [OF _ _ _ _ room q msg(1)] split: sum.splits option.splits)
  have append: "returns ?T (tx_bind (push_append ?p msg config) (\<lambda>done1. case done1 of Some b \<Rightarrow> tx_ok b | None \<Rightarrow>
      tx_bind (push_frame ?p msg config) (\<lambda>done2. case done2 of Some b \<Rightarrow> tx_ok b | None \<Rightarrow>
      push_fragments ?p msg config))) \<sigma>1"
    if b: "push_ok L \<sigma>1 P (Some b) pool" "batch_state L P b F" "wb_payload b = [] \<Longrightarrow> wb_qos b = ?q" and f: "fuelled ?T \<sigma>1" for \<sigma>1 b P
    by (rule returns_bind [OF lives_push_append f], rule tx_post_mono [OF post_push_append [OF b(1,2) q b(3) msg]])
      (auto simp: step_end_def ok intro: frame split: sum.splits option.splits)
  obtain P b where *: "push_ok L \<sigma> P b pool" "b = None \<and> F = P \<or> (\<exists>b0 q sn ms. b = Some b0 \<and> wb_open (ls_bsz L) b0
      \<and> batch_holds b0 (PkFrame q sn ms) \<and> F = P @ [PkFrame q sn ms])"
    using lane unfolding lane_log_def by blast
  have "\<exists>b1. push_ok L \<sigma>1 P (Some b1) pool \<and> batch_state L P b1 F \<and> (wb_payload b1 = [] \<longrightarrow> wb_qos b1 = ?q)"
    if got: "got_batch L config P b pool (Inr u) \<sigma>1" for u \<sigma>1
  proof -
    obtain b1 where b1: "push_ok L \<sigma>1 P (Some b1) pool" "case b of Some b0 \<Rightarrow> b1 = b0
        | None \<Rightarrow> wb_open (ls_bsz L) b1 \<and> wb_payload b1 = [] \<and> wb_qos b1 = ?q"
      using got by (auto simp: got_batch_def)
    from *(2) show ?thesis
    proof (elim disjE exE conjE)
      assume "b = None" "F = P"
      then show ?thesis using b1 by (auto simp: batch_state_def)
    next
      fix b0 q sn ms assume "b = Some b0" "wb_open (ls_bsz L) b0" "batch_holds b0 (PkFrame q sn ms)" "F = P @ [PkFrame q sn ms]"
      moreover from this(3) have "wb_payload b0 \<noteq> []" by (simp add: batch_holds_def)
      ultimately show ?thesis using b1 by (auto simp: batch_state_def)
    qed
  qed
  then show ?thesis
    unfolding stage_in_prio_push_def
    by (intro returns_bind [OF lives_batch_or_return fuel] tx_post_mono [OF post_batch_or_return [OF *(1) q]])
      (fastforce intro: append split: sum.splits)
qed

lemma tx_push_returns:
  assumes lane: "lane_at_rest L s F" "\<forall>g \<in> set env. env_ok L g" "\<not> tx_locked s (ls_prio L)"
    and q: "qos_priority (pc_qos config) = ls_prio L" and room: "19 \<le> ls_bsz L"
    and msg: "bytes_wf msg" "bytes_len msg < 2 ^ 64"
    and time: "\<forall>g \<in> set env. \<forall>s. tx_clock s < tx_clock (g s)" "pc_timeout config < length env"
  shows "\<exists>r s' env'. tx_push msg config env s = Some (r, s', env')"
proof -
  let ?p = "ls_prio L" and ?T = "pc_timeout config" and ?\<sigma> = "\<lparr>ps_tx = s, ps_start = None, ps_env = env\<rparr>"
  let ?\<sigma>1 = "?\<sigma>\<lparr>ps_tx := s\<lparr>tx_locked := (tx_locked s)(?p := True)\<rparr>\<rparr>"
  obtain pool where pool: "lane_log L \<lparr>ps_tx = s, ps_start = None, ps_env = []\<rparr> F pool"
    using lane(1) by (auto simp: lane_at_rest_def)
  have l: "lane_log L ?\<sigma> F pool" using lane(2) by (intro lane_log_env [OF pool]) simp_all
  have l1: "lane_log L ?\<sigma>1 F pool" by (rule lane_log_frame [OF l]) simp_all
  have f: "fuelled ?T ?\<sigma>1" using time by (simp add: fuelled_def)
  have lock: "lock_prio ?p config ?\<sigma> = Some (Inr (), ?\<sigma>1)"
    using lane(3) by (cases env) (simp_all add: lock_prio_def)
  obtain r \<sigma>' where r: "stage_in_prio_push ?p msg config ?\<sigma>1 = Some (r, \<sigma>')"
    using returns_stage_in_prio_push [OF l1 q room msg f] by (auto simp: returns_def)
  obtain r2 \<sigma>2 where n: "push_notify (\<sigma>'\<lparr>ps_tx := unlock ?p (ps_tx \<sigma>')\<rparr>) = Some (r2, \<sigma>2)"
    using instant_notify unfolding instant_def by blast
  have "\<exists>z. stage_in_push msg config ?\<sigma> = Some z"
    unfolding stage_in_push_def Let_def q
    using lock r n by (cases r) (auto simp: tx_bind_def tx_ok_def)
  then show ?thesis
    by (auto simp: tx_push_def Let_def split: prod.splits)
qed

section \<open>A consumer\<close>

text \<open>What the task that sends batches does: it takes one if it can, and gives it back.\<close>

definition consumer_turn :: "tx \<Rightarrow> tx" where
  "consumer_turn s = (case tx_try_pull s of
       Some (Inr (Some b), s') \<Rightarrow> snd (stage_out_refill b s')
     | Some (_, s') \<Rightarrow> s'
     | None \<Rightarrow> s)\<lparr>tx_clock := tx_clock s + 1\<rparr>"

lemma env_ok_consumer_turn:
  assumes ctx: "ls_ctx L = (\<lambda>_ _ _ _ _. True)"
  shows "env_ok L consumer_turn"
  unfolding env_ok_def
proof (intro allI impI)
  fix s P b assume "tx_log L s P b"
  then obtain Q B R held H pks where *: "tx_inv (ls_k L) (ls_cap L) (ls_bsz L) s Q B R held" "B (ls_prio L) = b"
      "list_all2 batch_holds (Q (ls_prio L)) pks" "P = H @ pks"
    unfolding tx_log_def by blast
  obtain r s' dropped got Q' R' where r: "tx_try_pull s = Some (Inr r, s')" "pull_frame s s'"
      "tx_inv (ls_k L) (ls_cap L) (ls_bsz L) s' Q' B R' (\<lambda>p. held p + length (got p))" "handed (ls_bsz L) r got"
      "Q = (\<lambda>p. dropped p @ got p @ Q' p)" "calm s \<longrightarrow> dropped = (\<lambda>_. [])"
      "\<forall>b q. r = Some b \<longrightarrow> qos_priority (wb_qos b) < q \<longrightarrow> Q' q = [] \<and> B q = None"
      "r = None \<longrightarrow> status_any (tx_status s) STATUS_DISABLED \<or> (\<exists>p. B p \<noteq> None) \<or> Q' = (\<lambda>_. [])"
    using tx_try_pull_spec [OF *(1)] by (elim exE conjE) (rule that)
  define s2 where "s2 = (case r of None \<Rightarrow> s' | Some b \<Rightarrow> snd (stage_out_refill b s'))"
  have s2: "\<exists>R held. tx_inv (ls_k L) (ls_cap L) (ls_bsz L) s2 Q' B R held \<and> tx_prio s2 = tx_prio s"
  proof (cases r)
    case None
    then show ?thesis using r(2,3) by (auto simp: s2_def pull_frame_def)
  next
    case (Some b)
    then have "wb_shape (ls_bsz L) (qos_priority (wb_qos b)) b" "0 < held (qos_priority (wb_qos b)) + length (got (qos_priority (wb_qos b)))"
      using r(4) by (auto simp: handed_def wb_shape_def)
    from tx_inv_refill [OF r(3) this] obtain R3 held3 s3 where "stage_out_refill b s' = (Inr (), s3)"
        "tx_inv (ls_k L) (ls_cap L) (ls_bsz L) s3 Q' B R3 held3" "tx_prio s3 = tx_prio s'"
      by (elim exE conjE) (rule that)
    moreover have "tx_prio s' = tx_prio s" using r(2) by (simp add: pull_frame_def)
    ultimately show ?thesis using Some by (auto simp: s2_def)
  qed
  have turn: "consumer_turn s = s2\<lparr>tx_clock := tx_clock s + 1\<rparr>"
    using r(1) by (cases r) (simp_all add: consumer_turn_def s2_def)
  have "list_all2 batch_holds (dropped (ls_prio L) @ got (ls_prio L) @ Q' (ls_prio L)) pks" using *(3) r(5) by simp
  then obtain taken pks' where pks: "pks = taken @ pks'" "list_all2 batch_holds (Q' (ls_prio L)) pks'"
    by (metis append_assoc list_all2_append1)
  obtain R2 held2 where inv2: "tx_inv (ls_k L) (ls_cap L) (ls_bsz L) s2 Q' B R2 held2" using s2 by blast
  have "tx_log L s2 P b"
    unfolding tx_log_def
    using inv2 *(2,4) pks
    by (intro exI [of _ Q'] exI [of _ B] exI [of _ R2] exI [of _ held2] exI [of _ "H @ taken"] exI [of _ pks'])
      (simp add: in_ctx_def ctx)
  then have "tx_log L (consumer_turn s) P b" unfolding turn by (rule tx_log_frame) simp_all
  moreover have "tx_pool (ls_prio L) (consumer_turn s) = tx_pool (ls_prio L) s"
    using s2 by (simp add: turn tx_pool_def)
  ultimately show "tx_log L (consumer_turn s) P b \<and> tx_pool (ls_prio L) (consumer_turn s) = tx_pool (ls_prio L) s" ..
qed

section \<open>Properties\<close>

text \<open>C6: a push that does not fail adds the message to what the log of its lane carries, once
  and at the end, and a push that fails adds nothing, except that a push that finds the
  consumer gone may have added it.  The other tasks may do anything at the waits of the push that keeps to
  their side of the lane.\<close>

theorem push_all_or_nothing:
  assumes "tx_push msg config env s = Some (r, s', env')"
    and "lane_at_rest L s F" "\<forall>g \<in> set env. env_ok L g" "\<not> tx_locked s (ls_prio L)"
    and "qos_priority (pc_qos config) = ls_prio L" "19 \<le> ls_bsz L"
    and "bytes_wf msg" "bytes_len msg < 2 ^ 64" "length (enc_slice (bytes_content msg)) \<le> lim"
    and "log_wf F" "carries (fst (feed_all lim D F)) msgs"
  shows "\<exists>F'. lane_at_rest L s' F' \<and> log_wf F' \<and> (case r of
      Inr _ \<Rightarrow> carries (fst (feed_all lim D F')) (msgs @ [(qos_class (pc_qos config), bytes_content msg)])
    | Inl e \<Rightarrow> (e = Fail Closed \<or> congests e) \<and> (carries (fst (feed_all lim D F')) msgs
        \<or> e = Fail Closed \<and> carries (fst (feed_all lim D F')) (msgs @ [(qos_class (pc_qos config), bytes_content msg)])))"
proof -
  let ?q = "pc_qos config" and ?m = "bytes_content msg"
  have len: "length ?m < 2 ^ 64" using assms(8) by (simp add: bytes_len_content [OF assms(7)])
  obtain F' where F': "lane_at_rest L s' F'" "pushed_or_broken ?q ?m F F' r"
    using tx_push_log [OF assms(1-8)] by blast
  have p: "log_wf F'" "carries (fst (feed_all lim D F')) (msgs @ [(qos_class ?q, ?m)])" if "pushed ?q ?m F F'"
    using log_wf_pushed [OF that assms(10) len] pushed_carries [OF that assms(11,9,10) len] by simp_all
  have b: "log_wf F'" "carries (fst (feed_all lim D F')) msgs" if "broken_off ?q F F'"
    using log_wf_broken [OF that assms(10)] broken_off_carries [OF that assms(11)] by simp_all
  show ?thesis
    using F' p b by (intro exI [of _ F']) (auto simp: pushed_or_broken_def split: sum.splits)
qed

theorem push_all_or_nothing_witness:
  "\<exists>L F'. lane_at_rest L demo_pushed F' \<and> carries (fst (feed_all 64 defrags_new F')) [((Medium, Block), [7, 8, 9])]"
proof -
  obtain env where r: "tx_push demo_msg demo_config [] demo_new = Some (Inr (), demo_pushed, env)" using demo_push by blast
  obtain L F where L: "lane_at_rest L demo_new F" "ls_bsz L = 32" "ls_prio L = Medium" "\<not> tx_locked demo_new Medium"
      "log_wf F" "carries (fst (feed_all 64 defrags_new F)) (hs_sent history_new Medium)"
    using run_lane_at_rest [OF demo_new_run(1), of Medium] by (auto simp: BATCH_SIZE_MAX_def)
  have q: "qos_priority (pc_qos demo_config) = ls_prio L" by (simp add: demo_config_def L(3) qos_default)
  have c: "qos_class (pc_qos demo_config) = (Medium, Block)" by (simp add: demo_config_def qos_class_def qos_default)
  obtain F' where "lane_at_rest L demo_pushed F'" "carries (fst (feed_all 64 defrags_new F')) ([] @ [((Medium, Block), [7, 8, 9])])"
    using push_all_or_nothing [OF r L(1) _ _ q _ demo_msg_laws(2) _ _ L(5,6), unfolded c] L(2-4)
    by (auto simp: history_new_def)
  then show ?thesis by auto
qed



end
