(* ===== verification/Pipeline_Rx.thy ===== *)
theory Pipeline_Rx
  imports Sync Codec Ringbuf
begin

text \<open>
  \<open>src/pipeline/rx.rs\<close>: the reception pipeline.  A push takes a batch from the network, a
  whole frame or a fragment of a message: a frame goes to the queue of its priority, fragments
  are put together and the message goes there when the last has come.  A pull reads the next
  message of the most urgent batch.

  The list \<open>env\<close> of a push says what the other task does at each poll of a suspended wait, as
  for the transmission pipeline.  A pull that does not wait runs while the other task may push:
  its list says what happens between the moment the batch at the head is looked at and the
  moment it is taken out.
\<close>

section \<open>The state\<close>

record read_batch =
  rb_bytes :: bytes
  rb_qos :: qos
  rb_pos :: bytes_pos

record defrag_buffer =
  db_seq_num :: seq_num
  db_frag_id :: seq_num
  db_buffer :: bytes

datatype rx_error = DecodingFailed | InvalidSeqNum | InvalidFragId | CapacityLimit | ChannelClosed
  | RxTimeout | InternalError

text \<open>Besides the errors of the code: a panic, a read of a slot that holds nothing, and a fragment
  kind without a variant.\<close>

datatype rx_fail = RxFail rx_error | RxPanic | RxUninit | RxNoKind

record rx =
  rx_ring :: "read_batch spsc"
  rx_block :: "priority \<Rightarrow> defrag_buffer"
  rx_drop :: "priority \<Rightarrow> defrag_buffer"
  rx_can_recv :: u8
  rx_can_send :: "priority \<Rightarrow> u8"
  rx_status :: u16
  rx_clock :: nat

record rx_push_config =
  rc_frag_max_size :: nat
  rc_timeout_drop :: nat
  rc_timeout_block :: nat

section \<open>Reassembling fragments\<close>

definition defrag_new :: defrag_buffer where
  "defrag_new = \<lparr>db_seq_num = sn_new 0, db_frag_id = sn_new 0, db_buffer = bytes_new\<rparr>"

definition defrag_clear :: "defrag_buffer \<Rightarrow> defrag_buffer" where
  "defrag_clear d = d\<lparr>db_buffer := bytes_clear (db_buffer d)\<rparr>"

definition defrag_sync :: "seq_num \<Rightarrow> seq_num \<Rightarrow> defrag_buffer \<Rightarrow> defrag_buffer" where
  "defrag_sync seq_num frag_id d = d\<lparr>db_seq_num := seq_num, db_frag_id := frag_id\<rparr>"

definition defrag_extend :: "seq_num \<Rightarrow> seq_num \<Rightarrow> bytes \<Rightarrow> nat \<Rightarrow> (defrag_buffer, rx_fail, unit) op" where
  "defrag_extend seq_num frag_id bs capacity d =
     (if seq_num \<noteq> db_seq_num d then (Inl (RxFail InvalidSeqNum), d)
      else if frag_id \<noteq> db_frag_id d then (Inl (RxFail InvalidFragId), d)
      else let new_len = bytes_len (db_buffer d) + bytes_len bs in
        if new_len > capacity then (Inl (RxFail CapacityLimit), d)
        else (Inr (), d\<lparr>db_seq_num := snd (sn_increment (db_seq_num d)),
               db_buffer := bytes_extend (db_buffer d) (chunks_of bs)\<rparr>))"

definition defrag_take :: "defrag_buffer \<Rightarrow> bytes \<times> defrag_buffer" where
  "defrag_take d = (db_buffer d, d\<lparr>db_buffer := bytes_new\<rparr>)"

section \<open>The pipeline\<close>

text \<open>\<open>None\<close> is the assertion in \<open>RingBuffer::new\<close>.\<close>

definition pipeline_rx :: "nat \<Rightarrow> rx option" where
  "pipeline_rx capacity = map_option
     (\<lambda>rb. \<lparr>rx_ring = rb, rx_block = (\<lambda>_. defrag_new), rx_drop = (\<lambda>_. defrag_new), rx_can_recv = event_new,
        rx_can_send = (\<lambda>_. event_new), rx_status = status_new, rx_clock = 0\<rparr>)
     (ringbuffer_spsc capacity)"

primrec rx_defrag :: "congestion_control \<Rightarrow> priority \<Rightarrow> rx \<Rightarrow> defrag_buffer" where
  "rx_defrag Block p s = rx_block s p"
| "rx_defrag Drop p s = rx_drop s p"

primrec rx_defrag_set :: "congestion_control \<Rightarrow> priority \<Rightarrow> defrag_buffer \<Rightarrow> rx \<Rightarrow> rx" where
  "rx_defrag_set Block p d s = s\<lparr>rx_block := (rx_block s)(p := d)\<rparr>"
| "rx_defrag_set Drop p d s = s\<lparr>rx_drop := (rx_drop s)(p := d)\<rparr>"

section \<open>Pushing\<close>

definition bytes_view_from :: "nat \<Rightarrow> bytes \<Rightarrow> (defrag_buffer, rx_fail, bytes) op" where
  "bytes_view_from start b d = (case bytes_view b (range_from start) of
       None \<Rightarrow> (Inl (RxFail InternalError), d) | Some v \<Rightarrow> (Inr v, d))"

text \<open>What a fragment does to the reassembly buffer: the message, when it is complete.\<close>

definition push_fragment :: "fragment_kind \<Rightarrow> seq_num \<Rightarrow> seq_num \<Rightarrow> bytes \<Rightarrow> nat \<Rightarrow> nat \<Rightarrow>
    (defrag_buffer, rx_fail, bytes option) op" where
  "push_fragment kind seq_num frag_id b start capacity dbuf = (case kind of
       First \<Rightarrow> andthen (bytes_view_from start b)
         (\<lambda>v. andthen (defrag_extend seq_num frag_id v capacity) (\<lambda>_. ok None))
         (defrag_sync seq_num frag_id (defrag_clear dbuf))
     | More \<Rightarrow> andthen (bytes_view_from start b)
         (\<lambda>v d. case defrag_extend seq_num frag_id v capacity d of
             (Inl e, d') \<Rightarrow> (Inl e, defrag_clear d')
           | (Inr _, d') \<Rightarrow> (Inr None, d')) dbuf
     | Last \<Rightarrow> andthen (bytes_view_from start b)
         (\<lambda>v. andthen (defrag_extend seq_num frag_id v capacity)
            (\<lambda>_ d. case defrag_take d of (bs, d') \<Rightarrow> (Inr (Some bs), d'))) dbuf)"

text \<open>From the bytes of a batch to what goes in the queue, if anything.\<close>

definition rx_accept :: "bytes \<Rightarrow> rx_push_config \<Rightarrow> (rx, rx_fail, read_batch option) op" where
  "rx_accept b config s = (case read_message br_ops (bytes_reader b) of
       (Inl DidntRead, _) \<Rightarrow> (Inl (RxFail DecodingFailed), s)
     | (Inl ReadOob, _) \<Rightarrow> (Inl RxPanic, s)
     | (Inr message, rd) \<Rightarrow>
         let qos = message_header_qos (ms_header message);
             start = bytes_len b - br_remaining rd
         in case ms_body message of
             Frame _ \<Rightarrow> (Inr (Some \<lparr>rb_bytes = b, rb_qos = qos, rb_pos = br_mark rd\<rparr>), s)
           | Fragment f \<Rightarrow>
               let cc = qos_congestion_control qos; p = qos_priority qos
               in case fragment_kind_of f of
                   None \<Rightarrow> (Inl RxNoKind, s)
                 | Some kind \<Rightarrow>
                     (case push_fragment kind (mh_seq_num (ms_header message)) (fg_frag_id f) b start
                         (rc_frag_max_size config) (rx_defrag cc p s) of
                       (r, d) \<Rightarrow> (case r of
                           Inl e \<Rightarrow> Inl e
                         | Inr None \<Rightarrow> Inr None
                         | Inr (Some bs) \<Rightarrow> Inr (Some \<lparr>rb_bytes = bs, rb_qos = qos, rb_pos = bytes_pos_zero\<rparr>),
                         rx_defrag_set cc p d s)))"

text \<open>\<open>timeout(t, waiter.wait())\<close> on the event that \<open>get\<close> and \<open>put\<close> access.\<close>

primrec wait_event :: "(rx \<Rightarrow> u8) \<Rightarrow> (u8 \<Rightarrow> rx \<Rightarrow> rx) \<Rightarrow> nat \<Rightarrow> (rx \<Rightarrow> rx) list \<Rightarrow> rx \<Rightarrow>
    (wait_end \<times> rx \<times> (rx \<Rightarrow> rx) list) option" where
  "wait_event get put deadline [] s = (case event_check (get s) of
       (CheckOk, f) \<Rightarrow> Some (WaitOk, put f s, [])
     | (CheckErr, f) \<Rightarrow> Some (WaitGone, put f s, [])
     | (CheckUnset, f) \<Rightarrow> if deadline \<le> rx_clock s then Some (WaitElapsed, s, []) else None)"
| "wait_event get put deadline (g # env) s = (case event_check (get s) of
       (CheckOk, f) \<Rightarrow> Some (WaitOk, put f s, g # env)
     | (CheckErr, f) \<Rightarrow> Some (WaitGone, put f s, g # env)
     | (CheckUnset, f) \<Rightarrow> if deadline \<le> rx_clock s then Some (WaitElapsed, s, g # env)
         else wait_event get put deadline env (g s))"

definition wait_can_send :: "priority \<Rightarrow> nat \<Rightarrow> (rx \<Rightarrow> rx) list \<Rightarrow> rx \<Rightarrow> (wait_end \<times> rx \<times> (rx \<Rightarrow> rx) list) option" where
  "wait_can_send p = wait_event (\<lambda>s. rx_can_send s p) (\<lambda>f s. s\<lparr>rx_can_send := (rx_can_send s)(p := f)\<rparr>)"

definition wait_can_recv :: "nat \<Rightarrow> (rx \<Rightarrow> rx) list \<Rightarrow> rx \<Rightarrow> (wait_end \<times> rx \<times> (rx \<Rightarrow> rx) list) option" where
  "wait_can_recv = wait_event rx_can_recv (\<lambda>f s. s\<lparr>rx_can_recv := f\<rparr>)"

text \<open>What is left of the timeout \<open>to\<close> of a push that began at \<open>start\<close>.\<close>

definition compute_timeout :: "nat \<Rightarrow> nat \<Rightarrow> rx \<Rightarrow> nat option" where
  "compute_timeout start t s = Option.bind (checked_sub (rx_clock s) start) (checked_sub t)"

type_synonym 'a rx_result = "((rx_fail + 'a) \<times> rx \<times> (rx \<Rightarrow> rx) list) option"

partial_function (option) rx_enqueue :: "nat \<Rightarrow> read_batch \<Rightarrow> rx_push_config \<Rightarrow> (rx \<Rightarrow> rx) list \<Rightarrow> rx \<Rightarrow> bool rx_result" where
  "rx_enqueue start batch config env s =
     (let p = qos_priority (rb_qos batch); cf = status_congested p in
      case spsc_push p batch (rx_ring s) of
        (None, rb) \<Rightarrow>
          (case event_notify (rx_can_recv s) of
             (notified, f) \<Rightarrow> Some (if notified then Inr True else Inl (RxFail ChannelClosed),
               s\<lparr>rx_ring := rb, rx_can_recv := f\<rparr>, env))
      | (Some zb, rb) \<Rightarrow>
          let s1 = s\<lparr>rx_ring := rb\<rparr> in
          (case qos_congestion_control (rb_qos batch) of
             Block \<Rightarrow>
               (case compute_timeout start (rc_timeout_block config) s1 of
                  None \<Rightarrow> Some (Inl (RxFail RxTimeout), s1, env)
                | Some t \<Rightarrow> (case wait_can_send p (rx_clock s1 + t) env s1 of
                      None \<Rightarrow> None
                    | Some (WaitOk, s2, env') \<Rightarrow> rx_enqueue start zb config env' s2
                    | Some (WaitGone, s2, env') \<Rightarrow> Some (Inl (RxFail ChannelClosed), s2, env')
                    | Some (WaitElapsed, s2, env') \<Rightarrow>
                        rx_enqueue start zb config env' (s2\<lparr>rx_status := status_set cf (rx_status s2)\<rparr>)))
           | Drop \<Rightarrow>
               if status_any (rx_status s1) cf then Some (Inr False, s1, env)
               else (case compute_timeout start (rc_timeout_drop config) s1 of
                  None \<Rightarrow> Some (Inl (RxFail RxTimeout), s1, env)
                | Some t \<Rightarrow> (case wait_can_send p (rx_clock s1 + t) env s1 of
                      None \<Rightarrow> None
                    | Some (WaitOk, s2, env') \<Rightarrow> rx_enqueue start zb config env' s2
                    | Some (WaitGone, s2, env') \<Rightarrow> Some (Inl (RxFail ChannelClosed), s2, env')
                    | Some (WaitElapsed, s2, env') \<Rightarrow>
                        Some (Inr False, s2\<lparr>rx_status := status_set cf (rx_status s2)\<rparr>, env')))))"

definition rx_push :: "bytes \<Rightarrow> rx_push_config \<Rightarrow> (rx \<Rightarrow> rx) list \<Rightarrow> rx \<Rightarrow> bool rx_result" where
  "rx_push b config env s = (case rx_accept b config s of
       (Inl e, s') \<Rightarrow> Some (Inl e, s', env)
     | (Inr None, s') \<Rightarrow> Some (Inr True, s', env)
     | (Inr (Some batch), s') \<Rightarrow> rx_enqueue (rx_clock s') batch config env s')"

section \<open>Pulling\<close>

text \<open>The head is taken out, whatever it is by now, and the pushing side of lane \<open>p\<close> is told.\<close>

definition rx_discard :: "priority \<Rightarrow> (rx, rx_fail, unit) op" where
  "rx_discard p s = (case spsc_pull (rx_ring s) of
       (Inl Uninit, rb) \<Rightarrow> (Inl RxUninit, s\<lparr>rx_ring := rb\<rparr>)
     | (Inr _, rb) \<Rightarrow> (Inr (), s\<lparr>rx_ring := rb,
         rx_can_send := (rx_can_send s)(p := snd (event_notify (rx_can_send s p)))\<rparr>))"

text \<open>The next message of a batch, and the batch moved past it.\<close>

definition read_next :: "read_batch \<Rightarrow> rx_fail + (bytes \<times> read_batch) option" where
  "read_next batch = (case br_seek (rb_pos batch) (bytes_reader (rb_bytes batch)) of
       (False, _) \<Rightarrow> Inr None
     | (True, rd) \<Rightarrow> (case read_bytes br_ops rd of
           (Inl DidntRead, _) \<Rightarrow> Inr None
         | (Inl ReadOob, _) \<Rightarrow> Inl RxPanic
         | (Inr t, rd') \<Rightarrow> Inr (Some (t, batch\<lparr>rb_pos := br_mark rd'\<rparr>))))"

text \<open>One turn of the loop of \<open>try_pull\<close>; \<open>race\<close> is what the pushing task does before the head
  is taken out.\<close>

datatype rx_turn_end = RxGot bytes qos | RxEmpty | RxAgain

definition rx_turn :: "(rx \<Rightarrow> rx) \<Rightarrow> (rx, rx_fail, rx_turn_end) op" where
  "rx_turn race s = (case spsc_peek_mut (rx_ring s) of
       (Inl Uninit, rb) \<Rightarrow> (Inl RxUninit, s\<lparr>rx_ring := rb\<rparr>)
     | (Inr None, rb) \<Rightarrow> (Inr RxEmpty, s\<lparr>rx_ring := rb\<rparr>)
     | (Inr (Some (lane, batch)), rb) \<Rightarrow>
         let p = qos_priority (rb_qos batch); cf = status_congested p;
             is_congested = status_any (rx_status s) cf;
             s1 = s\<lparr>rx_ring := rb, rx_status := status_unset cf (rx_status s)\<rparr>
         in if is_congested \<and> qos_congestion_control (rb_qos batch) = Drop
            then andthen (rx_discard p) (\<lambda>_. ok RxAgain) (race s1)
            else case read_next batch of
                Inl e \<Rightarrow> (Inl e, s1)
              | Inr (Some (t, batch')) \<Rightarrow> (Inr (RxGot t (rb_qos batch)), s1\<lparr>rx_ring := spsc_peek_store lane batch' rb\<rparr>)
              | Inr None \<Rightarrow> andthen (rx_discard p) (\<lambda>_. ok RxAgain) (race s1))"

text \<open>The turns; \<open>races\<close> is for the first of them, and nothing happens in the later ones.\<close>

partial_function (option) rx_try_pull ::
    "(rx \<Rightarrow> rx) list \<Rightarrow> rx \<Rightarrow> ((rx_fail + (bytes \<times> qos) option) \<times> rx) option" where
  "rx_try_pull races s = (case rx_turn (case races of [] \<Rightarrow> id | g # _ \<Rightarrow> g) s of
       (Inl e, s') \<Rightarrow> Some (Inl e, s')
     | (Inr (RxGot t qos), s') \<Rightarrow> Some (Inr (Some (t, qos)), s')
     | (Inr RxEmpty, s') \<Rightarrow> Some (Inr None, s')
     | (Inr RxAgain, s') \<Rightarrow> rx_try_pull (tl races) s')"

text \<open>\<open>pull\<close>: an error of the code is \<open>Timeout\<close> or \<open>Closed\<close>.\<close>

datatype recv_error = RecvTimeout | RecvClosed

partial_function (option) rx_pull :: "nat \<Rightarrow> (rx \<Rightarrow> rx) list \<Rightarrow> rx \<Rightarrow>
    ((rx_fail + (recv_error + (bytes \<times> qos))) \<times> rx \<times> (rx \<Rightarrow> rx) list) option" where
  "rx_pull t env s = Option.bind (rx_try_pull [] s) (\<lambda>(r, s1). case r of
       Inl e \<Rightarrow> Some (Inl e, s1, env)
     | Inr (Some x) \<Rightarrow> Some (Inr (Inr x), s1, env)
     | Inr None \<Rightarrow> (case wait_can_recv (rx_clock s1 + t) env s1 of
           None \<Rightarrow> None
         | Some (WaitOk, s2, env') \<Rightarrow> rx_pull t env' s2
         | Some (WaitGone, s2, env') \<Rightarrow> Some (Inr (Inl RecvClosed), s2, env')
         | Some (WaitElapsed, s2, env') \<Rightarrow> Some (Inr (Inl RecvTimeout), s2, env')))"

end
