(* ===== verification/Codec_Total.thy ===== *)
theory Codec_Total
  imports Codec
begin

text \<open>
  Reading input that nobody encoded: whatever the bytes are, the codecs give a value or refuse
  with \<open>DidntRead\<close>, never reach outside a slice, and leave a reader that can go on.
\<close>

section \<open>Operations that cope with any input\<close>

definition copes :: "'r reader_view \<Rightarrow> ('r, read_err, 'a) op \<Rightarrow> ('a \<Rightarrow> bool) \<Rightarrow> bool" where
  "copes V m P \<longleftrightarrow> (\<forall>r. rv_inv V r \<longrightarrow> (\<exists>r'. m r = (Inl DidntRead, r'))
     \<or> (\<exists>x r'. m r = (Inr x, r') \<and> P x \<and> rv_inv V r' \<and> suffix (rv_pending V r') (rv_pending V r)))"

lemma copesE:
  assumes "copes V m P" "rv_inv V r"
  obtains (refused) r' where "m r = (Inl DidntRead, r')"
    | (parsed) x r' where "m r = (Inr x, r')" "P x" "rv_inv V r'" "suffix (rv_pending V r') (rv_pending V r)"
  using assms unfolding copes_def by blast

text \<open>What parses every input of \<open>n\<close> bytes and starves on less copes with any input.\<close>

lemma copes_parses:
  assumes "\<And>bs. length bs = n \<Longrightarrow> parses V m (P bs) bs" "\<And>bs. length bs = n \<Longrightarrow> starves V m bs"
  shows "copes V m (\<lambda>x. \<exists>bs. length bs = n \<and> P bs x)"
  unfolding copes_def
proof (intro allI impI)
  fix r assume r: "rv_inv V r"
  let ?in = "rv_pending V r"
  show "(\<exists>r'. m r = (Inl DidntRead, r'))
     \<or> (\<exists>x r'. m r = (Inr x, r') \<and> (\<exists>bs. length bs = n \<and> P bs x) \<and> rv_inv V r' \<and> suffix (rv_pending V r') ?in)"
  proof (cases "n \<le> length ?in")
    case True
    then have "length (take n ?in) = n" "?in = take n ?in @ drop n ?in" by simp_all
    then show ?thesis using parsesD [OF assms(1) r] by (metis suffix_drop)
  next
    case False
    then have "strict_prefix ?in (?in @ replicate (n - length ?in) 0)" "length (?in @ replicate (n - length ?in) 0) = n"
      by (simp_all add: strict_prefix_def)
    then show ?thesis using starvesD [OF assms(2) r] by blast
  qed
qed

lemma copes_mono: "copes V m P \<Longrightarrow> (\<And>x. P x \<Longrightarrow> Q x) \<Longrightarrow> copes V m Q"
  unfolding copes_def by blast

lemma copes_ok: "P x \<Longrightarrow> copes V (ok x) P" and copes_err: "copes V (err DidntRead) P"
  by (simp_all add: copes_def)

lemma copes_andthen:
  assumes m: "copes V m P" and f: "\<And>x. P x \<Longrightarrow> copes V (f x) Q"
  shows "copes V (andthen m f) Q"
  unfolding copes_def
proof (intro allI impI)
  fix r assume r: "rv_inv V r"
  show "(\<exists>r'. andthen m f r = (Inl DidntRead, r'))
     \<or> (\<exists>x r'. andthen m f r = (Inr x, r') \<and> Q x \<and> rv_inv V r' \<and> suffix (rv_pending V r') (rv_pending V r))"
    using m r
  proof (cases rule: copesE)
    case (parsed x r')
    show ?thesis
      using f [OF parsed(2)] parsed(3)
    proof (cases rule: copesE)
      case (parsed y r'')
      then have "suffix (rv_pending V r'') (rv_pending V r)" using suffix_order.trans \<open>suffix (rv_pending V r') _\<close> by blast
      then show ?thesis using parsed \<open>m r = (Inr x, r')\<close> by simp
    qed (use \<open>m r = (Inr x, r')\<close> in simp)
  qed simp
qed

lemma copes_map: "copes V m P \<Longrightarrow> (\<And>x. P x \<Longrightarrow> Q (f x)) \<Longrightarrow> copes V (andthen m (\<lambda>x. ok (f x))) Q"
  by (rule copes_andthen [where P = P]) (auto intro: copes_ok simp del: ok_apply)

section \<open>The codecs\<close>

context reader begin

lemma copes_u8: "copes V (r_read_u8 R) (\<lambda>_. True)"
proof (rule copes_mono)
  show "copes V (r_read_u8 R) (\<lambda>x. \<exists>bs. length bs = 1 \<and> (=) (hd bs) x)"
    by (rule copes_parses) (auto simp: length_Suc_conv parses_u8 starves_u8)
qed simp

lemma copes_vle_loop: "copes V (vle_read_loop k R v i b) (\<lambda>_. True)"
  by (induction k arbitrary: v i b) (auto simp: Let_def intro: copes_ok copes_andthen [OF copes_u8] simp del: ok_apply)

lemma copes_u64: "copes V (read_u64 R) (\<lambda>_. True)"
  unfolding read_u64_def by (rule copes_andthen [OF copes_u8 copes_vle_loop])

lemma copes_usize: "copes V (read_usize R) (\<lambda>_. True)" and copes_u32: "copes V (read_u32 R) (\<lambda>_. True)"
  unfolding read_usize_def read_u32_def by (rule copes_map [OF copes_u64], simp)+

lemma copes_exact: "n \<noteq> 0 \<Longrightarrow> copes V (r_read_exact R n) (\<lambda>x. length x = n)"
  by (rule copes_mono [OF copes_parses [where P = "(=)" and n = n]]) (auto simp: parses_exact starves_exact)

lemma copes_chunks: "n \<noteq> 0 \<Longrightarrow> copes V (r_read_chunks R n) (\<lambda>cs. chunks_wf cs)"
proof (rule copes_mono)
  show "n \<noteq> 0 \<Longrightarrow> copes V (r_read_chunks R n) (\<lambda>x. \<exists>bs. length bs = n \<and> chunks_hold bs x)"
    by (rule copes_parses) (auto simp: parses_chunks starves_chunks)
qed (auto simp: chunks_hold_content)

lemma copes_seq_num: "copes V (read_seq_num R) sn_wf"
  unfolding read_seq_num_def by (rule copes_map [OF copes_u32]) simp

lemma copes_byte: "copes V (read_u8 R) (\<lambda>_. True)"
  by (simp add: read_u8_def copes_u8)

lemma copes_message: "copes V (read_message R) (\<lambda>m. sn_wf (mh_seq_num (ms_header m)))"
  unfolding read_message_def read_message_header_def read_message_body_def read_frame_header_with_def
    read_fragment_header_with_def
  by (rule copes_andthen [where P = "\<lambda>h. sn_wf (mh_seq_num h)"])
    (auto intro!: copes_andthen [OF copes_byte] copes_map [OF copes_seq_num] copes_map [where P = "\<lambda>_. True"] copes_err
        copes_ok copes_mono [OF copes_seq_num] simp: message_header_from_parts_def simp del: ok_apply err_apply)

lemma copes_read_bytes: "copes V (read_bytes R) (\<lambda>b. bytes_wf b \<and> bytes_dense b)"
  unfolding read_bytes_def
proof (rule copes_andthen [OF copes_usize])
  fix n
  let ?P = "\<lambda>b. bytes_wf b \<and> bytes_dense b"
  let ?slow = "andthen (r_read_chunks R n) (\<lambda>cs. ok (bytes_extend bytes_new cs))"
  show "copes V (if n = 0 then ok bytes_new
        else (\<lambda>r. case r_read_chunk_contiguous R n r of
            (Inr c, r') \<Rightarrow> (Inr (bytes_single c), r')
          | (Inl _, r') \<Rightarrow> ?slow r')) ?P"
  proof (cases "n = 0")
    case True
    then show ?thesis by (simp add: copes_ok del: ok_apply)
  next
    case False
    have slow: "copes V ?slow ?P"
      using bytes_extend_laws [OF bytes_new_laws(1)] by (intro copes_map [OF copes_chunks [OF False]]) simp
    show ?thesis
      unfolding copes_def
    proof (intro allI impI)
      fix r assume r: "rv_inv V r"
      from contiguous [OF r False]
      consider (fast) c r' where "r_read_chunk_contiguous R n r = (Inr c, r')" "chunk_wf c" "rv_inv V r'"
            "n \<le> length (rv_pending V r)" "chunk_as_slice c = take n (rv_pending V r)"
            "rv_pending V r' = drop n (rv_pending V r)"
        | (slow) "r_read_chunk_contiguous R n r = (Inl DidntRead, r)" by blast
      then show "(\<exists>r'. (if n = 0 then ok bytes_new
            else (\<lambda>r. case r_read_chunk_contiguous R n r of
                (Inr c, r') \<Rightarrow> (Inr (bytes_single c), r') | (Inl _, r') \<Rightarrow> ?slow r')) r = (Inl DidntRead, r'))
          \<or> (\<exists>x r'. (if n = 0 then ok bytes_new
            else (\<lambda>r. case r_read_chunk_contiguous R n r of
                (Inr c, r') \<Rightarrow> (Inr (bytes_single c), r') | (Inl _, r') \<Rightarrow> ?slow r')) r = (Inr x, r')
            \<and> ?P x \<and> rv_inv V r' \<and> suffix (rv_pending V r') (rv_pending V r))"
      proof cases
        case fast
        have "chunk_as_slice c \<noteq> []" using fast(4,5) False by auto
        then have "chunk_len c \<noteq> 0" using fast(2) chunk_as_slice_nil_iff by auto
        then have "?P (bytes_single c)" using fast(2) by (simp add: bytes_dense_def) (simp add: bytes_single_def)
        then show ?thesis using fast False by (simp add: suffix_drop)
      next
        case slow': slow
        then show ?thesis using False by (cases rule: copesE [OF slow r]) auto
      qed
    qed
  qed
qed

end

end
