(* ===== verification/Rx_Laws.thy ===== *)
theory Rx_Laws
  imports Pipeline_Rx Packets Codec_Total Ringbuf_Channels
begin

text \<open>
  What the steps of the reception pipeline do: reading the next message of a batch, putting
  fragments together, accepting a batch from the network.  Each is shown to cope with any
  bytes, and to do on packets what \<open>feed\<close> specifies.
\<close>

section \<open>The batch that is being read\<close>

definition rb_reader :: "read_batch \<Rightarrow> bytes_reader" where
  "rb_reader b = \<lparr>br_inner = rb_bytes b, br_cursor = rb_pos b\<rparr>"

definition rb_wf :: "read_batch \<Rightarrow> bool" where
  "rb_wf b \<longleftrightarrow> rv_inv (br_view (rb_bytes b)) (rb_reader b)"

definition rb_left :: "read_batch \<Rightarrow> u8 list" where
  "rb_left b = br_pending (rb_reader b)"

lemma rb_wf_zero [simp]:
  "bytes_wf b \<Longrightarrow> bytes_dense b \<Longrightarrow> rb_wf \<lparr>rb_bytes = b, rb_qos = q, rb_pos = bytes_pos_zero\<rparr>"
  "rb_left \<lparr>rb_bytes = b, rb_qos = q, rb_pos = bytes_pos_zero\<rparr> = bytes_content b"
proof -
  have "rb_reader \<lparr>rb_bytes = b, rb_qos = q, rb_pos = bytes_pos_zero\<rparr> = bytes_reader b"
    by (simp add: rb_reader_def bytes_reader_def bytes_pos_zero_def)
  then show "bytes_wf b \<Longrightarrow> bytes_dense b \<Longrightarrow> rb_wf \<lparr>rb_bytes = b, rb_qos = q, rb_pos = bytes_pos_zero\<rparr>"
      "rb_left \<lparr>rb_bytes = b, rb_qos = q, rb_pos = bytes_pos_zero\<rparr> = bytes_content b"
    by (simp_all add: rb_wf_def rb_left_def br_view_inv)
qed

lemma rb_at_mark:
  assumes "rv_inv (br_view b) rd"
  shows "rb_wf (x\<lparr>rb_bytes := b, rb_pos := br_mark rd\<rparr>)" "rb_left (x\<lparr>rb_bytes := b, rb_pos := br_mark rd\<rparr>) = br_pending rd"
proof -
  have "rb_reader (x\<lparr>rb_bytes := b, rb_pos := br_mark rd\<rparr>) = rd"
    using assms by (cases rd) (simp add: rb_reader_def br_mark_def br_view_inv)
  then show "rb_wf (x\<lparr>rb_bytes := b, rb_pos := br_mark rd\<rparr>)" "rb_left (x\<lparr>rb_bytes := b, rb_pos := br_mark rd\<rparr>) = br_pending rd"
    using assms by (simp_all add: rb_wf_def rb_left_def)
qed

text \<open>Seeking fails, or gives the reader of the batch.\<close>

lemma rb_seek:
  assumes "rb_wf b"
  shows "(\<exists>rd. br_seek (rb_pos b) (bytes_reader (rb_bytes b)) = (False, rd) \<and> rb_left b = [])
    \<or> br_seek (rb_pos b) (bytes_reader (rb_bytes b)) = (True, rb_reader b)"
proof (cases "rb_left b = []")
  case False
  have "br_ok (rb_reader b)" "br_inner (bytes_reader (rb_bytes b)) = br_inner (rb_reader b)"
    using assms by (simp_all add: rb_wf_def br_view_inv rb_reader_def)
  from br_seek_mark [OF this] False show ?thesis
    by (simp add: rb_left_def br_mark_def rb_reader_def bytes_reader_def)
next
  case True
  have "br_ok (bytes_reader (rb_bytes b))"
    using assms by (intro br_ok_reader) (simp add: rb_wf_def br_view_inv br_ok_def rb_reader_def)
  from br_seek_spec [OF this, of "rb_pos b"] True show ?thesis
    by (auto simp: rb_reader_def bytes_reader_def split: prod.splits bool.splits)
qed

lemma rb_inv: "rb_wf b \<Longrightarrow> rv_inv (br_view (rb_bytes b)) (rb_reader b)"
  by (simp add: rb_wf_def)

lemma read_next_total:
  assumes "rb_wf b"
  shows "read_next b = Inr None \<or> (\<exists>t b'. read_next b = Inr (Some (t, b')) \<and> bytes_wf t \<and> bytes_dense t
    \<and> rb_wf b' \<and> rb_qos b' = rb_qos b)"
  using rb_seek [OF assms]
proof
  assume "\<exists>rd. br_seek (rb_pos b) (bytes_reader (rb_bytes b)) = (False, rd) \<and> rb_left b = []"
  then show ?thesis by (auto simp: read_next_def)
next
  assume s: "br_seek (rb_pos b) (bytes_reader (rb_bytes b)) = (True, rb_reader b)"
  show ?thesis
    using bytes_r.copes_read_bytes rb_inv [OF assms]
  proof (cases rule: copesE)
    case (refused r')
    then show ?thesis using s by (simp add: read_next_def)
  next
    case (parsed t r')
    have "b\<lparr>rb_pos := br_mark r'\<rparr> = b\<lparr>rb_bytes := rb_bytes b, rb_pos := br_mark r'\<rparr>" by simp
    then show ?thesis using s parsed rb_at_mark(1) [OF parsed(3), of b] by (simp add: read_next_def)
  qed
qed

lemma read_next_message:
  assumes "rb_wf b" "rb_left b = enc_slice m @ rest" "length m < 2 ^ 64"
  shows "\<exists>t b'. read_next b = Inr (Some (t, b')) \<and> bytes_content t = m \<and> bytes_wf t \<and> bytes_dense t
    \<and> rb_wf b' \<and> rb_left b' = rest \<and> rb_qos b' = rb_qos b"
proof -
  have s: "br_seek (rb_pos b) (bytes_reader (rb_bytes b)) = (True, rb_reader b)"
    using rb_seek [OF assms(1)] assms(2) by auto
  obtain t r' where t: "read_bytes br_ops (rb_reader b) = (Inr t, r')" "bytes_wf t \<and> bytes_dense t \<and> bytes_content t = m"
      "rv_inv (br_view (rb_bytes b)) r'" "br_pending r' = rest"
    using parsesD [OF bytes_r.parses_read_bytes [OF assms(3)] rb_inv [OF assms(1)], of rest] assms(2)
    by (auto simp: rb_left_def br_view_inv(2))
  have "b\<lparr>rb_pos := br_mark r'\<rparr> = b\<lparr>rb_bytes := rb_bytes b, rb_pos := br_mark r'\<rparr>" by simp
  then show ?thesis using s t rb_at_mark [OF t(3), of b] by (simp add: read_next_def)
qed

lemma read_next_end:
  assumes "rb_wf b" "rb_left b = []"
  shows "read_next b = Inr None"
  using rb_seek [OF assms(1)]
proof
  assume s: "br_seek (rb_pos b) (bytes_reader (rb_bytes b)) = (True, rb_reader b)"
  have "strict_prefix (rv_pending (br_view (rb_bytes b)) (rb_reader b)) (vle (of_nat 0))"
    using assms(2) vle_ne [symmetric] by (simp add: rb_left_def br_view_inv(2) strict_prefix_def)
  from starvesD [OF bytes_r.starves_usize rb_inv [OF assms(1)] this]
  obtain r' where "read_usize br_ops (rb_reader b) = (Inl DidntRead, r')" by blast
  then have "read_bytes br_ops (rb_reader b) = (Inl DidntRead, r')" by (simp add: read_bytes_def)
  then show ?thesis using s by (simp add: read_next_def)
qed (auto simp: read_next_def)

section \<open>Reassembly\<close>

definition defrag_wf :: "defrag_buffer \<Rightarrow> bool" where
  "defrag_wf d \<longleftrightarrow> bytes_wf (db_buffer d) \<and> bytes_dense (db_buffer d)"

text \<open>The buffer as the specification has it.\<close>

definition defrag_abs :: "defrag_buffer \<Rightarrow> defrag" where
  "defrag_abs d = \<lparr>df_seq_num = db_seq_num d, df_frag_id = db_frag_id d, df_buffer = bytes_content (db_buffer d)\<rparr>"

lemma defrag_new_laws [simp]:
  "defrag_wf defrag_new" "defrag_abs defrag_new = \<lparr>df_seq_num = sn_new 0, df_frag_id = sn_new 0, df_buffer = []\<rparr>"
  by (simp_all add: defrag_wf_def defrag_abs_def defrag_new_def)

lemma defrag_clear_laws [simp]:
  "defrag_wf (defrag_clear d)" "defrag_abs (defrag_clear d) = (defrag_abs d)\<lparr>df_buffer := []\<rparr>"
  "defrag_wf (defrag_sync sn i d) = defrag_wf d"
  "defrag_abs (defrag_sync sn i d) = (defrag_abs d)\<lparr>df_seq_num := sn, df_frag_id := i\<rparr>"
  by (simp_all add: defrag_wf_def defrag_abs_def defrag_clear_def defrag_sync_def bytes_clear_laws)

lemma defrag_extend_laws:
  assumes "defrag_wf d" "bytes_wf v" "bytes_dense v"
  shows "frag_fits cap (defrag_abs d) sn i (bytes_content v) \<Longrightarrow> \<exists>d'. defrag_extend sn i v cap d = (Inr (), d')
      \<and> defrag_wf d' \<and> defrag_abs d' = (defrag_abs d)\<lparr>df_seq_num := sn_next sn, df_buffer := df_buffer (defrag_abs d) @ bytes_content v\<rparr>"
    and "\<not> frag_fits cap (defrag_abs d) sn i (bytes_content v) \<Longrightarrow>
      \<exists>e \<in> {InvalidSeqNum, InvalidFragId, CapacityLimit}. defrag_extend sn i v cap d = (Inl (RxFail e), d)"
proof -
  have c: "chunks_wf (chunks_of v)" using assms(2) by (simp add: bytes_wf_def)
  have l: "bytes_len (db_buffer d) + bytes_len v = length (bytes_content (db_buffer d)) + length (bytes_content v)"
    using assms by (simp add: bytes_len_content defrag_wf_def)
  note e = bytes_extend_laws [of "db_buffer d", OF _ c]
  show "frag_fits cap (defrag_abs d) sn i (bytes_content v) \<Longrightarrow> \<exists>d'. defrag_extend sn i v cap d = (Inr (), d')
      \<and> defrag_wf d' \<and> defrag_abs d' = (defrag_abs d)\<lparr>df_seq_num := sn_next sn, df_buffer := df_buffer (defrag_abs d) @ bytes_content v\<rparr>"
    using e assms(1) l by (auto simp: frag_fits_def defrag_abs_def defrag_extend_def defrag_wf_def bytes_content_def Let_def)
  show "\<not> frag_fits cap (defrag_abs d) sn i (bytes_content v) \<Longrightarrow>
      \<exists>e \<in> {InvalidSeqNum, InvalidFragId, CapacityLimit}. defrag_extend sn i v cap d = (Inl (RxFail e), d)"
    using l by (auto simp: frag_fits_def defrag_abs_def defrag_extend_def Let_def)
qed

lemma bytes_view_from_laws:
  assumes "bytes_wf b" "bytes_dense b" "start \<le> bytes_len b"
  shows "\<exists>v. bytes_view_from start b d = (Inr v, d) \<and> bytes_wf v \<and> bytes_dense v \<and> bytes_content v = drop start (bytes_content b)"
  using bytes_view_Some [OF assms(1), of "range_from start"] assms
  by (auto simp: bytes_view_from_def bytes_len_content)

definition reassembly_errors :: "rx_error set" where
  "reassembly_errors = {InvalidSeqNum, InvalidFragId, CapacityLimit}"

text \<open>A fragment does to the buffer what \<open>feed\<close> says.\<close>

lemma push_fragment_feed:
  assumes "bytes_wf b" "bytes_dense b" "start \<le> bytes_len b" "defrag_wf d" "D (qos_congestion_control q) = defrag_abs d"
  shows "\<exists>r d'. push_fragment k sn i b start cap d = (r, d') \<and> defrag_wf d'
    \<and> snd (feed cap D (PkFrag q sn k i (drop start (bytes_content b)))) = D(qos_congestion_control q := defrag_abs d')
    \<and> (case fst (feed cap D (PkFrag q sn k i (drop start (bytes_content b)))) of
         None \<Rightarrow> r = Inr None \<or> (\<exists>e \<in> reassembly_errors. r = Inl (RxFail e))
       | Some x \<Rightarrow> \<exists>m. r = Inr (Some m) \<and> bytes_wf m \<and> bytes_dense m \<and> x = (q, bytes_content m))"
proof -
  let ?bs = "drop start (bytes_content b)"
  obtain v where v: "\<And>d. bytes_view_from start b d = (Inr v, d)" "bytes_wf v" "bytes_dense v" "bytes_content v = ?bs"
    using bytes_view_from_laws [OF assms(1-3), of d] by (auto simp: bytes_view_from_def split: option.splits)
  have fu: "D = D(qos_congestion_control q := defrag_abs d)" using assms(5) by (metis fun_upd_triv)
  show ?thesis
  proof (cases k)
    case First
    let ?d = "defrag_sync sn i (defrag_clear d)"
    have wf: "defrag_wf ?d" by simp
    have ad: "defrag_abs ?d = \<lparr>df_seq_num = sn, df_frag_id = i, df_buffer = []\<rparr>" by (cases "defrag_abs d") simp
    have fits: "frag_fits cap (defrag_abs ?d) sn i ?bs \<longleftrightarrow> length ?bs \<le> cap" by (simp add: frag_fits_def)
    show ?thesis
    proof (cases "length ?bs \<le> cap")
      case True
      then show ?thesis
        using defrag_extend_laws(1) [OF wf v(2,3), of cap sn i] fits First v ad
        by (cases "defrag_abs d") (auto simp: push_fragment_def Let_def)
    next
      case False
      then show ?thesis
        using defrag_extend_laws(2) [OF wf v(2,3), of cap sn i] fits First v ad
        by (cases "defrag_abs d") (auto simp: push_fragment_def Let_def reassembly_errors_def)
    qed
  next
    case More
    show ?thesis
    proof (cases "frag_fits cap (defrag_abs d) sn i ?bs")
      case True
      then show ?thesis
        using defrag_extend_laws(1) [OF assms(4) v(2,3), of cap sn i] More v assms(5)
        by (auto simp: push_fragment_def Let_def)
    next
      case False
      then show ?thesis
        using defrag_extend_laws(2) [OF assms(4) v(2,3), of cap sn i] More v assms(5)
        by (auto simp: push_fragment_def Let_def reassembly_errors_def)
    qed
  next
    case Last
    show ?thesis
    proof (cases "frag_fits cap (defrag_abs d) sn i ?bs")
      case True
      then obtain d1 where "defrag_extend sn i v cap d = (Inr (), d1)" "defrag_wf d1"
          "defrag_abs d1 = (defrag_abs d)\<lparr>df_seq_num := sn_next sn, df_buffer := df_buffer (defrag_abs d) @ ?bs\<rparr>"
        using defrag_extend_laws(1) [OF assms(4) v(2,3), of cap sn i] v(4) by auto
      then show ?thesis
        using Last v True assms(5)
        by (auto simp: push_fragment_def Let_def defrag_take_def defrag_wf_def defrag_abs_def)
    next
      case False
      then show ?thesis
        using defrag_extend_laws(2) [OF assms(4) v(2,3), of cap sn i] Last v assms(4,5) fu
        by (auto simp: push_fragment_def Let_def reassembly_errors_def)
    qed
  qed
qed

section \<open>Accepting a batch\<close>

definition rx_buffers :: "priority \<Rightarrow> rx \<Rightarrow> defrags" where
  "rx_buffers p s = (\<lambda>c. defrag_abs (rx_defrag c p s))"

definition defrags_wf :: "rx \<Rightarrow> bool" where
  "defrags_wf s \<longleftrightarrow> (\<forall>c p. defrag_wf (rx_defrag c p s))"

lemma rx_defrag_set_simps [simp]:
  "rx_defrag c p (rx_defrag_set c' p' d s) = (if c = c' \<and> p = p' then d else rx_defrag c p s)"
  "rx_ring (rx_defrag_set c' p' d s) = rx_ring s" "rx_can_recv (rx_defrag_set c' p' d s) = rx_can_recv s"
  "rx_can_send (rx_defrag_set c' p' d s) = rx_can_send s" "rx_status (rx_defrag_set c' p' d s) = rx_status s"
  "rx_clock (rx_defrag_set c' p' d s) = rx_clock s"
  by (cases c; cases c'; simp)+

lemma rx_buffers_set: "rx_buffers p (rx_defrag_set c p' d s) = (if p = p' then (rx_buffers p s)(c := defrag_abs d) else rx_buffers p s)"
  by (auto simp: rx_buffers_def)

text \<open>What accepting leaves alone.\<close>

definition accept_frame :: "rx \<Rightarrow> rx \<Rightarrow> bool" where
  "accept_frame s s' \<longleftrightarrow> rx_ring s' = rx_ring s \<and> rx_can_recv s' = rx_can_recv s \<and> rx_can_send s' = rx_can_send s
     \<and> rx_status s' = rx_status s \<and> rx_clock s' = rx_clock s"

lemma accept_frame_simps [simp]: "accept_frame s s" "accept_frame s (rx_defrag_set c p d s)"
  by (simp_all add: accept_frame_def)

lemma accept_fragment:
  fixes config :: rx_push_config
  assumes "read_message br_ops (bytes_reader b) = (Inr m, rd)" "ms_body m = Fragment f" "fragment_kind_of f = Some k"
    and b: "bytes_wf b" "bytes_dense b" and rd: "rv_inv (br_view b) rd" and s: "defrags_wf s"
  defines "q \<equiv> message_header_qos (ms_header m)"
  defines "fd \<equiv> feed (rc_frag_max_size config) (rx_buffers (qos_priority q) s)
    (PkFrag q (mh_seq_num (ms_header m)) k (fg_frag_id f) (br_pending rd))"
  shows "\<exists>r s'. rx_accept b config s = (r, s') \<and> accept_frame s s' \<and> defrags_wf s'
    \<and> rx_buffers (qos_priority q) s' = snd fd \<and> (\<forall>p. p \<noteq> qos_priority q \<longrightarrow> rx_buffers p s' = rx_buffers p s)
    \<and> (case fst fd of None \<Rightarrow> r = Inr None \<or> (\<exists>e \<in> reassembly_errors. r = Inl (RxFail e))
       | Some x \<Rightarrow> \<exists>batch. r = Inr (Some batch) \<and> rb_wf batch \<and> x = (rb_qos batch, rb_left batch) \<and> rb_qos batch = q)"
proof -
  let ?c = "qos_congestion_control q" and ?p = "qos_priority q"
  let ?start = "bytes_len b - br_remaining rd"
  have len: "br_remaining rd = length (br_pending rd)" "length (br_pending rd) \<le> length (bytes_content b)"
    using rd by (simp_all add: br_view_inv br_remaining_pending br_pending_def pending_def bytes_content_def)
  have "br_pending rd = drop ?start (bytes_content b)"
  proof -
    have "br_pending rd = drop (br_offset rd) (bytes_content b)"
      using rd by (simp add: br_view_inv br_pending_def br_offset_def pending_def bytes_content_def)
    then show ?thesis using len bytes_len_content [OF b(1)] by (metis length_drop diff_diff_cancel drop_all
        linorder_le_cases diff_is_0_eq' list.size(3) diff_zero)
  qed
  then have fd: "fd = feed (rc_frag_max_size config) (rx_buffers ?p s)
      (PkFrag q (mh_seq_num (ms_header m)) k (fg_frag_id f) (drop ?start (bytes_content b)))"
    by (simp add: fd_def)
  have "defrag_wf (rx_defrag ?c ?p s)" "rx_buffers ?p s ?c = defrag_abs (rx_defrag ?c ?p s)"
    using s by (simp_all add: defrags_wf_def rx_buffers_def)
  from push_fragment_feed [where D = "rx_buffers ?p s" and q = q and start = ?start
      and k = k and sn = "mh_seq_num (ms_header m)" and i = "fg_frag_id f" and cap = "rc_frag_max_size config", OF b diff_le_self this, folded fd]
  obtain r d where rd': "push_fragment k (mh_seq_num (ms_header m)) (fg_frag_id f) b ?start (rc_frag_max_size config) (rx_defrag ?c ?p s) = (r, d)"
      "defrag_wf d" "snd fd = (rx_buffers ?p s)(?c := defrag_abs d)"
      "case fst fd of None \<Rightarrow> r = Inr None \<or> (\<exists>e \<in> reassembly_errors. r = Inl (RxFail e))
       | Some x \<Rightarrow> \<exists>m. r = Inr (Some m) \<and> bytes_wf m \<and> bytes_dense m \<and> x = (q, bytes_content m)"
    by (elim exE conjE) (rule that)
  have "rx_accept b config s = (case r of
        Inl e \<Rightarrow> Inl e
      | Inr None \<Rightarrow> Inr None
      | Inr (Some bs) \<Rightarrow> Inr (Some \<lparr>rb_bytes = bs, rb_qos = q, rb_pos = bytes_pos_zero\<rparr>), rx_defrag_set ?c ?p d s)"
    using assms(1-3) rd'(1) unfolding q_def by (simp add: rx_accept_def Let_def)
  moreover have "defrags_wf (rx_defrag_set ?c ?p d s)" using s rd'(2) by (simp add: defrags_wf_def)
  ultimately show ?thesis
    using rd'(3,4) by (auto simp: rx_buffers_set split: option.splits)
qed

lemma accept_frame_body:
  assumes "read_message br_ops (bytes_reader b) = (Inr m, rd)" "ms_body m = Frame f" and rd: "rv_inv (br_view b) rd"
  defines "q \<equiv> message_header_qos (ms_header m)"
  shows "\<exists>batch. rx_accept b config s = (Inr (Some batch), s) \<and> rb_wf batch \<and> rb_qos batch = q \<and> rb_left batch = br_pending rd"
proof -
  let ?batch = "\<lparr>rb_bytes = b, rb_qos = q, rb_pos = br_mark rd\<rparr>"
  have "?batch = ?batch\<lparr>rb_bytes := b, rb_pos := br_mark rd\<rparr>" by simp
  then have "rb_wf ?batch \<and> rb_left ?batch = br_pending rd" using rb_at_mark [OF rd, of ?batch] by metis
  then show ?thesis using assms(1,2) by (simp add: rx_accept_def q_def)
qed

text \<open>A packet.\<close>

lemma rx_accept_packet:
  fixes config :: rx_push_config
  assumes "bytes_content b = enc_packet pk" "pk_wf pk" and b: "bytes_wf b" "bytes_dense b" and s: "defrags_wf s"
  defines "p \<equiv> qos_priority (pk_qos pk)"
  defines "fd \<equiv> feed (rc_frag_max_size config) (rx_buffers p s) pk"
  shows "\<exists>r s'. rx_accept b config s = (r, s') \<and> accept_frame s s' \<and> defrags_wf s'
    \<and> rx_buffers p s' = snd fd \<and> (\<forall>q. q \<noteq> p \<longrightarrow> rx_buffers q s' = rx_buffers q s)
    \<and> (case fst fd of None \<Rightarrow> r = Inr None \<or> (\<exists>e \<in> reassembly_errors. r = Inl (RxFail e))
       | Some x \<Rightarrow> \<exists>batch. r = Inr (Some batch) \<and> rb_wf batch \<and> x = (rb_qos batch, rb_left batch) \<and> qos_priority (rb_qos batch) = p)"
proof -
  have inv: "rv_inv (br_view b) (bytes_reader b)" "rv_pending (br_view b) (bytes_reader b) = enc_message (pk_message pk) @ pk_body pk"
    using b assms(1) by (simp_all add: br_view_inv enc_packet_def)
  obtain rd where rd: "read_message br_ops (bytes_reader b) = (Inr (pk_message pk), rd)" "rv_inv (br_view b) rd" "br_pending rd = pk_body pk"
    using parsesD [OF bytes_r.parses_message inv] assms(2) by (auto simp: pk_wf_def br_view_inv(2))
  show ?thesis
  proof (cases pk)
    case (PkFrame q sn ms)
    have "message_header_qos (ms_header (pk_message pk)) = q" "ms_body (pk_message pk) = Frame frame_new"
      using PkFrame by (simp_all add: message_new_def)
    from accept_frame_body [OF rd(1) this(2) rd(2), of config s] this(1) PkFrame rd(3) s show ?thesis
      by (auto simp: p_def fd_def)
  next
    case (PkFrag q sn k i bs)
    have m: "message_header_qos (ms_header (pk_message pk)) = q" "ms_body (pk_message pk) = Fragment (fragment_new k i)"
        "mh_seq_num (ms_header (pk_message pk)) = sn"
      using PkFrag by (simp_all add: message_new_def)
    have bs: "br_pending rd = bs" "qos_priority q = p"
        "feed (rc_frag_max_size config) (rx_buffers p s) (PkFrag q sn k i bs) = fd"
      using rd(3) PkFrag by (simp_all add: p_def fd_def del: feed.simps)
    note af = accept_fragment [OF rd(1) m(2) fragment_new_kind b rd(2) s, of config, unfolded m fragment_new_simps bs]
    obtain r s' where r: "rx_accept b config s = (r, s')" "accept_frame s s'" "defrags_wf s'" "rx_buffers p s' = snd fd"
        "\<forall>p'. p' \<noteq> p \<longrightarrow> rx_buffers p' s' = rx_buffers p' s"
        "case fst fd of None \<Rightarrow> r = Inr None \<or> (\<exists>e \<in> reassembly_errors. r = Inl (RxFail e))
         | Some x \<Rightarrow> \<exists>batch. r = Inr (Some batch) \<and> rb_wf batch \<and> x = (rb_qos batch, rb_left batch) \<and> rb_qos batch = q"
      using af by (elim exE conjE) (rule that)
    then show ?thesis using PkFrag by (auto simp: p_def split: option.splits)
  qed
qed

text \<open>Any bytes at all: an error of the code, nothing, or a batch that can be read; or a fragment
  kind that does not exist.\<close>

definition accept_errors :: "rx_error set" where
  "accept_errors = insert DecodingFailed reassembly_errors"

lemma rx_accept_total:
  assumes b: "bytes_wf b" "bytes_dense b" and s: "defrags_wf s"
  shows "\<exists>r s'. rx_accept b config s = (r, s') \<and> accept_frame s s' \<and> defrags_wf s'
    \<and> (r = Inl RxNoKind \<or> (\<exists>e \<in> accept_errors. r = Inl (RxFail e)) \<or> r = Inr None \<or> (\<exists>batch. r = Inr (Some batch) \<and> rb_wf batch))"
proof -
  have inv: "rv_inv (br_view b) (bytes_reader b)" using b by (simp add: br_view_inv)
  show ?thesis
    using bytes_r.copes_message inv
  proof (cases rule: copesE)
    case (refused r')
    then show ?thesis using s by (auto simp: rx_accept_def accept_errors_def)
  next
    case (parsed m rd)
    show ?thesis
    proof (cases "ms_body m")
      case (Frame f)
      from accept_frame_body [OF parsed(1) Frame parsed(3), of config s] show ?thesis using s by auto
    next
      case (Fragment f)
      show ?thesis
      proof (cases "fragment_kind_of f")
        case None
        then show ?thesis using parsed(1) Fragment s by (auto simp: rx_accept_def Let_def)
      next
        case (Some k)
        from accept_fragment [OF parsed(1) Fragment Some b parsed(3) s, of config] show ?thesis
          by (auto simp: accept_errors_def split: option.splits)
      qed
    qed
  qed
qed

end
