(* ===== verification/Rx_System.thy ===== *)
theory Rx_System
  imports Rx_Laws
begin

text \<open>
  The reception pipeline as a whole: the turns of a pull over the four queues, pushes that wait
  for room, and runs of pushes and pulls, with the invariant that ties what was pulled to what
  was pushed.
\<close>

section \<open>The invariant of the state\<close>

definition rx_ok :: "nat \<Rightarrow> rx \<Rightarrow> read_batch queues \<Rightarrow> bool" where
  "rx_ok k s Q \<longleftrightarrow> spsc_inv k (rx_ring s) Q \<and> defrags_wf s
     \<and> (\<forall>p. \<forall>b \<in> set (Q p). rb_wf b \<and> qos_priority (rb_qos b) = p)"

definition rx_calm :: "rx \<Rightarrow> bool" where
  "rx_calm s \<longleftrightarrow> (\<forall>p. \<not> status_any (rx_status s) (status_congested p))"

text \<open>What a pull leaves alone.\<close>

definition rx_frame :: "rx \<Rightarrow> rx \<Rightarrow> bool" where
  "rx_frame s s' \<longleftrightarrow> rx_block s' = rx_block s \<and> rx_drop s' = rx_drop s \<and> rx_clock s' = rx_clock s
     \<and> rx_can_recv s' = rx_can_recv s \<and> (rx_calm s \<longrightarrow> rx_calm s')"

lemma rx_frame_refl: "rx_frame s s"
  and rx_frame_trans: "rx_frame s s' \<Longrightarrow> rx_frame s' s'' \<Longrightarrow> rx_frame s s''"
  by (simp_all add: rx_frame_def)

lemma rx_frame_buffers:
  assumes "rx_block s' = rx_block s" "rx_drop s' = rx_drop s"
  shows "rx_defrag c p s' = rx_defrag c p s" "rx_buffers p s' = rx_buffers p s" "defrags_wf s' = defrags_wf s"
proof -
  show d: "rx_defrag c p s' = rx_defrag c p s" for c p using assms by (cases c) simp_all
  show "rx_buffers p s' = rx_buffers p s" "defrags_wf s' = defrags_wf s" by (simp_all add: d rx_buffers_def defrags_wf_def)
qed

lemma rx_ok_cong:
  assumes "rx_ring s' = rx_ring s" "rx_block s' = rx_block s" "rx_drop s' = rx_drop s"
  shows "rx_ok k s' Q = rx_ok k s Q"
  using assms rx_frame_buffers(3) [OF assms(2,3)] by (simp add: rx_ok_def)

lemma rx_okD: "rx_ok k s Q \<Longrightarrow> b \<in> set (Q p) \<Longrightarrow> rb_wf b \<and> qos_priority (rb_qos b) = p"
  by (simp add: rx_ok_def)

lemma rx_ok_lane:
  assumes "rx_ok k s Q" "rx_block s' = rx_block s" "rx_drop s' = rx_drop s" "spsc_inv k (rx_ring s') (Q(p := bs))"
    "\<And>b. b \<in> set bs \<Longrightarrow> rb_wf b \<and> qos_priority (rb_qos b) = p"
  shows "rx_ok k s' (Q(p := bs))"
  using assms rx_frame_buffers(3) [OF assms(2,3)] by (simp add: rx_ok_def)

lemma rx_calm_unset: "rx_calm s \<Longrightarrow> rx_calm (s\<lparr>rx_status := status_unset (status_congested p) (rx_status s)\<rparr>)"
  using status_any_laws(2) [of "Congested p" "rx_status s" "Congested _"] by (simp add: rx_calm_def)

lemma rx_calm_upd [simp]:
  "rx_calm (s\<lparr>rx_ring := rb\<rparr>) = rx_calm s" "rx_calm (s\<lparr>rx_can_recv := f\<rparr>) = rx_calm s"
  "rx_calm (s\<lparr>rx_can_send := g\<rparr>) = rx_calm s" "rx_calm (s\<lparr>rx_clock := c\<rparr>) = rx_calm s"
  by (simp_all add: rx_calm_def)

section \<open>Pulling\<close>

text \<open>A batch that a turn of a pull throws away: nothing is left in it, or its lane is congested
  and it may be dropped.\<close>

definition discardable :: "rx \<Rightarrow> read_batch \<Rightarrow> bool" where
  "discardable s b \<longleftrightarrow> read_next b = Inr None
     \<or> (status_any (rx_status s) (status_congested (qos_priority (rb_qos b))) \<and> qos_congestion_control (rb_qos b) = Drop)"

lemma discardable_calm: "rx_calm s \<Longrightarrow> discardable s b \<Longrightarrow> read_next b = Inr None"
  by (simp add: discardable_def rx_calm_def)

lemma rx_discard_spec:
  assumes "rx_ok k s Q" "Q p = b # bs" "\<And>q. p < q \<Longrightarrow> Q q = []"
  shows "\<exists>s'. rx_discard p s = (Inr (), s') \<and> rx_ok k s' (Q(p := bs)) \<and> rx_frame s s' \<and> rx_status s' = rx_status s"
proof -
  have inv: "spsc_inv k (rx_ring s) Q" using assms(1) by (simp add: rx_ok_def)
  have abs: "abs_pull Q = (Some b, Q(p := bs))"
  proof (cases rule: abs_queues_cases [of Q])
    case empty
    then show ?thesis using assms(2) by simp
  next
    case (head q x xs)
    then have "q = p" using assms(2,3) by (metis linorder_neqE list.distinct(1))
    then show ?thesis using head assms(2) by simp
  qed
  obtain rb where rb: "spsc_pull (rx_ring s) = (Inr (Some b), rb)" "spsc_inv k rb (Q(p := bs))"
    using spsc_pull_law [OF inv] abs by auto
  let ?s = "s\<lparr>rx_ring := rb, rx_can_send := (rx_can_send s)(p := snd (event_notify (rx_can_send s p)))\<rparr>"
  have "rx_ok k ?s (Q(p := bs))"
    using rb(2) rx_okD [OF assms(1), of _ p] assms(2) by (intro rx_ok_lane [OF assms(1)]) simp_all
  then show ?thesis using rb(1) by (simp add: rx_discard_def rx_frame_def)
qed

lemma rx_turn_spec:
  assumes ok: "rx_ok k s Q"
  shows "\<exists>r s'. rx_turn id s = (Inr r, s') \<and> rx_frame s s'
    \<and> (r = RxEmpty \<and> (\<forall>p. Q p = []) \<and> rx_ok k s' Q
      \<or> (\<exists>p b bs. Q p = b # bs \<and> (\<forall>q. p < q \<longrightarrow> Q q = [])
          \<and> (r = RxAgain \<and> discardable s b \<and> rx_ok k s' (Q(p := bs))
            \<or> (\<exists>t b'. read_next b = Inr (Some (t, b')) \<and> r = RxGot t (rb_qos b) \<and> rx_ok k s' (Q(p := b' # bs))))))"
proof -
  have inv: "spsc_inv k (rx_ring s) Q" using ok by (simp add: rx_ok_def)
  obtain rb where rb: "spsc_peek_mut (rx_ring s) = (Inr (abs_peek Q), rb)" "spsc_inv k rb Q"
    using spsc_peek_mut_law [OF inv] by blast
  show ?thesis
  proof (cases rule: abs_queues_cases [of Q])
    case empty
    have "rx_ok k (s\<lparr>rx_ring := rb\<rparr>) Q" using ok rb(2) rx_frame_buffers(3) [of "s\<lparr>rx_ring := rb\<rparr>" s] by (simp add: rx_ok_def)
    then show ?thesis using empty rb(1) by (simp add: rx_turn_def rx_frame_def)
  next
    case (head p b bs)
    have b: "rb_wf b" "qos_priority (rb_qos b) = p" using rx_okD [OF ok, of b p] head(1) by simp_all
    let ?cf = "status_congested p"
    let ?s1 = "s\<lparr>rx_ring := rb, rx_status := status_unset ?cf (rx_status s)\<rparr>"
    have ok1: "rx_ok k ?s1 Q" using ok rb(2) rx_frame_buffers(3) [of ?s1 s] by (simp add: rx_ok_def)
    have f1: "rx_frame s ?s1"
      using rx_calm_unset [of s p] by (auto simp: rx_frame_def rx_calm_def)
    obtain s2 where s2: "rx_discard p ?s1 = (Inr (), s2)" "rx_ok k s2 (Q(p := bs))" "rx_frame ?s1 s2"
      using rx_discard_spec [OF ok1 head(1,2)] by blast
    have drop: ?thesis if "discardable s b" "rx_turn id s = (Inr RxAgain, s2)"
      using that s2(2) rx_frame_trans [OF f1 s2(3)] head(1,2) by blast
    show ?thesis
    proof (cases "status_any (rx_status s) ?cf \<and> qos_congestion_control (rb_qos b) = Drop")
      case True
      have "rx_turn id s = (Inr RxAgain, s2)" using True rb(1) head(3) b(2) s2(1) by (simp add: rx_turn_def Let_def)
      then show ?thesis using True b(2) by (intro drop) (simp_all add: discardable_def)
    next
      case False
      from read_next_total [OF b(1)] show ?thesis
      proof (elim disjE exE conjE)
        assume n: "read_next b = Inr None"
        have "rx_turn id s = (Inr RxAgain, s2)"
          using False rb(1) head(3) b(2) s2(1) n by (auto simp: rx_turn_def Let_def)
        then show ?thesis using n by (intro drop) (simp_all add: discardable_def)
      next
        fix t b' assume n: "read_next b = Inr (Some (t, b'))" "rb_wf b'" "rb_qos b' = rb_qos b"
        let ?s2 = "?s1\<lparr>rx_ring := spsc_peek_store p b' rb\<rparr>"
        have "rx_turn id s = (Inr (RxGot t (rb_qos b)), ?s2)"
          using False rb(1) head(3) b(2) n(1) by (auto simp: rx_turn_def Let_def)
        moreover have "rx_ok k ?s2 (Q(p := b' # bs))"
          using b n(2,3) spsc_peek_store_law [OF rb(2) head(1), of b'] rx_okD [OF ok, of _ p] head(1)
          by (intro rx_ok_lane [OF ok]) auto
        moreover have "rx_frame s ?s2" using f1 by (simp add: rx_frame_def rx_calm_def)
        ultimately show ?thesis using n(1) head(1,2) by blast
      qed
    qed
  qed
qed

text \<open>A pull without interference returns: it throws some batches away, and then takes the
  message at the head of the most urgent lane.\<close>

lemma rx_try_pull_spec:
  assumes "rx_ok k s Q"
  shows "\<exists>r s' gone Q1. rx_try_pull [] s = Some (Inr r, s') \<and> rx_frame s s' \<and> Q = (\<lambda>p. gone p @ Q1 p)
    \<and> (\<forall>p. \<forall>b \<in> set (gone p). rx_calm s \<longrightarrow> read_next b = Inr None)
    \<and> (case r of None \<Rightarrow> Q1 = (\<lambda>_. []) \<and> rx_ok k s' Q1
       | Some (t, q) \<Rightarrow> \<exists>b b' bs. q = rb_qos b \<and> Q1 (qos_priority q) = b # bs \<and> (\<forall>p. qos_priority q < p \<longrightarrow> Q1 p = [])
           \<and> read_next b = Inr (Some (t, b')) \<and> rx_ok k s' (Q1(qos_priority q := b' # bs)))"
  using assms
proof (induction "total Q" arbitrary: s Q rule: less_induct)
  case less
  obtain r s' where t: "rx_turn id s = (Inr r, s')" "rx_frame s s'"
      "r = RxEmpty \<and> (\<forall>p. Q p = []) \<and> rx_ok k s' Q
      \<or> (\<exists>p b bs. Q p = b # bs \<and> (\<forall>q. p < q \<longrightarrow> Q q = [])
          \<and> (r = RxAgain \<and> discardable s b \<and> rx_ok k s' (Q(p := bs))
            \<or> (\<exists>t b'. read_next b = Inr (Some (t, b')) \<and> r = RxGot t (rb_qos b) \<and> rx_ok k s' (Q(p := b' # bs)))))"
    using rx_turn_spec [OF less.prems] by blast
  note unfold = rx_try_pull.simps [of "[]" s]
  from t(3) show ?case
  proof (elim disjE exE conjE)
    assume e: "r = RxEmpty" "\<forall>p. Q p = []" "rx_ok k s' Q"
    then have "rx_try_pull [] s = Some (Inr None, s')" using t(1) unfold by simp
    moreover have "Q = (\<lambda>_. [])" using e(2) by auto
    ultimately show ?thesis
      using e(3) t(2) by (intro exI [of _ None] exI [of _ s'] exI [of _ "\<lambda>_. []"] exI [of _ "\<lambda>_. []"]) simp
  next
    fix p b bs t' b'
    assume g: "Q p = b # bs" "\<forall>q. p < q \<longrightarrow> Q q = []" "read_next b = Inr (Some (t', b'))" "r = RxGot t' (rb_qos b)"
      "rx_ok k s' (Q(p := b' # bs))"
    then have "rx_try_pull [] s = Some (Inr (Some (t', rb_qos b)), s')" using t(1) unfold by simp
    moreover have "qos_priority (rb_qos b) = p" using rx_okD [OF less.prems, of b p] g(1) by simp
    ultimately show ?thesis
      using g t(2) by (intro exI [of _ "Some (t', rb_qos b)"] exI [of _ s'] exI [of _ "\<lambda>_. []"] exI [of _ Q]) auto
  next
    fix p b bs
    assume a: "Q p = b # bs" "\<forall>q. p < q \<longrightarrow> Q q = []" "r = RxAgain" "discardable s b" "rx_ok k s' (Q(p := bs))"
    from less.hyps [OF total_less [of Q p b bs, OF a(1)] a(5)]
    obtain r2 s2 gone Q1 where r2: "rx_try_pull [] s' = Some (Inr r2, s2)" "rx_frame s' s2" "Q(p := bs) = (\<lambda>p. gone p @ Q1 p)"
        "\<forall>p. \<forall>b \<in> set (gone p). rx_calm s' \<longrightarrow> read_next b = Inr None"
        "case r2 of None \<Rightarrow> Q1 = (\<lambda>_. []) \<and> rx_ok k s2 Q1
         | Some (t, q) \<Rightarrow> \<exists>b b' bs. q = rb_qos b \<and> Q1 (qos_priority q) = b # bs \<and> (\<forall>p. qos_priority q < p \<longrightarrow> Q1 p = [])
             \<and> read_next b = Inr (Some (t, b')) \<and> rx_ok k s2 (Q1(qos_priority q := b' # bs))"
      by (elim exE conjE) (rule that)
    have "rx_try_pull [] s = Some (Inr r2, s2)" using t(1) a(3) r2(1) unfold by simp
    moreover have "Q = (\<lambda>q. (gone(p := b # gone p)) q @ Q1 q)"
    proof
      fix q show "Q q = (gone(p := b # gone p)) q @ Q1 q"
        using fun_cong [OF r2(3), of q] a(1) by (cases "q = p") auto
    qed
    moreover have "rx_calm s \<longrightarrow> rx_calm s'" using t(2) by (simp add: rx_frame_def)
    moreover have "rx_calm s \<longrightarrow> read_next b = Inr None" using a(4) discardable_calm by blast
    ultimately show ?thesis
      using r2(4,5) rx_frame_trans [OF t(2) r2(2)]
      by (intro exI [of _ r2] exI [of _ s2] exI [of _ "gone(p := b # gone p)"] exI [of _ Q1]) auto
  qed
qed

section \<open>Pushing\<close>

text \<open>What the other task may do while a push waits: whatever keeps the state well formed, such as
  any number of pulls.\<close>

definition rx_env_ok :: "nat \<Rightarrow> (rx \<Rightarrow> rx) \<Rightarrow> bool" where
  "rx_env_ok k g \<longleftrightarrow> (\<forall>s Q. rx_ok k s Q \<longrightarrow> (\<exists>Q'. rx_ok k (g s) Q'))"

text \<open>The same contents, up to the events, the status and the clock.\<close>

definition rx_same :: "rx \<Rightarrow> rx \<Rightarrow> bool" where
  "rx_same s s' \<longleftrightarrow> rx_ring s' = rx_ring s \<and> rx_block s' = rx_block s \<and> rx_drop s' = rx_drop s"

lemma rx_same_ok: "rx_same s s' \<Longrightarrow> rx_ok k s' Q = rx_ok k s Q"
  unfolding rx_same_def by (rule rx_ok_cong) simp_all

lemma wait_event_spec:
  assumes "wait_event get put d env s = Some (w, s', env')" "rx_ok k s Q" "\<forall>g \<in> set env. rx_env_ok k g"
    "\<And>f s. rx_same s (put f s)"
  shows "\<exists>Q'. rx_ok k s' Q' \<and> set env' \<subseteq> set env \<and> (env = [] \<longrightarrow> Q' = Q \<and> rx_same s s')"
  using assms
proof (induction env arbitrary: s Q)
  case Nil
  have "rx_same s s" by (simp add: rx_same_def)
  then have "rx_same s s' \<and> env' = []"
    using Nil.prems(1,4) by (auto split: prod.splits event_check.splits if_splits)
  moreover from this have "rx_ok k s' Q" using Nil.prems(2) rx_same_ok by blast
  ultimately show ?case by (intro exI [of _ Q]) simp
next
  case (Cons g env)
  have "rx_same s s" by (simp add: rx_same_def)
  then consider (here) "rx_same s s'" "env' = g # env" | (later) "wait_event get put d env (g s) = Some (w, s', env')"
    using Cons.prems(1,4) by (auto split: prod.splits event_check.splits if_splits)
  then show ?case
  proof cases
    case here
    then have "rx_ok k s' Q" using Cons.prems(2) rx_same_ok by blast
    then show ?thesis using here by (intro exI [of _ Q]) simp
  next
    case later
    obtain Q1 where "rx_ok k (g s) Q1" using Cons.prems(2,3) by (auto simp: rx_env_ok_def)
    from Cons.IH [OF later this _ Cons.prems(4)] Cons.prems(3) show ?thesis by auto
  qed
qed

lemma wait_can_send_spec:
  assumes "wait_can_send p d env s = Some (w, s', env')" "rx_ok k s Q" "\<forall>g \<in> set env. rx_env_ok k g"
  shows "\<exists>Q'. rx_ok k s' Q' \<and> set env' \<subseteq> set env \<and> (env = [] \<longrightarrow> Q' = Q \<and> rx_same s s')"
  using assms unfolding wait_can_send_def by (rule wait_event_spec) (simp add: rx_same_def)

lemma spsc_push_rx:
  assumes "rx_ok k s Q" "rb_wf batch" "p = qos_priority (rb_qos batch)"
  shows "\<exists>rb. spsc_push p batch (rx_ring s) = (if length (Q p) = 2 ^ k then Some batch else None, rb)
    \<and> rx_ok k (s\<lparr>rx_ring := rb\<rparr>) (if length (Q p) = 2 ^ k then Q else Q(p := Q p @ [batch]))"
proof -
  have inv: "spsc_inv k (rx_ring s) Q" using assms(1) by (simp add: rx_ok_def)
  obtain rb where rb: "spsc_push p batch (rx_ring s) = (if length (Q p) = 2 ^ k then Some batch else None, rb)"
      "spsc_inv k rb (if length (Q p) = 2 ^ k then Q else Q(p := Q p @ [batch]))"
    using spsc_push_law [OF inv, of p batch] by blast
  have "rx_ok k (s\<lparr>rx_ring := rb\<rparr>) (if length (Q p) = 2 ^ k then Q else Q(p := Q p @ [batch]))"
  proof (cases "length (Q p) = 2 ^ k")
    case True
    then show ?thesis using assms(1) rb(2) rx_frame_buffers(3) [of "s\<lparr>rx_ring := rb\<rparr>" s] by (simp add: rx_ok_def)
  next
    case False
    have "rx_ok k (s\<lparr>rx_ring := rb\<rparr>) (Q(p := Q p @ [batch]))"
    proof (rule rx_ok_lane [OF assms(1)])
      show "spsc_inv k (rx_ring (s\<lparr>rx_ring := rb\<rparr>)) (Q(p := Q p @ [batch]))" using rb(2) False by simp
      show "rb_wf b \<and> qos_priority (rb_qos b) = p" if "b \<in> set (Q p @ [batch])" for b
        using that assms(2,3) rx_okD [OF assms(1), of b p] by auto
    qed simp_all
    then show ?thesis using False by simp
  qed
  then show ?thesis using rb(1) by blast
qed

text \<open>A lane with room takes the batch at once.\<close>

lemma rx_enqueue_room:
  assumes "rx_ok k s Q" "rb_wf batch" "p = qos_priority (rb_qos batch)" "length (Q p) < 2 ^ k"
  shows "\<exists>s'. rx_enqueue start batch config env s =
      Some (if fst (event_notify (rx_can_recv s)) then Inr True else Inl (RxFail ChannelClosed), s', env)
    \<and> rx_ok k s' (Q(p := Q p @ [batch])) \<and> rx_block s' = rx_block s \<and> rx_drop s' = rx_drop s
    \<and> (rx_calm s \<longrightarrow> rx_calm s')"
proof -
  obtain rb where rb: "spsc_push p batch (rx_ring s) = (None, rb)" "rx_ok k (s\<lparr>rx_ring := rb\<rparr>) (Q(p := Q p @ [batch]))"
    using spsc_push_rx [OF assms(1-3)] assms(4) by auto
  let ?s = "s\<lparr>rx_ring := rb, rx_can_recv := snd (event_notify (rx_can_recv s))\<rparr>"
  have "rx_enqueue start batch config env s =
      Some (if fst (event_notify (rx_can_recv s)) then Inr True else Inl (RxFail ChannelClosed), ?s, env)"
    using rb(1) assms(3) by (subst rx_enqueue.simps) (simp add: Let_def split: prod.splits)
  moreover have "rx_ok k ?s (Q(p := Q p @ [batch]))" using rb(2) rx_ok_cong [of ?s "s\<lparr>rx_ring := rb\<rparr>"] by simp
  ultimately show ?thesis by (intro exI [of _ ?s]) simp
qed

definition enqueue_post :: "nat \<Rightarrow> rx \<Rightarrow> read_batch queues \<Rightarrow> read_batch \<Rightarrow> (rx \<Rightarrow> rx) list \<Rightarrow> (rx_fail + bool) \<Rightarrow> rx \<Rightarrow> bool" where
  "enqueue_post k s Q batch env r s' \<longleftrightarrow> (let p = qos_priority (rb_qos batch) in \<exists>Q1.
     (r \<in> {Inr True, Inl (RxFail ChannelClosed)} \<and> rx_ok k s' (Q1(p := Q1 p @ [batch]))
        \<or> r \<in> {Inr False, Inl (RxFail RxTimeout), Inl (RxFail ChannelClosed)} \<and> rx_ok k s' Q1)
     \<and> (env = [] \<longrightarrow> Q1 = Q \<and> rx_block s' = rx_block s \<and> rx_drop s' = rx_drop s
         \<and> (r = Inr True \<longrightarrow> length (Q p) < 2 ^ k \<and> (rx_calm s \<longrightarrow> rx_calm s'))))"

lemma rx_enqueue_post:
  assumes "rx_enqueue start batch config env s = Some y" "rx_ok k s Q" "rb_wf batch" "\<forall>g \<in> set env. rx_env_ok k g"
  shows "case y of (r, s', env') \<Rightarrow> enqueue_post k s Q batch env r s'"
proof -
  let ?P = "\<lambda>start batch config env s y. \<forall>Q. rx_ok k s Q \<longrightarrow> rb_wf batch \<longrightarrow> (\<forall>g \<in> set env. rx_env_ok k g) \<longrightarrow>
      (case y of (r, s', env') \<Rightarrow> enqueue_post k s Q batch env r s')"
  have "?P start batch config env s y"
  proof (rule rx_enqueue.raw_induct [of ?P, OF _ assms(1)], intro allI impI)
    fix loop :: "nat \<Rightarrow> read_batch \<Rightarrow> rx_push_config \<Rightarrow> (rx \<Rightarrow> rx) list \<Rightarrow> rx \<Rightarrow> bool rx_result"
      and start :: nat and batch :: read_batch and config and env :: "(rx \<Rightarrow> rx) list" and s z Q
    assume ih: "\<And>start batch config env s y. loop start batch config env s = Some y \<Longrightarrow> ?P start batch config env s y"
    let ?p = "qos_priority (rb_qos batch)"
    let ?cf = "status_congested ?p"
    let ?body = "let p = ?p; cf = status_congested p in
      case spsc_push p batch (rx_ring s) of
        (None, rb) \<Rightarrow>
          (case event_notify (rx_can_recv s) of
             (notified, f) \<Rightarrow> Some (if notified then Inr True else Inl (RxFail ChannelClosed),
               s\<lparr>rx_ring := rb, rx_can_recv := f\<rparr>, env))
      | (Some zb, rb) \<Rightarrow>
          let s1 = s\<lparr>rx_ring := rb\<rparr> in
          (case qos_congestion_control (rb_qos batch) of
             Block \<Rightarrow>
               (case compute_timeout start (rc_timeout_block config) s1 of
                  None \<Rightarrow> Some (Inl (RxFail RxTimeout), s1, env)
                | Some t \<Rightarrow> (case wait_can_send p (rx_clock s1 + t) env s1 of
                      None \<Rightarrow> None
                    | Some (WaitOk, s2, env') \<Rightarrow> loop start zb config env' s2
                    | Some (WaitGone, s2, env') \<Rightarrow> Some (Inl (RxFail ChannelClosed), s2, env')
                    | Some (WaitElapsed, s2, env') \<Rightarrow>
                        loop start zb config env' (s2\<lparr>rx_status := status_set cf (rx_status s2)\<rparr>)))
           | Drop \<Rightarrow>
               if status_any (rx_status s1) cf then Some (Inr False, s1, env)
               else (case compute_timeout start (rc_timeout_drop config) s1 of
                  None \<Rightarrow> Some (Inl (RxFail RxTimeout), s1, env)
                | Some t \<Rightarrow> (case wait_can_send p (rx_clock s1 + t) env s1 of
                      None \<Rightarrow> None
                    | Some (WaitOk, s2, env') \<Rightarrow> loop start zb config env' s2
                    | Some (WaitGone, s2, env') \<Rightarrow> Some (Inl (RxFail ChannelClosed), s2, env')
                    | Some (WaitElapsed, s2, env') \<Rightarrow>
                        Some (Inr False, s2\<lparr>rx_status := status_set cf (rx_status s2)\<rparr>, env'))))"
    assume step: "?body = Some z" and ok: "rx_ok k s Q" and b: "rb_wf batch" and env: "\<forall>g \<in> set env. rx_env_ok k g"
    obtain rb where rb: "spsc_push ?p batch (rx_ring s) = (if length (Q ?p) = 2 ^ k then Some batch else None, rb)"
        "rx_ok k (s\<lparr>rx_ring := rb\<rparr>) (if length (Q ?p) = 2 ^ k then Q else Q(?p := Q ?p @ [batch]))"
      using spsc_push_rx [OF ok b refl] by blast
    show "case z of (r, s', env') \<Rightarrow> enqueue_post k s Q batch env r s'"
    proof (cases "length (Q ?p) = 2 ^ k")
      case False
      then have room: "length (Q ?p) < 2 ^ k" using spsc_bounded [of k "rx_ring s" Q ?p] ok by (simp add: rx_ok_def)
      let ?s = "s\<lparr>rx_ring := rb, rx_can_recv := snd (event_notify (rx_can_recv s))\<rparr>"
      have "z = (if fst (event_notify (rx_can_recv s)) then Inr True else Inl (RxFail ChannelClosed), ?s, env)"
        using step rb(1) False by (auto simp: Let_def split: prod.splits)
      moreover have "rx_ok k ?s (Q(?p := Q ?p @ [batch]))"
        using rb(2) False rx_ok_cong [of ?s "s\<lparr>rx_ring := rb\<rparr>"] by simp
      ultimately show ?thesis using room by (auto simp: enqueue_post_def Let_def intro: exI [of _ Q])
    next
      case full: True
      let ?s1 = "s\<lparr>rx_ring := rb\<rparr>"
      have ok1: "rx_ok k ?s1 Q" using rb(2) full by simp
      have stop: "enqueue_post k s Q batch env r s'"
        if "rx_ok k s' Q1" "env = [] \<longrightarrow> Q1 = Q \<and> rx_block s' = rx_block s \<and> rx_drop s' = rx_drop s"
          "r \<in> {Inr False, Inl (RxFail RxTimeout), Inl (RxFail ChannelClosed)}" for r s' Q1
        using that by (auto simp: enqueue_post_def Let_def)
      have again: "case z of (r, s', env') \<Rightarrow> enqueue_post k s Q batch env r s'"
        if "loop start batch config env2 s2 = Some z" "rx_ok k s2 Q1" "set env2 \<subseteq> set env"
          "env = [] \<longrightarrow> Q1 = Q \<and> rx_block s2 = rx_block s \<and> rx_drop s2 = rx_drop s" for env2 s2 Q1
      proof -
        obtain r s' env' where z: "z = (r, s', env')" by (cases z)
        have "enqueue_post k s2 Q1 batch env2 r s'"
          using ih [OF that(1)] that(2,3) b env z by blast
        moreover have "env = [] \<longrightarrow> env2 = []" using that(3) by auto
        ultimately show ?thesis
          using that(4) full unfolding enqueue_post_def Let_def z prod.case by (elim exE) (rule exI, auto)
      qed
      have waited: "\<exists>Q1. rx_ok k s2 Q1 \<and> set env2 \<subseteq> set env \<and> (env = [] \<longrightarrow> Q1 = Q \<and> rx_block s2 = rx_block s \<and> rx_drop s2 = rx_drop s)"
        if "wait_can_send ?p d env ?s1 = Some (w, s2, env2)" for d w s2 env2
        using wait_can_send_spec [OF that ok1 env] by (auto simp: rx_same_def)
      have flag: "rx_ok k (s2\<lparr>rx_status := x\<rparr>) Q1 = rx_ok k s2 Q1" for s2 x Q1 by (rule rx_ok_cong) simp_all
      show ?thesis
      proof (cases "qos_congestion_control (rb_qos batch)")
        case Block
        show ?thesis
        proof (cases "compute_timeout start (rc_timeout_block config) ?s1")
          case None
          then have "z = (Inl (RxFail RxTimeout), ?s1, env)" using step rb(1) full Block by (simp add: Let_def)
          then show ?thesis using stop [OF ok1] by simp
        next
          case (Some t)
          have w: "(case wait_can_send ?p (rx_clock ?s1 + t) env ?s1 of
                      None \<Rightarrow> None
                    | Some (WaitOk, s2, env') \<Rightarrow> loop start batch config env' s2
                    | Some (WaitGone, s2, env') \<Rightarrow> Some (Inl (RxFail ChannelClosed), s2, env')
                    | Some (WaitElapsed, s2, env') \<Rightarrow>
                        loop start batch config env' (s2\<lparr>rx_status := status_set ?cf (rx_status s2)\<rparr>)) = Some z"
            using step rb(1) full Block Some by (simp add: Let_def)
          then obtain we s2 env2 where w2: "wait_can_send ?p (rx_clock ?s1 + t) env ?s1 = Some (we, s2, env2)"
            by (auto split: option.splits)
          obtain Q1 where Q1: "rx_ok k s2 Q1" "set env2 \<subseteq> set env"
              "env = [] \<longrightarrow> Q1 = Q \<and> rx_block s2 = rx_block s \<and> rx_drop s2 = rx_drop s"
            using waited [OF w2] by blast
          show ?thesis
          proof (cases we)
            case WaitOk
            then show ?thesis using w w2 Q1 by (intro again [of env2 s2 Q1]) simp_all
          next
            case WaitGone
            then show ?thesis using w w2 stop [OF Q1(1,3)] by auto
          next
            case WaitElapsed
            then show ?thesis using w w2 Q1 flag
              by (intro again [of env2 "s2\<lparr>rx_status := status_set ?cf (rx_status s2)\<rparr>" Q1]) simp_all
          qed
        qed
      next
        case Drop
        show ?thesis
        proof (cases "status_any (rx_status ?s1) ?cf")
          case True
          then have "z = (Inr False, ?s1, env)" using step rb(1) full Drop by (simp add: Let_def)
          then show ?thesis using stop [OF ok1] by simp
        next
          case calm: False
          show ?thesis
          proof (cases "compute_timeout start (rc_timeout_drop config) ?s1")
            case None
            then have "z = (Inl (RxFail RxTimeout), ?s1, env)" using step rb(1) full Drop calm by (simp add: Let_def)
            then show ?thesis using stop [OF ok1] by simp
          next
            case (Some t)
            have w: "(case wait_can_send ?p (rx_clock ?s1 + t) env ?s1 of
                      None \<Rightarrow> None
                    | Some (WaitOk, s2, env') \<Rightarrow> loop start batch config env' s2
                    | Some (WaitGone, s2, env') \<Rightarrow> Some (Inl (RxFail ChannelClosed), s2, env')
                    | Some (WaitElapsed, s2, env') \<Rightarrow>
                        Some (Inr False, s2\<lparr>rx_status := status_set ?cf (rx_status s2)\<rparr>, env')) = Some z"
              using step rb(1) full Drop calm Some by (simp add: Let_def)
            then obtain we s2 env2 where w2: "wait_can_send ?p (rx_clock ?s1 + t) env ?s1 = Some (we, s2, env2)"
              by (auto split: option.splits)
            obtain Q1 where Q1: "rx_ok k s2 Q1" "set env2 \<subseteq> set env"
                "env = [] \<longrightarrow> Q1 = Q \<and> rx_block s2 = rx_block s \<and> rx_drop s2 = rx_drop s"
              using waited [OF w2] by blast
            show ?thesis
            proof (cases we)
              case WaitOk
              then show ?thesis using w w2 Q1 by (intro again [of env2 s2 Q1]) simp_all
            next
              case WaitGone
              then show ?thesis using w w2 stop [OF Q1(1,3)] by auto
            next
              case WaitElapsed
              then show ?thesis using w w2 flag stop [of "s2\<lparr>rx_status := status_set ?cf (rx_status s2)\<rparr>" Q1 "Inr False"] Q1
                by auto
            qed
          qed
        qed
      qed
    qed
  qed
  then show ?thesis using assms(2-4) by blast
qed

section \<open>A push as a whole\<close>

definition push_errors_rx :: "rx_error set" where
  "push_errors_rx = accept_errors \<union> {RxTimeout, ChannelClosed}"

lemma accept_frame_ok:
  assumes "accept_frame s s'" "defrags_wf s'" "rx_ok k s Q"
  shows "rx_ok k s' Q" "rx_calm s' = rx_calm s"
  using assms by (simp_all add: accept_frame_def rx_ok_def rx_calm_def)

text \<open>Whatever the bytes are and whatever the other task does in the meantime.\<close>

lemma rx_push_total:
  assumes "rx_push b config env s = Some (r, s', env')" "rx_ok k s Q" "bytes_wf b" "bytes_dense b"
    "\<forall>g \<in> set env. rx_env_ok k g"
  shows "(\<exists>Q'. rx_ok k s' Q') \<and> (r = Inl RxNoKind \<or> (\<exists>e \<in> push_errors_rx. r = Inl (RxFail e)) \<or> (\<exists>x. r = Inr x))"
proof -
  have wf: "defrags_wf s" using assms(2) by (simp add: rx_ok_def)
  obtain ra s1 where a: "rx_accept b config s = (ra, s1)" "accept_frame s s1" "defrags_wf s1"
      "ra = Inl RxNoKind \<or> (\<exists>e \<in> accept_errors. ra = Inl (RxFail e)) \<or> ra = Inr None \<or> (\<exists>batch. ra = Inr (Some batch) \<and> rb_wf batch)"
    using rx_accept_total [OF assms(3,4) wf, of config] by blast
  have ok1: "rx_ok k s1 Q" by (rule accept_frame_ok [OF a(2,3) assms(2)])
  show ?thesis
  proof (cases "\<exists>batch. ra = Inr (Some batch) \<and> rb_wf batch")
    case False
    then show ?thesis using assms(1) a(1,4) ok1 by (auto simp: rx_push_def push_errors_rx_def)
  next
    case True
    then obtain batch where b: "ra = Inr (Some batch)" "rb_wf batch" by blast
    then have "rx_enqueue (rx_clock s1) batch config env s1 = Some (r, s', env')" using assms(1) a(1) by (simp add: rx_push_def)
    from rx_enqueue_post [OF this ok1 b(2) assms(5)]
    have "enqueue_post k s1 Q batch env r s'" by simp
    then show ?thesis unfolding enqueue_post_def Let_def by (auto simp: push_errors_rx_def)
  qed
qed

lemma rx_push_env_ok:
  assumes "bytes_wf b" "bytes_dense b"
  shows "rx_env_ok k (\<lambda>s. case rx_push b config [] s of None \<Rightarrow> s | Some (r, s', env) \<Rightarrow> s')"
  unfolding rx_env_ok_def
proof (intro allI impI)
  fix s Q assume ok: "rx_ok k s Q"
  then show "\<exists>Q'. rx_ok k (case rx_push b config [] s of None \<Rightarrow> s | Some (r, s', env) \<Rightarrow> s') Q'"
    using rx_push_total [OF _ ok assms, of config "[]"] by (auto split: option.splits prod.splits)
qed

lemma rx_pull_env_ok: "rx_env_ok k (\<lambda>s. case rx_try_pull [] s of None \<Rightarrow> s | Some (r, s') \<Rightarrow> s')"
  unfolding rx_env_ok_def
proof (intro allI impI)
  fix s Q assume "rx_ok k s Q"
  from rx_try_pull_spec [OF this]
  show "\<exists>Q'. rx_ok k (case rx_try_pull [] s of None \<Rightarrow> s | Some (r, s') \<Rightarrow> s') Q'"
    by (elim exE conjE) (auto split: option.splits)
qed

text \<open>A packet that is pushed with nobody else around.\<close>

definition rb_delivery :: "read_batch \<Rightarrow> qos \<times> u8 list" where
  "rb_delivery b = (rb_qos b, rb_left b)"

definition lossy :: "(rx_fail + bool) \<Rightarrow> bool" where
  "lossy r \<longleftrightarrow> r \<in> {Inr False, Inl (RxFail RxTimeout), Inl (RxFail ChannelClosed)}"

lemma rx_push_packet:
  assumes "rx_push b config [] s = Some (r, s', env')" "rx_ok k s Q" "bytes_wf b" "bytes_dense b"
    "bytes_content b = enc_packet pk" "pk_wf pk" "\<not> lossy r"
  defines "p \<equiv> qos_priority (pk_qos pk)"
  defines "fd \<equiv> feed (rc_frag_max_size config) (rx_buffers p s) pk"
  shows "\<exists>bs. rx_ok k s' (Q(p := Q p @ bs)) \<and> map rb_delivery bs = (case fst fd of None \<Rightarrow> [] | Some x \<Rightarrow> [x])
    \<and> rx_buffers p s' = snd fd \<and> (\<forall>q. q \<noteq> p \<longrightarrow> rx_buffers q s' = rx_buffers q s) \<and> (rx_calm s \<longrightarrow> rx_calm s')"
proof -
  have wf: "defrags_wf s" using assms(2) by (simp add: rx_ok_def)
  obtain ra s1 where a: "rx_accept b config s = (ra, s1)" "accept_frame s s1" "defrags_wf s1"
      "rx_buffers p s1 = snd fd" "\<forall>q. q \<noteq> p \<longrightarrow> rx_buffers q s1 = rx_buffers q s"
      "case fst fd of None \<Rightarrow> ra = Inr None \<or> (\<exists>e \<in> reassembly_errors. ra = Inl (RxFail e))
       | Some x \<Rightarrow> \<exists>batch. ra = Inr (Some batch) \<and> rb_wf batch \<and> x = (rb_qos batch, rb_left batch) \<and> qos_priority (rb_qos batch) = p"
    using rx_accept_packet [OF assms(5,6,3,4) wf, of config, folded p_def, folded fd_def] by (elim exE conjE) (rule that)
  note ok1 = accept_frame_ok [OF a(2,3) assms(2)]
  show ?thesis
  proof (cases "fst fd")
    case None
    then have "s' = s1" using a(1,6) assms(1) by (auto simp: rx_push_def)
    then show ?thesis using None ok1 a(4,5) by (intro exI [of _ "[]"]) simp
  next
    case (Some x)
    then obtain batch where b: "ra = Inr (Some batch)" "rb_wf batch" "x = rb_delivery batch" "qos_priority (rb_qos batch) = p"
      using a(6) by (auto simp: rb_delivery_def)
    then have "rx_enqueue (rx_clock s1) batch config [] s1 = Some (r, s', env')" using assms(1) a(1) by (simp add: rx_push_def)
    from rx_enqueue_post [OF this ok1(1) b(2)]
    have "enqueue_post k s1 Q batch [] r s'" by simp
    then have e: "rx_ok k s' (Q(p := Q p @ [batch]))" "rx_block s' = rx_block s1" "rx_drop s' = rx_drop s1"
        "rx_calm s1 \<longrightarrow> rx_calm s'"
      using assms(7) b(4) unfolding enqueue_post_def Let_def lossy_def by auto
    then show ?thesis
      using Some b(3) a(4,5) ok1(2) rx_frame_buffers(2) [OF e(2,3)] by (intro exI [of _ "[batch]"]) simp
  qed
qed

end
