(* ===== verification/Rx_Runs.thy ===== *)
theory Rx_Runs
  imports Rx_System
begin

text \<open>
  Runs of the reception pipeline: pushes of batches and pulls in any order, with what went in
  and what came out, and the invariant that ties the two.  The steps of a run follow one
  another; a push that waits while the receiver pulls is the subject of \<open>rx_push_total\<close>.
\<close>

section \<open>Runs\<close>

text \<open>The history: the bytes that were pushed, the messages that were pulled, by lane, and whether
  a push gave its batch up.\<close>

record rx_history =
  rh_in :: "u8 list list"
  rh_got :: "priority \<Rightarrow> ((priority \<times> congestion_control) \<times> u8 list) list"
  rh_failed :: bool

definition rx_history_new :: rx_history where
  "rx_history_new = \<lparr>rh_in = [], rh_got = (\<lambda>_. []), rh_failed = False\<rparr>"

definition note_in :: "u8 list \<Rightarrow> (rx_fail + bool) \<Rightarrow> rx_history \<Rightarrow> rx_history" where
  "note_in bs r h = h\<lparr>rh_in := rh_in h @ [bs], rh_failed := rh_failed h \<or> lossy r\<rparr>"

definition note_got :: "qos \<Rightarrow> u8 list \<Rightarrow> rx_history \<Rightarrow> rx_history" where
  "note_got q m h = h\<lparr>rh_got := (rh_got h)(qos_priority q := rh_got h (qos_priority q) @ [(qos_class q, m)])\<rparr>"

text \<open>The bytes are arbitrary; the run ends where a fragment kind does not exist.\<close>

inductive rx_run :: "nat \<Rightarrow> nat \<Rightarrow> rx \<Rightarrow> rx_history \<Rightarrow> bool" for cap lim where
  rx_run_new: "pipeline_rx cap = Some s \<Longrightarrow> rx_run cap lim s rx_history_new"
| rx_run_push: "rx_run cap lim s h \<Longrightarrow> rx_push b config [] s = Some (r, s', env) \<Longrightarrow> r \<noteq> Inl RxNoKind \<Longrightarrow>
     rc_frag_max_size config = lim \<Longrightarrow> bytes_wf b \<Longrightarrow> bytes_dense b \<Longrightarrow> rx_run cap lim s' (note_in (bytes_content b) r h)"
| rx_run_pull: "rx_run cap lim s h \<Longrightarrow> rx_try_pull [] s = Some (Inr (Some (t, q)), s') \<Longrightarrow>
     rx_run cap lim s' (note_got q (bytes_content t) h)"
| rx_run_idle: "rx_run cap lim s h \<Longrightarrow> rx_try_pull [] s = Some (Inr None, s') \<Longrightarrow> rx_run cap lim s' h"
| rx_run_tick: "rx_run cap lim s h \<Longrightarrow> rx_run cap lim (s\<lparr>rx_clock := rx_clock s + d\<rparr>) h"

section \<open>The invariant\<close>

text \<open>The bytes that went in, as packets, if that is what they are.\<close>

definition decoded :: "u8 list list \<Rightarrow> packet list \<Rightarrow> bool" where
  "decoded = list_all2 (\<lambda>bs pk. bs = enc_packet pk \<and> pk_wf pk)"

definition lane_packets :: "priority \<Rightarrow> packet list \<Rightarrow> packet list" where
  "lane_packets p pks = filter (\<lambda>pk. qos_priority (pk_qos pk) = p) pks"

lemma lane_packets_snoc [simp]:
  "lane_packets p (pks @ [pk]) = lane_packets p pks @ (if qos_priority (pk_qos pk) = p then [pk] else [])"
  by (simp add: lane_packets_def)

text \<open>A lane that owes the receiver what is left in its queue.\<close>

definition lane_owes :: "nat \<Rightarrow> packet list \<Rightarrow> defrags \<Rightarrow> ((priority \<times> congestion_control) \<times> u8 list) list \<Rightarrow> read_batch list \<Rightarrow> bool" where
  "lane_owes lim F D got bs \<longleftrightarrow> D = snd (feed_all lim defrags_new F)
     \<and> (\<forall>msgs. carries (fst (feed_all lim defrags_new F)) msgs \<longrightarrow>
          (\<exists>rest. msgs = got @ rest \<and> carries (map rb_delivery bs) rest))"

definition rx_sys :: "nat \<Rightarrow> nat \<Rightarrow> rx \<Rightarrow> rx_history \<Rightarrow> bool" where
  "rx_sys k lim s h \<longleftrightarrow> (\<exists>Q. rx_ok k s Q \<and> (\<forall>pks. \<not> rh_failed h \<longrightarrow> decoded (rh_in h) pks \<longrightarrow> rx_calm s
     \<and> (\<forall>p. lane_owes lim (lane_packets p pks) (rx_buffers p s) (rh_got h p) (Q p))))"

lemma lane_owes_push:
  assumes "lane_owes lim F D got bs" "map rb_delivery new = (case fst (feed lim D pk) of None \<Rightarrow> [] | Some x \<Rightarrow> [x])"
  shows "lane_owes lim (F @ [pk]) (snd (feed lim D pk)) got (bs @ new)"
proof -
  have D: "D = snd (feed_all lim defrags_new F)" using assms(1) by (simp add: lane_owes_def)
  have f: "feed_all lim defrags_new (F @ [pk]) = (fst (feed_all lim defrags_new F) @ map rb_delivery new, snd (feed lim D pk))"
    using assms(2) by (simp add: feed_all_append D split: prod.splits)
  show ?thesis
    unfolding lane_owes_def f fst_conv snd_conv
  proof (intro conjI allI impI refl)
    fix msgs assume "carries (fst (feed_all lim defrags_new F) @ map rb_delivery new) msgs"
    then obtain ms ns where m: "msgs = ms @ ns" "carries (fst (feed_all lim defrags_new F)) ms" "carries (map rb_delivery new) ns"
      by (rule carries_appendE)
    then obtain rest where "ms = got @ rest" "carries (map rb_delivery bs) rest" using assms(1) by (auto simp: lane_owes_def)
    then show "\<exists>rest. msgs = got @ rest \<and> carries (map rb_delivery (bs @ new)) rest"
      using m carries_append by auto
  qed
qed

text \<open>A batch in which no message is left holds none.\<close>

lemma carries_spent:
  assumes "carries (rb_delivery b # ds) rest" "rb_wf b" "read_next b = Inr None"
  shows "carries ds rest"
proof -
  obtain ms rest' where r: "rb_left b = enc_slices ms" "rest = map (Pair (qos_class (rb_qos b))) ms @ rest'"
      "\<forall>m \<in> set ms. length m < 2 ^ 64" "carries ds rest'"
    using assms(1) by (auto simp: rb_delivery_def elim: carries_consE)
  have "ms = []"
  proof (cases ms)
    case (Cons m ms')
    then show ?thesis using read_next_message [OF assms(2), of m "enc_slices ms'"] r assms(3) by auto
  qed
  then show ?thesis using r by simp
qed

lemma carries_read:
  assumes "carries (rb_delivery b # ds) rest" "rb_wf b" "read_next b = Inr (Some (t, b'))"
  shows "\<exists>rest'. rest = (qos_class (rb_qos b), bytes_content t) # rest' \<and> carries (rb_delivery b' # ds) rest'"
proof -
  obtain ms rest' where r: "rb_left b = enc_slices ms" "rest = map (Pair (qos_class (rb_qos b))) ms @ rest'"
      "\<forall>m \<in> set ms. length m < 2 ^ 64" "carries ds rest'"
    using assms(1) by (auto simp: rb_delivery_def elim: carries_consE)
  show ?thesis
  proof (cases ms)
    case Nil
    then show ?thesis using read_next_end [OF assms(2)] r(1) assms(3) by simp
  next
    case (Cons m ms')
    then have m: "bytes_content t = m" "rb_delivery b' = (rb_qos b, enc_slices ms')"
      using read_next_message [OF assms(2), of m "enc_slices ms'"] r(1,3) assms(3) by (auto simp: rb_delivery_def)
    then show ?thesis using r Cons by (auto intro: carries_cons)
  qed
qed

lemma lane_owes_spent:
  assumes "lane_owes lim F D got (gone @ bs)" "\<And>b. b \<in> set gone \<Longrightarrow> rb_wf b \<and> read_next b = Inr None"
  shows "lane_owes lim F D got bs"
proof -
  have "carries (map rb_delivery (gone @ bs)) rest \<Longrightarrow> carries (map rb_delivery bs) rest" for rest
    using assms(2) by (induction gone) (auto dest: carries_spent)
  then show ?thesis using assms(1) unfolding lane_owes_def by blast
qed

lemma lane_owes_read:
  assumes "lane_owes lim F D got (b # bs)" "rb_wf b" "read_next b = Inr (Some (t, b'))"
  shows "lane_owes lim F D (got @ [(qos_class (rb_qos b), bytes_content t)]) (b' # bs)"
  unfolding lane_owes_def
proof (intro conjI allI impI)
  show "D = snd (feed_all lim defrags_new F)" using assms(1) by (simp add: lane_owes_def)
  fix msgs assume "carries (fst (feed_all lim defrags_new F)) msgs"
  then obtain rest where "msgs = got @ rest" "carries (rb_delivery b # map rb_delivery bs) rest"
    using assms(1) by (auto simp: lane_owes_def)
  then show "\<exists>rest. msgs = (got @ [(qos_class (rb_qos b), bytes_content t)]) @ rest \<and> carries (map rb_delivery (b' # bs)) rest"
    using carries_read [OF _ assms(2,3)] by fastforce
qed

lemma decoded_snocE:
  assumes "decoded (ins @ [bs]) pks"
  obtains pks' pk where "pks = pks' @ [pk]" "decoded ins pks'" "bs = enc_packet pk" "pk_wf pk"
  using assms by (auto simp: decoded_def list_all2_append1 list_all2_Cons1)

section \<open>The steps keep the invariant\<close>

lemma rx_sys_new:
  assumes "pipeline_rx cap = Some s"
  shows "\<exists>k. cap = 2 ^ k \<and> rx_sys k lim s rx_history_new"
proof -
  obtain rb where rb: "ringbuffer_spsc cap = Some rb" "s = \<lparr>rx_ring = rb, rx_block = (\<lambda>_. defrag_new), rx_drop = (\<lambda>_. defrag_new),
      rx_can_recv = event_new, rx_can_send = (\<lambda>_. event_new), rx_status = status_new, rx_clock = 0\<rparr>"
    using assms by (auto simp: pipeline_rx_def)
  then have "\<exists>r. (ring_new cap :: read_batch ring option) = Some r" by (auto simp: ringbuffer_spsc_def)
  then obtain k where k: "k \<le> 7" "cap = 2 ^ k" unfolding ring_new_Some_iff by blast
  have d: "rx_defrag c p s = defrag_new" for c p using rb(2) by (cases c) simp_all
  have ok: "rx_ok k s (\<lambda>_. [])"
    using spsc_inv_new [of k rb] k rb by (simp add: rx_ok_def) (simp add: defrags_wf_def d [unfolded rb(2)])
  have "rx_calm s" using status_any_laws(3) [of "Congested _"] rb(2) by (simp add: rx_calm_def)
  moreover have "rx_buffers p s = defrags_new" for p by (auto simp: rx_buffers_def d defrags_new_def)
  moreover have "decoded [] pks \<longleftrightarrow> pks = []" for pks by (auto simp: decoded_def)
  ultimately have "rx_sys k lim s rx_history_new"
    unfolding rx_sys_def using ok
    by (intro exI [of _ "\<lambda>_. []"]) (auto simp: rx_history_new_def lane_owes_def lane_packets_def)
  then show ?thesis using k by blast
qed

lemma rx_sys_push:
  assumes "rx_sys k lim s h" "rx_push b config [] s = Some (r, s', env)" "rc_frag_max_size config = lim"
    "bytes_wf b" "bytes_dense b"
  shows "rx_sys k lim s' (note_in (bytes_content b) r h)"
proof -
  obtain Q where ok: "rx_ok k s Q" and sys: "\<And>pks. \<not> rh_failed h \<Longrightarrow> decoded (rh_in h) pks \<Longrightarrow> rx_calm s
     \<and> (\<forall>p. lane_owes lim (lane_packets p pks) (rx_buffers p s) (rh_got h p) (Q p))"
    using assms(1) unfolding rx_sys_def by blast
  obtain Q' where Q': "rx_ok k s' Q'" using rx_push_total [OF assms(2) ok assms(4,5)] by auto
  show ?thesis
  proof (cases "\<exists>pk. bytes_content b = enc_packet pk \<and> pk_wf pk \<and> \<not> lossy r")
    case False
    then have "\<not> (\<not> rh_failed (note_in (bytes_content b) r h) \<and> decoded (rh_in (note_in (bytes_content b) r h)) pks)" for pks
      by (auto simp: note_in_def elim: decoded_snocE)
    then show ?thesis using Q' unfolding rx_sys_def by blast
  next
    case True
    then obtain pk where pk: "bytes_content b = enc_packet pk" "pk_wf pk" "\<not> lossy r" by blast
    let ?p = "qos_priority (pk_qos pk)"
    let ?fd = "feed lim (rx_buffers ?p s) pk"
    obtain bs where bs: "rx_ok k s' (Q(?p := Q ?p @ bs))" "map rb_delivery bs = (case fst ?fd of None \<Rightarrow> [] | Some x \<Rightarrow> [x])"
        "rx_buffers ?p s' = snd ?fd" "\<forall>q. q \<noteq> ?p \<longrightarrow> rx_buffers q s' = rx_buffers q s" "rx_calm s \<longrightarrow> rx_calm s'"
      using rx_push_packet [OF assms(2) ok assms(4,5) pk] unfolding assms(3) by blast
    have "rx_calm s' \<and> (\<forall>p. lane_owes lim (lane_packets p pks) (rx_buffers p s') (rh_got h p) ((Q(?p := Q ?p @ bs)) p))"
      if f: "\<not> rh_failed h" and d: "decoded (rh_in h @ [bytes_content b]) pks" for pks
    proof -
      obtain pks' pk' where d': "pks = pks' @ [pk']" "decoded (rh_in h) pks'" "bytes_content b = enc_packet pk'" "pk_wf pk'"
        using d by (rule decoded_snocE)
      have "pk' = pk" using enc_packet_inject [of pk' pk] d'(3,4) pk(1,2) by simp
      note s = sys [OF f d'(2)]
      have "lane_owes lim (lane_packets p pks) (rx_buffers p s') (rh_got h p) ((Q(?p := Q ?p @ bs)) p)" for p
      proof (cases "p = ?p")
        case True
        have "lane_owes lim (lane_packets ?p pks' @ [pk]) (snd ?fd) (rh_got h ?p) (Q ?p @ bs)"
          by (rule lane_owes_push [OF _ bs(2)]) (use s in blast)
        then show ?thesis using True d'(1) \<open>pk' = pk\<close> bs(3) by simp
      next
        case False
        then show ?thesis using s d'(1) \<open>pk' = pk\<close> bs(4) by simp
      qed
      then show ?thesis using s bs(5) by blast
    qed
    then show ?thesis
      unfolding rx_sys_def using bs(1) by (intro exI [of _ "Q(?p := Q ?p @ bs)"]) (auto simp: note_in_def)
  qed
qed

text \<open>A pull, whether it finds a message or not.\<close>

lemma rx_sys_pull:
  assumes "rx_sys k lim s h"
  shows "\<exists>r s' Q. rx_try_pull [] s = Some (Inr r, s')
    \<and> rx_sys k lim s' (case r of None \<Rightarrow> h | Some (t, q) \<Rightarrow> note_got q (bytes_content t) h)
    \<and> (\<forall>pks. \<not> rh_failed h \<longrightarrow> r = None \<longrightarrow> decoded (rh_in h) pks \<longrightarrow>
         (\<forall>p. lane_owes lim (lane_packets p pks) (rx_buffers p s) (rh_got h p) []))"
proof -
  obtain Q where ok: "rx_ok k s Q" and sys: "\<And>pks. \<not> rh_failed h \<Longrightarrow> decoded (rh_in h) pks \<Longrightarrow> rx_calm s
     \<and> (\<forall>p. lane_owes lim (lane_packets p pks) (rx_buffers p s) (rh_got h p) (Q p))"
    using assms(1) unfolding rx_sys_def by blast
  obtain r s' gone Q1 where r: "rx_try_pull [] s = Some (Inr r, s')" "rx_frame s s'" "Q = (\<lambda>p. gone p @ Q1 p)"
      "\<forall>p. \<forall>b \<in> set (gone p). rx_calm s \<longrightarrow> read_next b = Inr None"
      "case r of None \<Rightarrow> Q1 = (\<lambda>_. []) \<and> rx_ok k s' Q1
       | Some (t, q) \<Rightarrow> \<exists>b b' bs. q = rb_qos b \<and> Q1 (qos_priority q) = b # bs \<and> (\<forall>p. qos_priority q < p \<longrightarrow> Q1 p = [])
           \<and> read_next b = Inr (Some (t, b')) \<and> rx_ok k s' (Q1(qos_priority q := b' # bs))"
    using rx_try_pull_spec [OF ok] by (elim exE conjE) (rule that)
  have buf: "rx_buffers p s' = rx_buffers p s" "rx_calm s \<Longrightarrow> rx_calm s'" for p
    using r(2) rx_frame_buffers(2) [of s' s p] by (simp_all add: rx_frame_def)
  have Q: "Q p = gone p @ Q1 p" for p by (rule fun_cong [OF r(3)])
  have wf: "b \<in> set (gone p @ Q1 p) \<Longrightarrow> rb_wf b" for b p using rx_okD [OF ok, of b p] unfolding Q by blast
  have owes: "lane_owes lim (lane_packets p pks) (rx_buffers p s) (rh_got h p) (Q1 p)"
    if "\<not> rh_failed h" "decoded (rh_in h) pks" for pks p
  proof (rule lane_owes_spent)
    show "lane_owes lim (lane_packets p pks) (rx_buffers p s) (rh_got h p) (gone p @ Q1 p)"
      using sys [OF that] unfolding Q by blast
    show "rb_wf b \<and> read_next b = Inr None" if "b \<in> set (gone p)" for b
      using that r(4) wf [of b p] sys [OF \<open>\<not> rh_failed h\<close> \<open>decoded (rh_in h) pks\<close>] by auto
  qed
  show ?thesis
  proof (cases r)
    case None
    then have "rx_sys k lim s' h"
      unfolding rx_sys_def using r(5) owes sys buf by (intro exI [of _ Q1]) auto
    then show ?thesis using r(1,5) None owes by (intro exI [of _ r] exI [of _ s']) auto
  next
    case (Some x)
    obtain t q where x: "x = (t, q)" by force
    then obtain b b' bs where b: "q = rb_qos b" "Q1 (qos_priority q) = b # bs" "read_next b = Inr (Some (t, b'))"
        "rx_ok k s' (Q1(qos_priority q := b' # bs))"
      using r(5) Some by auto
    have "rb_wf b" using wf [of b "qos_priority q"] b(2) by simp
    then have "lane_owes lim (lane_packets p pks) (rx_buffers p s') (rh_got (note_got q (bytes_content t) h) p) ((Q1(qos_priority q := b' # bs)) p)"
      if "\<not> rh_failed h" "decoded (rh_in h) pks" for pks p
      using owes [OF that, of p] b(1-3) lane_owes_read [of lim _ _ _ b bs t b'] buf(1)
      by (cases "p = qos_priority q") (auto simp: note_got_def)
    then have "rx_sys k lim s' (note_got q (bytes_content t) h)"
      unfolding rx_sys_def using b(4) sys buf
      by (intro exI [of _ "Q1(qos_priority q := b' # bs)"]) (auto simp: note_got_def)
    then show ?thesis using r(1) Some x by (intro exI [of _ r] exI [of _ s']) simp
  qed
qed

lemma rx_run_sys:
  assumes "rx_run cap lim s h"
  shows "\<exists>k. cap = 2 ^ k \<and> rx_sys k lim s h"
  using assms
proof induction
  case (rx_run_new s)
  then show ?case by (rule rx_sys_new)
next
  case (rx_run_push s h b config r s' env)
  then show ?case using rx_sys_push by blast
next
  case (rx_run_pull s h t q s')
  then obtain k where k: "cap = 2 ^ k" "rx_sys k lim s h" by blast
  from rx_sys_pull [OF k(2)] rx_run_pull.hyps(2) k(1) show ?case by auto
next
  case (rx_run_idle s h s')
  then obtain k where k: "cap = 2 ^ k" "rx_sys k lim s h" by blast
  from rx_sys_pull [OF k(2)] rx_run_idle.hyps(2) k(1) show ?case by auto
next
  case (rx_run_tick s h d)
  then obtain k where k: "cap = 2 ^ k" "rx_sys k lim s h" by blast
  let ?s = "s\<lparr>rx_clock := rx_clock s + d\<rparr>"
  have "rx_ok k ?s Q = rx_ok k s Q" for Q by (rule rx_ok_cong) simp_all
  then have "rx_sys k lim ?s h"
    using k(2) rx_frame_buffers(2) [of ?s s] unfolding rx_sys_def by simp
  then show ?case using k(1) by blast
qed

text \<open>What the receiver has when nothing is left in its pipeline.\<close>

lemma rx_sys_drained:
  assumes "rx_sys k lim s h" "\<not> rh_failed h" "rx_try_pull [] s = Some (Inr None, s')" "decoded (rh_in h) pks"
    "carries (fst (feed_all lim defrags_new (lane_packets p pks))) msgs"
  shows "rh_got h p = msgs"
proof -
  have "lane_owes lim (lane_packets p pks) (rx_buffers p s) (rh_got h p) []"
    using rx_sys_pull [OF assms(1)] assms(2-4) by auto
  then obtain rest where "msgs = rh_got h p @ rest" "carries [] rest" using assms(5) by (auto simp: lane_owes_def)
  then show ?thesis by (auto elim: carries_nilE)
qed

section \<open>A small run\<close>

lemma rx_push_now:
  assumes "rx_accept b config s = (Inr (Some batch), s1)" "spsc_push (qos_priority (rb_qos batch)) batch (rx_ring s1) = (None, rb)"
    "event_notify (rx_can_recv s1) = (True, f)"
  shows "rx_push b config env s = Some (Inr True, s1\<lparr>rx_ring := rb, rx_can_recv := f\<rparr>, env)"
  using assms by (simp add: rx_push_def, subst rx_enqueue.simps) (simp add: Let_def)

text \<open>The step of a push that finds room, as it can be evaluated.\<close>

definition push_step :: "bytes \<Rightarrow> rx_push_config \<Rightarrow> rx \<Rightarrow> rx option" where
  "push_step b config s = (case rx_accept b config s of
       (Inr (Some batch), s1) \<Rightarrow> (case spsc_push (qos_priority (rb_qos batch)) batch (rx_ring s1) of
           (None, rb) \<Rightarrow> (case event_notify (rx_can_recv s1) of
               (True, f) \<Rightarrow> Some (s1\<lparr>rx_ring := rb, rx_can_recv := f\<rparr>) | _ \<Rightarrow> None)
         | _ \<Rightarrow> None)
     | _ \<Rightarrow> None)"

lemma push_step_push: "push_step b config s = Some s' \<Longrightarrow> rx_push b config env s = Some (Inr True, s', env)"
  by (auto simp: push_step_def split: prod.splits sum.splits option.splits bool.splits dest!: rx_push_now)

definition demo_rx_config :: rx_push_config where
  "demo_rx_config = \<lparr>rc_frag_max_size = 64, rc_timeout_drop = 5, rc_timeout_block = 5\<rparr>"

text \<open>A frame of priority Medium with the message 7, 8, 9, and one of priority High with 5.\<close>

definition demo_wire :: bytes where "demo_wire = bytes_from (DynVec [1, 1, 0, 3, 7, 8, 9])"
definition demo_urgent :: bytes where "demo_urgent = bytes_from (DynVec [0, 1, 0, 1, 5])"

definition demo_rx_new :: rx where "demo_rx_new = the (pipeline_rx 2)"
definition demo_rx_pushed :: rx where "demo_rx_pushed = the (push_step demo_wire demo_rx_config demo_rx_new)"
definition demo_rx_pulled :: rx where "demo_rx_pulled = snd (rx_turn id demo_rx_pushed)"

lemma demo_rx_new: "pipeline_rx 2 = Some demo_rx_new"
proof -
  have "pipeline_rx 2 \<noteq> None" by code_simp
  then show ?thesis by (auto simp: demo_rx_new_def)
qed

lemma demo_rx_pushed: "push_step demo_wire demo_rx_config demo_rx_new = Some demo_rx_pushed"
proof -
  have "push_step demo_wire demo_rx_config demo_rx_new \<noteq> None" by code_simp
  then show ?thesis by (auto simp: demo_rx_pushed_def)
qed

lemma demo_rx_pulled:
  "\<exists>t. rx_turn id demo_rx_pushed = (Inr (RxGot t (QoS 1)), demo_rx_pulled) \<and> bytes_content t = [7, 8, 9]"
proof -
  have "case fst (rx_turn id demo_rx_pushed) of Inr (RxGot t q) \<Rightarrow> bytes_content t = [7, 8, 9] \<and> q = QoS 1 | _ \<Rightarrow> False" by code_simp
  then show ?thesis
    by (cases "rx_turn id demo_rx_pushed") (auto simp: demo_rx_pulled_def split: sum.splits rx_turn_end.splits)
qed

lemma demo_rx_drained: "\<exists>s1 s2. rx_turn id demo_rx_pulled = (Inr RxAgain, s1) \<and> rx_turn id s1 = (Inr RxEmpty, s2)"
proof -
  have "case rx_turn id demo_rx_pulled of (Inr RxAgain, s1) \<Rightarrow> fst (rx_turn id s1) = Inr RxEmpty | _ \<Rightarrow> False" by code_simp
  then show ?thesis by (auto split: prod.splits sum.splits rx_turn_end.splits) (metis prod.collapse)
qed

definition demo_race :: "rx \<Rightarrow> rx" where
  "demo_race s = (case push_step demo_urgent demo_rx_config s of None \<Rightarrow> s | Some s' \<Rightarrow> s')"

lemma demo_race: "\<exists>s1 s2 s3. rx_turn demo_race demo_rx_pulled = (Inr RxAgain, s1)
    \<and> rx_turn id s1 = (Inr RxAgain, s2) \<and> rx_turn id s2 = (Inr RxEmpty, s3)"
proof -
  have "case rx_turn demo_race demo_rx_pulled of (Inr RxAgain, s1) \<Rightarrow> (case rx_turn id s1 of
      (Inr RxAgain, s2) \<Rightarrow> fst (rx_turn id s2) = Inr RxEmpty | _ \<Rightarrow> False) | _ \<Rightarrow> False" by code_simp
  then show ?thesis by (auto split: prod.splits sum.splits rx_turn_end.splits) (metis prod.collapse)
qed

lemma rx_turn_race_cong:
  assumes "\<And>l b rb. spsc_peek_mut (rx_ring s) = (Inr (Some (l, b)), rb) \<Longrightarrow>
      let s1 = s\<lparr>rx_ring := rb, rx_status := status_unset (status_congested (qos_priority (rb_qos b))) (rx_status s)\<rparr>
      in g s1 = g' s1"
  shows "rx_turn g s = rx_turn g' s"
  using assms by (auto simp: rx_turn_def Let_def split: prod.split sum.split option.split ring_ub.split)

lemma demo_race_push:
  "rx_turn (\<lambda>s. case rx_push demo_urgent demo_rx_config [] s of None \<Rightarrow> s | Some (r, s', env) \<Rightarrow>
     if r = Inr True then s' else s) demo_rx_pulled = rx_turn demo_race demo_rx_pulled"
proof -
  let ?race = "\<lambda>s. case rx_push demo_urgent demo_rx_config [] s of None \<Rightarrow> s | Some (r, s', env) \<Rightarrow>
     if r = Inr True then s' else s"
  have race: "?race s = demo_race s" if "push_step demo_urgent demo_rx_config s \<noteq> None" for s
    using that push_step_push [of demo_urgent demo_rx_config s _ "[]"] by (auto simp: demo_race_def)
  have "case spsc_peek_mut (rx_ring demo_rx_pulled) of (Inr (Some (l, b)), rb) \<Rightarrow>
      push_step demo_urgent demo_rx_config (demo_rx_pulled\<lparr>rx_ring := rb,
        rx_status := status_unset (status_congested (qos_priority (rb_qos b))) (rx_status demo_rx_pulled)\<rparr>) \<noteq> None
    | _ \<Rightarrow> False" by code_simp
  then show ?thesis
    by (intro rx_turn_race_cong) (simp only: Let_def prod.case sum.case option.case, intro race)
qed

lemma demo_urgent: "\<exists>s1 t s2. push_step demo_urgent demo_rx_config demo_rx_pulled = Some s1
    \<and> rx_turn id s1 = (Inr (RxGot t (QoS 0)), s2) \<and> bytes_content t = [5]"
proof -
  have "case push_step demo_urgent demo_rx_config demo_rx_pulled of None \<Rightarrow> False
    | Some s1 \<Rightarrow> (case fst (rx_turn id s1) of Inr (RxGot t q) \<Rightarrow> q = QoS 0 \<and> bytes_content t = [5] | _ \<Rightarrow> False)" by code_simp
  then show ?thesis by (auto split: option.splits sum.splits rx_turn_end.splits) (metis prod.collapse)
qed

text \<open>What one turn or several do to \<open>try_pull\<close>.\<close>

lemma rx_try_pull_again: "rx_turn (case races of [] \<Rightarrow> id | g # _ \<Rightarrow> g) s = (Inr RxAgain, s') \<Longrightarrow> rx_try_pull races s = rx_try_pull (tl races) s'"
  and rx_try_pull_empty: "rx_turn (case races of [] \<Rightarrow> id | g # _ \<Rightarrow> g) s = (Inr RxEmpty, s') \<Longrightarrow> rx_try_pull races s = Some (Inr None, s')"
  and rx_try_pull_got: "rx_turn (case races of [] \<Rightarrow> id | g # _ \<Rightarrow> g) s = (Inr (RxGot t q), s') \<Longrightarrow> rx_try_pull races s = Some (Inr (Some (t, q)), s')"
  by (subst rx_try_pull.simps; simp)+

lemma demo_packet:
  defines "pk \<equiv> PkFrame (QoS 1) (sn_new 1) [[7, 8, 9]]"
  shows "enc_packet pk = [1, 1, 0, 3, 7, 8, 9]" "pk_wf pk" "qos_priority (QoS 1) = Medium" "qos_class (QoS 1) = (Medium, Block)"
proof -
  have "sn_get (sn_new 1) = 1" by code_simp
  then show "enc_packet pk = [1, 1, 0, 3, 7, 8, 9]"
    by (simp add: pk_def enc_packet_def enc_message_def message_new_def message_header_new_def enc_header_def enc_seq_num_def
        vle_def vle_enc_numeral enc_slice_def enc_usize_def frame_new_def ID_FRAME_def qos_as_u8_def)
  show "pk_wf pk" by (simp add: pk_def pk_wf_def message_wf_def message_new_def message_header_new_def)
  show "qos_priority (QoS 1) = Medium" "qos_class (QoS 1) = (Medium, Block)" by code_simp+
qed

lemma demo_rx_run:
  "rx_run 2 64 demo_rx_pulled (note_got (QoS 1) [7, 8, 9] (note_in [1, 1, 0, 3, 7, 8, 9] (Inr True) rx_history_new))"
proof -
  have b: "bytes_wf demo_wire" "bytes_dense demo_wire" "bytes_content demo_wire = [1, 1, 0, 3, 7, 8, 9]" by code_simp+
  have 1: "rx_run 2 64 demo_rx_pushed (note_in [1, 1, 0, 3, 7, 8, 9] (Inr True) rx_history_new)"
    using rx_run_push [OF rx_run_new [OF demo_rx_new] push_step_push [OF demo_rx_pushed, where env = "[]"], of 64] b
    by (simp add: demo_rx_config_def)
  obtain t where t: "rx_turn id demo_rx_pushed = (Inr (RxGot t (QoS 1)), demo_rx_pulled)" "bytes_content t = [7, 8, 9]"
    using demo_rx_pulled by blast
  have "rx_try_pull [] demo_rx_pushed = Some (Inr (Some (t, QoS 1)), demo_rx_pulled)"
    using t(1) by (intro rx_try_pull_got) simp
  from rx_run_pull [OF 1 this] show ?thesis by (simp add: t(2))
qed

lemma demo_rx_empty: "\<exists>s. rx_try_pull [] demo_rx_pulled = Some (Inr None, s)"
proof -
  obtain s1 s2 where "rx_turn id demo_rx_pulled = (Inr RxAgain, s1)" "rx_turn id s1 = (Inr RxEmpty, s2)"
    using demo_rx_drained by blast
  then show ?thesis using rx_try_pull_again [of "[]"] rx_try_pull_empty [of "[]"] by simp
qed

section \<open>Properties\<close>



text \<open>C17: whatever bytes arrive, in whatever order, and however often the receiver pulls while
  a push waits: a push that returns answers, reports a decoding, sequence number, fragment id or
  capacity error, a timeout or a closed channel, or meets the fragment kind that does not exist.
  It never panics, reports an internal error or reads a slot that holds nothing.\<close>

theorem rx_push_robust:
  assumes "rx_run cap lim s h" "bytes_wf b" "bytes_dense b" "rx_push b config env s = Some (r, s', env')"
    and "\<forall>g \<in> set env. g = (\<lambda>s. case rx_try_pull [] s of None \<Rightarrow> s | Some (r, s') \<Rightarrow> s')"
  shows "r \<in> {Inr True, Inr False, Inl RxNoKind} \<union> Inl ` RxFail ` {DecodingFailed, InvalidSeqNum, InvalidFragId,
    CapacityLimit, RxTimeout, ChannelClosed}"
proof -
  obtain k Q where ok: "rx_ok k s Q" using rx_run_sys [OF assms(1)] unfolding rx_sys_def by blast
  have "rx_env_ok k g" if "g \<in> set env" for g
  proof -
    have g: "g = (\<lambda>s. case rx_try_pull [] s of None \<Rightarrow> s | Some (r, s') \<Rightarrow> s')" using assms(5) that by blast
    show ?thesis unfolding g by (rule rx_pull_env_ok)
  qed
  then have "\<forall>g \<in> set env. rx_env_ok k g" by blast
  from rx_push_total [OF assms(4) ok assms(2,3) this]
  show ?thesis by (auto simp: push_errors_rx_def accept_errors_def reassembly_errors_def image_iff)
qed

theorem rx_push_robust_witness:
  "\<exists>r s' env'. rx_push (bytes_from (DynVec [7, 255])) demo_rx_config [] demo_rx_pulled = Some (r, s', env')
    \<and> r \<in> {Inr True, Inr False, Inl RxNoKind} \<union> Inl ` RxFail ` {DecodingFailed, InvalidSeqNum, InvalidFragId,
      CapacityLimit, RxTimeout, ChannelClosed}"
proof -
  let ?b = "bytes_from (DynVec [7, 255])"
  have b: "bytes_wf ?b" "bytes_dense ?b" by code_simp+
  have "fst (rx_accept ?b demo_rx_config demo_rx_pulled) = Inl (RxFail DecodingFailed)" by code_simp
  then obtain r s' env' where "rx_push ?b demo_rx_config [] demo_rx_pulled = Some (r, s', env')"
    by (cases "rx_accept ?b demo_rx_config demo_rx_pulled") (auto simp: rx_push_def)
  with rx_push_robust [OF demo_rx_run b this] show ?thesis by auto
qed



text \<open>C16: what a push does with a packet before it waits for room refines the specification of
  reassembly: the buffers of the packet's lane become those of \<open>feed\<close>, the other lanes keep
  theirs, and what goes on to the queue is what \<open>feed\<close> hands on.\<close>

theorem rx_accept_refines:
  fixes config :: rx_push_config
  assumes "rx_run cap lim s h" "bytes_content b = enc_packet pk" "pk_wf pk" "bytes_wf b" "bytes_dense b"
  defines "p \<equiv> qos_priority (pk_qos pk)"
  defines "fd \<equiv> feed (rc_frag_max_size config) (rx_buffers p s) pk"
  shows "\<exists>r s'. rx_accept b config s = (r, s') \<and> rx_buffers p s' = snd fd \<and> (\<forall>q. q \<noteq> p \<longrightarrow> rx_buffers q s' = rx_buffers q s)
    \<and> (case fst fd of None \<Rightarrow> r = Inr None \<or> r \<in> Inl ` RxFail ` {InvalidSeqNum, InvalidFragId, CapacityLimit}
       | Some x \<Rightarrow> \<exists>batch. r = Inr (Some batch) \<and> x = (rb_qos batch, rb_left batch))"
proof -
  obtain k Q where "rx_ok k s Q" using rx_run_sys [OF assms(1)] unfolding rx_sys_def by blast
  then have wf: "defrags_wf s" by (simp add: rx_ok_def)
  show ?thesis
    using rx_accept_packet [OF assms(2-5) wf, of config, folded p_def, folded fd_def]
    by (elim exE conjE) (rule exI, rule exI, intro conjI, assumption+,
      auto simp: reassembly_errors_def split: option.splits)
qed

theorem rx_accept_refines_witness:
  "\<exists>r s'. rx_accept demo_wire demo_rx_config demo_rx_pulled = (r, s')
    \<and> (\<exists>batch. r = Inr (Some batch) \<and> rb_left batch = enc_slice [7, 8, 9])"
proof -
  let ?pk = "PkFrame (QoS 1) (sn_new 1) [[7, 8, 9]]"
  have pk: "bytes_content demo_wire = enc_packet ?pk" "bytes_wf demo_wire" "bytes_dense demo_wire"
    unfolding demo_packet by code_simp+
  from rx_accept_refines [OF demo_rx_run pk(1) demo_packet(2) pk(2,3), of demo_rx_config] show ?thesis by auto
qed


end
