(* ===== verification/Rx_Live.thy ===== *)
theory Rx_Live
  imports Rx_Runs
begin

text \<open>
  A push into the reception pipeline returns: it waits for room in its lane only, every wait ends
  with the event or at the deadline of the push, and a loop turn that follows an event has
  taken it.  When every poll finds the clock advanced, a push whose environment has more steps
  than the timeout has returned.

  The loop for messages that block turns again when its wait has elapsed, and gives up when the
  time spent exceeds the timeout.  So it would turn for ever if the clock stood still at the very
  deadline; the clock of the code has nanoseconds, and the hypothesis here is that no poll finds
  it at that point.
\<close>

section \<open>Waits\<close>

definition advances :: "(rx \<Rightarrow> rx) list \<Rightarrow> bool" where
  "advances env \<longleftrightarrow> (\<forall>g \<in> set env. \<forall>s. rx_clock s < rx_clock (g s))"

definition avoids :: "nat \<Rightarrow> (rx \<Rightarrow> rx) list \<Rightarrow> bool" where
  "avoids d env \<longleftrightarrow> (\<forall>g \<in> set env. \<forall>s. rx_clock (g s) \<noteq> d)"

lemma advances_subset: "advances env \<Longrightarrow> set env' \<subseteq> set env \<Longrightarrow> advances env'"
  and avoids_subset: "avoids d env \<Longrightarrow> set env' \<subseteq> set env \<Longrightarrow> avoids d env'"
  by (auto simp: advances_def avoids_def)

text \<open>How a wait ends: on time; and one that ends with the event has used a step or taken the flag.\<close>

definition wait_done :: "(rx \<Rightarrow> u8) \<Rightarrow> nat \<Rightarrow> (rx \<Rightarrow> rx) list \<Rightarrow> rx \<Rightarrow> wait_end \<times> rx \<times> (rx \<Rightarrow> rx) list \<Rightarrow> bool" where
  "wait_done get d env s z \<longleftrightarrow> (case z of (w, s', env') \<Rightarrow>
     rx_clock s \<le> rx_clock s' \<and> rx_clock s + length env \<le> rx_clock s' + length env' \<and> set env' \<subseteq> set env
     \<and> (rx_clock s \<noteq> d \<and> avoids d env \<longrightarrow> rx_clock s' \<noteq> d)
     \<and> (w = WaitElapsed \<longrightarrow> d \<le> rx_clock s')
     \<and> (w = WaitOk \<longrightarrow> get s' = 0 \<and> (get s = 0 \<longrightarrow> length env' < length env)) \<and> length env' \<le> length env)"

lemma event_check_cases:
  "fst (event_check f) = CheckOk \<Longrightarrow> snd (event_check f) = 0" "event_check 0 = (CheckUnset, 0)"
  by (auto simp: event_check_def event_values split: if_splits)

lemma wait_event_returns:
  assumes "advances env" "d \<le> rx_clock s + length env"
    and "\<And>f s. rx_clock (put f s) = rx_clock s" "\<And>f s. get (put f s) = f"
  shows "\<exists>z. wait_event get put d env s = Some z \<and> wait_done get d env s z"
  using assms(1,2)
proof (induction env arbitrary: s)
  case Nil
  then show ?case
    using event_check_cases(1) [of "get s"] assms(3,4)
    by (auto simp: wait_done_def event_check_cases(2) split: prod.splits event_check.splits)
next
  case (Cons g env)
  obtain c f where c: "event_check (get s) = (c, f)" by force
  show ?case
  proof (cases "c = CheckUnset \<and> \<not> d \<le> rx_clock s")
    case True
    have g: "rx_clock s < rx_clock (g s)" using Cons.prems(1) by (simp add: advances_def)
    have "advances env" using Cons.prems(1) by (simp add: advances_def)
    moreover have "d \<le> rx_clock (g s) + length env" using g Cons.prems(2) by simp
    ultimately obtain z where z: "wait_event get put d env (g s) = Some z" "wait_done get d env (g s) z"
      using Cons.IH [of "g s"] by blast
    have "wait_done get d (g # env) s z"
      using z(2) g by (cases z) (auto simp: wait_done_def avoids_def)
    then show ?thesis using z(1) c True by simp
  next
    case False
    then show ?thesis
      using c event_check_cases(1) [of "get s"] assms(3,4) by (cases c) (auto simp: wait_done_def event_check_cases(2))
  qed
qed

lemma wait_can_send_returns:
  assumes "advances env" "d \<le> rx_clock s + length env"
  shows "\<exists>z. wait_can_send p d env s = Some z \<and> wait_done (\<lambda>s. rx_can_send s p) d env s z"
  unfolding wait_can_send_def using assms by (rule wait_event_returns) simp_all

section \<open>The loop of a push\<close>

lemma spsc_push_given_back: "fst (spsc_push p t s) = Some t' \<Longrightarrow> t' = t"
  by (auto simp: spsc_push_def rw_push_def Let_def split: prod.splits bool.splits)

definition push_timeout :: "rx_push_config \<Rightarrow> read_batch \<Rightarrow> nat" where
  "push_timeout config batch = (case qos_congestion_control (rb_qos batch) of
     Block \<Rightarrow> rc_timeout_block config | Drop \<Rightarrow> rc_timeout_drop config)"

text \<open>When the time is up a turn of the loop is the last.\<close>

lemma rx_enqueue_late:
  assumes "start + push_timeout config batch < rx_clock s"
  shows "\<exists>z. rx_enqueue start batch config env s = Some z"
proof -
  have "compute_timeout start t s' = None" if "start + t < rx_clock s'" for t s'
    using that by (auto simp: compute_timeout_def checked_sub_def)
  then show ?thesis
    using assms
    by (subst rx_enqueue.simps)
      (auto simp: Let_def push_timeout_def split: prod.splits option.splits congestion_control.splits)
qed

lemma rx_enqueue_returns:
  assumes "advances env" "avoids (start + push_timeout config batch) env"
    and "start \<le> rx_clock s" "rx_clock s \<noteq> start + push_timeout config batch"
    and "start + push_timeout config batch \<le> rx_clock s + length env"
  shows "\<exists>z. rx_enqueue start batch config env s = Some z"
  using assms
proof (induction "2 * length env + (if rx_can_send s (qos_priority (rb_qos batch)) = 0 then 0 else 1)"
    arbitrary: env s rule: less_induct)
  case less
  let ?p = "qos_priority (rb_qos batch)" and ?T = "push_timeout config batch"
  show ?case
  proof (cases "start + ?T < rx_clock s")
    case True
    then show ?thesis by (rule rx_enqueue_late)
  next
    case False
    then have early: "rx_clock s < start + ?T" using less.prems(4) by simp
    obtain r rb where push: "spsc_push ?p batch (rx_ring s) = (r, rb)" by force
    let ?s1 = "s\<lparr>rx_ring := rb\<rparr>"
    have left: "compute_timeout start ?T ?s1 = Some (start + ?T - rx_clock s)"
      using less.prems(3) early by (auto simp: compute_timeout_def checked_sub_def)
    obtain w s2 env' where w: "wait_can_send ?p (start + ?T) env ?s1 = Some (w, s2, env')"
        "wait_done (\<lambda>s. rx_can_send s ?p) (start + ?T) env ?s1 (w, s2, env')"
      using wait_can_send_returns [of env "start + ?T" ?s1 ?p] less.prems by auto
    have sub: "set env' \<subseteq> set env" and fuel: "start + ?T \<le> rx_clock s2 + length env'" "start \<le> rx_clock s2"
        "rx_clock s2 \<noteq> start + ?T"
      using w(2) less.prems by (auto simp: wait_done_def)
    have again: "\<exists>z. rx_enqueue start batch config env' s2 = Some z" if "w = WaitOk"
      by (rule less.hyps) (use w(2) that sub fuel less.prems in \<open>auto simp: wait_done_def intro: advances_subset avoids_subset\<close>)
    have late: "\<exists>z. rx_enqueue start batch config env' (s2\<lparr>rx_status := x\<rparr>) = Some z" if "w = WaitElapsed" for x
      by (rule rx_enqueue_late) (use w(2) that fuel in \<open>auto simp: wait_done_def\<close>)
    have d: "rx_clock ?s1 + (start + ?T - rx_clock s) = start + ?T" using early by simp
    show ?thesis
    proof (cases r)
      case None
      then show ?thesis using push by (subst rx_enqueue.simps) (auto simp: Let_def split: prod.splits)
    next
      case (Some zb)
      then have zb: "zb = batch" using spsc_push_given_back [of ?p batch "rx_ring s" zb] push by simp
      show ?thesis
        by (subst rx_enqueue.simps)
          (use push Some zb left w(1) d again late in
            \<open>cases "qos_congestion_control (rb_qos batch)"; cases w; auto simp: Let_def push_timeout_def\<close>)
    qed
  qed
qed

section \<open>A push returns\<close>

lemma rx_accept_clock: "rx_accept b config s = (r, s') \<Longrightarrow> rx_clock s' = rx_clock s"
  by (auto simp: rx_accept_def Let_def split: prod.splits sum.splits read_err.splits message_body.splits option.splits)

text \<open>C20: from any state, if every poll finds the clock advanced and none finds it at the very
  deadline, a push returns before its polls outnumber its timeout, whatever the bytes are and
  whatever the receiver does in the meantime.\<close>

theorem rx_push_returns:
  assumes "advances env" "avoids (rx_clock s + rc_timeout_block config) env" "avoids (rx_clock s + rc_timeout_drop config) env"
    and "0 < rc_timeout_block config" "0 < rc_timeout_drop config"
    and "rc_timeout_block config \<le> length env" "rc_timeout_drop config \<le> length env"
  shows "\<exists>r s' env'. rx_push b config env s = Some (r, s', env')"
proof -
  obtain r s1 where r: "rx_accept b config s = (r, s1)" by force
  have "\<exists>z. rx_enqueue (rx_clock s1) batch config env s1 = Some z" for batch
    by (rule rx_enqueue_returns)
      (use assms in \<open>simp_all add: rx_accept_clock [OF r] push_timeout_def split: congestion_control.split\<close>)
  then show ?thesis
    using r by (cases r) (auto simp: rx_push_def split: option.splits)
qed

theorem rx_push_returns_witness:
  "\<exists>r s' env'. rx_push demo_wire demo_rx_config (replicate 5 (\<lambda>s. s\<lparr>rx_clock := rx_clock s + 9\<rparr>)) demo_rx_new = Some (r, s', env')"
proof (rule rx_push_returns)
  have c: "rx_clock demo_rx_new = 0" by code_simp
  show "avoids (rx_clock demo_rx_new + rc_timeout_block demo_rx_config) (replicate 5 (\<lambda>s. s\<lparr>rx_clock := rx_clock s + 9\<rparr>))"
    "avoids (rx_clock demo_rx_new + rc_timeout_drop demo_rx_config) (replicate 5 (\<lambda>s. s\<lparr>rx_clock := rx_clock s + 9\<rparr>))"
    by (simp_all add: avoids_def demo_rx_config_def c)
qed (simp_all add: advances_def demo_rx_config_def)

end
