(* ===== verification/Io_Adapters.thy ===== *)
theory Io_Adapters
  imports Bytes_Cursor
begin

text \<open>
  The implementations of \<open>std::io::Read\<close> and \<open>std::io::Write\<close> at the end of
  \<open>src/buffers/bytes.rs\<close> and in \<open>src/buffers/boxbuf.rs\<close>, and what the loops that the standard library
  builds on them do: \<open>write_all\<close> over any writer, \<open>read_to_end\<close> over a \<open>BytesReader\<close>.
\<close>

section \<open>The adapters\<close>

text \<open>\<open>IoOob\<close> is the access without a bounds check that the laws of the buffers exclude.\<close>

datatype io_error = IoUnexpectedEof | IoWriteZero | IoOob

definition bytes_io_read :: "nat \<Rightarrow> (bytes_reader, io_error, u8 list) op" where
  "bytes_io_read n self = (case br_read n self of
       (Inr bs, self') \<Rightarrow> (Inr bs, self')
     | (Inl DidntRead, self') \<Rightarrow> (Inr [], self')
     | (Inl ReadOob, self') \<Rightarrow> (Inl IoOob, self'))"

text \<open>The result of a \<open>Writer\<close>, as both implementations of \<open>std::io::Write\<close> turn it.\<close>

definition io_written :: "('w, write_err, nat) op \<Rightarrow> ('w, io_error, nat) op" where
  "io_written m self = (case m self of
       (Inr n, self') \<Rightarrow> (Inr n, self')
     | (Inl DidntWrite, self') \<Rightarrow> (Inl IoUnexpectedEof, self')
     | (Inl WriteOob, self') \<Rightarrow> (Inl IoOob, self'))"

definition bytes_io_write :: "u8 list \<Rightarrow> (bytes_writer, io_error, nat) op" where
  "bytes_io_write buf = (if buf = [] then ok 0 else io_written (w_write bw_ops buf))"

definition boxbuf_io_write :: "u8 list \<Rightarrow> (boxbuf, io_error, nat) op" where
  "boxbuf_io_write buf = io_written (bb_write buf)"

section \<open>The loops of the standard library\<close>

text \<open>\<open>write_all\<close>: what is left of the buffer is written again until nothing is.\<close>

function io_write_all :: "(u8 list \<Rightarrow> ('w, io_error, nat) op) \<Rightarrow> u8 list \<Rightarrow> ('w, io_error, unit) op" where
  "io_write_all write buf self = (if buf = [] then (Inr (), self) else case write buf self of
       (Inl e, self') \<Rightarrow> (Inl e, self')
     | (Inr n, self') \<Rightarrow> if n = 0 then (Inl IoWriteZero, self') else io_write_all write (drop n buf) self')"
  by pat_completeness auto
termination by (relation "measure (\<lambda>(_, buf, _). length buf)") auto

declare io_write_all.simps [simp del]

text \<open>\<open>read_to_end\<close>: read into the spare room of the vector, of which there is \<open>spare n\<close> when \<open>n\<close> bytes
  have been read, until a read gives nothing.\<close>

partial_function (option) io_read_to_end :: "(nat \<Rightarrow> nat) \<Rightarrow> u8 list \<Rightarrow> bytes_reader \<Rightarrow>
    ((io_error + u8 list) \<times> bytes_reader) option" where
  "io_read_to_end spare got self = (case bytes_io_read (spare (length got)) self of
       (Inl e, self') \<Rightarrow> Some (Inl e, self')
     | (Inr bs, self') \<Rightarrow> if bs = [] then Some (Inr got, self') else io_read_to_end spare (got @ bs) self')"

section \<open>What they do\<close>

text \<open>\<open>write_all\<close> over a writer appends all that is given to it, or a strict prefix and reports an
  error; it never reports \<open>WriteZero\<close>.\<close>

context writer
begin

lemma write_all_emits:
  assumes io: "\<And>bs. bs \<noteq> [] \<Longrightarrow> write' bs = io_written (w_write W bs)" and w: "wv_inv V w"
  shows "if wv_fits V w (length bs)
    then \<exists>w'. io_write_all write' bs w = (Inr (), w') \<and> appends V w bs w'
    else \<exists>k w'. io_write_all write' bs w = (Inl IoUnexpectedEof, w') \<and> k < length bs \<and> appends V w (take k bs) w'"
  using w
proof (induction "length bs" arbitrary: bs w rule: less_induct)
  case less
  have same: "appends V w [] w" using less.prems by (simp add: appends_def)
  show ?case
  proof (cases "bs = []")
    case True
    then show ?thesis using same fits_zero [OF less.prems] by (simp add: io_write_all.simps)
  next
    case False
    from takes_some [of bs] less.prems consider
        (some) k w1 where "w_write W bs w = (Inr k, w1)" "0 < k" "k \<le> length bs" "appends V w (take k bs) w1"
          "k < length bs \<longrightarrow> \<not> wv_fits V w (Suc k)"
      | (none) "w_write W bs w = (Inl DidntWrite, w)" "\<not> wv_fits V w 1"
      using False by (auto simp: takes_some_def)
    then show ?thesis
    proof cases
      case none
      have "\<not> wv_fits V w (length bs)" using none(2) fits_mono [OF less.prems, of "length bs" 1] False by (cases bs) auto
      moreover have "io_write_all write' bs w = (Inl IoUnexpectedEof, w)"
        using none(1) False io [OF False] by (simp add: io_write_all.simps io_written_def)
      ultimately show ?thesis using False same by (intro if_not_P [THEN iffD2] exI [of _ 0]) auto
    next
      case some
      have step: "io_write_all write' bs w = io_write_all write' (drop k bs) w1"
        using some(1,2) False io [OF False] by (subst io_write_all.simps) (simp add: io_written_def)
      have w1: "wv_inv V w1" and fits: "\<And>n. wv_fits V w1 n = wv_fits V w (k + n)"
        using some(3,4) by (simp_all add: appends_def min_def)
      have join: "appends V w (take k bs @ ds) w2" if "appends V w1 ds w2" for ds w2
        using that some(4) by (auto simp: appends_def add.assoc)
      have "length (drop k bs) < length bs" using some(2) False by simp
      from less.hyps [OF this w1] fits [of "length bs - k"] some(3) show ?thesis
        unfolding step
        using join
        by (simp split: if_splits) (metis append_take_drop_id take_add le_add_diff_inverse nat_add_left_cancel_less)+
    qed
  qed
qed

end

lemma bytes_io_write_all:
  assumes "bw_wf w"
  shows "\<exists>w'. io_write_all bytes_io_write bs w = (Inr (), w') \<and> bw_wf w' \<and> bw_written w' = bw_written w @ bs"
  using bytes_w.write_all_emits [of bytes_io_write w bs] assms
  by (simp add: bytes_io_write_def bw_view_def appends_def)

text \<open>A \<open>BoxBuf\<close> takes what fits and reports \<open>UnexpectedEof\<close> for the rest.\<close>

lemma boxbuf_io_write_all:
  assumes "bb_wf b"
  shows "if bb_len b + length bs \<le> bb_capacity b
    then \<exists>b'. io_write_all boxbuf_io_write bs b = (Inr (), b') \<and> bb_wf b' \<and> bb_as_slice b' = bb_as_slice b @ bs
    else \<exists>k b'. io_write_all boxbuf_io_write bs b = (Inl IoUnexpectedEof, b') \<and> k < length bs
      \<and> bb_wf b' \<and> bb_as_slice b' = bb_as_slice b @ take k bs"
  using box_w.write_all_emits [of boxbuf_io_write "bb_capacity b" b bs] assms
  by (fastforce simp: boxbuf_io_write_def bb_ops_def appends_def split: if_splits)

text \<open>An empty buffer is an error for a \<open>BoxBuf\<close>, where \<open>std::io::Write\<close> and \<open>BytesWriter\<close> have
  \<open>Ok(0)\<close>.\<close>

lemma boxbuf_io_write_empty:
  "bb_wf b \<Longrightarrow> boxbuf_io_write [] b = (Inl IoUnexpectedEof, b)" "bytes_io_write [] w = (Inr 0, w)"
  by (simp_all add: boxbuf_io_write_def bytes_io_write_def io_written_def bb_write_eq)

text \<open>\<open>read_to_end\<close> returns, with all that is left, however much room the vector has at each turn.\<close>

lemma io_read_to_end_all:
  assumes "br_ok r" "\<And>n. 0 < spare n"
  shows "\<exists>r'. io_read_to_end spare got r = Some (Inr (got @ br_pending r), r') \<and> br_pending r' = []"
  using assms(1)
proof (induction "length (br_pending r)" arbitrary: r got rule: less_induct)
  case less
  let ?n = "spare (length got)"
  obtain r1 where r1: "br_read ?n r = (if take ?n (br_pending r) = [] then Inl DidntRead else Inr (take ?n (br_pending r)), r1)"
      "br_steps r (min ?n (length (br_pending r))) r1"
    using br_read_spec [OF less.prems] by blast
  have pend: "br_pending r1 = drop ?n (br_pending r)" and ok: "br_ok r1"
    using br_steps_pending [OF r1(2)] r1(2) by (simp_all add: br_steps_def min_def)
  show ?case
  proof (cases "br_pending r = []")
    case True
    then show ?thesis using r1(1) pend by (subst io_read_to_end.simps) (simp add: bytes_io_read_def)
  next
    case False
    then have t: "take ?n (br_pending r) \<noteq> []" "length (br_pending r1) < length (br_pending r)"
      using assms(2) [of "length got"] pend by auto
    obtain r' where "io_read_to_end spare (got @ take ?n (br_pending r)) r1
          = Some (Inr ((got @ take ?n (br_pending r)) @ br_pending r1), r')" "br_pending r' = []"
      using less.hyps [OF t(2) ok] by blast
    then show ?thesis using r1(1) t(1) pend by (subst io_read_to_end.simps) (simp add: bytes_io_read_def)
  qed
qed

text \<open>What is written with \<open>write_all\<close> into a \<open>Bytes\<close> is read back with \<open>read_to_end\<close>, behind what
  was in it before, however it was cut into chunks.\<close>

theorem io_roundtrip:
  assumes "bytes_wf b" "\<And>n. 0 < spare n"
  shows "\<exists>w r. io_write_all bytes_io_write bs (bytes_writer b) = (Inr (), w)
    \<and> io_read_to_end spare [] (bytes_reader (bw_drop w)) = Some (Inr (bytes_content b @ bs), r)"
proof -
  obtain w where w: "io_write_all bytes_io_write bs (bytes_writer b) = (Inr (), w)" "bw_wf w" "bw_written w = bytes_content b @ bs"
    using bytes_io_write_all [of "bytes_writer b" bs] assms(1) by auto
  have "br_ok (bytes_reader (bw_drop w))" using bw_drop_laws(1) [OF w(2)] by simp
  from io_read_to_end_all [of _ spare "[]", OF this assms(2)] show ?thesis
    using w bw_drop_laws(2) [OF w(2)] by auto
qed

theorem io_roundtrip_witness:
  "\<exists>w r. io_write_all bytes_io_write [1, 2, 3] (bytes_writer (bytes_from (DynVec [7, 8]))) = (Inr (), w)
    \<and> io_read_to_end (\<lambda>_. 2) [] (bytes_reader (bw_drop w)) = Some (Inr [7, 8, 1, 2, 3], r)"
proof -
  have "bytes_wf (bytes_from (DynVec [7, 8]))" "bytes_content (bytes_from (DynVec [7, 8])) = [7, 8]" by code_simp+
  then show ?thesis using io_roundtrip [of "bytes_from (DynVec [7, 8])" "\<lambda>_. 2" "[1, 2, 3]"] by simp
qed

end
