(* ===== verification/Api_Receiver.thy ===== *)
theory Api_Receiver
  imports Pipeline_Tx Pipeline_Rx
begin

text \<open>
  \<open>src/api/receiver.rs\<close>: the receiver's handle, its builder, and the task that cuts the byte stream
  into batches and pushes them into the reception pipeline.

  The stream is a parameter: \<open>AsyncReadExt::read_exact\<close> of tokio, with the number of bytes asked
  for.  A timer that expires while it is suspended, and the cancellation of the token, are
  outcomes of the call.  The counters of the \<open>stats\<close> feature are left out.
\<close>

section \<open>The byte stream\<close>

datatype read_error = ReadFailed | ReadTimedOut | ReadCancelled

type_synonym 'r source = "nat \<Rightarrow> 'r \<Rightarrow> (read_error + u8 list) \<times> 'r"

text \<open>
  What the documentation of \<open>read_exact\<close> promises, for the bytes \<open>inp\<close> that are still to come: the
  bytes that it gives are as many as were asked for and come next.
\<close>

definition source_ok :: "('r \<Rightarrow> u8 list) \<Rightarrow> 'r source \<Rightarrow> bool" where
  "source_ok inp read_exact \<longleftrightarrow> (\<forall>n r bs r'. read_exact n r = (Inr bs, r') \<longrightarrow> length bs = n \<and> inp r = bs @ inp r')"

section \<open>The task\<close>

record receiver_task_inner =
  ri_timeout_read :: u64
  ri_timeout_drop :: u64
  ri_timeout_block :: u64
  ri_max_frag_size :: nat

definition inner_push_config :: "receiver_task_inner \<Rightarrow> rx_push_config" where
  "inner_push_config inner = \<lparr>rc_frag_max_size = ri_max_frag_size inner,
     rc_timeout_drop = duration_micros (atomic_duration_load (ri_timeout_drop inner)),
     rc_timeout_block = duration_micros (atomic_duration_load (ri_timeout_block inner))\<rparr>"

text \<open>\<open>BatchSize::from_le_bytes\<close> of an array of two bytes.\<close>

definition u16_from_le_bytes :: "u8 list \<Rightarrow> u16" where
  "u16_from_le_bytes bs = ucast (bs ! 0) OR push_bit 8 (ucast (bs ! 1))"

text \<open>What the task makes of the result of a push: whether it goes on.\<close>

fun goes_on :: "rx_error \<Rightarrow> bool" where
  "goes_on InvalidSeqNum = True" | "goes_on InvalidFragId = True" | "goes_on CapacityLimit = True"
| "goes_on RxTimeout = True"
| "goes_on DecodingFailed = False" | "goes_on ChannelClosed = False" | "goes_on InternalError = False"

text \<open>\<open>read_all!\<close>: what was read, or \<open>None\<close> where the macro breaks out of the loop.\<close>

definition read_all :: "'r source \<Rightarrow> nat \<Rightarrow> 'r \<Rightarrow> u8 list option \<times> 'r" where
  "read_all read_exact n r = (case read_exact n r of
       (Inl _, r') \<Rightarrow> (None, r')
     | (Inr bs, r') \<Rightarrow> (if length bs = 0 then None else Some bs, r'))"

text \<open>The batch that is pushed: a vector of a power of two bytes, of which the first \<open>len\<close> were read.\<close>

definition read_chunk_of :: "nat \<Rightarrow> u8 list \<Rightarrow> bytes" where
  "read_chunk_of len body =
     bytes_single (chunk_new_unchecked (DynVec (body @ replicate (next_power_of_two len - len) 0)) 0 len)"

text \<open>One turn of the loop: it goes on, it ends, or the pipeline fails.  \<open>None\<close>: still waiting.\<close>

datatype turn_end = NextTurn | LeaveLoop | TurnFailed rx_fail

definition read_turn :: "'r source \<Rightarrow> receiver_task_inner \<Rightarrow> (rx \<Rightarrow> rx) list \<Rightarrow> 'r \<Rightarrow> rx \<Rightarrow>
    (turn_end \<times> 'r \<times> rx \<times> (rx \<Rightarrow> rx) list) option" where
  "read_turn read_exact inner env r s =
     (case read_all read_exact 2 r of
        (None, r1) \<Rightarrow> Some (LeaveLoop, r1, s, env)
      | (Some size_bytes, r1) \<Rightarrow>
          let len = unat (u16_from_le_bytes size_bytes)
          in if len = 0 then Some (NextTurn, r1, s, env)
             else (case read_all read_exact len r1 of
                 (None, r2) \<Rightarrow> Some (LeaveLoop, r2, s, env)
               | (Some body, r2) \<Rightarrow>
                   map_option (\<lambda>(res, s', env'). (case res of
                        Inr pushed \<Rightarrow> NextTurn
                      | Inl (RxFail e) \<Rightarrow> if goes_on e then NextTurn else LeaveLoop
                      | Inl e \<Rightarrow> TurnFailed e, r2, s', env'))
                   (rx_push (read_chunk_of len body) (inner_push_config inner) env s)))"

text \<open>The loop, with what the other tasks do in each of its turns; the second component of the
  result says whether it still runs.\<close>

primrec read_task :: "'r source \<Rightarrow> (receiver_task_inner \<times> (rx \<Rightarrow> rx) list) list \<Rightarrow> 'r \<Rightarrow> rx \<Rightarrow>
    (turn_end \<times> 'r \<times> rx) option" where
  "read_task read_exact [] r s = Some (NextTurn, r, s)"
| "read_task read_exact (t # ts) r s = Option.bind (read_turn read_exact (fst t) (snd t) r s) (\<lambda>(e, r', s', _).
     case e of NextTurn \<Rightarrow> read_task read_exact ts r' s' | LeaveLoop \<Rightarrow> Some (LeaveLoop, r', s')
       | TurnFailed f \<Rightarrow> Some (TurnFailed f, r', s'))"

section \<open>The handles\<close>

definition set_read_timeout :: "duration \<Rightarrow> receiver_task_inner \<Rightarrow> receiver_task_inner option" where
  "set_read_timeout timeout inner = map_option (\<lambda>v. inner\<lparr>ri_timeout_read := v\<rparr>) (atomic_duration_store timeout)"

text \<open>\<open>ReceiverTask::stop\<close>: the token is cancelled (the \<open>True\<close>) and the timeout is cleared.\<close>

definition receiver_task_stop :: "receiver_task_inner \<Rightarrow> (bool \<times> receiver_task_inner) option" where
  "receiver_task_stop inner = map_option (Pair True) (set_read_timeout \<lparr>dur_secs = 0, dur_nanos = 0\<rparr> inner)"

text \<open>\<open>Receiver\<close>: its configuration and whether the token has been cancelled.\<close>

record receiver_handle =
  rcv_timeout :: nat
  rcv_cancelled :: bool

definition receiver_recv :: "receiver_handle \<Rightarrow> (rx \<Rightarrow> rx) list \<Rightarrow> rx \<Rightarrow>
    ((rx_fail + (recv_error + (bytes \<times> qos))) \<times> rx \<times> (rx \<Rightarrow> rx) list) option" where
  "receiver_recv self env s = rx_pull (rcv_timeout self) env s"

definition receiver_try_recv :: "(rx \<Rightarrow> rx) list \<Rightarrow> rx \<Rightarrow> ((rx_fail + (bytes \<times> qos) option) \<times> rx) option" where
  "receiver_try_recv races s = rx_try_pull races s"

definition receiver_stop :: "receiver_handle \<Rightarrow> receiver_handle" where
  "receiver_stop self = self\<lparr>rcv_cancelled := True\<rparr>"

definition receiver_is_closed :: "receiver_handle \<Rightarrow> bool" where
  "receiver_is_closed self = rcv_cancelled self"

definition receiver_set_timeout :: "nat \<Rightarrow> receiver_handle \<Rightarrow> receiver_handle" where
  "receiver_set_timeout t self = self\<lparr>rcv_timeout := t\<rparr>"

section \<open>The builder\<close>

record receiver_builder =
  rcb_capacity :: nat
  rcb_timeout :: nat
  rcb_max_frag_size :: nat

definition DURATION_MAX :: duration where
  "DURATION_MAX = \<lparr>dur_secs = 2 ^ 64 - 1, dur_nanos = 999999999\<rparr>"

definition receiver :: receiver_builder where
  "receiver = \<lparr>rcb_capacity = 16, rcb_timeout = duration_micros DURATION_MAX, rcb_max_frag_size = 2 ^ 30\<rparr>"

definition receiver_builder_capacity :: "nat \<Rightarrow> receiver_builder \<Rightarrow> receiver_builder" where
  "receiver_builder_capacity c b = b\<lparr>rcb_capacity := c\<rparr>"

definition receiver_builder_timeout :: "nat \<Rightarrow> receiver_builder \<Rightarrow> receiver_builder" where
  "receiver_builder_timeout t b = b\<lparr>rcb_timeout := t\<rparr>"

definition receiver_builder_max_frag_size :: "nat \<Rightarrow> receiver_builder \<Rightarrow> receiver_builder" where
  "receiver_builder_max_frag_size n b = b\<lparr>rcb_max_frag_size := n\<rparr>"

definition receiver_build :: "receiver_builder \<Rightarrow> (receiver_handle \<times> receiver_task_inner \<times> rx) option" where
  "receiver_build b =
     Option.bind (atomic_duration_store \<lparr>dur_secs = 10, dur_nanos = 0\<rparr>) (\<lambda>timeout_read.
     Option.bind (atomic_duration_store \<lparr>dur_secs = 0, dur_nanos = 500 * 10 ^ 6\<rparr>) (\<lambda>timeout_drop.
     Option.bind (atomic_duration_store \<lparr>dur_secs = 60, dur_nanos = 0\<rparr>) (\<lambda>timeout_block.
     Option.bind (pipeline_rx (rcb_capacity b)) (\<lambda>s.
       Some (\<lparr>rcv_timeout = rcb_timeout b, rcv_cancelled = False\<rparr>,
         \<lparr>ri_timeout_read = timeout_read, ri_timeout_drop = timeout_drop, ri_timeout_block = timeout_block,
           ri_max_frag_size = rcb_max_frag_size b\<rparr>, s)))))"

end
