(* ===== verification/Api_Sender.thy ===== *)
theory Api_Sender
  imports Pipeline_Tx
begin

text \<open>
  \<open>src/api/sender.rs\<close>: the sender's handle, its builder, and the task that writes the batches of
  the pipeline to a byte stream.

  The stream is a parameter: \<open>AsyncWriteExt\<close> of tokio, as a record of the three calls that the
  task makes.  A call runs to its end; a timer that expires while it is suspended is the
  outcome \<open>TimedOut\<close>.  The task is a state machine whose states are its suspensions, so that
  other tasks can run between two steps; which step comes next (a timer, the cancellation
  token, the stream) is an event.  The counters of the \<open>stats\<close> feature are left out.
\<close>

section \<open>The byte stream\<close>

datatype io_error = WriteZero | IoFailed | TimedOut

record 'w sink =
  sk_write_vectored :: "u8 list list \<Rightarrow> 'w \<Rightarrow> (io_error + nat) \<times> 'w"
  sk_flush :: "'w \<Rightarrow> (io_error + unit) \<times> 'w"
  sk_write_all :: "u8 list \<Rightarrow> 'w \<Rightarrow> (io_error + unit) \<times> 'w"

text \<open>
  What the documentation of \<open>AsyncWrite\<close> and \<open>AsyncWriteExt\<close> promises, for the bytes \<open>out\<close> that the
  stream has taken: a write takes a prefix and says how long it is, and a write that fails has
  taken nothing; \<open>write_all\<close> takes everything, or a prefix of unknown length if it fails.
\<close>

definition sink_ok :: "('w \<Rightarrow> u8 list) \<Rightarrow> 'w sink \<Rightarrow> bool" where
  "sink_ok out sk \<longleftrightarrow>
     (\<forall>ss k. case sk_write_vectored sk ss k of
          (Inr n, k') \<Rightarrow> n \<le> length (concat ss) \<and> out k' = out k @ take n (concat ss)
        | (Inl e, k') \<Rightarrow> out k' = out k)
   \<and> (\<forall>k. out (snd (sk_flush sk k)) = out k)
   \<and> (\<forall>bs k. case sk_write_all sk bs k of
          (Inr _, k') \<Rightarrow> out k' = out k @ bs
        | (Inl e, k') \<Rightarrow> \<exists>n \<le> length bs. out k' = out k @ take n bs)"

section \<open>Writing slices\<close>

text \<open>\<open>IoSlice::advance_slices\<close>; \<open>None\<close> is its panic beyond the end.\<close>

fun advance_slices :: "u8 list list \<Rightarrow> nat \<Rightarrow> u8 list list option" where
  "advance_slices [] n = (if n = 0 then Some [] else None)"
| "advance_slices (s # ss) n = (if length s \<le> n then advance_slices ss (n - length s) else Some (drop n s # ss))"

lemma advance_slices_concat:
  "n \<le> length (concat ss) \<Longrightarrow> \<exists>ss'. advance_slices ss n = Some ss' \<and> concat ss' = drop n (concat ss)"
  by (induction ss n rule: advance_slices.induct) auto

lemma advance_slices_Some: "advance_slices ss n = Some ss' \<Longrightarrow> length (concat ss') + n = length (concat ss)"
  by (induction ss n rule: advance_slices.induct) (auto split: if_splits)

datatype write_fail = WriteIo io_error | AdvanceOob | WriteTx tx_fail

function write_all_vectored :: "'w sink \<Rightarrow> nat \<Rightarrow> u8 list list \<Rightarrow> 'w \<Rightarrow> (write_fail + nat) \<times> 'w" where
  "write_all_vectored sk written slices k =
     (if slices = [] then (Inr written, k)
      else case sk_write_vectored sk slices k of
          (Inl e, k') \<Rightarrow> (Inl (WriteIo e), k')
        | (Inr n, k') \<Rightarrow>
            if n = 0 then (Inl (WriteIo WriteZero), k')
            else (case advance_slices slices n of
                None \<Rightarrow> (Inl AdvanceOob, k')
              | Some slices' \<Rightarrow> write_all_vectored sk (written + n) slices' k'))"
  by pat_completeness auto
termination
  by (relation "measure (\<lambda>(sk, written, slices, k). length (concat slices))") (auto dest: advance_slices_Some)

declare write_all_vectored.simps [simp del]

section \<open>The handles\<close>

text \<open>
  A \<open>Duration\<close> that is compared with the clock counts its microseconds; one that is kept in an
  \<open>AtomicDuration\<close> is a word of \<open>Sync\<close>, and a duration that it does not accept a panic, \<open>None\<close>.
\<close>

record sender_task_inner =
  st_write_timeout :: u64
  st_keep_alive :: u64
  st_max_batch_age :: u64

definition set_write_timeout :: "duration \<Rightarrow> sender_task_inner \<Rightarrow> sender_task_inner option" where
  "set_write_timeout timeout inner = map_option (\<lambda>v. inner\<lparr>st_write_timeout := v\<rparr>) (atomic_duration_store timeout)"

definition set_keep_alive :: "duration \<Rightarrow> sender_task_inner \<Rightarrow> sender_task_inner option" where
  "set_keep_alive interval inner = map_option (\<lambda>v. inner\<lparr>st_keep_alive := v\<rparr>) (atomic_duration_store interval)"

definition set_max_batch_age :: "duration \<Rightarrow> sender_task_inner \<Rightarrow> sender_task_inner option" where
  "set_max_batch_age age inner = map_option (\<lambda>v. inner\<lparr>st_max_batch_age := v\<rparr>) (atomic_duration_store age)"

text \<open>\<open>Sender\<close>: the pipeline is shared, so it is the state that the calls pass on.\<close>

definition sender_qos :: "qos \<Rightarrow> push_config \<Rightarrow> push_config" where
  "sender_qos q config = config\<lparr>pc_qos := q\<rparr>"

definition sender_timeout :: "nat \<Rightarrow> push_config \<Rightarrow> push_config" where
  "sender_timeout t config = config\<lparr>pc_timeout := t\<rparr>"

definition sender_timeout_progress :: "nat \<Rightarrow> push_config \<Rightarrow> push_config" where
  "sender_timeout_progress t config = config\<lparr>pc_timeout_batch := t\<rparr>"

definition sender_is_congested :: "push_config \<Rightarrow> tx \<Rightarrow> bool" where
  "sender_is_congested config s \<longleftrightarrow> status_any (tx_status s) (status_congested (qos_priority (pc_qos config)))"

definition sender_is_closed :: "push_config \<Rightarrow> tx \<Rightarrow> bool" where
  "sender_is_closed config s \<longleftrightarrow> False"

definition sender_send :: "bytes \<Rightarrow> push_config \<Rightarrow> (tx \<Rightarrow> tx) list \<Rightarrow> tx \<Rightarrow>
    ((tx_fail + unit) \<times> tx \<times> (tx \<Rightarrow> tx) list) option" where
  "sender_send msg config env s = tx_push msg config env s"

text \<open>The token is cancelled when the pipeline is disabled: the \<open>True\<close> in the result.\<close>

definition sender_stop :: "(tx \<Rightarrow> tx) list \<Rightarrow> tx \<Rightarrow> (bool \<times> tx \<times> (tx \<Rightarrow> tx) list) option" where
  "sender_stop env s = map_option (\<lambda>(s', env'). (True, s', env')) (tx_disable env s)"

text \<open>\<open>SenderTask::stop\<close> cancels the token too; it does not disable the pipeline.\<close>

definition sender_task_stop :: "sender_task_inner \<Rightarrow> bool \<times> sender_task_inner" where
  "sender_task_stop inner = (True, inner)"

section \<open>The task\<close>

definition COALESCE_MAX_BATCHES :: nat where "COALESCE_MAX_BATCHES = 8"

text \<open>The slices of \<open>write_batches!\<close>.\<close>

definition add_slices :: "write_batch \<Rightarrow> u8 list single_or_vec \<Rightarrow> u8 list single_or_vec" where
  "add_slices batch slices =
     (let slices = sov_push slices (bb_as_slice (wb_frame batch))
      in if bytes_is_empty (wb_fragment batch) then slices
         else sov_extend slices (bytes_slices (wb_fragment batch)))"

primrec refill_all :: "write_batch list \<Rightarrow> tx \<Rightarrow> (tx_fail + unit) \<times> tx" where
  "refill_all [] s = (Inr (), s)"
| "refill_all (b # bs) s = (case stage_out_refill b s of
       (Inl e, s') \<Rightarrow> (Inl e, s')
     | (Inr _, s') \<Rightarrow> refill_all bs s')"

definition write_batches :: "'w sink \<Rightarrow> write_batch single_or_vec \<Rightarrow> 'w \<Rightarrow> tx \<Rightarrow> (write_fail + nat) \<times> 'w \<times> tx" where
  "write_batches sk batches k s =
     (let slices = fold add_slices (sov_as_slice batches) sov_new
      in case write_all_vectored sk 0 (sov_as_slice slices) k of
          (Inl e, k1) \<Rightarrow> (Inl e, k1, s)
        | (Inr written, k1) \<Rightarrow> (case sk_flush sk k1 of
              (Inl e, k2) \<Rightarrow> (Inl (WriteIo e), k2, s)
            | (Inr _, k2) \<Rightarrow> (case refill_all (into_iter_collect (sov_into_iter batches)) s of
                  (Inl e, s') \<Rightarrow> (Inl (WriteTx e), k2, s')
                | (Inr _, s') \<Rightarrow> (Inr written, k2, s'))))"

text \<open>The loop that coalesces what can be pulled without waiting.\<close>

partial_function (option) coalesce ::
    "write_batch single_or_vec \<Rightarrow> tx \<Rightarrow> ((tx_fail + write_batch single_or_vec) \<times> tx) option" where
  "coalesce batches s =
     (if sov_len batches < COALESCE_MAX_BATCHES
      then Option.bind (tx_try_pull s) (\<lambda>(r, s'). case r of
            Inl e \<Rightarrow> Some (Inl e, s')
          | Inr batch \<Rightarrow> (case batch of
                None \<Rightarrow> Some (Inr batches, s')
              | Some b \<Rightarrow> coalesce (sov_push batches b) s'))
      else Some (Inr batches, s))"

text \<open>
  The states of \<open>write_task\<close>: in the \<open>select!\<close>, with the age that was loaded and the suspended
  \<open>pull\<close>; in the write of some batches; behind the loop; in the loop over the drained batches.
\<close>

datatype sender_task = Pulling nat pull_wait pull_local | Writing "write_batch single_or_vec" | Leaving
  | Draining "write_batch list" | Ended

datatype task_event = Polled | KeepAliveElapsed | TokenCancelled | StreamReady | LocksTaken "(tx \<Rightarrow> tx) list"

definition turn_start :: "sender_task_inner \<Rightarrow> sender_task" where
  "turn_start inner = Pulling (duration_micros (atomic_duration_load (st_max_batch_age inner))) PullStart pull_local_new"

definition draining :: "write_batch list \<Rightarrow> sender_task" where
  "draining batches = (if batches = [] then Ended else Draining batches)"

definition polled :: "nat \<Rightarrow> pull_result \<Rightarrow> tx \<Rightarrow> ((tx_fail + sender_task) \<times> tx) option" where
  "polled age r s = (case r of
       PullPending w l \<Rightarrow> Some (Inr (Pulling age w l), s)
     | PullReady None \<Rightarrow> Some (Inr Leaving, s)
     | PullReady (Some batch) \<Rightarrow>
         map_option (\<lambda>(r, s'). (case r of Inl e \<Rightarrow> Inl e | Inr batches \<Rightarrow> Inr (Writing batches), s'))
           (coalesce (sov_single batch) s))"

text \<open>One step; \<open>None\<close> where the event is none of the state.  A panic ends the task.\<close>

fun task_step :: "'w sink \<Rightarrow> sender_task_inner \<Rightarrow> task_event \<Rightarrow> sender_task \<Rightarrow> 'w \<Rightarrow> tx \<Rightarrow>
    ((tx_fail + sender_task) \<times> 'w \<times> tx) option" where
  "task_step sk inner Polled (Pulling age w l) k s = Option.bind (pull_poll age w l s) (\<lambda>(r, s1). case r of
       Inl e \<Rightarrow> Some (Inl e, k, s1)
     | Inr p \<Rightarrow> map_option (\<lambda>(t, s2). (t, k, s2)) (polled age p s1))"
| "task_step sk inner KeepAliveElapsed (Pulling age w l) k s = (case sk_write_all sk (u16_to_le_bytes 0) k of
       (Inr _, k') \<Rightarrow> Some (Inr (turn_start inner), k', s)
     | (Inl _, k') \<Rightarrow> Some (Inr Leaving, k', s))"
| "task_step sk inner TokenCancelled (Pulling age w l) k s = Some (Inr Leaving, k, s)"
| "task_step sk inner StreamReady (Writing batches) k s = (case write_batches sk batches k s of
       (Inr _, k', s') \<Rightarrow> Some (Inr (turn_start inner), k', s')
     | (Inl (WriteTx e), k', s') \<Rightarrow> Some (Inl e, k', s')
     | (Inl AdvanceOob, k', s') \<Rightarrow> Some (Inl Panicked, k', s')
     | (Inl (WriteIo e), k', s') \<Rightarrow> Some (Inr Leaving, k', s'))"
| "task_step sk inner (LocksTaken env) Leaving k s = Option.bind (tx_drain env s) (\<lambda>(r, s', _). case r of
       Inl e \<Rightarrow> Some (Inl e, k, s')
     | Inr batches \<Rightarrow> Some (Inr (draining batches), k, s'))"
| "task_step sk inner StreamReady (Draining batches) k s = (case batches of
       [] \<Rightarrow> None
     | b # rest \<Rightarrow> (case write_batches sk (sov_single b) k s of
           (Inr _, k', s') \<Rightarrow> Some (Inr (draining rest), k', s')
         | (Inl (WriteTx e), k', s') \<Rightarrow> Some (Inl e, k', s')
         | (Inl AdvanceOob, k', s') \<Rightarrow> Some (Inl Panicked, k', s')
         | (Inl (WriteIo e), k', s') \<Rightarrow> Some (Inr Ended, k', s')))"
| "task_step sk inner _ _ k s = None"

section \<open>The builder\<close>

record sender_builder =
  sb_qos :: qos
  sb_capacity :: nat
  sb_batch_size :: u16
  sb_timeout :: nat
  sb_timeout_progress :: nat
  sb_timeout_batch :: duration

definition sender :: sender_builder where
  "sender = \<lparr>sb_qos = QOS_DEFAULT, sb_capacity = 16, sb_batch_size = of_nat BATCH_SIZE_MAX, sb_timeout = 60 * 10 ^ 6,
     sb_timeout_progress = 10 * 10 ^ 6, sb_timeout_batch = \<lparr>dur_secs = 0, dur_nanos = 100 * 1000\<rparr>\<rparr>"

definition builder_qos :: "qos \<Rightarrow> sender_builder \<Rightarrow> sender_builder" where
  "builder_qos q b = b\<lparr>sb_qos := q\<rparr>"

definition builder_capacity :: "nat \<Rightarrow> sender_builder \<Rightarrow> sender_builder" where
  "builder_capacity c b = b\<lparr>sb_capacity := c\<rparr>"

definition builder_batch_size :: "u16 \<Rightarrow> sender_builder \<Rightarrow> sender_builder" where
  "builder_batch_size n b = b\<lparr>sb_batch_size := n\<rparr>"

definition builder_timeout :: "nat \<Rightarrow> sender_builder \<Rightarrow> sender_builder" where
  "builder_timeout t b = b\<lparr>sb_timeout := t\<rparr>"

definition builder_timeout_batch :: "duration \<Rightarrow> sender_builder \<Rightarrow> sender_builder" where
  "builder_timeout_batch t b = b\<lparr>sb_timeout_batch := t\<rparr>"

definition sender_build :: "sender_builder \<Rightarrow> (push_config \<times> sender_task_inner \<times> sender_task \<times> tx) option" where
  "sender_build b =
     Option.bind (pipeline_tx (sb_capacity b) (unat (sb_batch_size b))) (\<lambda>s.
     Option.bind (atomic_duration_store \<lparr>dur_secs = 10, dur_nanos = 0\<rparr>) (\<lambda>write_timeout.
     Option.bind (atomic_duration_store (sb_timeout_batch b)) (\<lambda>max_batch_age.
     Option.bind (atomic_duration_store \<lparr>dur_secs = 3, dur_nanos = 0\<rparr>) (\<lambda>keep_alive.
       let inner = \<lparr>st_write_timeout = write_timeout, st_keep_alive = keep_alive, st_max_batch_age = max_batch_age\<rparr>
       in Some (\<lparr>pc_qos = sb_qos b, pc_timeout = sb_timeout b, pc_timeout_batch = sb_timeout_progress b\<rparr>,
            inner, turn_start inner, s)))))"

section \<open>The writers of the tests\<close>

record short_writer =
  sw_bytes :: "u8 list"
  sw_limit :: nat
  sw_error :: "io_error option"

definition short_write :: "u8 list \<Rightarrow> short_writer \<Rightarrow> (io_error + nat) \<times> short_writer" where
  "short_write buf w = (case sw_error w of
       Some e \<Rightarrow> (Inl e, w)
     | None \<Rightarrow> let n = min (length buf) (sw_limit w)
         in (Inr n, w\<lparr>sw_bytes := sw_bytes w @ take n buf\<rparr>))"

text \<open>The default \<open>poll_write_vectored\<close> of tokio writes the first slice that is not empty.\<close>

definition short_write_vectored :: "u8 list list \<Rightarrow> short_writer \<Rightarrow> (io_error + nat) \<times> short_writer" where
  "short_write_vectored ss w = short_write (case find (\<lambda>s. s \<noteq> []) ss of Some s \<Rightarrow> s | None \<Rightarrow> []) w"

definition short_flush :: "short_writer \<Rightarrow> (io_error + unit) \<times> short_writer" where
  "short_flush w = (Inr (), w)"

text \<open>\<open>VectoredWriter\<close> does not look at the error.  It has no scalar write (that of the test panics):
  the sink below takes the one of the other writer.\<close>

definition vectored_write :: "u8 list list \<Rightarrow> short_writer \<Rightarrow> (io_error + nat) \<times> short_writer" where
  "vectored_write ss w = (case fold (\<lambda>s (written, w).
         let n = min (length s) (sw_limit w - written) in (written + n, w\<lparr>sw_bytes := sw_bytes w @ take n s\<rparr>)) ss (0, w) of
       (written, w') \<Rightarrow> (Inr written, w'))"

text \<open>\<open>write_all\<close> of tokio: it writes until nothing is left, and a write of 0 bytes is an error.\<close>

definition short_write_all :: "u8 list \<Rightarrow> short_writer \<Rightarrow> (io_error + unit) \<times> short_writer" where
  "short_write_all buf w =
     (if buf = [] then (Inr (), w)
      else case sw_error w of
          Some e \<Rightarrow> (Inl e, w)
        | None \<Rightarrow> if sw_limit w = 0 then (Inl WriteZero, w) else (Inr (), w\<lparr>sw_bytes := sw_bytes w @ buf\<rparr>))"

definition scalar_sink :: "short_writer sink" where
  "scalar_sink = \<lparr>sk_write_vectored = short_write_vectored, sk_flush = short_flush, sk_write_all = short_write_all\<rparr>"

definition vectored_sink :: "short_writer sink" where
  "vectored_sink = \<lparr>sk_write_vectored = vectored_write, sk_flush = short_flush, sk_write_all = short_write_all\<rparr>"

end
