(* ===== verification/Tx_Consumer.thy ===== *)
theory Tx_Consumer
  imports Tx_Live
begin

text \<open>
  The consumer's side of the transmission pipeline: a poll of \<open>pull\<close> always returns, and does
  what a run of \<open>Tx_System\<close> can do; a batch that is booked and left alone is handed out after
  a few polls; and a drain hands out everything that the pipeline still holds.
\<close>

section \<open>Polls are steps of a run\<close>

definition note_out :: "write_batch list \<Rightarrow> history \<Rightarrow> history" where
  "note_out bs h = h\<lparr>hs_out := hs_out h @ bs, hs_held := rev bs @ hs_held h\<rparr>"

lemma note_out_simps [simp]:
  "note_out [] h = h" "note_out cs (note_out bs h) = note_out (bs @ cs) h"
  "hs_sent (note_out bs h) = hs_sent h" "hs_failed (note_out bs h) = hs_failed h"
  "hs_out (note_out bs h) = hs_out h @ bs" "hs_held (note_out bs h) = rev bs @ hs_held h"
  by (simp_all add: note_out_def)

primrec pulled :: "pull_result \<Rightarrow> write_batch list" where
  "pulled (PullReady r) = (case r of None \<Rightarrow> [] | Some b \<Rightarrow> [b])"
| "pulled (PullPending w l) = []"

lemma run_pull_note: "tx_run cap bsz lim s h \<Longrightarrow> tx_try_pull s = Some (Inr (Some b), s') \<Longrightarrow> tx_run cap bsz lim s' (note_out [b] h)"
  using run_pull by (fastforce simp: note_out_def)

text \<open>What the consumer does to the status bits.\<close>

lemma consumer_flags_intros:
  "consumer_flags s s" "consumer_flags s (s\<lparr>tx_can_pull := f\<rparr>)"
  "consumer_flags s (s\<lparr>tx_status := status_set STATUS_BACKOFF (tx_status s)\<rparr>)"
  "consumer_flags s (s\<lparr>tx_status := status_unset STATUS_BACKOFF (tx_status s)\<rparr>)"
  "consumer_flags s (s\<lparr>tx_status := status_set (status_flush p) (tx_status s)\<rparr>)"
proof -
  have set: "status_any (status_set (flag_bit g) v) STATUS_DISABLED = status_any v STATUS_DISABLED"
      "status_any (status_set (flag_bit g) v) (status_congested q) = status_any v (status_congested q)"
      "status_any (status_unset (flag_bit g) v) STATUS_DISABLED = status_any v STATUS_DISABLED"
      "status_any (status_unset (flag_bit g) v) (status_congested q) = status_any v (status_congested q)"
    if "g \<in> {Backoff, Flush p}" for g v q
    using that status_any_laws(1) [of g v Disabled] status_any_laws(1) [of g v "Congested q"]
      status_any_laws(2) [of g v Disabled] status_any_laws(2) [of g v "Congested q"] by auto
  have ex: "\<exists>v f. s' = s\<lparr>tx_status := v, tx_can_pull := f\<rparr>" if "s' = s\<lparr>tx_status := tx_status s', tx_can_pull := tx_can_pull s'\<rparr>" for s'
    using that by blast
  show "consumer_flags s s" "consumer_flags s (s\<lparr>tx_can_pull := f\<rparr>)"
    by (auto simp: consumer_flags_def pull_frame_def intro!: ex)
  show "consumer_flags s (s\<lparr>tx_status := status_set STATUS_BACKOFF (tx_status s)\<rparr>)"
    "consumer_flags s (s\<lparr>tx_status := status_unset STATUS_BACKOFF (tx_status s)\<rparr>)"
    "consumer_flags s (s\<lparr>tx_status := status_set (status_flush p) (tx_status s)\<rparr>)"
    using set [of Backoff] set [of "Flush p"] by (auto simp: consumer_flags_def pull_frame_def intro!: ex)
qed

text \<open>A look at a booked batch: the request to flush, and the flush itself.\<close>

definition asked :: "nat \<Rightarrow> priority \<Rightarrow> pull_local \<Rightarrow> tx \<Rightarrow> tx" where
  "asked age p l s = (if fst (backoff_load (tx_backoff s p)) \<noteq> pl_booked_len l p
       \<and> age < tx_clock s - snd (backoff_load (tx_backoff s p))
     then s\<lparr>tx_status := status_set (status_flush p) (tx_status s)\<rparr> else s)"

lemma at_booked_eq:
  "at_booked age p l s =
     (l\<lparr>pl_backoff_num := (pl_backoff_num l)(p := pl_backoff_num l p + 1),
        pl_booked_len := (pl_booked_len l)(p := fst (backoff_load (tx_backoff s p)))\<rparr>,
      if fst (backoff_load (tx_backoff s p)) < pl_booked_len l p then s
      else if (fst (backoff_load (tx_backoff s p)) = pl_booked_len l p
          \<or> age < tx_clock s - snd (backoff_load (tx_backoff s p))) \<and> \<not> tx_locked s p
      then snd (stage_flush p (asked age p l s)) else asked age p l s)"
  by (simp add: at_booked_def Let_def asked_def case_prod_beta)

lemma asked_flags: "consumer_flags s (asked age p l s)"
  using consumer_flags_intros by (simp add: asked_def)

lemma asked_keeps [simp]:
  "tx_can_pull (asked age p l s) = tx_can_pull s" "tx_backoff (asked age p l s) = tx_backoff s"
  "tx_locked (asked age p l s) = tx_locked s" "tx_inout (asked age p l s) = tx_inout s"
  by (simp_all add: asked_def)

lemma at_booked_run:
  assumes "tx_run cap bsz lim s h"
  shows "\<exists>l' s'. at_booked age p l s = (l', s') \<and> tx_run cap bsz lim s' h \<and> tx_can_pull s' = tx_can_pull s
    \<and> pl_backoff_num l' = (pl_backoff_num l)(p := pl_backoff_num l p + 1)"
proof -
  have "tx_run cap bsz lim (asked age p l s) h" by (rule run_look [OF assms asked_flags])
  then show ?thesis using run_flush assms by (auto simp: at_booked_eq)
qed

lemma event_check_clears: "snd (event_check f) \<noteq> EV_OK"
proof
  assume "snd (event_check f) = EV_OK"
  moreover have "(f AND NOT EV_OK) AND EV_OK = 0" by (rule bit_word_eqI) (auto simp: bit_simps)
  ultimately have "EV_OK AND EV_OK = 0" by (simp add: event_check_def)
  then show False by (simp add: event_values)
qed

text \<open>A lane whose shift is 31 is not waited for; the count goes on, so the next time it is.\<close>

lemma length_filter_less_if:
  assumes "\<And>x. P x \<Longrightarrow> P' x" "y \<in> set xs" "P' y" "\<not> P y"
  shows "length (filter P xs) < length (filter P' xs)"
  using assms(2)
proof (induction xs)
  case (Cons x xs)
  have "length (filter P xs) \<le> length (filter P' xs)"
    using assms(1) by (induction xs) (auto simp: le_SucI)
  then show ?case using Cons assms by (cases "y \<in> set xs") auto
qed simp

definition tight :: "(priority \<Rightarrow> u16) \<Rightarrow> nat" where
  "tight n = length (filter (\<lambda>p. unat (n p) mod 32 = 31) PRIO_ALL)"

lemma tight_less:
  assumes "yield_count (n p) = 0"
  shows "tight (n(p := n p + 1)) < tight n"
proof -
  have now: "unat (n p) mod 32 = 31" using assms by (simp add: yield_count_def Let_def split: if_splits)
  have "unat (n p + 1) mod 32 = Suc (unat (n p)) mod 32"
    by (simp add: unat_word_ariths mod_mod_cancel)
  also have "\<dots> = 0" using now by (simp only: mod_Suc) simp
  finally have "unat (n p + 1) mod 32 \<noteq> 31" by (simp only: zero_neq_numeral not_False_eq_True)
  then show ?thesis
    unfolding tight_def
  proof (intro length_filter_less_if [of _ _ p])
    show "unat (n q) mod 32 = 31" if "unat ((n(p := n p + 1)) q) mod 32 = 31" for q
      using that now by (cases "q = p") (simp_all only: fun_upd_same fun_upd_other not_False_eq_True)
  qed (use now in \<open>simp_all only: fun_upd_same set_PRIO_ALL UNIV_I not_False_eq_True\<close>)
qed

text \<open>What a poll leaves: a run that has handed out the batch, if there is one, and then the lanes
  that are more urgent have none.\<close>

definition urgent_done :: "pull_result \<Rightarrow> tx \<Rightarrow> bool" where
  "urgent_done r s \<longleftrightarrow> (\<forall>b q. r = PullReady (Some b) \<longrightarrow> qos_priority (wb_qos b) < q \<longrightarrow>
     fst (mpsc_pull_priority q (tx_inout s)) = Inr PullNone)"

definition poll_runs :: "nat \<Rightarrow> nat \<Rightarrow> nat \<Rightarrow> history \<Rightarrow> ((tx_fail + pull_result) \<times> tx) option \<Rightarrow> bool" where
  "poll_runs cap bsz lim h z \<longleftrightarrow> (\<exists>r s'. z = Some (Inr r, s') \<and> tx_run cap bsz lim s' (note_out (pulled r) h) \<and> urgent_done r s'
     \<and> (\<forall>b \<in> set (pulled r). wb_buffer bsz b \<and> wb_framed b))"

lemma poll_runs_stay:
  "tx_run cap bsz lim s' h \<Longrightarrow> pulled r = [] \<Longrightarrow> poll_runs cap bsz lim h (Some (Inr r, s'))"
  by (auto simp: poll_runs_def urgent_done_def)

lemma pull_loop_runs:
  assumes "19 \<le> bsz" "bsz \<le> BATCH_SIZE_MAX" "tx_run cap bsz lim s h"
  shows "poll_runs cap bsz lim h (pull_loop age l s)"
proof -
  have "poll_runs cap bsz lim h (pull_loop age l s)"
    if "tx_run cap bsz lim s h" "tx_inv k cap bsz s Q B R held"
      "m = (if tx_can_pull s = EV_OK then 1 else 0 :: nat, tight (pl_backoff_num l), total Q)"
    for m l s k Q B R held
    using that
  proof (induction m arbitrary: l s k Q B R held rule: wf_induct_rule [OF wf_lex_prod [OF wf_less_than wf_lex_prod [OF wf_less_than wf_less_than]]])
    case (1 m)
    note run = "1.prems"(1) and inv = "1.prems"(2) and m = "1.prems"(3)
    show ?case
    proof (cases "status_any (tx_status s) STATUS_DISABLED")
      case True
      then have "pull_loop age l s = Some (Inr (PullReady None), s)" by (subst pull_loop.simps) simp
      then show ?thesis using poll_runs_stay [OF run] by simp
    next
      case on: False
      obtain x s' where x: "try_lanes PRIO_ALL s = (Inr x, s')" and ev: "tx_can_pull s' = tx_can_pull s"
        and out: "lanes_left k cap bsz Q B R held s x s'"
        using try_lanes_outcome [OF inv] by blast
      have again: "tx_inv k cap bsz s2 Q2 B2 R2 held2 \<Longrightarrow> tx_run cap bsz lim s2 h \<Longrightarrow>
          ((if tx_can_pull s2 = EV_OK then 1 else 0, tight (pl_backoff_num l2), total Q2), m)
            \<in> less_than <*lex*> less_than <*lex*> less_than \<Longrightarrow> poll_runs cap bsz lim h (pull_loop age l2 s2)"
        for k s2 l2 Q2 B2 R2 held2
        using "1.IH" by blast
      have inv_of: "\<exists>k Q B R held. tx_inv k cap bsz s2 Q B R held" if "tx_run cap bsz lim s2 h" for s2
        using tx_run_inv [OF that assms(1,2)] unfolding sys_inv_def by blast
      show ?thesis
      proof (cases x)
        case (Got b')
        then obtain p b bs where g: "wb_shape bsz p b'" "tx_inv k cap bsz s' (Q(p := bs)) B R (held(p := Suc (held p)))"
            "\<forall>q. p < q \<longrightarrow> Q q = [] \<and> B q = None" "wb_framed b'"
          using out by (auto simp: lanes_left_def first_lane_def)
        have "tx_try_pull s = Some (Inr (Some b'), s')" using on x Got by (subst tx_try_pull.simps) simp
        then have "tx_run cap bsz lim s' (note_out [b'] h)" by (rule run_pull_note [OF run])
        moreover have "urgent_done (PullReady (Some b')) s'"
          unfolding urgent_done_def
        proof (intro allI impI)
          fix b q assume b: "PullReady (Some b') = PullReady (Some b)" "qos_priority (wb_qos b) < q"
          then have "p < q" using g(1) by (simp add: wb_shape_def)
          then show "fst (mpsc_pull_priority q (tx_inout s')) = Inr PullNone"
            using tx_inv_pull_priority [OF g(2), of q] g(3) by (auto simp: abs_pull_priority_def)
        qed
        moreover have "pull_loop age l s = Some (Inr (PullReady (Some b')), s')"
          using on x Got by (subst pull_loop.simps) simp
        ultimately show ?thesis using g(1,4) by (simp add: poll_runs_def wb_shape_def)
      next
        case Again
        then obtain p b bs b' where q: "Q p = b # bs" "tx_inv k cap bsz s' (Q(p := bs)) B (R(p := R p @ [b'])) held"
          using out by (auto simp: lanes_left_def)
        have "pull_loop age l s = pull_loop age l s'" using on x Again by (subst pull_loop.simps) simp
        moreover have "tx_run cap bsz lim s' h" using run_drop [OF run] x Again by simp
        ultimately show ?thesis using again [OF q(2), of l] total_less [of Q, OF q(1)] m ev by simp
      next
        case (AtBooked p)
        define s1 where "s1 = (if pl_backoff l then s' else s'\<lparr>tx_status := status_set STATUS_BACKOFF (tx_status s')\<rparr>)"
        have "tx_try_pull s = Some (Inr None, s')" using on x AtBooked by (subst tx_try_pull.simps) simp
        then have run': "tx_run cap bsz lim s' h" by (rule run_idle [OF run])
        then have run1: "tx_run cap bsz lim s1 h" using run_look [OF run' consumer_flags_intros(3)] by (simp add: s1_def)
        let ?l1 = "l\<lparr>pl_backoff := True\<rparr>" and ?n = "yield_count (pl_backoff_num l p)"
        have eq: "pull_loop age l s = (if 0 < ?n then Some (Inr (PullPending (Yielding (?n - 1) p) ?l1), s1)
            else (case at_booked age p ?l1 s1 of (l2, s2) \<Rightarrow> pull_loop age l2 s2))"
          using on x AtBooked by (subst pull_loop.simps) (simp add: Let_def s1_def)
        show ?thesis
        proof (cases "0 < ?n")
          case True
          then show ?thesis using eq poll_runs_stay [OF run1] by simp
        next
          case False
          obtain l2 s2 where b: "at_booked age p ?l1 s1 = (l2, s2)" "tx_run cap bsz lim s2 h"
              "tx_can_pull s2 = tx_can_pull s1" "pl_backoff_num l2 = (pl_backoff_num ?l1)(p := pl_backoff_num ?l1 p + 1)"
            using at_booked_run [OF run1] by blast
          obtain k2 Q2 B2 R2 held2 where "tx_inv k2 cap bsz s2 Q2 B2 R2 held2" using inv_of [OF b(2)] by blast
          moreover have "tight (pl_backoff_num l2) < tight (pl_backoff_num l)" using tight_less [of "pl_backoff_num l" p] False b(4) by simp
          moreover have "tx_can_pull s2 = tx_can_pull s" using b(3) ev by (simp add: s1_def)
          ultimately show ?thesis using again [of k2 s2 Q2 B2 R2 held2 l2] b(1,2) eq False m by simp
        qed
      next
        case Nothing
        define s1 where "s1 = s'\<lparr>tx_status := status_unset STATUS_BACKOFF (tx_status s')\<rparr>"
        define f where "f = snd (event_check (tx_can_pull s1))"
        define s2 where "s2 = s1\<lparr>tx_can_pull := f\<rparr>"
        have "tx_try_pull s = Some (Inr None, s')" using on x Nothing by (subst tx_try_pull.simps) simp
        then have run': "tx_run cap bsz lim s' h" by (rule run_idle [OF run])
        have run2: "tx_run cap bsz lim s2 h"
          unfolding s2_def s1_def by (rule run_look [OF run_look [OF run' consumer_flags_intros(4)] consumer_flags_intros(2)])
        let ?c = "fst (event_check (tx_can_pull s1))"
        have eq: "pull_loop age l s = (if ?c = CheckOk then pull_loop age pull_local_new s2
            else Some (Inr (if ?c = CheckErr then PullReady None else PullPending AwaitEvent pull_local_new), s2))"
          using on x Nothing by (subst pull_loop.simps) (simp add: Let_def s1_def s2_def f_def split: prod.splits)
        show ?thesis
        proof (cases "?c = CheckOk")
          case True
          then have "tx_can_pull s = EV_OK" using ev by (simp add: event_check_def s1_def split: if_splits)
          moreover have "tx_can_pull s2 \<noteq> EV_OK" by (simp add: s2_def f_def event_check_clears)
          moreover obtain k2 Q2 B2 R2 held2 where "tx_inv k2 cap bsz s2 Q2 B2 R2 held2" using inv_of [OF run2] by blast
          ultimately show ?thesis using again [of k2 s2 Q2 B2 R2 held2 pull_local_new] run2 eq True m by simp
        next
          case False
          then show ?thesis using eq poll_runs_stay [OF run2] by simp
        qed
      qed
    qed
  qed
  moreover obtain k Q B R held where "tx_inv k cap bsz s Q B R held"
    using tx_run_inv [OF assms(3,1,2)] unfolding sys_inv_def by blast
  ultimately show ?thesis using assms(3) by blast
qed

lemma pull_poll_runs:
  assumes "19 \<le> bsz" "bsz \<le> BATCH_SIZE_MAX" "tx_run cap bsz lim s h"
  shows "poll_runs cap bsz lim h (pull_poll age w l s)"
proof (cases w)
  case PullStart
  then show ?thesis using pull_loop_runs [OF assms] by (simp add: pull_poll_def)
next
  case (Yielding n p)
  obtain l' s' where "at_booked age p l s = (l', s')" "tx_run cap bsz lim s' h"
    using at_booked_run [OF assms(3)] by blast
  then show ?thesis
    using Yielding pull_loop_runs [OF assms(1,2)] poll_runs_stay [OF assms(3)] by (simp add: pull_poll_def)
next
  case AwaitEvent
  obtain c f where e: "event_check (tx_can_pull s) = (c, f)" by force
  have run: "tx_run cap bsz lim (s\<lparr>tx_can_pull := f\<rparr>) h" by (rule run_look [OF assms(3) consumer_flags_intros(2)])
  show ?thesis
    using AwaitEvent e pull_loop_runs [OF assms(1,2) run] poll_runs_stay [OF run] by (simp add: pull_poll_def)
qed

section \<open>A booked batch is not left behind\<close>

text \<open>Polls one after the other, while the other tasks do nothing.\<close>

primrec poll_again :: "nat \<Rightarrow> nat \<Rightarrow> pull_wait \<Rightarrow> pull_local \<Rightarrow> tx \<Rightarrow> ((tx_fail + pull_result) \<times> tx) option" where
  "poll_again 0 age w l s = pull_poll age w l s"
| "poll_again (Suc n) age w l s = (case pull_poll age w l s of
       Some (Inr (PullPending w' l'), s') \<Rightarrow> poll_again n age w' l' s'
     | z \<Rightarrow> z)"

lemma try_lanes_keeps:
  "tx_backoff (snd (try_lanes ps s)) = tx_backoff s \<and> tx_clock (snd (try_lanes ps s)) = tx_clock s"
proof (induction ps arbitrary: s)
  case (Cons p ps)
  have "tx_backoff (snd (take_batch b x)) = tx_backoff x \<and> tx_clock (snd (take_batch b x)) = tx_clock x" for b x
    by (auto simp: take_batch_def stage_out_refill_def Let_def split: option.splits prod.splits sum.splits)
  then show ?case using Cons.IH by (simp split: prod.splits sum.splits ring_ub.splits pull.splits)
qed simp

lemma first_lane_unique: "first_lane p Q B \<Longrightarrow> first_lane p' Q B \<Longrightarrow> p = p'"
  unfolding first_lane_def by (meson linorder_less_linear)

lemma try_lanes_calm:
  assumes inv: "tx_inv k cap bsz s Q B R held" and "calm s" "first_lane p Q B"
  shows "\<exists>x s'. try_lanes PRIO_ALL s = (Inr x, s') \<and> calm s' \<and> (if Q p = [] then x = AtBooked p \<and> tx_inv k cap bsz s' Q B R held
      \<and> tx_locked s' = tx_locked s \<and> tx_backoff s' = tx_backoff s \<and> tx_clock s' = tx_clock s else \<exists>b. x = Got b)"
proof -
  obtain x s' where x: "try_lanes PRIO_ALL s = (Inr x, s')" and fr: "pull_frame s s'"
    and out: "lanes_left k cap bsz Q B R held s x s'"
    using try_lanes_outcome [OF inv] by blast
  have keeps: "tx_backoff s' = tx_backoff s" "tx_clock s' = tx_clock s" "tx_locked s' = tx_locked s"
    using try_lanes_keeps [of PRIO_ALL s] x fr by (simp_all add: pull_frame_def)
  have calm: "calm s'" by (rule pull_frame_calm [OF fr assms(2)])
  show ?thesis
  proof (cases x)
    case Nothing
    then have "Q = (\<lambda>_. [])" "B = (\<lambda>_. None)" using out unfolding lanes_left_def by simp_all
    then show ?thesis using assms(3) by (simp add: first_lane_def)
  next
    case Again
    then show ?thesis using out assms(2) by (simp add: lanes_left_def)
  next
    case (AtBooked p')
    then have "first_lane p' Q B" using out by (simp add: lanes_left_def)
    then have "p' = p" using first_lane_unique assms(3) by blast
    then show ?thesis using x AtBooked out keeps calm by (simp add: lanes_left_def)
  next
    case (Got b')
    then obtain p' where "first_lane p' Q B" "Q p' \<noteq> []" using out by (auto simp: lanes_left_def)
    then have "Q p \<noteq> []" using first_lane_unique assms(3) by blast
    then show ?thesis using x Got calm by simp
  qed
qed

text \<open>The consumer stands at a batch that is booked and that nobody is writing.\<close>

definition at_lane :: "priority \<Rightarrow> nat \<Rightarrow> nat \<Rightarrow> nat \<Rightarrow> tx \<Rightarrow> bool" where
  "at_lane p k cap bsz s \<longleftrightarrow> calm s \<and> \<not> tx_locked s p \<and> (\<exists>Q B R held. tx_inv k cap bsz s Q B R held
     \<and> first_lane p Q B \<and> Q p = [])"

lemma calm_consumer_flags: "consumer_flags s s' \<Longrightarrow> calm s \<Longrightarrow> calm s'"
  by (auto simp: consumer_flags_def intro: pull_frame_calm)

lemma at_lane_flags:
  assumes "at_lane p k cap bsz s" "consumer_flags s s'" shows "at_lane p k cap bsz s'"
proof -
  obtain v f where s': "s' = s\<lparr>tx_status := v, tx_can_pull := f\<rparr>" using assms(2) by (auto simp: consumer_flags_def)
  have "tx_inv k cap bsz s Q B R held \<Longrightarrow> tx_inv k cap bsz s' Q B R held" for Q B R held
    by (rule tx_inv_frame) (simp_all add: s')
  moreover have "tx_locked s' = tx_locked s" by (simp add: s')
  ultimately show ?thesis using assms(1) calm_consumer_flags [OF assms(2)] unfolding at_lane_def by metis
qed

lemma pull_loop_got:
  assumes "tx_inv k cap bsz s Q B R held" "calm s" "first_lane p Q B" "Q p \<noteq> []"
  shows "\<exists>b s'. pull_loop age l s = Some (Inr (PullReady (Some b)), s')"
proof -
  have "\<not> status_any (tx_status s) STATUS_DISABLED" using assms(2) by (simp add: calm_def)
  then show ?thesis
    using try_lanes_calm [OF assms(1-3)] assms(4) by (auto simp: pull_loop.simps [of age l s])
qed

lemma pull_loop_at_lane:
  assumes "at_lane p k cap bsz s" "yield_count (pl_backoff_num l p) = Suc n"
  shows "\<exists>s'. pull_loop age l s = Some (Inr (PullPending (Yielding n p) (l\<lparr>pl_backoff := True\<rparr>)), s')
    \<and> at_lane p k cap bsz s' \<and> tx_backoff s' = tx_backoff s"
proof -
  obtain Q B R held where Q: "tx_inv k cap bsz s Q B R held" "first_lane p Q B" "Q p = []" "calm s" "\<not> tx_locked s p"
    using assms(1) by (auto simp: at_lane_def)
  obtain s' where s': "try_lanes PRIO_ALL s = (Inr (AtBooked p), s')" "calm s'" "tx_inv k cap bsz s' Q B R held"
      "tx_locked s' = tx_locked s" "tx_backoff s' = tx_backoff s"
    using try_lanes_calm [OF Q(1,4,2)] Q(3) by auto
  have on: "\<not> status_any (tx_status s) STATUS_DISABLED" using Q(4) by (simp add: calm_def)
  define s1 where "s1 = (if pl_backoff l then s' else s'\<lparr>tx_status := status_set STATUS_BACKOFF (tx_status s')\<rparr>)"
  have "at_lane p k cap bsz s'" unfolding at_lane_def using Q s' by auto
  then have "at_lane p k cap bsz s1" using at_lane_flags [OF _ consumer_flags_intros(3)] by (simp add: s1_def)
  moreover have "tx_backoff s1 = tx_backoff s" using s'(5) by (simp add: s1_def)
  moreover have "pull_loop age l s = Some (Inr (PullPending (Yielding n p) (l\<lparr>pl_backoff := True\<rparr>)), s1)"
    using on s'(1) assms(2) by (subst pull_loop.simps) (simp add: Let_def s1_def)
  ultimately show ?thesis by blast
qed

text \<open>The first look at it sees a length, the second sees the same and sends it.\<close>

lemma at_booked_look:
  assumes "at_lane p k cap bsz s" "pl_booked_len l p \<le> fst (backoff_load (tx_backoff s p))"
  shows "\<exists>l' s'. at_booked age p l s = (l', s') \<and> pl_booked_len l' p = fst (backoff_load (tx_backoff s p))
    \<and> pl_backoff_num l' p = pl_backoff_num l p + 1
    \<and> ((\<exists>b s''. pull_loop age l' s' = Some (Inr (PullReady (Some b)), s''))
       \<or> pl_booked_len l p \<noteq> fst (backoff_load (tx_backoff s p)) \<and> at_lane p k cap bsz s' \<and> tx_backoff s' = tx_backoff s)"
proof -
  let ?s1 = "asked age p l s" and ?len = "fst (backoff_load (tx_backoff s p))"
  have s1: "at_lane p k cap bsz ?s1" by (rule at_lane_flags [OF assms(1) asked_flags])
  then obtain Q B R held where Q: "tx_inv k cap bsz ?s1 Q B R held" "first_lane p Q B" "Q p = []" "calm ?s1" "\<not> tx_locked ?s1 p"
    by (auto simp: at_lane_def)
  obtain b where B: "B p = Some b" using Q(2,3) by (auto simp: first_lane_def)
  have flush: "snd (stage_flush p ?s1) = ?s1\<lparr>tx_inout := mpsc_commit p (tx_inout ?s1)\<rparr>"
    using tx_inv_peek [OF Q(1), of p] B by (simp add: stage_flush_def)
  have "first_lane p (Q(p := Q p @ [b])) (B(p := None))" using Q(2) by (auto simp: first_lane_def)
  moreover have "calm (snd (stage_flush p ?s1))" using Q(4) unfolding flush by simp
  moreover have "tx_inv k cap bsz (snd (stage_flush p ?s1)) (Q(p := Q p @ [b])) (B(p := None)) R held"
    unfolding flush by (rule tx_inv_commit [OF Q(1) B])
  ultimately have got: "\<exists>b s''. pull_loop age l' (snd (stage_flush p ?s1)) = Some (Inr (PullReady (Some b)), s'')" for l'
    using pull_loop_got [of k cap bsz _ "Q(p := Q p @ [b])" "B(p := None)" R held p] by simp
  show ?thesis
    using assms(2) got s1 Q(5) by (auto simp: at_booked_eq not_less)
qed

lemma booked_is_pulled:
  assumes "at_lane p k cap bsz s"
  shows "\<exists>n \<le> 3. \<exists>b s'. poll_again n age PullStart pull_local_new s = Some (Inr (PullReady (Some b)), s')"
proof -
  have y: "yield_count 0 = Suc 0" "yield_count 1 = Suc (Suc 0)" by (simp_all add: yield_count_def)
  let ?l1 = "pull_local_new\<lparr>pl_backoff := True\<rparr>"
  obtain s1 where s1: "pull_loop age pull_local_new s = Some (Inr (PullPending (Yielding 0 p) ?l1), s1)"
      "at_lane p k cap bsz s1"
    using pull_loop_at_lane [OF assms, of pull_local_new 0] y by (auto simp: pull_local_new_def)
  obtain l2 s2 where l2: "at_booked age p ?l1 s1 = (l2, s2)" "pl_booked_len l2 p = fst (backoff_load (tx_backoff s1 p))"
      "pl_backoff_num l2 p = 1"
    and two: "(\<exists>b s''. pull_loop age l2 s2 = Some (Inr (PullReady (Some b)), s'')) \<or> at_lane p k cap bsz s2 \<and> tx_backoff s2 = tx_backoff s1"
    using at_booked_look [OF s1(2), of ?l1 age] by (auto simp: pull_local_new_def)
  have poll2: "poll_again (Suc n) age PullStart pull_local_new s = poll_again n age (Yielding 0 p) ?l1 s1" for n
    using s1(1) by (simp add: pull_poll_def)
  from two show ?thesis
  proof (elim disjE exE conjE)
    fix b s' assume "pull_loop age l2 s2 = Some (Inr (PullReady (Some b)), s')"
    then show ?thesis using poll2 [of 0] l2(1) by (intro exI [of _ 1]) (simp add: pull_poll_def)
  next
    assume s2: "at_lane p k cap bsz s2" "tx_backoff s2 = tx_backoff s1"
    let ?l3 = "l2\<lparr>pl_backoff := True\<rparr>"
    obtain s3 where s3: "pull_loop age l2 s2 = Some (Inr (PullPending (Yielding 1 p) ?l3), s3)" "at_lane p k cap bsz s3"
        "tx_backoff s3 = tx_backoff s2"
      using pull_loop_at_lane [OF s2(1), of l2 1 age] y l2(3) by auto
    obtain l4 s4 b s' where "at_booked age p ?l3 s3 = (l4, s4)" "pull_loop age l4 s4 = Some (Inr (PullReady (Some b)), s')"
      using at_booked_look [OF s3(2), of ?l3 age] s2(2) s3(3) l2(2) by auto
    then have "poll_again 3 age PullStart pull_local_new s = Some (Inr (PullReady (Some b)), s')"
      using poll2 [of 2] l2(1) s3(1) by (simp add: pull_poll_def numeral_3_eq_3 numeral_2_eq_2)
    then show ?thesis by blast
  qed
qed

section \<open>Draining\<close>

lemma tx_inv_pull:
  assumes inv: "tx_inv k cap bsz s Q B R held"
  shows "\<exists>rb. mpsc_pull (tx_inout s) = (Inr (fst (abs_pull Q)), rb)
    \<and> tx_inv k cap bsz (s\<lparr>tx_inout := rb\<rparr>) (snd (abs_pull Q)) B R
        (\<lambda>p. held p + (length (Q p) - length (snd (abs_pull Q) p)))"
proof -
  obtain rb where rb: "mpsc_pull (tx_inout s) = (Inr (fst (abs_pull Q)), rb)" "mpsc_inv k rb (snd (abs_pull Q)) B"
    using mpsc.pull_law [of k "tx_inout s" Q B] inv by (auto simp: tx_inv_def)
  have le: "length (snd (abs_pull Q) p) \<le> length (Q p) \<and> set (snd (abs_pull Q) p) \<subseteq> set (Q p)" for p
    by (rule abs_queues_cases [of Q]) (auto split: if_splits)
  have "lane_count (snd (abs_pull Q)) B R (\<lambda>p. held p + (length (Q p) - length (snd (abs_pull Q) p))) p = lane_count Q B R held p" for p
    using le [of p] by (simp add: lane_count_def)
  moreover have "\<forall>b \<in> set (snd (abs_pull Q) p). wb_shape bsz p b" for p
    using inv le [of p] by (auto simp: tx_inv_def)
  ultimately show ?thesis using rb inv by (simp add: tx_inv_def)
qed

lemma flush_lanes_inv:
  assumes "tx_inv k cap bsz s Q B R held"
  shows "tx_inv k cap bsz (fold (\<lambda>p s. snd (stage_flush p s)) ps s)
    (\<lambda>p. if p \<in> set ps then Q p @ booked_list (B p) else Q p) (\<lambda>p. if p \<in> set ps then None else B p) R held"
  using assms
proof (induction ps arbitrary: s Q B)
  case (Cons p ps)
  let ?Q = "Q(p := Q p @ booked_list (B p))" and ?B = "B(p := None)"
  have "(\<lambda>q. if q \<in> set ps then ?Q q @ booked_list (?B q) else ?Q q) = (\<lambda>q. if q \<in> set (p # ps) then Q q @ booked_list (B q) else Q q)"
      "(\<lambda>q. if q \<in> set ps then None else ?B q) = (\<lambda>q. if q \<in> set (p # ps) then None else B q)"
    by (auto simp: booked_list_def)
  then show ?case using Cons.IH [OF stage_flush_inv [OF Cons.prems, of p]] by simp
qed simp

lemma flush_all_inv:
  assumes "tx_inv k cap bsz s Q B R held"
  shows "tx_inv k cap bsz (flush_all s) (\<lambda>p. Q p @ booked_list (B p)) (\<lambda>_. None) R held"
  using flush_lanes_inv [OF assms, of PRIO_ALL] by (simp add: flush_all_def)

lemma flush_lanes_keeps:
  "tx_locked (fold (\<lambda>p s. snd (stage_flush p s)) ps s) = tx_locked s"
  "tx_status (fold (\<lambda>p s. snd (stage_flush p s)) ps s) = tx_status s"
  by (induction ps arbitrary: s) (simp_all add: stage_flush_def)

text \<open>Batches with the same contents, lane by lane.\<close>

definition same_batches :: "write_batch list \<Rightarrow> write_batch list \<Rightarrow> bool" where
  "same_batches = list_all2 (\<lambda>x y. wb_payload x = wb_payload y \<and> wb_qos x = wb_qos y)"

lemma drain_loop_spec:
  assumes "tx_inv k cap bsz s Q (\<lambda>_. None) R held"
  shows "\<exists>bs s'. drain_loop acc s = Some (Inr (acc @ bs), s') \<and> tx_locked s' = tx_locked s
    \<and> (\<forall>b \<in> set bs. wb_buffer bsz b \<and> wb_framed b) \<and> (\<forall>p. same_batches (lane_batches p bs) (Q p))
    \<and> (\<exists>held'. tx_inv k cap bsz s' (\<lambda>_. []) (\<lambda>_. None) R held')"
  using assms
proof (induction "total Q" arbitrary: s Q held acc rule: less_induct)
  case less
  obtain rb where rb: "mpsc_pull (tx_inout s) = (Inr (fst (abs_pull Q)), rb)"
      "tx_inv k cap bsz (s\<lparr>tx_inout := rb\<rparr>) (snd (abs_pull Q)) (\<lambda>_. None) R
        (\<lambda>p. held p + (length (Q p) - length (snd (abs_pull Q) p)))"
    using tx_inv_pull [OF less.prems] by blast
  show ?case
  proof (rule abs_queues_cases [of Q])
    assume e: "\<And>p. Q p = []" "abs_pull Q = (None, Q)"
    then have "Q = (\<lambda>_. [])" by auto
    then show ?thesis
      using rb e(2) by (intro exI [of _ "[]"]) (auto simp: drain_loop.simps [of acc s] same_batches_def)
  next
    fix p b bs assume h: "Q p = b # bs" "abs_pull Q = (Some b, Q(p := bs))"
    have b: "wb_shape bsz p b" using less.prems h(1) by (simp add: tx_inv_def)
    then have buf: "wb_buffer bsz b" and prio: "qos_priority (wb_qos b) = p" by (simp_all add: wb_shape_def)
    obtain b' where b': "wb_write_len b = Some b'" "wb_buffer bsz b'" "wb_qos b' = wb_qos b" "wb_payload b' = wb_payload b"
        "bb_as_slice (wb_frame b') = u16_to_le_bytes (wb_len b) @ drop BATCH_LEN (bb_as_slice (wb_frame b))"
      using wb_write_len_spec [OF buf] by blast
    have framed: "wb_framed b'" using b'(4,5) wb_len_payload [OF buf] by (simp add: wb_framed_def)
    obtain bs' s' held' where ih: "drain_loop (acc @ [b']) (s\<lparr>tx_inout := rb\<rparr>) = Some (Inr ((acc @ [b']) @ bs'), s')"
        "tx_locked s' = tx_locked s" "\<forall>b \<in> set bs'. wb_buffer bsz b \<and> wb_framed b"
        "\<forall>q. same_batches (lane_batches q bs') ((Q(p := bs)) q)" "tx_inv k cap bsz s' (\<lambda>_. []) (\<lambda>_. None) R held'"
    proof -
      have "tx_inv k cap bsz (s\<lparr>tx_inout := rb\<rparr>) (Q(p := bs)) (\<lambda>_. None) R
          (\<lambda>q. held q + (length (Q q) - length ((Q(p := bs)) q)))"
        using rb(2) h(2) by simp
      from less.hyps [OF total_less [of Q, OF h(1)] this, of "acc @ [b']"] show thesis
        by (elim exE conjE) (rule that, simp_all)
    qed
    have "same_batches (lane_batches q (b' # bs')) (Q q)" for q
    proof (cases "q = p")
      case True
      then show ?thesis using ih(4) [rule_format, of p] h(1) prio b'(3,4) by (simp add: same_batches_def)
    next
      case False
      then show ?thesis using ih(4) [rule_format, of q] prio b'(3) by simp
    qed
    moreover have "drain_loop acc s = Some (Inr (acc @ b' # bs'), s')"
      using rb(1) h(2) b'(1) ih(1) by (subst drain_loop.simps) simp
    ultimately show ?thesis using ih b'(2) framed by (intro exI [of _ "b' # bs'"] exI [of _ s']) auto
  qed
qed

lemma lane_upd_all: "f(High := x, Medium := x, Low := x, Background := x) = (\<lambda>_. x)"
proof
  fix p show "(f(High := x, Medium := x, Low := x, Background := x)) p = x" by (cases p) simp_all
qed

lemma lock_all_free:
  assumes "\<And>p. \<not> tx_locked s p"
  shows "lock_all PRIO_ALL [] s = Some (s\<lparr>tx_locked := \<lambda>_. True\<rparr>, [])"
proof -
  have "lock_all PRIO_ALL [] s =
      Some (s\<lparr>tx_locked := (tx_locked s)(High := True, Medium := True, Low := True, Background := True)\<rparr>, [])"
    using assms by (simp add: PRIO_ALL_def)
  then show ?thesis by (simp only: lane_upd_all)
qed

lemma unlock_all_eq: "unlock_all s = s\<lparr>tx_locked := \<lambda>_. False\<rparr>"
proof -
  have "unlock_all s = s\<lparr>tx_locked := (tx_locked s)(High := False, Medium := False, Low := False, Background := False)\<rparr>"
    by (simp add: unlock_all_def unlock_def PRIO_ALL_def)
  then show ?thesis by (simp only: lane_upd_all)
qed

lemma disable_core:
  assumes "sys_core k cap bsz lim s h"
  shows "\<exists>s'. tx_disable [] s = Some (s', []) \<and> sys_core k cap bsz lim s' h \<and> status_any (tx_status s') STATUS_DISABLED"
proof -
  obtain Q B R where Q: "tx_inv k cap bsz s Q B R (\<lambda>p. length (lane_batches p (hs_held h)))"
      "\<And>p. sys_lane bsz lim (Q p) (B p) (hs_sent h p) (lane_batches p (hs_out h)) (hs_failed h)" "\<And>p. \<not> tx_locked s p"
    using assms unfolding sys_core_def by blast
  let ?s1 = "s\<lparr>tx_status := status_set STATUS_DISABLED (tx_status s)\<rparr>"
  let ?s2 = "flush_all (?s1\<lparr>tx_locked := \<lambda>_. True\<rparr>)"
  have "tx_inv k cap bsz (?s1\<lparr>tx_locked := \<lambda>_. True\<rparr>) Q B R (\<lambda>p. length (lane_batches p (hs_held h)))"
    by (rule tx_inv_frame [OF Q(1)]) simp_all
  then have inv: "tx_inv k cap bsz ?s2 (\<lambda>p. Q p @ booked_list (B p)) (\<lambda>_. None) R (\<lambda>p. length (lane_batches p (hs_held h)))"
    by (rule flush_all_inv)
  have "tx_disable [] s = Some (unlock_all ?s2, [])"
    using lock_all_free [of ?s1] Q(3) by (simp add: tx_disable_def)
  moreover have "tx_inv k cap bsz (unlock_all ?s2) (\<lambda>p. Q p @ booked_list (B p)) (\<lambda>_. None) R (\<lambda>p. length (lane_batches p (hs_held h)))"
    by (rule tx_inv_frame [OF inv]) (simp_all add: unlock_all_eq)
  then have "sys_core k cap bsz lim (unlock_all ?s2) h"
    unfolding sys_core_def using sys_lane_flushed [OF Q(2)] assms
    by (intro conjI exI [of _ "\<lambda>p. Q p @ booked_list (B p)"] exI [of _ "\<lambda>_. None"] exI [of _ R])
      (auto simp: unlock_all_eq sys_core_def)
  moreover have "tx_status ?s2 = tx_status ?s1" using flush_lanes_keeps(2) [of PRIO_ALL] by (simp add: flush_all_def)
  then have "status_any (tx_status (unlock_all ?s2)) STATUS_DISABLED"
    using status_any_laws(1) [of Disabled "tx_status s" Disabled] by (simp add: unlock_all_eq)
  ultimately show ?thesis by blast
qed

lemma drain_core:
  assumes "sys_core k cap bsz lim s h"
  shows "\<exists>bs s'. tx_drain [] s = Some (Inr bs, s', []) \<and> (\<forall>b \<in> set bs. wb_buffer bsz b \<and> wb_framed b)
    \<and> (\<forall>p. sys_lane bsz lim [] None (hs_sent h p) (lane_batches p (hs_out h @ bs)) (hs_failed h))"
proof -
  obtain Q B R where Q: "tx_inv k cap bsz s Q B R (\<lambda>p. length (lane_batches p (hs_held h)))"
      "\<And>p. sys_lane bsz lim (Q p) (B p) (hs_sent h p) (lane_batches p (hs_out h)) (hs_failed h)" "\<And>p. \<not> tx_locked s p"
    using assms unfolding sys_core_def by blast
  let ?s1 = "s\<lparr>tx_locked := \<lambda>_. True\<rparr>"
  have "tx_inv k cap bsz ?s1 Q B R (\<lambda>p. length (lane_batches p (hs_held h)))" by (rule tx_inv_frame [OF Q(1)]) simp_all
  then have inv: "tx_inv k cap bsz (flush_all ?s1) (\<lambda>p. Q p @ booked_list (B p)) (\<lambda>_. None) R (\<lambda>p. length (lane_batches p (hs_held h)))"
    by (rule flush_all_inv)
  obtain bs s' where d: "drain_loop [] (flush_all ?s1) = Some (Inr bs, s')" "\<forall>b \<in> set bs. wb_buffer bsz b \<and> wb_framed b"
      "\<And>p. same_batches (lane_batches p bs) (Q p @ booked_list (B p))"
    using drain_loop_spec [OF inv, of "[]"] by auto
  have "tx_drain [] s = Some (Inr bs, unlock_all s', [])"
    using lock_all_free [OF Q(3)] d(1) by (simp add: tx_drain_def)
  moreover have "sys_lane bsz lim [] None (hs_sent h p) (lane_batches p (hs_out h @ bs)) (hs_failed h)" for p
  proof -
    have same: "list_all2 (\<lambda>x y. batch_holds x = batch_holds y) (lane_batches p bs) (Q p @ booked_list (B p))"
      using d(3) [of p] unfolding same_batches_def by (rule list_all2_mono) (rule batch_holds_cong, simp_all)
    have "sys_lane bsz lim ([] @ (Q p @ booked_list (B p)) @ []) None (hs_sent h p) (lane_batches p (hs_out h)) (hs_failed h)"
      using sys_lane_flushed [OF Q(2), of p] by simp
    from sys_lane_taken [OF this same] show ?thesis by simp
  qed
  ultimately show ?thesis using d(2) by blast
qed

text \<open>When nothing is left in a lane and nothing failed, what is out is what was sent.\<close>

lemma sys_lane_done:
  assumes "sys_lane bsz lim [] None sent out failed" "\<not> failed"
  shows "\<exists>pks. list_all2 batch_holds out pks \<and> carries (fst (feed_all lim defrags_new pks)) sent"
  using assms unfolding sys_lane_def lane_view_def by auto

section \<open>Properties\<close>

text \<open>C13: in every reachable state a poll of \<open>pull\<close>, wherever the future is suspended, returns: it
  never loops for ever, never panics, never reads an uninitialized slot.  What it leaves is a
  reachable state, with the batch handed out if there is one, and then no lane that is more
  urgent has a batch.\<close>

theorem pull_poll_returns:
  assumes "tx_run cap bsz lim s h" "19 \<le> bsz" "bsz \<le> BATCH_SIZE_MAX"
  shows "\<exists>r s'. pull_poll age w l s = Some (Inr r, s') \<and> tx_run cap bsz lim s' (note_out (pulled r) h)
    \<and> (\<forall>b q. r = PullReady (Some b) \<longrightarrow> qos_priority (wb_qos b) < q \<longrightarrow>
         fst (mpsc_pull_priority q (tx_inout s')) = Inr PullNone)"
  using pull_poll_runs [OF assms(2,3,1), of age w l] unfolding poll_runs_def urgent_done_def by blast

theorem pull_poll_returns_witness:
  "\<exists>r s'. pull_poll 0 PullStart pull_local_new demo_flushed = Some (Inr r, s')"
  using pull_poll_returns [OF demo_flushed_run, of 0 PullStart pull_local_new] by (auto simp: BATCH_SIZE_MAX_def)



text \<open>Stopping loses nothing: disabling the pipeline of any run and draining it takes out,
  after the batches that were handed out before, all that it still holds, so that in a run
  without failures each lane's batches reassemble to exactly the messages that were pushed.\<close>

theorem drain_complete:
  assumes "tx_run cap bsz lim s h" "19 \<le> bsz" "bsz \<le> BATCH_SIZE_MAX"
  shows "\<exists>s1 bs s2. tx_disable [] s = Some (s1, []) \<and> tx_drain [] s1 = Some (Inr bs, s2, [])
    \<and> (\<not> hs_failed h \<longrightarrow> (\<forall>p. \<exists>pks. list_all2 batch_holds (lane_batches p (hs_out h @ bs)) pks
          \<and> carries (fst (feed_all lim defrags_new pks)) (hs_sent h p)))"
proof -
  obtain k where "sys_core k cap bsz lim s h" using tx_run_inv [OF assms] sys_inv_iff by blast
  then obtain s1 where s1: "tx_disable [] s = Some (s1, [])" "sys_core k cap bsz lim s1 h" using disable_core by blast
  then obtain bs s2 where "tx_drain [] s1 = Some (Inr bs, s2, [])"
      "\<And>p. sys_lane bsz lim [] None (hs_sent h p) (lane_batches p (hs_out h @ bs)) (hs_failed h)"
    using drain_core by blast
  then show ?thesis using s1(1) sys_lane_done by blast
qed

theorem drain_complete_witness:
  "\<exists>s1 bs s2. tx_disable [] demo_flushed = Some (s1, []) \<and> tx_drain [] s1 = Some (Inr bs, s2, [])"
  using drain_complete [OF demo_flushed_run] by (auto simp: BATCH_SIZE_MAX_def)

end
