(* ===== verification/Sender_Task.thy ===== *)
theory Sender_Task
  imports Api_Sender Tx_Consumer "HOL-Library.Multiset"
begin

text \<open>
  The sender's task on a stream that keeps its promises (\<open>sink_ok\<close>): what it writes is a
  sequence of frames, each the length of a batch and the batch, in the order in which the
  pipeline handed the batches out, with empty frames to keep the connection alive; and a
  task that ends without an error of the stream has written everything that was sent.
\<close>

section \<open>Writing\<close>

lemma sink_okD:
  assumes "sink_ok out sk"
  shows "sk_write_vectored sk ss k = (Inr n, k') \<Longrightarrow> n \<le> length (concat ss) \<and> out k' = out k @ take n (concat ss)"
    and "sk_write_vectored sk ss k = (Inl e, k') \<Longrightarrow> out k' = out k"
    and "sk_flush sk k = (r, k') \<Longrightarrow> out k' = out k"
    and "sk_write_all sk bs k = (Inr u, k') \<Longrightarrow> out k' = out k @ bs"
    and "sk_write_all sk bs k = (Inl e, k') \<Longrightarrow> \<exists>n \<le> length bs. out k' = out k @ take n bs"
proof -
  have v: "case sk_write_vectored sk ss k of
        (Inr n, k') \<Rightarrow> n \<le> length (concat ss) \<and> out k' = out k @ take n (concat ss) | (Inl e, k') \<Rightarrow> out k' = out k"
    and f: "out (snd (sk_flush sk k)) = out k"
    and a: "case sk_write_all sk bs k of
        (Inr _, k') \<Rightarrow> out k' = out k @ bs | (Inl e, k') \<Rightarrow> \<exists>n \<le> length bs. out k' = out k @ take n bs" for ss bs k
    using assms unfolding sink_ok_def by (simp_all only: simp_thms)
  show "sk_write_vectored sk ss k = (Inr n, k') \<Longrightarrow> n \<le> length (concat ss) \<and> out k' = out k @ take n (concat ss)"
    "sk_write_vectored sk ss k = (Inl e, k') \<Longrightarrow> out k' = out k"
    using v [where ss = ss and k = k] by simp_all
  show "sk_flush sk k = (r, k') \<Longrightarrow> out k' = out k" using f [where k = k] by simp
  show "sk_write_all sk bs k = (Inr u, k') \<Longrightarrow> out k' = out k @ bs"
    "sk_write_all sk bs k = (Inl e, k') \<Longrightarrow> \<exists>n \<le> length bs. out k' = out k @ take n bs"
    using a [where bs = bs and k = k] by simp_all
qed

text \<open>Everything is written, or a prefix of it and the error of the stream is returned.\<close>

definition wrote :: "('w \<Rightarrow> u8 list) \<Rightarrow> u8 list \<Rightarrow> nat \<Rightarrow> 'w \<Rightarrow> (write_fail + nat) \<times> 'w \<Rightarrow> bool" where
  "wrote out bs written k z \<longleftrightarrow> (case z of
       (Inr n, k') \<Rightarrow> n = written + length bs \<and> out k' = out k @ bs
     | (Inl e, k') \<Rightarrow> (\<exists>m \<le> length bs. out k' = out k @ take m bs) \<and> (\<exists>io. e = WriteIo io))"

lemma wroteI:
  "n = written + length bs \<Longrightarrow> out k' = out k @ bs \<Longrightarrow> wrote out bs written k (Inr n, k')"
  "m \<le> length bs \<Longrightarrow> out k' = out k @ take m bs \<Longrightarrow> wrote out bs written k (Inl (WriteIo io), k')"
  by (auto simp: wrote_def)

text \<open>A write that went before is added to what comes after.\<close>

lemma wrote_after:
  assumes "wrote out (drop n bs) (written + n) kn z" "out kn = out k @ take n bs" "n \<le> length bs"
  shows "wrote out bs written k z"
proof -
  obtain r k' where z: "z = (r, k')" by force
  show ?thesis
  proof (cases r)
    case (Inr a)
    then show ?thesis using assms by (simp add: wrote_def z)
  next
    case (Inl e)
    then obtain m io where m: "m \<le> length (drop n bs)" "out k' = out kn @ take m (drop n bs)" "e = WriteIo io"
      using assms(1) by (auto simp: wrote_def z)
    have "out k' = out k @ take (n + m) bs" using m(2) assms(2) by (simp add: take_add)
    then show ?thesis unfolding z Inl m(3) using m(1) assms(3) by (intro wroteI(2) [of "n + m"]) simp_all
  qed
qed

lemma write_all_vectored_wrote:
  assumes "sink_ok out sk"
  shows "wrote out (concat slices) written k (write_all_vectored sk written slices k)"
  using assms
proof (induction sk written slices k rule: write_all_vectored.induct)
  case (1 sk written slices k)
  note ok = "1.prems"
  obtain r k1 where w: "sk_write_vectored sk slices k = (r, k1)" by force
  show ?case
  proof (cases "slices = []")
    case True
    then show ?thesis by (subst write_all_vectored.simps) (simp add: wrote_def)
  next
    case ne: False
    show ?thesis
    proof (cases r)
      case (Inl e)
      have "write_all_vectored sk written slices k = (Inl (WriteIo e), k1)"
        using ne w Inl by (subst write_all_vectored.simps) simp
      moreover have "out k1 = out k" using sink_okD(2) [OF ok] w Inl by simp
      ultimately show ?thesis by (simp add: wroteI(2) [of 0])
    next
      case (Inr n)
      have n: "n \<le> length (concat slices)" "out k1 = out k @ take n (concat slices)"
        using sink_okD(1) [OF ok] w Inr by simp_all
      show ?thesis
      proof (cases "n = 0")
        case True
        then have "write_all_vectored sk written slices k = (Inl (WriteIo WriteZero), k1)"
          using ne w Inr by (subst write_all_vectored.simps) simp
        then show ?thesis using n True by (simp add: wroteI(2) [of 0])
      next
        case False
        obtain ss where ss: "advance_slices slices n = Some ss" "concat ss = drop n (concat slices)"
          using advance_slices_concat [OF n(1)] by blast
        have "write_all_vectored sk written slices k = write_all_vectored sk (written + n) ss k1"
          using ne w Inr False ss(1) by (subst write_all_vectored.simps) simp
        moreover have "wrote out (concat ss) (written + n) k1 (write_all_vectored sk (written + n) ss k1)"
          using "1.IH" [OF ne w [symmetric] Inr False ss(1) ok] .
        ultimately show ?thesis
          using wrote_after [where out = out and k = k and kn = k1 and bs = "concat slices" and n = n, OF _ n(2) n(1)] ss(2) by simp
      qed
    qed
  qed
qed

section \<open>Frames\<close>

text \<open>What a batch is on the stream.\<close>

definition frame_of :: "u8 list \<Rightarrow> u8 list" where
  "frame_of x = u16_to_le_bytes (of_nat (length x)) @ x"

definition frames :: "u8 list list \<Rightarrow> u8 list" where
  "frames xs = concat (map frame_of xs)"

lemma frames_simps [simp]: "frames [] = []" "frames (x # xs) = frame_of x @ frames xs" "frames (xs @ ys) = frames xs @ frames ys"
  by (simp_all add: frames_def)

lemma frame_of_nil: "frame_of [] = u16_to_le_bytes 0"
  by (simp add: frame_of_def)

definition sendable :: "nat \<Rightarrow> write_batch \<Rightarrow> bool" where
  "sendable bsz b \<longleftrightarrow> wb_buffer bsz b \<and> wb_framed b \<and> wb_payload b \<noteq> []"

lemma framed_bytes: "wb_framed b \<Longrightarrow> bb_as_slice (wb_frame b) @ bytes_content (wb_fragment b) = frame_of (wb_payload b)"
  unfolding wb_framed_def frame_of_def wb_payload_def by (metis append.assoc)

lemma batch_slices:
  assumes "sov_wf ss" "\<And>b. b \<in> set bs \<Longrightarrow> sendable bsz b"
  shows "concat (sov_as_slice (fold add_slices bs ss)) = concat (sov_as_slice ss) @ frames (map wb_payload bs)
    \<and> sov_wf (fold add_slices bs ss)"
  using assms
proof (induction bs arbitrary: ss)
  case (Cons b bs)
  have b: "bytes_wf (wb_fragment b)" "wb_framed b" using Cons.prems(2) [of b] by (simp_all add: sendable_def wb_buffer_def)
  have wf: "sov_wf (add_slices b ss)" using Cons.prems(1) by (simp add: add_slices_def Let_def)
  have "concat (bytes_slices (wb_fragment b)) = bytes_content (wb_fragment b)"
    by (simp add: bytes_slices_def bytes_content_def content_def)
  moreover have "bytes_is_empty (wb_fragment b) \<Longrightarrow> bytes_content (wb_fragment b) = []"
    by (cases "b_chunks (wb_fragment b)") (simp_all add: bytes_is_empty_def sov_is_empty_def bytes_content_def)
  ultimately have "concat (sov_as_slice (add_slices b ss)) = concat (sov_as_slice ss) @ bb_as_slice (wb_frame b) @ bytes_content (wb_fragment b)"
    using Cons.prems(1) by (simp add: add_slices_def Let_def)
  also have "bb_as_slice (wb_frame b) @ bytes_content (wb_fragment b) = frame_of (wb_payload b)"
    by (rule framed_bytes [OF b(2)])
  finally show ?case using Cons.IH [OF wf] Cons.prems(2) by simp
qed simp

section \<open>Giving batches back\<close>

definition give_back :: "write_batch list \<Rightarrow> history \<Rightarrow> history" where
  "give_back bs h = h\<lparr>hs_held := fold remove1 bs (hs_held h)\<rparr>"

lemma give_back_simps [simp]:
  "hs_sent (give_back bs h) = hs_sent h" "hs_out (give_back bs h) = hs_out h" "hs_failed (give_back bs h) = hs_failed h"
  by (simp_all add: give_back_def)

lemma stage_out_refill_status: "tx_status (snd (stage_out_refill b s)) = tx_status s"
  by (simp add: stage_out_refill_def Let_def split: option.splits)

lemma refill_all_status: "tx_status (snd (refill_all bs s)) = tx_status s"
proof (induction bs arbitrary: s)
  case (Cons b bs)
  then show ?case using stage_out_refill_status [of b s] by (auto split: prod.splits sum.splits)
qed simp

lemma refill_all_buffers:
  "(\<And>b. b \<in> set bs \<Longrightarrow> wb_buffer bsz b) \<Longrightarrow> \<exists>s'. refill_all bs s = (Inr (), s')"
proof (induction bs arbitrary: s)
  case (Cons b bs)
  have "wb_buffer bsz b" using Cons.prems by simp
  then obtain b' where "wb_clear b = Some b'" using wb_clear_spec by (metis wb_buffer_def)
  then obtain s1 where "stage_out_refill b s = (Inr (), s1)" by (auto simp: stage_out_refill_def Let_def)
  then show ?case using Cons.IH [of s1] Cons.prems by simp
qed simp

lemma refill_all_core:
  assumes "sys_core k cap bsz lim s h" "mset bs \<subseteq># mset (hs_held h)"
  shows "\<exists>s'. refill_all bs s = (Inr (), s') \<and> sys_core k cap bsz lim s' (give_back bs h)
    \<and> (tx_run cap bsz lim s h \<longrightarrow> tx_run cap bsz lim s' (give_back bs h))"
  using assms
proof (induction bs arbitrary: s h)
  case Nil
  then show ?case by (simp add: give_back_def)
next
  case (Cons b bs)
  let ?h = "h\<lparr>hs_held := remove1 b (hs_held h)\<rparr>"
  have b: "b \<in> set (hs_held h)" using Cons.prems(2) by (metis in_multiset_in_set list.set_intros(1) mset_subset_eqD)
  obtain s1 where s1: "stage_out_refill b s = (Inr (), s1)" "sys_core k cap bsz lim s1 ?h"
    using sys_core_refill [OF Cons.prems(1) b] by blast
  have "mset bs \<subseteq># mset (hs_held ?h)" using Cons.prems(2) by (simp add: insert_subset_eq_iff)
  then obtain s2 where s2: "refill_all bs s1 = (Inr (), s2)" "sys_core k cap bsz lim s2 (give_back bs ?h)"
      "tx_run cap bsz lim s1 ?h \<longrightarrow> tx_run cap bsz lim s2 (give_back bs ?h)"
    using Cons.IH [OF s1(2)] by blast
  have "give_back bs ?h = give_back (b # bs) h" by (simp add: give_back_def)
  then show ?case using s1(1) s2 run_refill [OF _ b s1(1)] by auto
qed

section \<open>Coalescing\<close>

lemma core_out_holds:
  assumes "sys_core k cap bsz lim s h" "b \<in> set (hs_out h)"
  shows "\<exists>pk. batch_holds b pk"
proof -
  have "b \<in> set (lane_batches (qos_priority (wb_qos b)) (hs_out h))" using assms(2) by (simp add: lane_batches_def)
  moreover obtain pks where "list_all2 batch_holds (lane_batches (qos_priority (wb_qos b)) (hs_out h)) pks"
    using assms(1) unfolding sys_core_def sys_lane_def by blast
  ultimately show ?thesis by (metis in_set_conv_nth list_all2_conv_all_nth)
qed

lemma run_core:
  "tx_run cap bsz lim s h \<Longrightarrow> 19 \<le> bsz \<Longrightarrow> bsz \<le> BATCH_SIZE_MAX \<Longrightarrow> \<exists>k. sys_core k cap bsz lim s h"
  using tx_run_inv sys_inv_iff by blast

text \<open>The pulled batches can be sent.\<close>

lemma pulled_sendable:
  assumes "tx_run cap bsz lim s (note_out bs h)" "19 \<le> bsz" "bsz \<le> BATCH_SIZE_MAX" "b \<in> set bs" "wb_buffer bsz b" "wb_framed b"
  shows "sendable bsz b"
proof -
  obtain k where "sys_core k cap bsz lim s (note_out bs h)" using run_core [OF assms(1-3)] by blast
  then obtain pk where "batch_holds b pk" using core_out_holds assms(4) by fastforce
  then show ?thesis using assms(5,6) enc_packet_ne by (simp add: sendable_def batch_holds_def)
qed

lemma coalesce_runs:
  assumes "19 \<le> bsz" "bsz \<le> BATCH_SIZE_MAX" "tx_run cap bsz lim s h" "sov_wf batches"
  shows "\<exists>batches' new s'. coalesce batches s = Some (Inr batches', s') \<and> sov_as_slice batches' = sov_as_slice batches @ new
    \<and> sov_wf batches' \<and> tx_run cap bsz lim s' (note_out new h) \<and> (\<forall>b \<in> set new. sendable bsz b)
    \<and> sov_len batches' \<le> max COALESCE_MAX_BATCHES (sov_len batches)"
  using assms(3,4)
proof (induction "COALESCE_MAX_BATCHES - sov_len batches" arbitrary: batches s h rule: less_induct)
  case less
  note run = less.prems(1)
  show ?case
  proof (cases "sov_len batches < COALESCE_MAX_BATCHES")
    case False
    then have "coalesce batches s = Some (Inr batches, s)" by (subst coalesce.simps) simp
    then show ?thesis using run less.prems(2) by (intro exI [of _ batches] exI [of _ "[]"]) simp
  next
    case True
    obtain k Q B R held where Q: "tx_inv k cap bsz s Q B R held"
      using tx_run_inv [OF run assms(1,2)] unfolding sys_inv_def by blast
    obtain r s1 got where r: "tx_try_pull s = Some (Inr r, s1)" "handed bsz r got"
      using tx_try_pull_spec [OF Q] by blast
    show ?thesis
    proof (cases r)
      case None
      then have "coalesce batches s = Some (Inr batches, s1)" using True r(1) by (subst coalesce.simps) simp
      moreover have "tx_run cap bsz lim s1 h" using run_idle [OF run] r(1) None by simp
      ultimately show ?thesis using less.prems(2) by (intro exI [of _ batches] exI [of _ "[]"]) simp
    next
      case (Some b)
      have run1: "tx_run cap bsz lim s1 (note_out [b] h)" using run_pull_note [OF run] r(1) Some by simp
      have b: "sendable bsz b"
        by (rule pulled_sendable [OF run1 assms(1,2)]) (use r(2) Some in \<open>simp_all add: handed_def\<close>)
      have len: "sov_len (sov_push batches b) = Suc (sov_len batches)"
        using less.prems(2) by (cases "(batches, b)" rule: sov_push.cases) auto
      have eq: "coalesce batches s = coalesce (sov_push batches b) s1"
        using True r(1) Some by (subst coalesce.simps) simp
      have lt: "COALESCE_MAX_BATCHES - sov_len (sov_push batches b) < COALESCE_MAX_BATCHES - sov_len batches"
        using True len by simp
      obtain batches' new s' where ih: "coalesce (sov_push batches b) s1 = Some (Inr batches', s')"
          "sov_as_slice batches' = sov_as_slice (sov_push batches b) @ new" "sov_wf batches'"
          "tx_run cap bsz lim s' (note_out new (note_out [b] h))" "\<forall>b \<in> set new. sendable bsz b"
          "sov_len batches' \<le> max COALESCE_MAX_BATCHES (sov_len (sov_push batches b))"
        using less.hyps [OF lt run1 sov_wf_push] by (elim exE conjE) (rule that)
      show ?thesis
        using ih b eq less.prems(2) len True by (intro exI [of _ batches'] exI [of _ "b # new"] exI [of _ s']) simp
    qed
  qed
qed

section \<open>Writing batches\<close>

definition wrote_batches :: "('w \<Rightarrow> u8 list) \<Rightarrow> write_batch list \<Rightarrow> 'w \<Rightarrow> tx \<Rightarrow> write_fail + nat \<Rightarrow> 'w \<Rightarrow> tx \<Rightarrow> bool" where
  "wrote_batches out bs k s r k' s' \<longleftrightarrow> (case r of
      Inr n \<Rightarrow> n = length (frames (map wb_payload bs)) \<and> out k' = out k @ frames (map wb_payload bs)
        \<and> refill_all bs s = (Inr (), s')
    | Inl e \<Rightarrow> (\<exists>io. e = WriteIo io) \<and> s' = s
        \<and> (\<exists>m \<le> length (frames (map wb_payload bs)). out k' = out k @ take m (frames (map wb_payload bs))))"

lemma write_batches_wrote:
  assumes ok: "sink_ok out sk" and wf: "sov_wf batches" and bs: "\<forall>b \<in> set (sov_as_slice batches). sendable bsz b"
  shows "\<exists>r k' s'. write_batches sk batches k s = (r, k', s') \<and> wrote_batches out (sov_as_slice batches) k s r k' s'"
proof -
  let ?slices = "fold add_slices (sov_as_slice batches) sov_new" and ?bytes = "frames (map wb_payload (sov_as_slice batches))"
  have c: "concat (sov_as_slice ?slices) = ?bytes" using batch_slices [of sov_new "sov_as_slice batches" bsz] bs by simp
  obtain r k1 where w: "write_all_vectored sk 0 (sov_as_slice ?slices) k = (r, k1)" by force
  have wrote: "wrote out ?bytes 0 k (r, k1)" using write_all_vectored_wrote [OF ok, of "sov_as_slice ?slices" 0 k] c w by simp
  show ?thesis
  proof (cases r)
    case (Inl e)
    then have "write_batches sk batches k s = (Inl e, k1, s)" using w by (simp add: write_batches_def Let_def)
    then show ?thesis using wrote Inl by (auto simp: wrote_def wrote_batches_def)
  next
    case (Inr n)
    obtain f k2 where fl: "sk_flush sk k1 = (f, k2)" by force
    have k2: "out k2 = out k @ ?bytes" using sink_okD(3) [OF ok fl] wrote Inr by (simp add: wrote_def)
    show ?thesis
    proof (cases f)
      case (Inl e)
      then have "write_batches sk batches k s = (Inl (WriteIo e), k2, s)" using w Inr fl by (simp add: write_batches_def Let_def)
      then show ?thesis using k2 by (auto simp: wrote_batches_def)
    next
      case u: (Inr u)
      obtain s' where s': "refill_all (sov_as_slice batches) s = (Inr (), s')"
        using refill_all_buffers bs unfolding sendable_def by metis
      have "write_batches sk batches k s = (Inr n, k2, s')" using w Inr fl u s' by (simp add: write_batches_def Let_def)
      then show ?thesis using k2 s' wrote Inr by (auto simp: wrote_def wrote_batches_def)
    qed
  qed
qed

section \<open>Runs of the sender\<close>

text \<open>
  What is added to the history by a step of the task: the batches that it pulls or drains are
  handed out, and those that it has written are given back.
\<close>

definition note_step :: "sender_task \<Rightarrow> sender_task \<Rightarrow> history \<Rightarrow> history" where
  "note_step t t' h = (case t of
       Pulling _ _ _ \<Rightarrow> (case t' of Writing batches \<Rightarrow> note_out (sov_as_slice batches) h | _ \<Rightarrow> h)
     | Writing batches \<Rightarrow> (case t' of Pulling _ _ _ \<Rightarrow> give_back (sov_as_slice batches) h | _ \<Rightarrow> h)
     | Leaving \<Rightarrow> (case t' of Draining batches \<Rightarrow> h\<lparr>hs_out := hs_out h @ batches\<rparr> | _ \<Rightarrow> h)
     | _ \<Rightarrow> h)"

text \<open>Whether the stream fails in a step.\<close>

definition stream_fails :: "'w sink \<Rightarrow> task_event \<Rightarrow> sender_task \<Rightarrow> 'w \<Rightarrow> tx \<Rightarrow> bool" where
  "stream_fails sk ev t k s = (case ev of
       KeepAliveElapsed \<Rightarrow> isl (fst (sk_write_all sk (u16_to_le_bytes 0) k))
     | StreamReady \<Rightarrow> (case t of
           Writing batches \<Rightarrow> isl (fst (write_batches sk batches k s))
         | Draining (b # rest) \<Rightarrow> isl (fst (write_batches sk (sov_single b) k s))
         | _ \<Rightarrow> False)
     | _ \<Rightarrow> False)"

text \<open>
  A run of a sender: the task takes its steps, and before it drains the pipeline others push,
  time goes by, and the sender may be stopped.  \<open>live\<close> says that it has not been stopped, \<open>broken\<close>
  that the stream has failed.  The locks of the lanes are free when the drain takes them.
\<close>

definition at_work :: "sender_task \<Rightarrow> bool" where
  "at_work t = (case t of Draining _ \<Rightarrow> False | Ended \<Rightarrow> False | _ \<Rightarrow> True)"

inductive send_run :: "'w sink \<Rightarrow> 'w \<Rightarrow> nat \<Rightarrow> nat \<Rightarrow> nat \<Rightarrow> bool \<Rightarrow> bool \<Rightarrow> sender_task \<Rightarrow> 'w \<Rightarrow> tx \<Rightarrow> history \<Rightarrow> bool"
  for sk k0 cap bsz lim where
  send_start: "pipeline_tx cap bsz = Some s \<Longrightarrow> send_run sk k0 cap bsz lim True False (turn_start inner) k0 s history_new"
| send_push: "send_run sk k0 cap bsz lim True broken t k s h \<Longrightarrow> at_work t \<Longrightarrow>
     tx_push msg config [] s = Some (r, s', env) \<Longrightarrow> r \<noteq> Inl (Fail Closed) \<Longrightarrow>
     bytes_wf msg \<Longrightarrow> bytes_len msg < 2 ^ 64 \<Longrightarrow> length (enc_slice (bytes_content msg)) \<le> lim \<Longrightarrow>
     send_run sk k0 cap bsz lim True broken t k s' (note_push (pc_qos config) (bytes_content msg) r h)"
| send_tick: "send_run sk k0 cap bsz lim live broken t k s h \<Longrightarrow> at_work t \<Longrightarrow>
     send_run sk k0 cap bsz lim live broken t k (s\<lparr>tx_clock := tx_clock s + d\<rparr>) h"
| send_stop: "send_run sk k0 cap bsz lim live broken t k s h \<Longrightarrow> at_work t \<Longrightarrow> sender_stop [] s = Some (c, s', env) \<Longrightarrow>
     send_run sk k0 cap bsz lim False broken t k s' h"
| send_step: "send_run sk k0 cap bsz lim live broken t k s h \<Longrightarrow> task_step sk inner ev t k s = Some (Inr t', k', s') \<Longrightarrow>
     (\<And>env. ev = LocksTaken env \<Longrightarrow> env = []) \<Longrightarrow>
     send_run sk k0 cap bsz lim live (broken \<or> stream_fails sk ev t k s) t' k' s' (note_step t t' h)"

subsection \<open>The invariant\<close>

text \<open>The batches that the task has and has not written.\<close>

fun in_hand :: "sender_task \<Rightarrow> write_batch list" where
  "in_hand (Writing batches) = sov_as_slice batches"
| "in_hand (Draining bs) = bs"
| "in_hand _ = []"

text \<open>The stream carries frames, the ones that are not empty being the batches that were written.\<close>

definition stream_is :: "('w \<Rightarrow> u8 list) \<Rightarrow> nat \<Rightarrow> 'w \<Rightarrow> 'w \<Rightarrow> write_batch list \<Rightarrow> bool" where
  "stream_is out bsz k0 k gone \<longleftrightarrow> (\<exists>xs. out k = out k0 @ frames xs \<and> (\<forall>x \<in> set xs. length x \<le> bsz)
     \<and> filter (\<lambda>x. x \<noteq> []) xs = map wb_payload gone)"

lemma stream_is_batches:
  assumes "stream_is out bsz k0 k gone" "out k' = out k @ frames (map wb_payload bs)" "\<And>b. b \<in> set bs \<Longrightarrow> sendable bsz b"
  shows "stream_is out bsz k0 k' (gone @ bs)"
proof -
  obtain xs where xs: "out k = out k0 @ frames xs" "\<forall>x \<in> set xs. length x \<le> bsz" "filter (\<lambda>x. x \<noteq> []) xs = map wb_payload gone"
    using assms(1) by (auto simp: stream_is_def)
  have "filter (\<lambda>x. x \<noteq> []) (map wb_payload bs) = map wb_payload bs"
    using assms(3) by (auto simp: filter_id_conv sendable_def)
  moreover have "\<forall>x \<in> set (map wb_payload bs). length x \<le> bsz" using assms(3) wb_payload_le by (auto simp: sendable_def)
  ultimately show ?thesis
    unfolding stream_is_def using xs assms(2) by (intro exI [of _ "xs @ map wb_payload bs"]) auto
qed

lemma stream_is_keep_alive:
  assumes "stream_is out bsz k0 k gone" "out k' = out k @ u16_to_le_bytes 0"
  shows "stream_is out bsz k0 k' gone"
proof -
  obtain xs where xs: "out k = out k0 @ frames xs" "\<forall>x \<in> set xs. length x \<le> bsz" "filter (\<lambda>x. x \<noteq> []) xs = map wb_payload gone"
    using assms(1) by (auto simp: stream_is_def)
  then show ?thesis
    unfolding stream_is_def using assms(2) by (intro exI [of _ "xs @ [[]]"]) (auto simp: frame_of_nil)
qed

fun holds_some :: "sender_task \<Rightarrow> bool" where
  "holds_some (Writing batches) \<longleftrightarrow> sov_as_slice batches \<noteq> []"
| "holds_some (Draining bs) \<longleftrightarrow> bs \<noteq> []"
| "holds_some _ \<longleftrightarrow> True"

lemma holds_some_draining [simp]: "holds_some (draining bs)" "in_hand (draining bs) = bs"
  by (simp_all add: draining_def)

definition send_inv :: "('w \<Rightarrow> u8 list) \<Rightarrow> 'w \<Rightarrow> nat \<Rightarrow> nat \<Rightarrow> nat \<Rightarrow> bool \<Rightarrow> bool \<Rightarrow> sender_task \<Rightarrow> 'w \<Rightarrow> tx \<Rightarrow> history \<Rightarrow> bool" where
  "send_inv out k0 cap bsz lim live broken t k s h \<longleftrightarrow>
     (if at_work t then (\<exists>i. sys_core i cap bsz lim s h) \<and> (live \<longrightarrow> tx_run cap bsz lim s h) \<and> (\<not> live \<longrightarrow> status_any (tx_status s) STATUS_DISABLED)
      else \<forall>p. sys_lane bsz lim [] None (hs_sent h p) (lane_batches p (hs_out h)) (hs_failed h))
   \<and> holds_some t \<and> (\<forall>b \<in> set (in_hand t). sendable bsz b)
   \<and> (\<forall>batches. t = Writing batches \<longrightarrow> sov_wf batches \<and> mset (sov_as_slice batches) \<subseteq># mset (hs_held h))
   \<and> (\<not> broken \<longrightarrow> (\<exists>gone. hs_out h = gone @ in_hand t \<and> stream_is out bsz k0 k gone))"

text \<open>Polls of a pipeline that has been disabled.\<close>

lemma asked_core:
  "sys_core i cap bsz lim s h \<Longrightarrow> sys_core i cap bsz lim (asked age p l s) h"
  by (erule sys_core_frame) (simp_all add: asked_def)

lemma asked_disabled: "status_any (tx_status (asked age p l s)) STATUS_DISABLED = status_any (tx_status s) STATUS_DISABLED"
  using asked_flags [of s age p l] by (simp add: consumer_flags_def pull_frame_def)

lemma pull_loop_disabled:
  "status_any (tx_status s) STATUS_DISABLED \<Longrightarrow> pull_loop age l s = Some (Inr (PullReady None), s)"
  by (subst pull_loop.simps) simp

lemma pull_poll_disabled:
  assumes core: "sys_core i cap bsz lim s h" and dis: "status_any (tx_status s) STATUS_DISABLED"
  shows "\<exists>r s'. pull_poll age w l s = Some (Inr r, s') \<and> sys_core i cap bsz lim s' h
    \<and> status_any (tx_status s') STATUS_DISABLED \<and> pulled r = []"
proof (cases w)
  case PullStart
  then show ?thesis using assms pull_loop_disabled [OF dis] by (simp add: pull_poll_def)
next
  case (Yielding n p)
  obtain l' s' where b: "at_booked age p l s = (l', s')" by force
  have "tx_status (snd (stage_flush p x)) = tx_status x" for x by (simp add: stage_flush_def)
  then have s': "sys_core i cap bsz lim s' h" "status_any (tx_status s') STATUS_DISABLED"
    using b asked_core [OF core] sys_core_flush [OF asked_core [OF core]] core dis asked_disabled [of age p l s]
    by (auto simp: at_booked_eq split: if_splits)
  then show ?thesis using Yielding b assms pull_loop_disabled [OF s'(2)] by (simp add: pull_poll_def)
next
  case AwaitEvent
  obtain c f where e: "event_check (tx_can_pull s) = (c, f)" by force
  let ?s = "s\<lparr>tx_can_pull := f\<rparr>"
  have "sys_core i cap bsz lim ?s h" using core by (rule sys_core_frame) simp_all
  moreover have "pull_loop age l ?s = Some (Inr (PullReady None), ?s)" using dis by (intro pull_loop_disabled) simp
  ultimately show ?thesis using AwaitEvent e dis by (simp add: pull_poll_def)
qed

subsection \<open>The steps keep the invariant\<close>

definition step_ok :: "('w \<Rightarrow> u8 list) \<Rightarrow> 'w \<Rightarrow> nat \<Rightarrow> nat \<Rightarrow> nat \<Rightarrow> bool \<Rightarrow> bool \<Rightarrow> sender_task \<Rightarrow> history \<Rightarrow>
    ((tx_fail + sender_task) \<times> 'w \<times> tx) option \<Rightarrow> bool" where
  "step_ok out k0 cap bsz lim live broken t h z \<longleftrightarrow> (\<exists>t' k' s'. z = Some (Inr t', k', s')
     \<and> send_inv out k0 cap bsz lim live broken t' k' s' (note_step t t' h))"

lemma step_okI:
  "z = Some (Inr t', k', s') \<Longrightarrow> send_inv out k0 cap bsz lim live broken t' k' s' (note_step t t' h) \<Longrightarrow>
     step_ok out k0 cap bsz lim live broken t h z"
  by (auto simp: step_ok_def)

lemma step_polled:
  assumes "19 \<le> bsz" "bsz \<le> BATCH_SIZE_MAX" and inv: "send_inv out k0 cap bsz lim live broken (Pulling age w l) k s h"
  shows "step_ok out k0 cap bsz lim live broken (Pulling age w l) h (task_step sk inner Polled (Pulling age w l) k s)"
proof (cases live)
  case False
  then obtain i where "sys_core i cap bsz lim s h" "status_any (tx_status s) STATUS_DISABLED"
    using inv by (auto simp: send_inv_def at_work_def)
  then obtain r s' where r: "pull_poll age w l s = Some (Inr r, s')" "sys_core i cap bsz lim s' h"
      "status_any (tx_status s') STATUS_DISABLED" "pulled r = []"
    using pull_poll_disabled by blast
  have "step_ok out k0 cap bsz lim live broken (Pulling age w l) h (Some (Inr t', k, s'))"
    if "t' = Leaving \<or> (\<exists>w' l'. t' = Pulling age w' l')" for t'
    using that inv r(2,3) False by (auto simp: step_ok_def send_inv_def at_work_def note_step_def)
  then show ?thesis
    using r(1,4) by (cases r) (auto simp: polled_def split: option.splits)
next
  case True
  then have run: "tx_run cap bsz lim s h" using inv by (simp add: send_inv_def at_work_def)
  obtain r s1 where r: "pull_poll age w l s = Some (Inr r, s1)" "tx_run cap bsz lim s1 (note_out (pulled r) h)"
      "\<forall>b \<in> set (pulled r). wb_buffer bsz b \<and> wb_framed b"
    using pull_poll_runs [OF assms(1,2) run] unfolding poll_runs_def by blast
  have stay: "step_ok out k0 cap bsz lim live broken (Pulling age w l) h (Some (Inr t', k, s1))"
    if "t' = Leaving \<or> (\<exists>w' l'. t' = Pulling age w' l')" "pulled r = []" for t'
    using that inv r(2) True run_core [OF _ assms(1,2)] by (auto simp: step_ok_def send_inv_def at_work_def note_step_def)
  show ?thesis
  proof (cases "\<exists>b. r = PullReady (Some b)")
    case False
    then show ?thesis using r(1) stay by (cases r) (auto simp: polled_def split: option.splits)
  next
    case pr: True
    then obtain b where b: "r = PullReady (Some b)" by blast
    have sb: "sendable bsz b" by (rule pulled_sendable [OF r(2) assms(1,2)]) (use r(3) b in simp_all)
    obtain batches new s2 where c: "coalesce (sov_single b) s1 = Some (Inr batches, s2)"
        "sov_as_slice batches = b # new" "sov_wf batches" "tx_run cap bsz lim s2 (note_out new (note_out [b] h))"
        "\<forall>b \<in> set new. sendable bsz b"
      using coalesce_runs [OF assms(1,2) r(2), of "sov_single b"] b by auto
    have "task_step sk inner Polled (Pulling age w l) k s = Some (Inr (Writing batches), k, s2)"
      using r(1) b c(1) by (simp add: polled_def)
    moreover have "send_inv out k0 cap bsz lim live broken (Writing batches) k s2 (note_out (b # new) h)"
      using inv c True sb run_core [OF c(4) assms(1,2)] by (auto simp: send_inv_def at_work_def)
    ultimately show ?thesis using c(2) by (auto simp: step_ok_def note_step_def)
  qed
qed

lemma step_keep_alive:
  assumes ok: "sink_ok out sk" and inv: "send_inv out k0 cap bsz lim live broken (Pulling age w l) k s h"
  shows "step_ok out k0 cap bsz lim live (broken \<or> stream_fails sk KeepAliveElapsed (Pulling age w l) k s)
    (Pulling age w l) h (task_step sk inner KeepAliveElapsed (Pulling age w l) k s)"
proof -
  obtain r k' where r: "sk_write_all sk (u16_to_le_bytes 0) k = (r, k')" by force
  show ?thesis
  proof (cases r)
    case (Inl e)
    then show ?thesis using inv r by (auto simp: step_ok_def send_inv_def at_work_def note_step_def stream_fails_def)
  next
    case (Inr u)
    then have "out k' = out k @ u16_to_le_bytes 0" using sink_okD(4) [OF ok] r by simp
    then show ?thesis
      using inv r Inr stream_is_keep_alive [where out = out and k = k and k' = k']
      by (auto simp: step_ok_def send_inv_def at_work_def note_step_def stream_fails_def turn_start_def)
  qed
qed

lemma step_cancelled:
  assumes "send_inv out k0 cap bsz lim live broken (Pulling age w l) k s h"
  shows "step_ok out k0 cap bsz lim live broken (Pulling age w l) h (task_step sk inner TokenCancelled (Pulling age w l) k s)"
  using assms by (auto simp: step_ok_def send_inv_def at_work_def note_step_def)

lemma step_written:
  assumes ok: "sink_ok out sk" and inv: "send_inv out k0 cap bsz lim live broken (Writing batches) k s h"
  shows "step_ok out k0 cap bsz lim live (broken \<or> stream_fails sk StreamReady (Writing batches) k s)
    (Writing batches) h (task_step sk inner StreamReady (Writing batches) k s)"
proof -
  let ?bs = "sov_as_slice batches"
  have wf: "sov_wf batches" and send: "\<forall>b \<in> set ?bs. sendable bsz b" and held: "mset ?bs \<subseteq># mset (hs_held h)"
    and live: "live \<longrightarrow> tx_run cap bsz lim s h" "\<not> live \<longrightarrow> status_any (tx_status s) STATUS_DISABLED"
    using inv by (simp_all add: send_inv_def at_work_def)
  obtain i where core: "sys_core i cap bsz lim s h" using inv by (auto simp: send_inv_def at_work_def)
  obtain r k' s' where r: "write_batches sk batches k s = (r, k', s')" and w: "wrote_batches out ?bs k s r k' s'"
    using write_batches_wrote [OF ok wf send] by blast
  show ?thesis
  proof (cases r)
    case (Inl e)
    then obtain io where "task_step sk inner StreamReady (Writing batches) k s = Some (Inr Leaving, k', s')" "s' = s"
      using r w by (auto simp: wrote_batches_def)
    then show ?thesis
      by (intro step_okI) (use core live r Inl in \<open>auto simp: send_inv_def at_work_def note_step_def stream_fails_def\<close>)
  next
    case (Inr n)
    obtain s2 where s2: "refill_all ?bs s = (Inr (), s2)" "sys_core i cap bsz lim s2 (give_back ?bs h)"
        "tx_run cap bsz lim s h \<longrightarrow> tx_run cap bsz lim s2 (give_back ?bs h)"
      using refill_all_core [OF core held] by blast
    have e: "s2 = s'" "out k' = out k @ frames (map wb_payload ?bs)" using w Inr s2(1) by (simp_all add: wrote_batches_def)
    have dis: "tx_status s' = tx_status s" using refill_all_status [of ?bs s] s2(1) e(1) by simp
    have "\<not> broken \<Longrightarrow> stream_is out bsz k0 k' (hs_out h)"
      using inv stream_is_batches [where out = out and k = k and k' = k', OF _ e(2)] send by (auto simp: send_inv_def)
    then have "send_inv out k0 cap bsz lim live broken (turn_start inner) k' s' (give_back ?bs h)"
      unfolding send_inv_def using s2(2,3) e(1) live dis by (auto simp: at_work_def turn_start_def)
    then show ?thesis using r Inr by (simp add: step_ok_def note_step_def stream_fails_def turn_start_def)
  qed
qed

lemma step_drained:
  assumes inv: "send_inv out k0 cap bsz lim live broken Leaving k s h"
    and bounds: "19 \<le> bsz" "bsz \<le> BATCH_SIZE_MAX"
  shows "step_ok out k0 cap bsz lim live broken Leaving h (task_step sk inner (LocksTaken []) Leaving k s)"
proof -
  obtain i where "sys_core i cap bsz lim s h" using inv by (auto simp: send_inv_def at_work_def)
  then obtain bs s' where d: "tx_drain [] s = Some (Inr bs, s', [])" "\<forall>b \<in> set bs. wb_buffer bsz b \<and> wb_framed b"
      "\<forall>p. sys_lane bsz lim [] None (hs_sent h p) (lane_batches p (hs_out h @ bs)) (hs_failed h)"
    using drain_core by blast
  have "sendable bsz b" if "b \<in> set bs" for b
  proof -
    have "b \<in> set (lane_batches (qos_priority (wb_qos b)) (hs_out h @ bs))" using that by (simp add: lane_batches_def)
    moreover obtain pks where "list_all2 batch_holds (lane_batches (qos_priority (wb_qos b)) (hs_out h @ bs)) pks"
      using d(3) unfolding sys_lane_def by blast
    ultimately obtain pk where "batch_holds b pk" by (metis in_set_conv_nth list_all2_conv_all_nth)
    then show ?thesis using d(2) that enc_packet_ne by (simp add: sendable_def batch_holds_def)
  qed
  then have "send_inv out k0 cap bsz lim live broken (draining bs) k s' (note_step Leaving (draining bs) h)"
    using inv d(3) by (auto simp: send_inv_def at_work_def note_step_def draining_def)
  then show ?thesis using d(1) by (simp add: step_ok_def)
qed

lemma step_drain_written:
  assumes ok: "sink_ok out sk" and inv: "send_inv out k0 cap bsz lim live broken (Draining (b # rest)) k s h"
  shows "step_ok out k0 cap bsz lim live (broken \<or> stream_fails sk StreamReady (Draining (b # rest)) k s)
    (Draining (b # rest)) h (task_step sk inner StreamReady (Draining (b # rest)) k s)"
proof -
  have send: "sendable bsz b" "\<forall>b \<in> set rest. sendable bsz b" using inv by (simp_all add: send_inv_def)
  obtain r k' s' where r: "write_batches sk (sov_single b) k s = (r, k', s')" and w: "wrote_batches out [b] k s r k' s'"
    using write_batches_wrote [OF ok, of "sov_single b" bsz k s] send(1) by auto
  have lanes: "\<forall>p. sys_lane bsz lim [] None (hs_sent h p) (lane_batches p (hs_out h)) (hs_failed h)"
    using inv by (simp add: send_inv_def at_work_def)
  show ?thesis
  proof (cases r)
    case (Inl e)
    then obtain io where "task_step sk inner StreamReady (Draining (b # rest)) k s = Some (Inr Ended, k', s')"
      using r w by (auto simp: wrote_batches_def)
    then show ?thesis
      by (rule step_okI) (use lanes r Inl in \<open>simp add: send_inv_def at_work_def note_step_def stream_fails_def\<close>)
  next
    case (Inr n)
    have e: "out k' = out k @ frames (map wb_payload [b])" using w Inr by (simp add: wrote_batches_def)
    have "\<exists>gone. hs_out h = gone @ rest \<and> stream_is out bsz k0 k' gone" if nb: "\<not> broken"
    proof -
      obtain gone where "hs_out h = gone @ b # rest" "stream_is out bsz k0 k gone" using inv nb by (auto simp: send_inv_def)
      then show ?thesis using stream_is_batches [where out = out and k = k and k' = k' and bs = "[b]", OF _ e, of bsz k0 gone] send(1) by (intro exI [of _ "gone @ [b]"]) auto
    qed
    then have "send_inv out k0 cap bsz lim live broken (draining rest) k' s' h"
      using lanes send(2) by (auto simp: send_inv_def at_work_def draining_def)
    then show ?thesis using r Inr by (simp add: step_ok_def note_step_def stream_fails_def)
  qed
qed

text \<open>Every step that can be taken, at once.\<close>

lemma step_keeps:
  assumes "19 \<le> bsz" "bsz \<le> BATCH_SIZE_MAX" "sink_ok out sk" "send_inv out k0 cap bsz lim live broken t k s h"
    and "task_step sk inner ev t k s \<noteq> None" "\<And>env. ev = LocksTaken env \<Longrightarrow> env = []"
  shows "step_ok out k0 cap bsz lim live (broken \<or> stream_fails sk ev t k s) t h (task_step sk inner ev t k s)"
proof (cases t)
  case (Pulling age w l)
  note inv = assms(4) [unfolded Pulling]
  show ?thesis
    unfolding Pulling
  proof (cases ev)
    case Polled
    then show "step_ok out k0 cap bsz lim live (broken \<or> stream_fails sk ev (Pulling age w l) k s) (Pulling age w l) h
        (task_step sk inner ev (Pulling age w l) k s)"
      using step_polled [OF assms(1,2) inv] by (simp add: stream_fails_def del: task_step.simps)
  next
    case TokenCancelled
    then show "step_ok out k0 cap bsz lim live (broken \<or> stream_fails sk ev (Pulling age w l) k s) (Pulling age w l) h
        (task_step sk inner ev (Pulling age w l) k s)"
      using step_cancelled [OF inv] by (simp add: stream_fails_def del: task_step.simps)
  qed (use step_keep_alive [OF assms(3) inv] assms(5) Pulling in \<open>simp_all del: task_step.simps(2)\<close>)
next
  case (Writing batches)
  then show ?thesis using assms(4,5) step_written [OF assms(3)] by (cases ev) (auto simp del: task_step.simps(4))
next
  case Leaving
  show ?thesis
    unfolding Leaving
  proof (cases ev)
    case (LocksTaken env)
    then show "step_ok out k0 cap bsz lim live (broken \<or> stream_fails sk ev Leaving k s) Leaving h (task_step sk inner ev Leaving k s)"
      using step_drained [OF assms(4) [unfolded Leaving] assms(1,2)] assms(6)
      by (simp add: stream_fails_def del: task_step.simps)
  qed (use assms(5) Leaving in simp_all)
next
  case (Draining bs)
  show ?thesis
  proof (cases bs)
    case Nil
    then show ?thesis using assms(5) Draining by (cases ev) simp_all
  next
    case (Cons b rest)
    then show ?thesis
      using assms(4,5) step_drain_written [OF assms(3)] Draining by (cases ev) (auto simp del: task_step.simps(6))
  qed
next
  case Ended
  then show ?thesis using assms(5) by (cases ev) auto
qed

lemma note_push_simps [simp]:
  "hs_out (note_push q m r h) = hs_out h" "hs_held (note_push q m r h) = hs_held h"
  by (simp_all add: note_push_def split: sum.splits)

lemma send_run_inv:
  assumes "send_run sk k0 cap bsz lim live broken t k s h" "19 \<le> bsz" "bsz \<le> BATCH_SIZE_MAX" "sink_ok out sk"
  shows "send_inv out k0 cap bsz lim live broken t k s h"
  using assms(1)
proof induction
  case (send_start s inner)
  have run: "tx_run cap bsz lim s history_new" using send_start by (rule run_new)
  have "stream_is out bsz k0 k0 []" unfolding stream_is_def by (rule exI [of _ "[]"]) simp
  then show ?case
    using run run_core [OF run assms(2,3)] by (auto simp: send_inv_def turn_start_def at_work_def history_new_def)
next
  case (send_push broken t k s h msg config r s' env)
  have "tx_run cap bsz lim s h" using send_push.IH send_push.hyps(2) by (simp add: send_inv_def)
  then have run: "tx_run cap bsz lim s' (note_push (pc_qos config) (bytes_content msg) r h)"
    using send_push.hyps run_push by blast
  then show ?case using send_push.IH send_push.hyps(2) run_core [OF run assms(2,3)] by (simp add: send_inv_def)
next
  case (send_tick live broken t k s h d)
  then obtain i where "sys_core i cap bsz lim s h" by (auto simp: send_inv_def)
  then have "sys_core i cap bsz lim (s\<lparr>tx_clock := tx_clock s + d\<rparr>) h" by (rule sys_core_frame) simp_all
  then show ?case using send_tick run_tick by (auto simp: send_inv_def)
next
  case (send_stop live broken t k s h c s' env)
  then obtain i where "sys_core i cap bsz lim s h" by (auto simp: send_inv_def)
  from disable_core [OF this] show ?case
    using send_stop by (auto simp: send_inv_def sender_stop_def)
next
  case (send_step live broken t k s h inner ev t' k' s')
  have "step_ok out k0 cap bsz lim live (broken \<or> stream_fails sk ev t k s) t h (task_step sk inner ev t k s)"
    by (rule step_keeps [OF assms(2-4) send_step.IH]) (use send_step.hyps in auto)
  then show ?case using send_step.hyps(2) by (simp add: step_ok_def)
qed

end
