(* ===== verification/End_To_End.thy ===== *)
theory End_To_End
  imports Tx_System Rx_Runs
begin

text \<open>
  The two pipelines back to back: the contents of the batches that the sender's pipeline hands
  out are what the receiver's pipeline is given, in the order in which they are handed out.
\<close>

section \<open>From batches to packets\<close>

lemma batch_holds_unique: "batch_holds b pk \<Longrightarrow> batch_holds b pk' \<Longrightarrow> pk = pk'"
  using enc_packet_inject [of pk pk'] by (simp add: batch_holds_def)

lemma batches_hold_unique:
  "list_all2 batch_holds bs pks \<Longrightarrow> list_all2 batch_holds bs pks' \<Longrightarrow> pks = pks'"
proof (induction bs arbitrary: pks pks')
  case (Cons b bs)
  then show ?case using batch_holds_unique by (fastforce simp: list_all2_Cons1)
qed simp

lemma batches_hold_exists: "(\<And>b. b \<in> set bs \<Longrightarrow> \<exists>pk. batch_holds b pk) \<Longrightarrow> \<exists>pks. list_all2 batch_holds bs pks"
proof (induction bs)
  case (Cons b bs)
  obtain pk where "batch_holds b pk" using Cons.prems [of b] by auto
  moreover obtain pks where "list_all2 batch_holds bs pks" using Cons.IH Cons.prems by (meson list.set_intros(2))
  ultimately show ?case by (intro exI [of _ "pk # pks"]) simp
qed (auto intro: exI [of _ "[]"])

lemma batches_hold_lane:
  "list_all2 batch_holds bs pks \<Longrightarrow> list_all2 batch_holds (lane_batches p bs) (lane_packets p pks)"
proof (induction bs arbitrary: pks)
  case (Cons b bs)
  then obtain pk pks' where pks: "pks = pk # pks'" "batch_holds b pk" "list_all2 batch_holds bs pks'"
    by (auto simp: list_all2_Cons1)
  have "qos_priority (wb_qos b) = qos_priority (pk_qos pk)"
    using pks(2) by (simp add: batch_holds_def qos_class_def)
  then show ?case using Cons.IH [OF pks(3)] pks(1,2) by (simp add: lane_packets_def)
qed (simp add: lane_packets_def)

lemma batches_decoded: "list_all2 batch_holds bs pks \<Longrightarrow> decoded (map wb_payload bs) pks"
  by (induction bs arbitrary: pks) (auto simp: decoded_def list_all2_Cons1 batch_holds_def)

text \<open>If the batches of every lane are packets, so are all of them together.\<close>

lemma lanes_decoded:
  assumes "\<And>p. \<exists>pks. list_all2 batch_holds (lane_batches p out) pks \<and> carries (fst (feed_all lim defrags_new pks)) (sent p)"
  shows "\<exists>pks. decoded (map wb_payload out) pks \<and> (\<forall>p. carries (fst (feed_all lim defrags_new (lane_packets p pks))) (sent p))"
proof -
  have "\<exists>pk. batch_holds b pk" if "b \<in> set out" for b
  proof -
    have "b \<in> set (lane_batches (qos_priority (wb_qos b)) out)" using that by (simp add: lane_batches_def)
    then show ?thesis using assms [of "qos_priority (wb_qos b)"] by (metis in_set_conv_nth list_all2_conv_all_nth)
  qed
  then obtain pks where pks: "list_all2 batch_holds out pks" using batches_hold_exists by blast
  have "carries (fst (feed_all lim defrags_new (lane_packets p pks))) (sent p)" for p
  proof -
    obtain pks' where "list_all2 batch_holds (lane_batches p out) pks'" "carries (fst (feed_all lim defrags_new pks')) (sent p)"
      using assms by blast
    then show ?thesis using batches_hold_unique [OF _ batches_hold_lane [OF pks]] by metis
  qed
  then show ?thesis using batches_decoded [OF pks] by blast
qed

section \<open>A small run\<close>

lemma demo_handed:
  "\<exists>b s. tx_try_pull demo_flushed = Some (Inr (Some b), s) \<and> wb_payload b = [1, 1, 0, 3, 7, 8, 9]
     \<and> (\<exists>s'. tx_try_pull s = Some (Inr None, s')) \<and> (\<forall>p. \<not> mpsc_peek p (tx_inout s))"
proof -
  obtain b s where b: "tx_try_pull demo_flushed = Some (Inr (Some b), s)" "\<exists>s'. tx_try_pull s = Some (Inr None, s')"
      "\<forall>p. \<not> mpsc_peek p (tx_inout s)"
    using demo_pull by blast
  have on: "\<not> status_any (tx_status demo_flushed) STATUS_DISABLED" by code_simp
  have w: "(1 :: u32) AND SN_MASK = 1" by code_simp
  have "case fst (try_lanes PRIO_ALL demo_flushed) of Inr (Got b) \<Rightarrow> wb_payload b = [1, ucast (ucast (1 AND SN_MASK :: u32) :: u64), 0, ucast (of_nat 3 :: u64), 7, 8, 9] | _ \<Rightarrow> False"
    by code_simp
  then have "wb_payload b = [1, 1, 0, 3, 7, 8, 9]"
    using b(1) on by (auto simp: w tx_try_pull.simps [of demo_flushed] split: prod.splits sum.splits lane_result.splits)
  then show ?thesis using b by blast
qed

section \<open>Properties\<close>



end
