(* ===== verification/Receiver_Task.thy ===== *)
theory Receiver_Task
  imports Api_Receiver Sender_Task End_To_End
begin

text \<open>
  The receiver's task on a stream that keeps its promise (\<open>source_ok\<close>): the bytes it has read are
  a sequence of frames, and it has pushed those that are not empty, in order.  With the runs
  of the two pipelines this is the whole way from \<open>send\<close> to \<open>recv\<close>: what a sender's task wrote
  until it ended is what a receiver hands out.
\<close>

section \<open>Frames\<close>

lemma u16_bytes_roundtrip: "u16_from_le_bytes (u16_to_le_bytes v) = v"
  unfolding u16_from_le_bytes_def u16_to_le_bytes_def by (rule bit_word_eqI) (auto simp: bit_simps)

lemma u16_bytes_inverse:
  assumes "length bs = 2"
  shows "u16_to_le_bytes (u16_from_le_bytes bs) = bs"
proof -
  obtain a b where bs: "bs = [a, b]" using assms by (auto simp: numeral_2_eq_2 length_Suc_conv)
  have "ucast (ucast a OR push_bit 8 (ucast b) :: u16) = a" by (rule bit_word_eqI) (auto simp: bit_simps)
  moreover have "ucast (drop_bit 8 (ucast a OR push_bit 8 (ucast b) :: u16)) = b"
    by (rule bit_word_eqI) (auto simp: bit_simps dest: bit_imp_le_length)
  ultimately show ?thesis by (simp add: bs u16_from_le_bytes_def u16_to_le_bytes_def)
qed

definition frame_sized :: "u8 list \<Rightarrow> bool" where
  "frame_sized x \<longleftrightarrow> length x < 2 ^ 16"

lemma frame_sized_le: "length x \<le> bsz \<Longrightarrow> bsz \<le> BATCH_SIZE_MAX \<Longrightarrow> frame_sized x"
  by (simp add: frame_sized_def BATCH_SIZE_MAX_def)

lemma frame_of_inject:
  assumes "frame_of x @ r = frame_of y @ s" "frame_sized x" "frame_sized y"
  shows "x = y \<and> r = s"
proof -
  have "u16_to_le_bytes (of_nat (length x)) = u16_to_le_bytes (of_nat (length y))"
    using arg_cong [OF assms(1), of "take BATCH_LEN"] by (simp add: frame_of_def)
  then have "(of_nat (length x) :: u16) = of_nat (length y)" using u16_bytes_roundtrip by metis
  moreover have "unat (of_nat n :: u16) = n" if "n < 2 ^ 16" for n
    using that by (simp add: unat_of_nat take_bit_nat_eq_self)
  ultimately have "length x = length y" using assms(2,3) unfolding frame_sized_def by metis
  then show ?thesis using assms(1) by (auto simp: frame_of_def)
qed

lemma frames_prefix:
  assumes "frames xs @ r = frames ys" "\<forall>x \<in> set xs. frame_sized x" "\<forall>y \<in> set ys. frame_sized y"
  shows "\<exists>zs. ys = xs @ zs \<and> r = frames zs"
  using assms
proof (induction xs arbitrary: ys)
  case Nil
  then show ?case by simp
next
  case (Cons x xs)
  have "ys \<noteq> []" using Cons.prems(1) by (auto simp: frame_of_def u16_to_le_bytes_def)
  then obtain y ys' where y: "ys = y # ys'" by (cases ys) auto
  have "x = y \<and> frames xs @ r = frames ys'"
    using Cons.prems by (intro frame_of_inject) (simp_all add: y)
  then show ?case using Cons.IH [of ys'] Cons.prems(2,3) y by simp
qed

lemma frames_nil_iff: "frames xs = [] \<longleftrightarrow> xs = []"
  by (cases xs) (auto simp: frame_of_def u16_to_le_bytes_def)

section \<open>A turn of the task\<close>

lemma read_chunk_of_laws:
  assumes "length body = len" "len \<noteq> 0"
  shows "bytes_content (read_chunk_of len body) = body" "bytes_wf (read_chunk_of len body)" "bytes_dense (read_chunk_of len body)"
proof -
  let ?c = "chunk_new_unchecked (DynVec (body @ replicate (next_power_of_two len - len) 0)) 0 len"
  have "chunk_wf ?c" by (rule chunk_new_unchecked_wf) (simp_all add: assms)
  moreover have "chunk_as_slice ?c = body" by (simp add: chunk_new_unchecked_def chunk_as_slice_def assms(1))
  moreover have "chunk_len ?c \<noteq> 0" using assms(2) by (simp add: chunk_new_unchecked_def chunk_len_def)
  ultimately show "bytes_content (read_chunk_of len body) = body" "bytes_wf (read_chunk_of len body)"
      "bytes_dense (read_chunk_of len body)"
    unfolding read_chunk_of_def by (simp_all add: bytes_dense_def) (simp add: bytes_single_def)
qed


lemma read_all_ok:
  assumes "source_ok inp src" "read_all src n r = (Some bs, r')"
  shows "length bs = n \<and> inp r = bs @ inp r'"
  using assms unfolding source_ok_def read_all_def by (auto split: prod.splits sum.splits if_splits)

text \<open>The frame that a turn reads, and what its push answered.\<close>

definition turn_frame :: "'r source \<Rightarrow> 'r \<Rightarrow> u8 list option \<times> 'r" where
  "turn_frame src r = (case read_all src 2 r of
       (None, r1) \<Rightarrow> (None, r1)
     | (Some size_bytes, r1) \<Rightarrow> let len = unat (u16_from_le_bytes size_bytes)
         in if len = 0 then (Some [], r1) else read_all src len r1)"

lemma turn_frame_ok:
  assumes "source_ok inp src" "turn_frame src r = (Some x, r')"
  shows "inp r = frame_of x @ inp r' \<and> frame_sized x"
proof -
  obtain hb r1 where h: "read_all src 2 r = (Some hb, r1)"
    using assms(2) by (auto simp: turn_frame_def split: prod.splits option.splits)
  have h2: "length hb = 2" "inp r = hb @ inp r1" using read_all_ok [OF assms(1) h] by simp_all
  let ?len = "unat (u16_from_le_bytes hb)"
  have x: "length x = ?len \<and> inp r1 = x @ inp r'"
  proof (cases "?len = 0")
    case True
    then show ?thesis using assms(2) h by (simp add: turn_frame_def)
  next
    case False
    then show ?thesis using assms(2) h read_all_ok [OF assms(1), of ?len r1 x r'] by (simp add: turn_frame_def Let_def)
  qed
  then have "frame_of x = hb @ x" using u16_bytes_inverse [OF h2(1)] by (simp add: frame_of_def)
  moreover have "frame_sized x" using x unsigned_less [of "u16_from_le_bytes hb"] by (simp add: frame_sized_def)
  ultimately show ?thesis using h2(2) x by simp
qed

lemma read_turn_eq:
  "read_turn src inner env r s = (case turn_frame src r of
       (None, r') \<Rightarrow> Some (LeaveLoop, r', s, env)
     | (Some x, r') \<Rightarrow> if x = [] then Some (NextTurn, r', s, env)
         else map_option (\<lambda>(res, s', env'). (case res of
              Inr _ \<Rightarrow> NextTurn
            | Inl (RxFail e) \<Rightarrow> if goes_on e then NextTurn else LeaveLoop
            | Inl e \<Rightarrow> TurnFailed e, r', s', env'))
           (rx_push (read_chunk_of (length x) x) (inner_push_config inner) env s))"
  if "source_ok inp src"
proof -
  have ne: "read_all src n r1 = (Some x, r') \<Longrightarrow> n \<noteq> 0 \<Longrightarrow> x \<noteq> [] \<and> length x = n" for n r1 x r'
    using read_all_ok [OF that] by auto
  show ?thesis
    by (auto simp: read_turn_def turn_frame_def Let_def dest: ne split: prod.splits option.splits)
qed

section \<open>Runs of the receiver\<close>

text \<open>
  The task takes turns, the application pulls, and time goes by.  The flag says whether the task
  is still in its loop; a turn whose fragment has a kind that does not exist is the end.
\<close>

definition note_turn :: "'r source \<Rightarrow> receiver_task_inner \<Rightarrow> 'r \<Rightarrow> rx \<Rightarrow> rx_history \<Rightarrow> rx_history" where
  "note_turn src inner r s h = (case turn_frame src r of
       (None, _) \<Rightarrow> h
     | (Some x, _) \<Rightarrow> if x = [] then h
         else let batch = read_chunk_of (length x) x
           in (case rx_push batch (inner_push_config inner) [] s of
              None \<Rightarrow> h | Some (res, _) \<Rightarrow> note_in (bytes_content batch) res h))"

inductive recv_run :: "'r source \<Rightarrow> 'r \<Rightarrow> nat \<Rightarrow> nat \<Rightarrow> bool \<Rightarrow> 'r \<Rightarrow> rx \<Rightarrow> rx_history \<Rightarrow> bool"
  for src r0 cap lim where
  recv_start: "pipeline_rx cap = Some s \<Longrightarrow> recv_run src r0 cap lim True r0 s rx_history_new"
| recv_turn: "recv_run src r0 cap lim True r s h \<Longrightarrow> ri_max_frag_size inner = lim \<Longrightarrow>
     read_turn src inner [] r s = Some (e, r', s', env) \<Longrightarrow> e \<noteq> TurnFailed RxNoKind \<Longrightarrow>
     recv_run src r0 cap lim (e = NextTurn) r' s' (note_turn src inner r s h)"
| recv_pull: "recv_run src r0 cap lim on r s h \<Longrightarrow> receiver_try_recv [] s = Some (Inr (Some (t, q)), s') \<Longrightarrow>
     recv_run src r0 cap lim on r s' (note_got q (bytes_content t) h)"
| recv_idle: "recv_run src r0 cap lim on r s h \<Longrightarrow> receiver_try_recv [] s = Some (Inr None, s') \<Longrightarrow>
     recv_run src r0 cap lim on r s' h"
| recv_tick: "recv_run src r0 cap lim on r s h \<Longrightarrow> recv_run src r0 cap lim on r (s\<lparr>rx_clock := rx_clock s + d\<rparr>) h"

text \<open>The pipeline of a receiver is used as in \<open>Rx_Runs\<close>, and what goes in are the frames.\<close>

lemma recv_run_rx:
  assumes "recv_run src r0 cap lim on r s h" "source_ok inp src"
  shows "rx_run cap lim s h"
  using assms(1)
proof induction
  case (recv_start s)
  then show ?case by (rule rx_run_new)
next
  case (recv_turn r s h inner e r' s' env)
  obtain z r1 where z: "turn_frame src r = (z, r1)" by force
  show ?case
  proof (cases "\<exists>x. z = Some x \<and> x \<noteq> []")
    case False
    then have "s' = s" "note_turn src inner r s h = h"
      using recv_turn.hyps(3) z by (auto simp: read_turn_eq [OF assms(2)] note_turn_def split: option.splits)
    then show ?thesis using recv_turn.IH by simp
  next
    case True
    then obtain x where x: "z = Some x" "x \<noteq> []" by blast
    let ?b = "read_chunk_of (length x) x" and ?c = "inner_push_config inner"
    obtain res env' where p: "rx_push ?b ?c [] s = Some (res, s', env')"
        "e = (case res of Inr _ \<Rightarrow> NextTurn
            | Inl (RxFail e) \<Rightarrow> if goes_on e then NextTurn else LeaveLoop | Inl e \<Rightarrow> TurnFailed e)"
      using recv_turn.hyps(3) z x by (auto simp: read_turn_eq [OF assms(2)])
    have "res \<noteq> Inl RxNoKind" using recv_turn.hyps(4) p(2) by auto
    then have "rx_run cap lim s' (note_in (bytes_content ?b) res h)"
      using rx_run_push [OF recv_turn.IH p(1)] recv_turn.hyps(2) read_chunk_of_laws [of x "length x"] x(2)
      by (simp add: inner_push_config_def)
    then show ?thesis using z x p(1) by (simp add: note_turn_def)
  qed
next
  case (recv_pull on r s h t q s')
  then show ?case using rx_run_pull by (simp add: receiver_try_recv_def)
next
  case (recv_idle on r s h s')
  then show ?case using rx_run_idle by (simp add: receiver_try_recv_def)
next
  case (recv_tick on r s h d)
  then show ?case by (intro rx_run_tick)
qed

lemma note_got_in [simp]: "rh_in (note_got q m h) = rh_in h"
  by (simp add: note_got_def)

lemma recv_run_stream:
  assumes "recv_run src r0 cap lim on r s h" "source_ok inp src"
  shows "on \<longrightarrow> (\<exists>xs. inp r0 = frames xs @ inp r \<and> (\<forall>x \<in> set xs. frame_sized x) \<and> rh_in h = filter (\<lambda>x. x \<noteq> []) xs)"
  using assms(1)
proof induction
  case (recv_start s)
  then show ?case by (intro impI exI [of _ "[]"]) (simp add: rx_history_new_def)
next
  case (recv_turn r s h inner e r' s' env)
  show ?case
  proof
    assume e: "e = NextTurn"
    obtain xs where xs: "inp r0 = frames xs @ inp r" "\<forall>x \<in> set xs. frame_sized x" "rh_in h = filter (\<lambda>x. x \<noteq> []) xs"
      using recv_turn.IH by blast
    obtain x where x: "turn_frame src r = (Some x, r')" "rh_in (note_turn src inner r s h) = rh_in h @ (if x = [] then [] else [x])"
      using recv_turn.hyps(3) e
      by (auto simp: read_turn_eq [OF assms(2)] note_turn_def note_in_def read_chunk_of_laws(1) split: prod.splits option.splits if_splits)
    then show "\<exists>xs. inp r0 = frames xs @ inp r' \<and> (\<forall>x \<in> set xs. frame_sized x)
        \<and> rh_in (note_turn src inner r s h) = filter (\<lambda>x. x \<noteq> []) xs"
      using xs turn_frame_ok [OF assms(2) x(1)] by (intro exI [of _ "xs @ [x]"]) auto
  qed
qed simp_all

text \<open>On a stream of frames that has been read to its end, all of them went in.\<close>

lemma recv_run_read_all:
  assumes "recv_run src r0 cap lim True r s h" "source_ok inp src" "inp r0 = frames ys" "inp r = []" "\<forall>y \<in> set ys. frame_sized y"
  shows "rh_in h = filter (\<lambda>y. y \<noteq> []) ys"
proof -
  obtain xs where xs: "frames ys = frames xs @ []" "\<forall>x \<in> set xs. frame_sized x" "rh_in h = filter (\<lambda>x. x \<noteq> []) xs"
    using recv_run_stream [OF assms(1,2)] assms(3,4) by auto
  obtain zs where "ys = xs @ zs" "frames zs = []" using frames_prefix [of xs "[]" ys] xs(1,2) assms(5) by auto
  then show ?thesis using xs(3) by (simp add: frames_nil_iff)
qed

end
