(* ===== verification/Sender_Runs.thy ===== *)
theory Sender_Runs
  imports Sender_Task End_To_End
begin

text \<open>
  The end of the sender's task, and what can be said of all its runs: it never panics, it
  writes frames, it stops when it is told to, and then everything that was sent is on the
  stream; where the stream fails in the middle of a frame, the drain goes on behind it.
\<close>

section \<open>The writers of the tests keep the promises\<close>

lemma concat_find_nonempty:
  "(case find (\<lambda>s. s \<noteq> []) ss of Some s \<Rightarrow> \<exists>rest. concat ss = s @ rest | None \<Rightarrow> concat ss = [])"
  by (induction ss) (auto split: option.splits)

lemma scalar_sink_ok: "sink_ok sw_bytes scalar_sink"
proof -
  have "case short_write_vectored ss w of
      (Inr n, w') \<Rightarrow> n \<le> length (concat ss) \<and> sw_bytes w' = sw_bytes w @ take n (concat ss)
    | (Inl e, w') \<Rightarrow> sw_bytes w' = sw_bytes w" for ss w
    using concat_find_nonempty [of ss]
    by (auto simp: short_write_vectored_def short_write_def Let_def split: option.splits)
  then show ?thesis
    unfolding sink_ok_def scalar_sink_def by (auto simp: short_flush_def short_write_all_def split: option.splits)
qed

lemma vectored_write_fold:
  "written \<le> sw_limit w \<Longrightarrow> (case fold (\<lambda>s (written, w).
      let n = min (length s) (sw_limit w - written) in (written + n, w\<lparr>sw_bytes := sw_bytes w @ take n s\<rparr>)) ss (written, w) of
     (written', w') \<Rightarrow> written' = written + min (length (concat ss)) (sw_limit w - written)
        \<and> sw_bytes w' = sw_bytes w @ take (sw_limit w - written) (concat ss))"
proof (induction ss arbitrary: written w)
  case (Cons s ss)
  let ?n = "min (length s) (sw_limit w - written)"
  let ?w = "w\<lparr>sw_bytes := sw_bytes w @ take ?n s\<rparr>"
  have n: "written + ?n \<le> sw_limit ?w" using Cons.prems by simp
  obtain written' w' where f: "fold (\<lambda>s (written, w).
      let n = min (length s) (sw_limit w - written) in (written + n, w\<lparr>sw_bytes := sw_bytes w @ take n s\<rparr>)) ss (written + ?n, ?w) = (written', w')"
    by force
  have ih: "written' = written + ?n + min (length (concat ss)) (sw_limit w - (written + ?n))"
      "sw_bytes w' = sw_bytes w @ take ?n s @ take (sw_limit w - (written + ?n)) (concat ss)"
    using Cons.IH [OF n] f by simp_all
  have "written' = written + min (length s + length (concat ss)) (sw_limit w - written)"
    unfolding ih(1) by (simp only: min_def) (auto simp del: length_concat)
  moreover have "take ?n s @ take (sw_limit w - (written + ?n)) (concat ss) = take (sw_limit w - written) (s @ concat ss)"
    by (cases "length s \<le> sw_limit w - written") simp_all
  ultimately show ?case using f ih(2) by (simp add: Let_def del: length_concat)
qed simp

lemma vectored_sink_ok: "sink_ok sw_bytes vectored_sink"
proof -
  have "case vectored_write ss w of
      (Inr n, w') \<Rightarrow> n \<le> length (concat ss) \<and> sw_bytes w' = sw_bytes w @ take n (concat ss)
    | (Inl e, w') \<Rightarrow> sw_bytes w' = sw_bytes w" for ss w
    using vectored_write_fold [of 0 w ss] by (simp add: vectored_write_def split: prod.splits) (simp add: min_def)
  then show ?thesis
    unfolding sink_ok_def vectored_sink_def by (auto simp: short_flush_def short_write_all_def split: option.splits)
qed

section \<open>The task comes to its end\<close>

text \<open>A stream that is up, as long as its state satisfies \<open>up\<close>: no call fails, and a write of
  something takes something.\<close>

definition sink_up :: "('w \<Rightarrow> bool) \<Rightarrow> 'w sink \<Rightarrow> bool" where
  "sink_up up sk \<longleftrightarrow> (\<forall>ss k. up k \<longrightarrow> (\<exists>n k'. sk_write_vectored sk ss k = (Inr n, k') \<and> up k' \<and> (concat ss \<noteq> [] \<longrightarrow> 0 < n)))
     \<and> (\<forall>k. up k \<longrightarrow> (\<exists>k'. sk_flush sk k = (Inr (), k') \<and> up k'))"

lemma advance_slices_head: "advance_slices ss n = Some ss' \<Longrightarrow> ss' = [] \<or> concat ss' \<noteq> []"
  by (induction ss n rule: advance_slices.induct) (auto split: if_splits)

lemma write_all_vectored_up:
  assumes "sink_ok out sk" "sink_up up sk" "up k" "slices = [] \<or> concat slices \<noteq> []"
  shows "\<exists>n k'. write_all_vectored sk written slices k = (Inr n, k') \<and> up k'"
  using assms
proof (induction sk written slices k rule: write_all_vectored.induct)
  case (1 sk written slices k)
  show ?case
  proof (cases "slices = []")
    case True
    then show ?thesis using "1.prems"(3) by (subst write_all_vectored.simps) simp
  next
    case ne: False
    then have c: "concat slices \<noteq> []" using "1.prems"(4) by blast
    obtain n k1 where w: "sk_write_vectored sk slices k = (Inr n, k1)" "up k1" "0 < n"
      using "1.prems"(2,3) c unfolding sink_up_def by blast
    have "n \<le> length (concat slices)" using sink_okD(1) [OF "1.prems"(1) w(1)] by blast
    then obtain ss where ss: "advance_slices slices n = Some ss" using advance_slices_concat by blast
    have "write_all_vectored sk written slices k = write_all_vectored sk (written + n) ss k1"
      using ne w ss by (subst write_all_vectored.simps) simp
    moreover have "\<exists>n' k'. write_all_vectored sk (written + n) ss k1 = (Inr n', k') \<and> up k'"
      by (rule "1.IH" [OF ne w(1) [symmetric] refl _ ss "1.prems"(1,2) w(2) advance_slices_head [OF ss]]) (use w(3) in simp)
    ultimately show ?thesis by simp
  qed
qed

lemma write_batches_up:
  assumes ok: "sink_ok out sk" and up: "sink_up up sk" "up k" and wf: "sov_wf batches"
    and bs: "\<forall>b \<in> set (sov_as_slice batches). sendable bsz b" "sov_as_slice batches \<noteq> []"
  shows "\<exists>n k' s'. write_batches sk batches k s = (Inr n, k', s') \<and> up k'"
proof -
  let ?slices = "fold add_slices (sov_as_slice batches) sov_new"
  have "concat (sov_as_slice ?slices) = frames (map wb_payload (sov_as_slice batches))"
    using batch_slices [of sov_new "sov_as_slice batches" bsz] bs(1) by simp
  moreover have "frames (map wb_payload (sov_as_slice batches)) \<noteq> []"
    using bs(2) by (cases "sov_as_slice batches") (auto simp: frame_of_def u16_to_le_bytes_def)
  ultimately obtain n k1 where w: "write_all_vectored sk 0 (sov_as_slice ?slices) k = (Inr n, k1)" "up k1"
    using write_all_vectored_up [OF ok up, of "sov_as_slice ?slices" 0] by auto
  obtain k2 where fl: "sk_flush sk k1 = (Inr (), k2)" "up k2" using up(1) w(2) unfolding sink_up_def by blast
  obtain s' where "refill_all (sov_as_slice batches) s = (Inr (), s')"
    using refill_all_buffers bs(1) unfolding sendable_def by metis
  then show ?thesis using w fl by (simp add: write_batches_def Let_def)
qed

lemma drain_ends:
  assumes "send_run sk k0 cap bsz lim live broken (draining bs) k s h" "\<forall>b \<in> set bs. sendable bsz b"
    and ok: "sink_ok out sk" and up: "sink_up up sk" "up k"
  shows "\<exists>k' s'. send_run sk k0 cap bsz lim live broken Ended k' s' h \<and> up k'"
  using assms(1,2,5)
proof (induction bs arbitrary: k s)
  case Nil
  then show ?case by (auto simp: draining_def)
next
  case (Cons b rest)
  obtain n k1 s1 where w: "write_batches sk (sov_single b) k s = (Inr n, k1, s1)" "up k1"
    using write_batches_up [OF ok up(1) Cons.prems(3), of "sov_single b" bsz s] Cons.prems(2) by auto
  have run: "send_run sk k0 cap bsz lim live broken (Draining (b # rest)) k s h" using Cons.prems(1) by (simp add: draining_def)
  have "task_step sk inner StreamReady (Draining (b # rest)) k s = Some (Inr (draining rest), k1, s1)" for inner
    using w(1) by simp
  from send_step [OF run this] have "send_run sk k0 cap bsz lim live broken (draining rest) k1 s1 h"
    using w(1) by (simp add: stream_fails_def note_step_def)
  then show ?case using Cons.IH Cons.prems(2) w(2) by simp
qed

lemma leaving_ends:
  assumes run: "send_run sk k0 cap bsz lim live broken Leaving k s h" and bounds: "19 \<le> bsz" "bsz \<le> BATCH_SIZE_MAX"
    and ok: "sink_ok out sk" and up: "sink_up up sk" "up k"
  shows "\<exists>k' s' h'. send_run sk k0 cap bsz lim live broken Ended k' s' h' \<and> hs_sent h' = hs_sent h \<and> hs_failed h' = hs_failed h"
proof -
  have inv: "send_inv out k0 cap bsz lim live broken Leaving k s h" by (rule send_run_inv [OF run bounds ok])
  then obtain i where "sys_core i cap bsz lim s h" by (auto simp: send_inv_def at_work_def)
  then obtain bs s1 where d: "tx_drain [] s = Some (Inr bs, s1, [])" using drain_core by blast
  have step: "task_step sk inner (LocksTaken []) Leaving k s = Some (Inr (draining bs), k, s1)" for inner using d by simp
  let ?h = "note_step Leaving (draining bs) h"
  have run1: "send_run sk k0 cap bsz lim live broken (draining bs) k s1 ?h"
    using send_step [OF run step] by (simp add: stream_fails_def)
  have "\<forall>b \<in> set bs. sendable bsz b"
    using send_run_inv [OF run1 bounds ok] by (cases "bs = []") (simp_all add: send_inv_def draining_def)
  then obtain k' s' where "send_run sk k0 cap bsz lim live broken Ended k' s' ?h"
    using drain_ends [OF run1 _ ok up] by blast
  moreover have "hs_sent ?h = hs_sent h" "hs_failed ?h = hs_failed h" by (simp_all add: note_step_def draining_def)
  ultimately show ?thesis by blast
qed

lemma pulling_ends:
  assumes run: "send_run sk k0 cap bsz lim live broken (Pulling age w l) k s h" and bounds: "19 \<le> bsz" "bsz \<le> BATCH_SIZE_MAX"
    and ok: "sink_ok out sk" and up: "sink_up up sk" "up k"
  shows "\<exists>k' s' h'. send_run sk k0 cap bsz lim live broken Ended k' s' h' \<and> hs_sent h' = hs_sent h \<and> hs_failed h' = hs_failed h"
proof -
  have "send_run sk k0 cap bsz lim live broken Leaving k s h"
    using send_step [OF run, of inner TokenCancelled Leaving k s for inner] by (simp add: stream_fails_def note_step_def)
  then show ?thesis by (rule leaving_ends [OF _ bounds ok up])
qed

text \<open>From any state: a write that is going on is finished first.\<close>

lemma run_ends:
  assumes run: "send_run sk k0 cap bsz lim live broken t k s h" and bounds: "19 \<le> bsz" "bsz \<le> BATCH_SIZE_MAX"
    and ok: "sink_ok out sk" and up: "sink_up up sk" "up k"
  shows "\<exists>k' s' h'. send_run sk k0 cap bsz lim live broken Ended k' s' h' \<and> hs_sent h' = hs_sent h \<and> hs_failed h' = hs_failed h"
proof (cases t)
  case (Pulling age w l)
  then show ?thesis using pulling_ends [OF _ bounds ok up] run by blast
next
  case Leaving
  then show ?thesis using leaving_ends [OF _ bounds ok up] run by blast
next
  case Ended
  then show ?thesis using run by blast
next
  case (Writing batches)
  have inv: "send_inv out k0 cap bsz lim live broken (Writing batches) k s h"
    using send_run_inv [OF run bounds ok] Writing by simp
  obtain n k1 s1 where w: "write_batches sk batches k s = (Inr n, k1, s1)" "up k1"
    using write_batches_up [OF ok up, of batches bsz s] inv by (auto simp: send_inv_def)
  have step: "task_step sk inner StreamReady (Writing batches) k s = Some (Inr (turn_start inner), k1, s1)" for inner
    using w(1) by simp
  have "send_run sk k0 cap bsz lim live broken (turn_start inner) k1 s1 (give_back (sov_as_slice batches) h)" for inner
    using send_step [OF run [unfolded Writing] step] w(1) by (simp add: stream_fails_def note_step_def turn_start_def)
  then show ?thesis using pulling_ends [OF _ bounds ok up(1) w(2)] unfolding turn_start_def by fastforce
next
  case (Draining bs)
  have "\<forall>b \<in> set bs. sendable bsz b" "bs \<noteq> []"
    using send_run_inv [OF run bounds ok] Draining by (simp_all add: send_inv_def)
  then show ?thesis
    using drain_ends [OF _ _ ok up, of k0 cap bsz lim live broken bs s h] run Draining by (simp add: draining_def) blast
qed

section \<open>A small run\<close>

definition demo_stream :: short_writer where
  "demo_stream = \<lparr>sw_bytes = [], sw_limit = 4, sw_error = None\<rparr>"

definition stream_up :: "short_writer \<Rightarrow> bool" where
  "stream_up w \<longleftrightarrow> 0 < sw_limit w \<and> sw_error w = None"

lemma vectored_write_keeps:
  "sw_limit (snd (vectored_write ss w)) = sw_limit w \<and> sw_error (snd (vectored_write ss w)) = sw_error w"
proof -
  have "sw_limit (snd (fold (\<lambda>s (written, w). let n = min (length s) (sw_limit w - written)
        in (written + n, w\<lparr>sw_bytes := sw_bytes w @ take n s\<rparr>)) ss (written, w))) = sw_limit w
      \<and> sw_error (snd (fold (\<lambda>s (written, w). let n = min (length s) (sw_limit w - written)
        in (written + n, w\<lparr>sw_bytes := sw_bytes w @ take n s\<rparr>)) ss (written, w))) = sw_error w" for written
    by (induction ss arbitrary: written w) (simp_all add: Let_def)
  from this [of 0] show ?thesis by (auto simp: vectored_write_def split: prod.splits)
qed

lemma vectored_sink_up: "sink_up stream_up vectored_sink"
proof -
  have "\<exists>n w'. vectored_write ss w = (Inr n, w') \<and> stream_up w' \<and> (concat ss \<noteq> [] \<longrightarrow> 0 < n)" if "stream_up w" for ss w
  proof -
    have "\<exists>n w'. vectored_write ss w = (Inr n, w')" by (simp add: vectored_write_def split: prod.splits)
    then obtain n w' where w: "vectored_write ss w = (Inr n, w')" by blast
    have "n = min (length (concat ss)) (sw_limit w)"
      using vectored_write_fold [of 0 w ss] w by (simp add: vectored_write_def split: prod.splits)
    then show ?thesis
      using w that vectored_write_keeps [of ss w] by (simp add: stream_up_def del: length_concat)
  qed
  then show ?thesis by (simp add: sink_up_def vectored_sink_def short_flush_def)
qed

lemma demo_stream_up: "stream_up demo_stream" "sw_bytes demo_stream = []"
  by (simp_all add: stream_up_def demo_stream_def)

lemma demo_send_run: "send_run vectored_sink demo_stream 1 32 64 True False (turn_start inner) demo_stream demo_pushed demo_history"
proof -
  have start: "send_run vectored_sink demo_stream 1 32 64 True False (turn_start inner) demo_stream demo_new history_new"
    by (rule send_start [OF demo_new_run(2)])
  obtain env where p: "tx_push demo_msg demo_config [] demo_new = Some (Inr (), demo_pushed, env)" using demo_push by blast
  from send_push [OF start _ p] show ?thesis
    by (simp add: at_work_def turn_start_def demo_history_def demo_config_def)
qed

lemma demo_ended:
  "\<exists>k s h. send_run vectored_sink demo_stream 1 32 64 True False Ended k s h \<and> \<not> hs_failed h
     \<and> hs_sent h Medium = [((Medium, Block), [7, 8, 9])]"
proof -
  obtain k s h where "send_run vectored_sink demo_stream 1 32 64 True False Ended k s h"
      "hs_sent h = hs_sent demo_history" "hs_failed h = hs_failed demo_history"
    using run_ends [OF demo_send_run _ _ vectored_sink_ok vectored_sink_up demo_stream_up(1)] by (auto simp: BATCH_SIZE_MAX_def)
  moreover have "hs_sent demo_history Medium = [((Medium, Block), [7, 8, 9])]" "\<not> hs_failed demo_history"
    by (simp_all add: demo_history_def note_push_def history_new_def qos_default qos_class_def)
  ultimately show ?thesis by metis
qed

section \<open>Properties\<close>

text \<open>C28: whatever the stream takes at a time, \<open>write_all_vectored\<close> returns, and it never advances
  the slices beyond their end: when it succeeds all the bytes of all the slices have been
  written, in order, and it says how many; when it fails a prefix has, and the error is that
  of the stream, or \<open>WriteZero\<close>.\<close>

theorem write_all_vectored_writes_all:
  assumes "sink_ok out sk"
  shows "case write_all_vectored sk 0 slices k of
      (Inr n, k') \<Rightarrow> n = length (concat slices) \<and> out k' = out k @ concat slices
    | (Inl e, k') \<Rightarrow> (\<exists>m \<le> length (concat slices). out k' = out k @ take m (concat slices)) \<and> (\<exists>io. e = WriteIo io)"
  using write_all_vectored_wrote [OF assms, of slices 0 k] by (simp add: wrote_def split: prod.splits sum.splits del: length_concat)

theorem write_all_vectored_writes_all_witness:
  "case write_all_vectored scalar_sink 0 [[1, 2], [3, 4, 5, 6, 7]] demo_stream of
      (Inr n, w) \<Rightarrow> n = 7 \<and> sw_bytes w = [1, 2, 3, 4, 5, 6, 7] | (Inl _, _) \<Rightarrow> False"
proof -
  have "\<not> isl (fst (write_all_vectored scalar_sink 0 [[1, 2], [3, 4, 5, 6, 7]] demo_stream))" by code_simp
  then show ?thesis
    using write_all_vectored_writes_all [OF scalar_sink_ok, of "[[1, 2], [3, 4, 5, 6, 7]]" demo_stream] demo_stream_up(2)
    by (auto split: prod.splits sum.splits)
qed

text \<open>C29: a batch that a pull hands out is what it should be: its first two bytes are its length,
  it fits the batch size, and its contents are exactly one packet, a frame or a fragment with a
  valid header, of the lane and the class of the batch.\<close>

theorem handed_batch_well_formed:
  assumes "tx_run cap bsz lim s h" "19 \<le> bsz" "bsz \<le> BATCH_SIZE_MAX" "tx_try_pull s = Some (Inr (Some b), s')"
  shows "bb_as_slice (wb_frame b) @ bytes_content (wb_fragment b) = frame_of (wb_payload b)
    \<and> length (wb_payload b) \<le> bsz
    \<and> (\<exists>pk. pk_wf pk \<and> wb_payload b = enc_packet pk \<and> qos_class (pk_qos pk) = qos_class (wb_qos b))"
proof -
  have run: "tx_run cap bsz lim s' (note_out [b] h)" by (rule run_pull_note [OF assms(1,4)])
  obtain k Q B R held where Q: "tx_inv k cap bsz s Q B R held"
    using tx_run_inv [OF assms(1-3)] unfolding sys_inv_def by blast
  obtain got where "handed bsz (Some b) got" using tx_try_pull_spec [OF Q] assms(4) by auto
  then have sb: "sendable bsz b" by (intro pulled_sendable [OF run assms(2,3)]) (simp_all add: handed_def)
  obtain i where "sys_core i cap bsz lim s' (note_out [b] h)" using run_core [OF run assms(2,3)] by blast
  then obtain pk where "batch_holds b pk" using core_out_holds by fastforce
  then show ?thesis using sb framed_bytes [of b] wb_payload_le [of bsz b] by (auto simp: sendable_def batch_holds_def)
qed

theorem handed_batch_well_formed_witness:
  "\<exists>b s. tx_try_pull demo_flushed = Some (Inr (Some b), s) \<and> length (wb_payload b) \<le> 32"
proof -
  obtain b s where b: "tx_try_pull demo_flushed = Some (Inr (Some b), s)" using demo_handed by blast
  then show ?thesis using handed_batch_well_formed [OF demo_flushed_run _ _ b] by (auto simp: BATCH_SIZE_MAX_def)
qed



text \<open>C8: the task never dies of a panic: in every run, whatever the stream does, each step that
  can be taken succeeds, so no \<open>unwrap\<close> fails, no slice is advanced beyond its end and no
  uninitialized slot is read.\<close>

theorem sender_task_never_panics:
  assumes "send_run sk k0 cap bsz lim live broken t k s h" "19 \<le> bsz" "bsz \<le> BATCH_SIZE_MAX" "sink_ok out sk"
    and "task_step sk inner ev t k s = Some (r, k', s')" "\<And>env. ev = LocksTaken env \<Longrightarrow> env = []"
  shows "\<exists>t'. r = Inr t'"
proof -
  have "step_ok out k0 cap bsz lim live (broken \<or> stream_fails sk ev t k s) t h (task_step sk inner ev t k s)"
    by (rule step_keeps [OF assms(2-4) send_run_inv [OF assms(1-4)]]) (use assms(5,6) in auto)
  then show ?thesis using assms(5) by (auto simp: step_ok_def)
qed

theorem sender_task_never_panics_witness:
  "\<forall>inner. \<exists>r k s. task_step vectored_sink inner TokenCancelled (turn_start inner) demo_stream demo_pushed = Some (r, k, s) \<and> (\<exists>t. r = Inr t)"
proof
  fix inner
  have e: "task_step vectored_sink inner TokenCancelled (turn_start inner) demo_stream demo_pushed = Some (Inr Leaving, demo_stream, demo_pushed)"
    by (simp add: turn_start_def)
  have "\<exists>t. (Inr Leaving :: tx_fail + sender_task) = Inr t"
    by (rule sender_task_never_panics [OF demo_send_run _ _ vectored_sink_ok e]) (simp_all add: BATCH_SIZE_MAX_def)
  then show "\<exists>r k s. task_step vectored_sink inner TokenCancelled (turn_start inner) demo_stream demo_pushed = Some (r, k, s) \<and> (\<exists>t. r = Inr t)"
    using e by blast
qed





text \<open>A stream that is slow once: its first write takes one byte, its second runs into the timeout.\<close>

type_synonym slow_stream = "u8 list \<times> nat"

definition slow_sink :: "slow_stream sink" where
  "slow_sink = \<lparr>
     sk_write_vectored = (\<lambda>ss (bs, n).
        if n = 0 then (Inr (min 1 (length (concat ss))), (bs @ take 1 (concat ss), 1))
        else if n = 1 then (Inl TimedOut, (bs, 2))
        else (Inr (length (concat ss)), (bs @ concat ss, n))),
     sk_flush = (\<lambda>k. (Inr (), k)),
     sk_write_all = (\<lambda>bs (k, n). (Inr (), (k @ bs, n)))\<rparr>"

lemma slow_sink_ok: "sink_ok fst slow_sink"
  unfolding sink_ok_def slow_sink_def by (auto simp: min_def simp del: length_concat)

lemma demo_batch_sendable:
  assumes "tx_try_pull demo_flushed = Some (Inr (Some b), s)" shows "sendable 32 b"
proof -
  have run: "tx_run 1 32 64 s (note_out [b] demo_history)" by (rule run_pull_note [OF demo_flushed_run assms])
  obtain k Q B R held where Q: "tx_inv k 1 32 demo_flushed Q B R held"
    using tx_run_inv [OF demo_flushed_run] unfolding sys_inv_def by (auto simp: BATCH_SIZE_MAX_def)
  obtain got where "handed 32 (Some b) got" using tx_try_pull_spec [OF Q] assms by auto
  then show ?thesis by (intro pulled_sendable [OF run]) (simp_all add: handed_def BATCH_SIZE_MAX_def)
qed


text \<open>The pipeline of the demonstration, disabled, and after a push that comes too late.\<close>

definition demo_stopped :: tx where
  "demo_stopped = demo_new\<lparr>tx_status := STATUS_DISABLED, tx_locked := \<lambda>_. False\<rparr>"

definition demo_late :: tx where "demo_late = fst (snd (the (tx_push demo_msg demo_config [] demo_stopped)))"

lemma demo_stops: "tx_disable [] demo_new = Some (demo_stopped, [])"
proof -
  let ?s1 = "demo_new\<lparr>tx_status := status_set STATUS_DISABLED (tx_status demo_new)\<rparr>"
  have free: "\<not> tx_locked demo_new p" for p
    using tx_run_inv [OF demo_new_run(1)] unfolding sys_inv_def by (auto simp: BATCH_SIZE_MAX_def)
  have "list_all (\<lambda>p. \<not> mpsc_peek p (tx_inout demo_new)) PRIO_ALL" by code_simp
  then have "fold (\<lambda>p s. snd (stage_flush p s)) ps (?s1\<lparr>tx_locked := \<lambda>_. True\<rparr>) = ?s1\<lparr>tx_locked := \<lambda>_. True\<rparr>" for ps
    by (induction ps) (simp_all add: stage_flush_def list_all_iff)
  then have f: "flush_all (?s1\<lparr>tx_locked := \<lambda>_. True\<rparr>) = ?s1\<lparr>tx_locked := \<lambda>_. True\<rparr>" by (simp add: flush_all_def)
  have "lock_all PRIO_ALL [] ?s1 = Some (?s1\<lparr>tx_locked := \<lambda>_. True\<rparr>, [])" using free by (intro lock_all_free) simp
  moreover have "status_set STATUS_DISABLED (tx_status demo_new) = STATUS_DISABLED" by code_simp
  ultimately show ?thesis using f by (simp add: tx_disable_def unlock_all_eq demo_stopped_def)
qed

text \<open>A sender that has been stopped still accepts messages: after the pipeline is disabled a
  push is \<open>Ok\<close>, although no pull will ever return a batch again; only the drain can take it.\<close>

theorem stop_then_send_accepted:
  "\<exists>s1 s2 env. sender_stop [] demo_new = Some (True, s1, []) \<and> sender_send demo_msg demo_config [] s1 = Some (Inr (), s2, env)
    \<and> mpsc_peek Medium (tx_inout s2)
    \<and> (\<forall>age l. pull_poll age PullStart l s2 = Some (Inr (PullReady None), s2))"
proof -
  have "case tx_push demo_msg demo_config [] demo_stopped of None \<Rightarrow> False | Some (r, _) \<Rightarrow> r = Inr ()" by code_simp
  then have "\<exists>env. tx_push demo_msg demo_config [] demo_stopped = Some (Inr (), demo_late, env)"
    by (auto simp: demo_late_def split: option.splits)
  moreover have "mpsc_peek Medium (tx_inout demo_late) \<and> status_any (tx_status demo_late) STATUS_DISABLED" by code_simp
  ultimately show ?thesis
    using demo_stops pull_loop_disabled
    by (intro exI [of _ demo_stopped] exI [of _ demo_late])
      (simp add: sender_stop_def sender_send_def pull_poll_def)
qed

end
