(* ===== verification/Stream_End_To_End.thy ===== *)
theory Stream_End_To_End
  imports Receiver_Task Sender_Runs
begin

text \<open>
  From \<open>Sender::send\<close> to \<open>Receiver::recv\<close>: both tasks, both pipelines, and between them a stream of
  bytes that the receiver reads as the sender wrote it.
\<close>

section \<open>What a sender leaves on the stream\<close>

lemma ended_stream:
  assumes run: "send_run sk k0 cap bsz lim live False Ended k s h" and bounds: "19 \<le> bsz" "bsz \<le> BATCH_SIZE_MAX"
    and ok: "sink_ok out sk" and "\<not> hs_failed h"
  obtains xs pks where "out k = out k0 @ frames xs" "\<forall>x \<in> set xs. frame_sized x" "decoded (filter (\<lambda>x. x \<noteq> []) xs) pks"
    "\<forall>p. carries (fst (feed_all lim defrags_new (lane_packets p pks))) (hs_sent h p)"
proof -
  have inv: "send_inv out k0 cap bsz lim live False Ended k s h" by (rule send_run_inv [OF run bounds ok])
  then obtain xs where xs: "out k = out k0 @ frames xs" "\<forall>x \<in> set xs. length x \<le> bsz"
      "filter (\<lambda>x. x \<noteq> []) xs = map wb_payload (hs_out h)"
    by (auto simp: send_inv_def stream_is_def)
  have "\<exists>pks. list_all2 batch_holds (lane_batches p (hs_out h)) pks \<and> carries (fst (feed_all lim defrags_new pks)) (hs_sent h p)" for p
    using inv assms(5) by (intro sys_lane_done) (auto simp: send_inv_def at_work_def)
  from lanes_decoded [OF this] show thesis using that [OF xs(1)] xs frame_sized_le [OF _ bounds(2)] by metis
qed

section \<open>A small run\<close>

text \<open>The bytes that a slice gives as a reader; an end of file is an error.\<close>

definition slice_source :: "u8 list source" where
  "slice_source n r = (if n \<le> length r then (Inr (take n r), drop n r) else (Inl ReadFailed, []))"

lemma slice_source_ok: "source_ok id slice_source"
  by (simp add: source_ok_def slice_source_def)

definition demo_frame :: "u8 list" where "demo_frame = [7, 0, 1, 1, 0, 3, 7, 8, 9]"

lemma demo_drained:
  "\<exists>b s. tx_drain [] demo_pushed = Some (Inr [b], s, []) \<and> wb_payload b = [1, 1, 0, 3, 7, 8, 9]"
proof -
  let ?s1 = "demo_pushed\<lparr>tx_locked := \<lambda>_. True\<rparr>"
  have free: "\<not> tx_locked demo_pushed p" for p
    using tx_run_inv [OF demo_pushed_run] unfolding sys_inv_def by (auto simp: BATCH_SIZE_MAX_def)
  have w: "(1 :: u32) AND SN_MASK = 1" by code_simp
  have "case mpsc_pull (tx_inout (flush_all ?s1)) of
      (Inr (Some b), rb) \<Rightarrow> (case wb_write_len b of
          Some b' \<Rightarrow> wb_payload b' = [1, ucast (ucast (1 AND SN_MASK :: u32) :: u64), 0, ucast (of_nat 3 :: u64), 7, 8, 9]
            \<and> fst (mpsc_pull rb) = Inr None
        | None \<Rightarrow> False)
    | _ \<Rightarrow> False" by code_simp
  then obtain b rb b' rb' where b: "mpsc_pull (tx_inout (flush_all ?s1)) = (Inr (Some b), rb)" "wb_write_len b = Some b'"
      "wb_payload b' = [1, 1, 0, 3, 7, 8, 9]" "mpsc_pull rb = (Inr None, rb')"
    by (auto simp: w split: prod.splits sum.splits option.splits ring_ub.splits) (metis prod.collapse)
  have "drain_loop [] (flush_all ?s1) = Some (Inr [b'], flush_all ?s1\<lparr>tx_inout := rb'\<rparr>)"
    using b by (subst drain_loop.simps) (simp add: drain_loop.simps [of "[b']"])
  then show ?thesis using lock_all_free [OF free] b(3) by (auto simp: tx_drain_def)
qed

lemma demo_stream_written:
  "\<exists>k s h. send_run vectored_sink demo_stream 1 32 64 True False Ended k s h \<and> sw_bytes k = demo_frame
     \<and> hs_sent h Medium = [((Medium, Block), [7, 8, 9])] \<and> \<not> hs_failed h"
proof -
  obtain b s where d: "tx_drain [] demo_pushed = Some (Inr [b], s, [])" "wb_payload b = [1, 1, 0, 3, 7, 8, 9]"
    using demo_drained by blast
  have leaving: "send_run vectored_sink demo_stream 1 32 64 True False Leaving demo_stream demo_pushed demo_history"
    using send_step [OF demo_send_run [of inner, unfolded turn_start_def], of inner TokenCancelled Leaving demo_stream demo_pushed for inner]
    by (simp add: stream_fails_def note_step_def)
  let ?h = "note_step Leaving (draining [b]) demo_history"
  have drain: "send_run vectored_sink demo_stream 1 32 64 True False (Draining [b]) demo_stream s ?h"
    using send_step [OF leaving, of inner "LocksTaken []" "draining [b]" demo_stream s for inner] d(1)
    by (simp add: stream_fails_def draining_def)
  have inv: "send_inv sw_bytes demo_stream 1 32 64 True False (Draining [b]) demo_stream s ?h"
    by (rule send_run_inv [OF drain _ _ vectored_sink_ok]) (simp_all add: BATCH_SIZE_MAX_def)
  then have sb: "sendable 32 b" by (simp add: send_inv_def)
  obtain n k s' where w: "write_batches vectored_sink (sov_single b) demo_stream s = (Inr n, k, s')"
    using write_batches_up [OF vectored_sink_ok vectored_sink_up demo_stream_up(1), of "sov_single b" 32 s] sb by auto
  have bytes: "sw_bytes k = demo_frame"
  proof -
    have "sw_bytes k = sw_bytes demo_stream @ frames [wb_payload b]"
      using write_batches_wrote [OF vectored_sink_ok, of "sov_single b" 32 demo_stream s] sb w by (simp add: wrote_batches_def)
    moreover have "frame_of [1, 1, 0, 3, 7, 8, 9] = demo_frame" by code_simp
    ultimately show ?thesis using demo_stream_up(2) d(2) by simp
  qed
  have "send_run vectored_sink demo_stream 1 32 64 True False Ended k s' ?h"
    using send_step [OF drain, of inner StreamReady Ended k s' for inner] w
    by (simp add: stream_fails_def note_step_def draining_def)
  moreover have "hs_sent ?h Medium = [((Medium, Block), [7, 8, 9])]" "\<not> hs_failed ?h"
    by (simp_all add: note_step_def draining_def demo_history_def note_push_def history_new_def qos_default qos_class_def)
  ultimately show ?thesis using bytes by blast
qed

definition demo_inner :: receiver_task_inner where
  "demo_inner = \<lparr>ri_timeout_read = 0, ri_timeout_drop = 0, ri_timeout_block = 0, ri_max_frag_size = 64\<rparr>"

definition demo_no_wait :: rx_push_config where
  "demo_no_wait = \<lparr>rc_frag_max_size = 64, rc_timeout_drop = 0, rc_timeout_block = 0\<rparr>"

lemma demo_inner_config: "inner_push_config demo_inner = demo_no_wait"
  by (simp add: inner_push_config_def demo_inner_def demo_no_wait_def duration_micros_def atomic_duration_load_def u64_to_duration_def)

definition demo_chunk :: bytes where "demo_chunk = read_chunk_of (length [1, 1, 0, 3, 7, 8, 9 :: u8]) [1, 1, 0, 3, 7, 8, 9]"
definition demo_received :: rx where "demo_received = the (push_step demo_chunk (demo_no_wait) demo_rx_new)"
definition demo_delivered :: rx where "demo_delivered = snd (rx_turn id demo_received)"

definition demo_log :: rx_history where
  "demo_log = note_got (QoS 1) [7, 8, 9] (note_in [1, 1, 0, 3, 7, 8, 9] (Inr True) rx_history_new)"

lemma demo_turn: "turn_frame slice_source demo_frame = (Some [1, 1, 0, 3, 7, 8, 9], [])"
  unfolding demo_frame_def by code_simp

lemma demo_received: "rx_push demo_chunk (demo_no_wait) [] demo_rx_new = Some (Inr True, demo_received, [])"
proof -
  have "push_step demo_chunk (demo_no_wait) demo_rx_new \<noteq> None" by code_simp
  then show ?thesis by (intro push_step_push) (auto simp: demo_received_def)
qed

lemma demo_delivered: "\<exists>t s1 s2. rx_turn id demo_received = (Inr (RxGot t (QoS 1)), demo_delivered) \<and> bytes_content t = [7, 8, 9]
    \<and> rx_turn id demo_delivered = (Inr RxAgain, s1) \<and> rx_turn id s1 = (Inr RxEmpty, s2)"
proof -
  have "case rx_turn id demo_received of (Inr (RxGot t q), s) \<Rightarrow> bytes_content t = [7, 8, 9] \<and> q = QoS 1
      \<and> (case rx_turn id s of (Inr RxAgain, s1) \<Rightarrow> fst (rx_turn id s1) = Inr RxEmpty | _ \<Rightarrow> False) | _ \<Rightarrow> False" by code_simp
  then show ?thesis
    by (auto simp: demo_delivered_def split: prod.splits sum.splits rx_turn_end.splits) (metis prod.collapse)
qed

lemma demo_recv_run:
  "recv_run slice_source demo_frame 2 64 True [] demo_delivered demo_log \<and> (\<exists>s. rx_try_pull [] demo_delivered = Some (Inr None, s))"
proof -
  let ?x = "[1, 1, 0, 3, 7, 8, 9] :: u8 list"
  have start: "recv_run slice_source demo_frame 2 64 True demo_frame demo_rx_new rx_history_new"
    by (rule recv_start [OF demo_rx_new])
  have turn: "read_turn slice_source demo_inner [] demo_frame demo_rx_new = Some (NextTurn, [], demo_received, [])"
    using demo_received by (simp add: read_turn_eq [OF slice_source_ok] demo_turn demo_chunk_def demo_inner_config)
  have "recv_run slice_source demo_frame 2 64 True [] demo_received (note_turn slice_source demo_inner demo_frame demo_rx_new rx_history_new)"
    using recv_turn [OF start _ turn] by (simp add: demo_inner_def)
  moreover have "note_turn slice_source demo_inner demo_frame demo_rx_new rx_history_new = note_in ?x (Inr True) rx_history_new"
    using demo_received read_chunk_of_laws(1) [of "[1, 1, 0, 3, 7, 8, 9]" "length [1, 1, 0, 3, 7, 8, 9 :: u8]"]
    by (simp add: note_turn_def demo_turn demo_chunk_def demo_inner_config)
  ultimately have run: "recv_run slice_source demo_frame 2 64 True [] demo_received (note_in ?x (Inr True) rx_history_new)" by simp
  obtain t s1 s2 where t: "rx_turn id demo_received = (Inr (RxGot t (QoS 1)), demo_delivered)" "bytes_content t = [7, 8, 9]"
      "rx_turn id demo_delivered = (Inr RxAgain, s1)" "rx_turn id s1 = (Inr RxEmpty, s2)"
    using demo_delivered by blast
  have "receiver_try_recv [] demo_received = Some (Inr (Some (t, QoS 1)), demo_delivered)"
    using t(1) by (simp add: receiver_try_recv_def rx_try_pull_got)
  from recv_pull [OF run this] have "recv_run slice_source demo_frame 2 64 True [] demo_delivered demo_log"
    using t(2) by (simp add: demo_log_def)
  moreover have "rx_try_pull [] demo_delivered = Some (Inr None, s2)"
    using t(3,4) rx_try_pull_again [of "[]" demo_delivered s1] rx_try_pull_empty [of "[]" s1 s2] by simp
  ultimately show ?thesis by blast
qed

section \<open>Properties\<close>



text \<open>C19: whatever bytes arrive, in every run of a receiver its task reads frames, two bytes of length
  in little-endian order and so many bytes, and it gives the pipeline the contents of each that
  is not empty, in order, as long as it is in its loop.\<close>

theorem receiver_reads_frames:
  assumes "recv_run src r0 cap lim True r s h" "source_ok inp src"
  shows "\<exists>xs. inp r0 = frames xs @ inp r \<and> (\<forall>x \<in> set xs. length x < 2 ^ 16) \<and> rh_in h = filter (\<lambda>x. x \<noteq> []) xs"
  using recv_run_stream [OF assms] by (simp add: frame_sized_def)

theorem receiver_reads_frames_witness:
  "\<exists>xs. demo_frame = frames xs \<and> filter (\<lambda>x. x \<noteq> []) xs = [[1, 1, 0, 3, 7, 8, 9]]"
  using receiver_reads_frames [OF conjunct1 [OF demo_recv_run] slice_source_ok]
  by (auto simp: demo_log_def note_got_def note_in_def rx_history_new_def)

text \<open>C18: no bytes that a peer sends can make the receiver's task panic: a turn, however often the
  application pulls while it waits, ends in the next turn or with the end of the loop, or it
  meets the fragment kind that does not exist.\<close>

theorem receiver_task_robust:
  assumes "recv_run src r0 cap lim on r s h" "source_ok inp src" "read_turn src inner env r s = Some (e, r', s', env')"
    and "\<forall>g \<in> set env. g = (\<lambda>s. case receiver_try_recv [] s of None \<Rightarrow> s | Some (r, s') \<Rightarrow> s')"
  shows "e \<in> {NextTurn, LeaveLoop, TurnFailed RxNoKind}"
proof -
  obtain k Q where ok: "rx_ok k s Q" using rx_run_sys [OF recv_run_rx [OF assms(1,2)]] unfolding rx_sys_def by blast
  have g: "rx_env_ok k g" if "g \<in> set env" for g
  proof -
    have "g = (\<lambda>s. case rx_try_pull [] s of None \<Rightarrow> s | Some (r, s') \<Rightarrow> s')"
      using assms(4) that unfolding receiver_try_recv_def by blast
    then show ?thesis using rx_pull_env_ok by simp
  qed
  obtain z r1 where z: "turn_frame src r = (z, r1)" by force
  show ?thesis
  proof (cases "\<exists>x. z = Some x \<and> x \<noteq> []")
    case False
    then show ?thesis using assms(3) z by (auto simp: read_turn_eq [OF assms(2)] split: option.splits)
  next
    case True
    then obtain x where x: "z = Some x" "x \<noteq> []" by blast
    obtain res where p: "rx_push (read_chunk_of (length x) x) (inner_push_config inner) env s = Some (res, s', env')"
        "e = (case res of Inr _ \<Rightarrow> NextTurn | Inl (RxFail e) \<Rightarrow> if goes_on e then NextTurn else LeaveLoop | Inl e \<Rightarrow> TurnFailed e)"
      using assms(3) z x by (auto simp: read_turn_eq [OF assms(2)])
    have "res = Inl RxNoKind \<or> (\<exists>e. res = Inl (RxFail e)) \<or> (\<exists>x. res = Inr x)"
      using rx_push_total [OF p(1) ok] read_chunk_of_laws [of x "length x"] x(2) g by auto
    then show ?thesis using p(2) by (auto split: if_splits)
  qed
qed

theorem receiver_task_robust_witness:
  "\<exists>e r s env. read_turn slice_source demo_inner [] [2, 0, 7, 255] demo_rx_new = Some (e, r, s, env)
    \<and> e \<in> {NextTurn, LeaveLoop, TurnFailed RxNoKind}"
proof -
  have run: "recv_run slice_source [2, 0, 7, 255] 2 64 True [2, 0, 7, 255] demo_rx_new rx_history_new"
    by (rule recv_start [OF demo_rx_new])
  have "turn_frame slice_source [2, 0, 7, 255] = (Some [7, 255], [])" by code_simp
  moreover have "fst (rx_accept (read_chunk_of (length [7, 255 :: u8]) [7, 255]) demo_no_wait demo_rx_new) = Inl (RxFail DecodingFailed)"
    by code_simp
  ultimately have "\<exists>e r s env. read_turn slice_source demo_inner [] [2, 0, 7, 255] demo_rx_new = Some (e, r, s, env)"
    by (cases "rx_accept (read_chunk_of (length [7, 255 :: u8]) [7, 255]) demo_no_wait demo_rx_new")
      (simp add: read_turn_eq [OF slice_source_ok] rx_push_def demo_inner_config)
  then show ?thesis using receiver_task_robust [OF run slice_source_ok] by auto
qed

end
