(* ===== verification/Event_Wait.thy ===== *)
theory Event_Wait
  imports Sync
begin

text \<open>
  \<open>src/sync/event.rs\<close>: the loop of \<open>Waiter::wait\<close> and the calls of the notifiers, interleaved at
  their accesses to the flag and to the listeners.  Both sides go through an atomic
  read-modify-write of the same flag, so that these accesses are ordered one after the other.

  The event library \<open>event_listener\<close> is a parameter: what a call does to its list of listeners.
  A listener is created (\<open>listen\<close>), woken by a notification (\<open>notified\<close>), and gone when its
  \<open>await\<close> is over or it is dropped.  The poll of a suspended wait in the pipelines is a check of
  the flag; that nobody sleeps through a set flag is what this theory shows.
\<close>

section \<open>The event library\<close>

record 'e event_lib =
  el_new :: 'e
  el_listen :: "'e \<Rightarrow> 'e"
  el_notify_additional :: "'e \<Rightarrow> 'e"
  el_notify :: "'e \<Rightarrow> 'e"
  el_notified :: "'e \<Rightarrow> bool"
  el_drop :: "'e \<Rightarrow> 'e"

text \<open>What its documentation promises, for the predicate \<open>on\<close> that there is a listener: a
  notification that is sent after a listener has been created wakes it.\<close>

definition event_lib_ok :: "('e \<Rightarrow> bool) \<Rightarrow> 'e event_lib \<Rightarrow> bool" where
  "event_lib_ok on lib \<longleftrightarrow> (\<forall>e. on (el_listen lib e)
     \<and> (on e \<longrightarrow> (\<forall>e' \<in> {el_notify lib e, el_notify_additional lib e}. on e' \<and> el_notified lib e')))"

section \<open>The waiter and the notifiers\<close>

text \<open>Where the waiter is in its loop, and the calls of \<open>notify\<close> and \<open>err\<close> that have changed the
  flag and have not notified the listeners yet.\<close>

datatype wait_at = WaitIdle | WaitCheck | WaitListen | WaitRecheck | WaitListener | WaitDone bool

record 'e event_sys =
  es_flag :: u8
  es_listeners :: 'e
  es_wait :: wait_at
  es_notifying :: nat
  es_closing :: nat

definition event_sys_new :: "'e event_lib \<Rightarrow> 'e event_sys" where
  "event_sys_new lib = \<lparr>es_flag = event_new, es_listeners = el_new lib, es_wait = WaitIdle, es_notifying = 0, es_closing = 0\<rparr>"

text \<open>A check, and where it leads when nothing is pending; a return drops the listener, if any.\<close>

definition wait_check :: "('e \<Rightarrow> 'e) \<Rightarrow> wait_at \<Rightarrow> 'e event_sys \<Rightarrow> 'e event_sys" where
  "wait_check leave next s = (case event_check (es_flag s) of
       (CheckOk, f) \<Rightarrow> s\<lparr>es_flag := f, es_wait := WaitDone True, es_listeners := leave (es_listeners s)\<rparr>
     | (CheckErr, f) \<Rightarrow> s\<lparr>es_flag := f, es_wait := WaitDone False, es_listeners := leave (es_listeners s)\<rparr>
     | (CheckUnset, f) \<Rightarrow> s\<lparr>es_flag := f, es_wait := next\<rparr>)"

text \<open>A step of \<open>wait\<close>; \<open>None\<close>: it is not running, or it is suspended at the listener.\<close>

definition wait_step :: "'e event_lib \<Rightarrow> 'e event_sys \<Rightarrow> 'e event_sys option" where
  "wait_step lib s = (case es_wait s of
       WaitIdle \<Rightarrow> None
     | WaitDone _ \<Rightarrow> None
     | WaitCheck \<Rightarrow> Some (wait_check id WaitListen s)
     | WaitListen \<Rightarrow> Some (s\<lparr>es_listeners := el_listen lib (es_listeners s), es_wait := WaitRecheck\<rparr>)
     | WaitRecheck \<Rightarrow> Some (wait_check (el_drop lib) WaitListener s)
     | WaitListener \<Rightarrow> if el_notified lib (es_listeners s)
         then Some (s\<lparr>es_listeners := el_drop lib (es_listeners s), es_wait := WaitCheck\<rparr>) else None)"

definition notify_set :: "'e event_sys \<Rightarrow> 'e event_sys" where
  "notify_set s = (case event_notify (es_flag s) of
       (True, f) \<Rightarrow> s\<lparr>es_flag := f, es_notifying := es_notifying s + 1\<rparr>
     | (False, f) \<Rightarrow> s\<lparr>es_flag := f\<rparr>)"

definition notify_wake :: "'e event_lib \<Rightarrow> 'e event_sys \<Rightarrow> 'e event_sys" where
  "notify_wake lib s = s\<lparr>es_listeners := el_notify_additional lib (es_listeners s), es_notifying := es_notifying s - 1\<rparr>"

definition err_set :: "'e event_sys \<Rightarrow> 'e event_sys" where
  "err_set s = s\<lparr>es_flag := event_err (es_flag s), es_closing := es_closing s + 1\<rparr>"

definition err_wake :: "'e event_lib \<Rightarrow> 'e event_sys \<Rightarrow> 'e event_sys" where
  "err_wake lib s = s\<lparr>es_listeners := el_notify lib (es_listeners s), es_closing := es_closing s - 1\<rparr>"

text \<open>Any interleaving; a wait may be called again, and a timer may drop it at the listener.\<close>

inductive event_run :: "'e event_lib \<Rightarrow> 'e event_sys \<Rightarrow> bool" for lib where
  event_start: "event_run lib (event_sys_new lib)"
| event_call: "event_run lib s \<Longrightarrow> es_wait s \<in> {WaitIdle, WaitDone b} \<Longrightarrow> event_run lib (s\<lparr>es_wait := WaitCheck\<rparr>)"
| event_step: "event_run lib s \<Longrightarrow> wait_step lib s = Some s' \<Longrightarrow> event_run lib s'"
| event_elapsed: "event_run lib s \<Longrightarrow> es_wait s = WaitListener \<Longrightarrow>
     event_run lib (s\<lparr>es_wait := WaitIdle, es_listeners := el_drop lib (es_listeners s)\<rparr>)"
| event_notify_set: "event_run lib s \<Longrightarrow> event_run lib (notify_set s)"
| event_notify_wake: "event_run lib s \<Longrightarrow> 0 < es_notifying s \<Longrightarrow> event_run lib (notify_wake lib s)"
| event_err_set: "event_run lib s \<Longrightarrow> event_run lib (err_set s)"
| event_err_wake: "event_run lib s \<Longrightarrow> 0 < es_closing s \<Longrightarrow> event_run lib (err_wake lib s)"

section \<open>The invariant\<close>

text \<open>From the creation of the listener on, a set flag means that it is woken or will be.\<close>

definition event_inv :: "('e \<Rightarrow> bool) \<Rightarrow> 'e event_lib \<Rightarrow> 'e event_sys \<Rightarrow> bool" where
  "event_inv on lib s \<longleftrightarrow> (\<exists>pending gone. es_flag s = event_word pending gone
     \<and> (es_wait s \<in> {WaitRecheck, WaitListener} \<longrightarrow> on (es_listeners s))
     \<and> (es_wait s = WaitListener \<longrightarrow> pending \<or> gone \<longrightarrow>
          el_notified lib (es_listeners s) \<or> 0 < es_notifying s \<or> 0 < es_closing s))"

lemma event_invI:
  assumes "es_flag s = event_word pending gone" "es_wait s \<in> {WaitRecheck, WaitListener} \<Longrightarrow> on (es_listeners s)"
    "es_wait s = WaitListener \<Longrightarrow> pending \<or> gone \<Longrightarrow> el_notified lib (es_listeners s) \<or> 0 < es_notifying s \<or> 0 < es_closing s"
  shows "event_inv on lib s"
  using assms unfolding event_inv_def by blast

lemma wait_check_inv:
  assumes "es_flag s = event_word pending gone" "next \<in> {WaitRecheck, WaitListener} \<Longrightarrow> on (es_listeners s)"
  shows "event_inv on lib (wait_check leave next s)"
  using assms by (intro event_invI [where pending = False and gone = gone]; cases gone; cases pending) (auto simp: wait_check_def event_word_laws)

lemma event_run_inv:
  assumes "event_run lib s" "event_lib_ok on lib"
  shows "event_inv on lib s"
  using assms(1)
proof induction
  case event_start
  then show ?case
    by (intro event_invI [where pending = False and gone = False])
      (auto simp: event_sys_new_def event_new_def EV_UNSET_def event_word_def)
next
  case (event_call s b)
  then show ?case by (auto simp: event_inv_def)
next
  case (event_step s s')
  then obtain pending gone where f: "es_flag s = event_word pending gone"
      "es_wait s \<in> {WaitRecheck, WaitListener} \<Longrightarrow> on (es_listeners s)"
    by (auto simp: event_inv_def)
  have on: "on (el_listen lib e)" for e using assms(2) by (simp add: event_lib_ok_def)
  show ?case
  proof (cases "es_wait s")
    case WaitCheck
    then show ?thesis using event_step.hyps(2) wait_check_inv [OF f(1), of WaitListen] by (auto simp: wait_step_def)
  next
    case WaitRecheck
    then show ?thesis using event_step.hyps(2) wait_check_inv [OF f(1), of WaitListener] f(2) by (auto simp: wait_step_def)
  next
    case WaitListen
    then show ?thesis using event_step.hyps(2) f(1) on by (auto simp: wait_step_def intro: event_invI)
  next
    case WaitListener
    then show ?thesis using event_step.hyps(2) f(1) by (auto simp: wait_step_def intro: event_invI split: if_splits)
  qed (use event_step.hyps(2) in \<open>simp_all add: wait_step_def\<close>)
next
  case (event_elapsed s)
  then show ?case by (auto simp: event_inv_def)
next
  case (event_notify_set s)
  then obtain pending gone where "es_flag s = event_word pending gone"
      "es_wait s \<in> {WaitRecheck, WaitListener} \<Longrightarrow> on (es_listeners s)"
      "es_wait s = WaitListener \<Longrightarrow> pending \<or> gone \<Longrightarrow> el_notified lib (es_listeners s) \<or> 0 < es_notifying s \<or> 0 < es_closing s"
    unfolding event_inv_def by blast
  then show ?case
    by (intro event_invI [where pending = True and gone = gone]; cases gone) (auto simp: notify_set_def event_word_laws)
next
  case (event_notify_wake s)
  then show ?case using assms(2) by (auto simp: event_inv_def event_lib_ok_def notify_wake_def)
next
  case (event_err_set s)
  then show ?case
    by (intro event_invI [where pending = False and gone = True]) (auto simp: event_inv_def err_set_def event_word_laws)
next
  case (event_err_wake s)
  then show ?case using assms(2) by (auto simp: event_inv_def event_lib_ok_def err_wake_def)
qed

section \<open>A library with one listener\<close>

text \<open>Whether there is a listener, and whether it has been woken.\<close>

definition one_listener :: "(bool \<times> bool) event_lib" where
  "one_listener = \<lparr>el_new = (False, False), el_listen = (\<lambda>_. (True, False)), el_notify_additional = (\<lambda>(l, n). (l, l)),
     el_notify = (\<lambda>(l, n). (l, l)), el_notified = snd, el_drop = (\<lambda>_. (False, False))\<rparr>"

lemma one_listener_ok: "event_lib_ok fst one_listener"
  by (auto simp: event_lib_ok_def one_listener_def)

definition demo_asleep :: "(bool \<times> bool) event_sys" where
  "demo_asleep = the (wait_step one_listener (the (wait_step one_listener (the (wait_step one_listener
     ((event_sys_new one_listener)\<lparr>es_wait := WaitCheck\<rparr>))))))"

lemma demo_asleep_run: "event_run one_listener demo_asleep" "es_wait demo_asleep = WaitListener"
proof -
  let ?s = "(event_sys_new one_listener)\<lparr>es_wait := WaitCheck\<rparr>"
  have "event_run one_listener ?s" by (rule event_call [OF event_start]) (simp add: event_sys_new_def)
  moreover have "wait_step one_listener s \<noteq> None \<Longrightarrow> event_run one_listener s \<Longrightarrow> event_run one_listener (the (wait_step one_listener s))" for s
    using event_step by auto
  moreover have "wait_step one_listener ?s \<noteq> None" "wait_step one_listener (the (wait_step one_listener ?s)) \<noteq> None"
    "wait_step one_listener (the (wait_step one_listener (the (wait_step one_listener ?s)))) \<noteq> None" by code_simp+
  ultimately show "event_run one_listener demo_asleep" unfolding demo_asleep_def by blast
  show "es_wait demo_asleep = WaitListener" by code_simp
qed

section \<open>Properties\<close>

text \<open>C30: no wake-up is lost: however the accesses of the waiter and of the notifiers interleave,
  when the waiter is suspended at its listener and no call is under way, a notification that is
  pending, or the end of a side, has woken it, and its next two steps return from \<open>wait\<close>, with
  what the check of the flag says.\<close>

theorem no_lost_wakeup:
  assumes "event_run lib s" "event_lib_ok on lib" "es_wait s = WaitListener" "es_notifying s = 0" "es_closing s = 0"
    and "fst (event_check (es_flag s)) \<noteq> CheckUnset"
  shows "\<exists>s1 s2. wait_step lib s = Some s1 \<and> wait_step lib s1 = Some s2
    \<and> es_wait s2 = WaitDone (fst (event_check (es_flag s)) = CheckOk)"
proof -
  obtain pending gone where f: "es_flag s = event_word pending gone"
      "pending \<or> gone \<Longrightarrow> el_notified lib (es_listeners s)"
    using event_run_inv [OF assms(1,2)] assms(3-5) by (auto simp: event_inv_def)
  then have "el_notified lib (es_listeners s)" using assms(6) by (cases gone; cases pending) (simp_all add: event_word_laws)
  then show ?thesis
    using assms(3,6) f(1) by (auto simp: wait_step_def wait_check_def event_word_laws split: if_splits)
qed

theorem no_lost_wakeup_witness:
  "\<exists>s1 s2. wait_step one_listener (notify_wake one_listener (notify_set demo_asleep)) = Some s1
    \<and> wait_step one_listener s1 = Some s2 \<and> es_wait s2 = WaitDone True"
proof -
  let ?s = "notify_wake one_listener (notify_set demo_asleep)"
  have run: "event_run one_listener ?s"
    by (rule event_notify_wake [OF event_notify_set [OF demo_asleep_run(1)]]) code_simp
  have "es_wait ?s = WaitListener" "es_notifying ?s = 0" "es_closing ?s = 0" "fst (event_check (es_flag ?s)) = CheckOk"
    by code_simp+
  then show ?thesis using no_lost_wakeup [OF run one_listener_ok] by simp
qed

end
