(* ===== verification/Drop_Hooks.thy ===== *)
theory Drop_Hooks
  imports Prelude
begin

text \<open>
  \<open>src/collections/on_drop.rs\<close> and \<open>boomerang.rs\<close>: a value with something that is done with it
  when it is dropped, a closure or the return over a channel.  A closure is a function on the
  state of the world; the channel, \<open>oneshot\<close> of tokio, is a parameter, the effect of \<open>send\<close> for
  a sender and a value.  A wrapper lives in an \<open>Arc\<close> when it backs chunks: the destructor runs
  when the last clone is dropped.  \<open>None\<close> is the panic of an \<open>unwrap\<close>.
\<close>

section \<open>\<open>OnDrop\<close>\<close>

record ('a, 'd) on_drop =
  od_inner :: "('a \<times> 'd) option"

definition on_drop_new :: "'a \<Rightarrow> 'd \<Rightarrow> ('a, 'd) on_drop" where
  "on_drop_new t d = \<lparr>od_inner = Some (t, d)\<rparr>"

definition on_drop_as_slice :: "('a \<Rightarrow> u8 list) \<Rightarrow> ('a, 'd) on_drop \<Rightarrow> u8 list option" where
  "on_drop_as_slice as_slice self = map_option (\<lambda>(t, _). as_slice t) (od_inner self)"

definition on_drop_drop :: "('a, 'a \<Rightarrow> 's \<Rightarrow> 's) on_drop \<Rightarrow> 's \<Rightarrow> (('a, 'a \<Rightarrow> 's \<Rightarrow> 's) on_drop \<times> 's) option" where
  "on_drop_drop self s = map_option (\<lambda>(t, d). (self\<lparr>od_inner := None\<rparr>, d t s)) (od_inner self)"

section \<open>\<open>Boomerang\<close>\<close>

record ('a, 'c) boomerang =
  bo_inner :: "('a \<times> 'c) option"

definition boomerang_new :: "('s \<Rightarrow> 'c \<times> 'r \<times> 's) \<Rightarrow> 'a \<Rightarrow> 's \<Rightarrow> ('a, 'c) boomerang \<times> 'r \<times> 's" where
  "boomerang_new channel t s = (case channel s of (sender, receiver, s') \<Rightarrow> (\<lparr>bo_inner = Some (t, sender)\<rparr>, receiver, s'))"

definition boomerang_as_slice :: "('a \<Rightarrow> u8 list) \<Rightarrow> ('a, 'c) boomerang \<Rightarrow> u8 list option" where
  "boomerang_as_slice as_slice self = map_option (\<lambda>(t, _). as_slice t) (bo_inner self)"

definition boomerang_drop :: "('c \<Rightarrow> 'a \<Rightarrow> 's \<Rightarrow> 's) \<Rightarrow> ('a, 'c) boomerang \<Rightarrow> 's \<Rightarrow> (('a, 'c) boomerang \<times> 's) option" where
  "boomerang_drop send self s = map_option (\<lambda>(t, sender). (self\<lparr>bo_inner := None\<rparr>, send sender t s)) (bo_inner self)"

section \<open>Shared wrappers\<close>

text \<open>The clones and the drops of an \<open>Arc\<close>: the number of its handles, the value behind it and the
  world; \<open>None\<close> also where a handle is used that does not exist.\<close>

datatype arc_call = ArcClone | ArcDrop

primrec arc_run :: "('w \<Rightarrow> 's \<Rightarrow> ('w \<times> 's) option) \<Rightarrow> arc_call list \<Rightarrow> nat \<times> 'w \<times> 's \<Rightarrow> (nat \<times> 'w \<times> 's) option" where
  "arc_run destroy [] z = Some z"
| "arc_run destroy (c # cs) z = (case z of (n, w, s) \<Rightarrow>
     if n = 0 then None
     else (case c of
         ArcClone \<Rightarrow> arc_run destroy cs (n + 1, w, s)
       | ArcDrop \<Rightarrow> if n = 1 then Option.bind (destroy w s) (\<lambda>(w', s'). arc_run destroy cs (0, w', s'))
           else arc_run destroy cs (n - 1, w, s)))"

text \<open>How many handles a sequence of calls leaves, if none of them uses one that is gone.\<close>

primrec arc_handles :: "arc_call list \<Rightarrow> nat \<Rightarrow> nat option" where
  "arc_handles [] n = Some n"
| "arc_handles (c # cs) n = (if n = 0 then None else arc_handles cs (case c of ArcClone \<Rightarrow> n + 1 | ArcDrop \<Rightarrow> n - 1))"

lemma arc_handles_zero: "arc_handles cs 0 = Some n \<Longrightarrow> cs = [] \<and> n = 0"
  by (cases cs) auto

lemma arc_run_handles:
  assumes "destroy w s = Some gone" "0 < n" "arc_handles cs n = Some m"
  shows "arc_run destroy cs (n, w, s) = Some (m, if m = 0 then gone else (w, s))"
  using assms(2,3)
proof (induction cs arbitrary: n)
  case (Cons c cs)
  show ?case
  proof (cases "c = ArcDrop \<and> n = 1")
    case True
    then have "cs = [] \<and> m = 0" using Cons.prems arc_handles_zero [of cs m] by simp
    then show ?thesis using True assms(1) by (cases gone) simp
  next
    case False
    then show ?thesis
      using Cons.IH [of "case c of ArcClone \<Rightarrow> n + 1 | ArcDrop \<Rightarrow> n - 1"] Cons.prems by (cases c) auto
  qed
qed (use assms in auto)

section \<open>Properties\<close>

text \<open>The closure of an \<open>OnDrop\<close> runs exactly once, with the value: as long as a handle is left it
  has not run and the bytes can be read; when the last handle is dropped it runs, and no drop
  panics.\<close>

theorem on_drop_runs_once:
  assumes "arc_handles cs 1 = Some m"
  shows "\<exists>w s'. arc_run on_drop_drop cs (1, on_drop_new t d, s) = Some (m, w, s')
    \<and> s' = (if m = 0 then d t s else s) \<and> on_drop_as_slice f w = (if m = 0 then None else Some (f t))"
  using arc_run_handles [of on_drop_drop "on_drop_new t d" s "(\<lparr>od_inner = None\<rparr>, d t s)" 1 cs m] assms
  by (simp add: on_drop_drop_def on_drop_new_def on_drop_as_slice_def)

theorem on_drop_runs_once_witness:
  "\<exists>w. arc_run on_drop_drop [ArcClone, ArcDrop, ArcDrop] (1, on_drop_new 5 (#), [3 :: nat]) = Some (0, w, [5, 3])"
  using on_drop_runs_once [of "[ArcClone, ArcDrop, ArcDrop]" 0 5 "(#)" "[3 :: nat]"] by auto

text \<open>A \<open>Boomerang\<close> sends its value back exactly once, when its last handle is dropped.\<close>

theorem boomerang_returns_once:
  assumes "channel s = (sender, receiver, s1)" "arc_handles cs 1 = Some m"
  shows "\<exists>b w s'. boomerang_new channel t s = (b, receiver, s1)
    \<and> arc_run (boomerang_drop send) cs (1, b, s1) = Some (m, w, s') \<and> s' = (if m = 0 then send sender t s1 else s1)"
  using arc_run_handles [of "boomerang_drop send" "\<lparr>bo_inner = Some (t, sender)\<rparr>" s1 "(\<lparr>bo_inner = None\<rparr>, send sender t s1)" 1 cs m] assms
  by (simp add: boomerang_drop_def boomerang_new_def)

text \<open>A channel that keeps what was sent, for an example.\<close>

theorem boomerang_returns_once_witness:
  "\<exists>b w. boomerang_new (\<lambda>s. ((), (), s)) [1, 2 :: u8] ([] :: u8 list list) = (b, (), [])
    \<and> arc_run (boomerang_drop (\<lambda>_ t s. s @ [t])) [ArcDrop] (1, b, []) = Some (0, w, [[1, 2]])"
  using boomerang_returns_once [of "\<lambda>s. ((), (), s)" "[]" "()" "()" "[]" "[ArcDrop]" 0 "[1, 2 :: u8]" "\<lambda>_ t s. s @ [t]"]
  by auto

end
